(* ===== verification/Prelude.thy ===== *)
theory Prelude
  imports Main "HOL-Library.Word"
begin

unbundle bit_operations_syntax

text \<open>
  Shared vocabulary of the development: bytes and machine words, the C return
  conventions (an \<open>errno\<close> value, a process that exits through \<open>err_sys\<close> or
  \<open>err_quit\<close>, a call that never returns because a descriptor blocks), and the
  generic lemmas on lists that several components use.
\<close>

section \<open>Types\<close>

type_synonym byte = "8 word"
type_synonym u16 = "16 word"
type_synonym u32 = "32 word"

text \<open>The \<open>errno\<close> values the modelled code tests or sets; every other one is \<open>EOther\<close>.\<close>

datatype errno = EINTR | EWOULDBLOCK | ECONNRESET | EINPROGRESS | ETIMEDOUT
  | EAFNOSUPPORT | ENOSPC | EINVAL | ENXIO | EPROTO | ECONNABORTED
  | EHOSTUNREACH | EMSGSIZE | ECONNREFUSED | EOther nat

text \<open>
  The ways a C function can end: it returns, it ends the process through one of the
  error functions of \<open>lib/error.c\<close> (the message is kept), or it waits forever on a
  descriptor that delivers nothing more.
\<close>

datatype 'a run = Ret 'a | Fatal string | Blocked

fun run_bind :: "'a run \<Rightarrow> ('a \<Rightarrow> 'b run) \<Rightarrow> 'b run" where
  "run_bind (Ret x) f = f x"
| "run_bind (Fatal m) f = Fatal m"
| "run_bind Blocked f = Blocked"

lemma run_bind_Ret_conv:
  "run_bind m f = Ret y \<longleftrightarrow> (\<exists>x. m = Ret x \<and> f x = Ret y)"
  "Ret y = run_bind m f \<longleftrightarrow> (\<exists>x. m = Ret x \<and> f x = Ret y)"
  by (cases m; auto)+

lemma run_bind_Fatal_conv: "run_bind m f = Fatal e \<longleftrightarrow> m = Fatal e \<or> (\<exists>x. m = Ret x \<and> f x = Fatal e)"
  by (cases m) auto

lemma run_bind_assoc: "run_bind (run_bind m f) g = run_bind m (\<lambda>x. run_bind (f x) g)"
  by (cases m) auto

named_theorems io_laws "conservation and progress facts of the system-call models"

section \<open>Lists\<close>

lemma take_append_drop_app: "n \<le> length xs \<Longrightarrow> take n xs @ (drop n xs @ ys) = xs @ ys"
  by (metis append.assoc append_take_drop_id)

lemma take_length_append [simp]: "take (length xs) (xs @ ys) = xs"
  by simp

section \<open>Bytes and words\<close>

lemma unat_byte_less: "unat (b :: byte) < 256"
proof -
  have "unat b < 2 ^ LENGTH(8)" by (rule unsigned_less)
  then show ?thesis by simp
qed

lemma unat_byte_le [simp]: "unat (b :: byte) \<le> 255"
  using unat_byte_less [of b] by simp

lemma of_nat_unat_byte [simp]: "(of_nat (unat (b :: byte)) :: byte) = b"
  by simp

lemma unat_of_nat_byte: "n < 256 \<Longrightarrow> unat (of_nat n :: byte) = n"
  by (simp add: unat_of_nat take_bit_nat_eq_self_iff)

lemma bit_byte_high: "8 \<le> n \<Longrightarrow> \<not> bit (w :: byte) n"
  by (auto dest: bit_imp_le_length)

lemma bit_byte_high_add [simp]:
  "\<not> bit (w :: byte) (8 + n)" "\<not> bit (w :: byte) (16 + n)" "\<not> bit (w :: byte) (24 + n)"
  by (simp_all add: bit_byte_high)

text \<open>\<open>v << 4 | d\<close> on a value that has room for the digit.\<close>

lemma nat_bit_less: "(d :: nat) < 2 ^ k \<Longrightarrow> bit d n \<Longrightarrow> n < k"
  by (metis bit_take_bit_iff take_bit_nat_eq_self_iff)

lemma push_bit_or_nat:
  assumes "(d :: nat) < 2 ^ k"
  shows "push_bit k v OR d = v * 2 ^ k + d"
proof -
  have "push_bit k v + d = push_bit k v OR d"
    by (rule disjunctive_add) (use assms in \<open>auto simp: bit_push_bit_iff dest: nat_bit_less\<close>)
  then show ?thesis by (simp add: push_bit_eq_mult)
qed

end
