(* ===== verification/Descriptor_IO.thy ===== *)
theory Descriptor_IO
  imports Prelude
begin

text \<open>
  Stream descriptors and the two loops every program of the repository uses to move
  bytes: \<open>readn\<close> (\<open>lib/readn.c\<close>) and \<open>writen\<close> (\<open>lib/writen.c\<close>), with their
  wrappers.  The kernel side of a descriptor is the list of events it will deliver,
  over which every theorem quantifies: any segmentation of the data, any placement of
  interrupted calls, errors and end-of-file.
\<close>

section \<open>The kernel side of a descriptor\<close>

text \<open>
  \<open>Seg bs\<close>: the next \<open>read\<close> finds the bytes \<open>bs\<close> (end-of-file when there are none);
  \<open>RdErr e\<close>: the next \<open>read\<close> returns \<open>-1\<close> with \<open>errno = e\<close>.  A descriptor with no
  event left blocks its reader.
\<close>

datatype rd_event = Seg "byte list" | RdErr errno

fun rd_bytes :: "rd_event list \<Rightarrow> byte list" where
  "rd_bytes [] = []"
| "rd_bytes (Seg bs # k) = bs @ rd_bytes k"
| "rd_bytes (RdErr e # k) = rd_bytes k"

text \<open>\<open>read(fd, ptr, n)\<close>: at most \<open>n\<close> bytes, the rest of the segment stays queued.\<close>

fun sys_read :: "nat \<Rightarrow> rd_event list \<Rightarrow> ((errno + byte list) \<times> rd_event list) run" where
  "sys_read n [] = Blocked"
| "sys_read n (RdErr e # k) = Ret (Inl e, k)"
| "sys_read n (Seg bs # k) =
     (if length bs \<le> n then Ret (Inr bs, k)
      else Ret (Inr (take n bs), Seg (drop n bs) # k))"

fun rd_size :: "rd_event list \<Rightarrow> nat" where
  "rd_size [] = 0"
| "rd_size (Seg bs # k) = Suc (length bs) + rd_size k"
| "rd_size (RdErr e # k) = Suc (rd_size k)"

lemma sys_read_bytes [io_laws]:
  "sys_read n k = Ret (Inr bs, k') \<Longrightarrow> rd_bytes k = bs @ rd_bytes k'"
  by (induction n k rule: sys_read.induct) (auto split: if_splits simp: take_append_drop_app)

lemma sys_read_err_bytes [io_laws]:
  "sys_read n k = Ret (Inl e, k') \<Longrightarrow> rd_bytes k' = rd_bytes k"
  by (induction n k rule: sys_read.induct) (auto split: if_splits)

lemma sys_read_bound [io_laws]: "sys_read n k = Ret (Inr bs, k') \<Longrightarrow> length bs \<le> n"
  by (induction n k rule: sys_read.induct) (auto split: if_splits)

lemma sys_read_size [io_laws]: "sys_read n k = Ret (x, k') \<Longrightarrow> 0 < n \<Longrightarrow> rd_size k' < rd_size k"
  by (induction n k rule: sys_read.induct) (auto split: if_splits)

section \<open>readn\<close>

text \<open>
  The loop of \<open>readn\<close>.  \<open>n\<close> is the caller's count, \<open>nleft\<close> what is still missing,
  \<open>buf\<close> what has been stored at \<open>vptr\<close> so far.  The result is the return value, the
  bytes stored and the descriptor afterwards.
\<close>

function readn_loop ::
  "nat \<Rightarrow> nat \<Rightarrow> byte list \<Rightarrow> rd_event list \<Rightarrow> (int \<times> byte list \<times> rd_event list) run" where
  "readn_loop n nleft buf k =
     (if 0 < nleft then
        (case sys_read nleft k of
           Blocked \<Rightarrow> Blocked
         | Fatal m \<Rightarrow> Fatal m
         | Ret (Inl e, k') \<Rightarrow>
             if e = EINTR then readn_loop n nleft buf k' else Ret (-1, buf, k')
         | Ret (Inr bs, k') \<Rightarrow>
             if bs = [] then Ret (int n - int nleft, buf, k')
             else readn_loop n (nleft - length bs) (buf @ bs) k')
      else Ret (int n - int nleft, buf, k))"
  by pat_completeness auto
termination
  by (relation "measure (\<lambda>(n, nleft, buf, k). rd_size k)") (auto intro: io_laws)

declare readn_loop.simps [simp del]

definition readn :: "nat \<Rightarrow> rd_event list \<Rightarrow> (int \<times> byte list \<times> rd_event list) run" where
  "readn n k = readn_loop n n [] k"

definition Readn :: "nat \<Rightarrow> rd_event list \<Rightarrow> (int \<times> byte list \<times> rd_event list) run" where
  "Readn n k = run_bind (readn n k)
     (\<lambda>(r, buf, k'). if r < 0 then Fatal ''readn error'' else Ret (r, buf, k'))"

text \<open>How a run of \<open>readn\<close> can end, in terms of the events it consumed.\<close>

datatype rd_end = Full | AtEof | OnError errno

fun consumed_to :: "rd_end \<Rightarrow> rd_event list \<Rightarrow> rd_event list \<Rightarrow> bool" where
  "consumed_to Full k k' = True"
| "consumed_to AtEof k k' = (\<exists>pre. k = pre @ Seg [] # k')"
| "consumed_to (OnError e) k k' = (e \<noteq> EINTR \<and> (\<exists>pre. k = pre @ RdErr e # k'))"

lemma sys_read_suffix:
  "sys_read n k = Ret (x, k') \<Longrightarrow> 0 < n \<Longrightarrow>
     (\<exists>pre. k = pre @ k') \<or> (\<exists>bs r. k = Seg bs # r \<and> k' = Seg (drop n bs) # r \<and> n < length bs)"
  by (induction n k rule: sys_read.induct) (auto split: if_splits)

lemma sys_read_consumed:
  assumes "sys_read n k = Ret (x, k')" and "0 < n" and "consumed_to w k' k''"
  shows "consumed_to w k k''"
proof (cases w)
  case Full
  then show ?thesis by simp
next
  case AtEof
  with assms(3) obtain pre where pre: "k' = pre @ Seg [] # k''" by auto
  from sys_read_suffix [OF assms(1,2)] show ?thesis
  proof
    assume "\<exists>p. k = p @ k'"
    then show ?thesis using pre AtEof by (metis append.assoc consumed_to.simps(2))
  next
    assume "\<exists>bs r. k = Seg bs # r \<and> k' = Seg (drop n bs) # r \<and> n < length bs"
    then obtain bs r where "k = Seg bs # r" "k' = Seg (drop n bs) # r" "n < length bs" by blast
    then show ?thesis using pre AtEof by (cases pre) (auto intro: exI [of _ "Seg bs # tl pre"])
  qed
next
  case (OnError e)
  with assms(3) obtain pre where pre: "e \<noteq> EINTR" "k' = pre @ RdErr e # k''" by auto
  from sys_read_suffix [OF assms(1,2)] show ?thesis
  proof
    assume "\<exists>p. k = p @ k'"
    then show ?thesis using pre OnError by (metis append.assoc consumed_to.simps(3))
  next
    assume "\<exists>bs r. k = Seg bs # r \<and> k' = Seg (drop n bs) # r \<and> n < length bs"
    then obtain bs r where "k = Seg bs # r" "k' = Seg (drop n bs) # r" "n < length bs" by blast
    then show ?thesis using pre OnError by (cases pre) (auto intro: exI [of _ "Seg bs # tl pre"])
  qed
qed

lemma sys_read_eof: "sys_read n k = Ret (Inr [], k') \<Longrightarrow> 0 < n \<Longrightarrow> k = Seg [] # k'"
  by (induction n k rule: sys_read.induct) (auto split: if_splits)

lemma sys_read_err: "sys_read n k = Ret (Inl e, k') \<Longrightarrow> k = RdErr e # k'"
  by (induction n k rule: sys_read.induct) (auto split: if_splits)

text \<open>
  What a run of \<open>readn\<close> that wanted \<open>nleft\<close> more bytes did: it moved \<open>got\<close> off the
  stream, and stopped for the reason \<open>w\<close>; \<open>rd_ret\<close> is the value it returns.
\<close>

definition moved :: "nat \<Rightarrow> rd_end \<Rightarrow> byte list \<Rightarrow> rd_event list \<Rightarrow> rd_event list \<Rightarrow> bool" where
  "moved nleft w got k k' \<longleftrightarrow> rd_bytes k = got @ rd_bytes k' \<and> consumed_to w k k' \<and>
     (if w = Full then length got = nleft else length got < nleft)"

fun rd_ret :: "nat \<Rightarrow> nat \<Rightarrow> rd_end \<Rightarrow> byte list \<Rightarrow> int" where
  "rd_ret n nleft Full got = int n"
| "rd_ret n nleft AtEof got = int n - int nleft + int (length got)"
| "rd_ret n nleft (OnError e) got = -1"

lemma moved_data:
  assumes "sys_read nleft k = Ret (Inr bs, k1)" and "0 < nleft"
    and "moved (nleft - length bs) w got k1 k'"
  shows "moved nleft w (bs @ got) k k'"
  using assms sys_read_consumed [OF assms(1,2)] sys_read_bytes [OF assms(1)]
    sys_read_bound [OF assms(1)]
  by (auto simp: moved_def split: if_splits)

lemma rd_ret_data:
  "length bs \<le> nleft \<Longrightarrow> rd_ret n (nleft - length bs) w got = rd_ret n nleft w (bs @ got)"
  by (cases w) auto

lemma moved_intr:
  assumes "sys_read nleft k = Ret (Inl e, k1)" and "0 < nleft" and "moved nleft w got k1 k'"
  shows "moved nleft w got k k'"
  using assms sys_read_consumed [OF assms(1,2)] sys_read_err_bytes [OF assms(1)]
  by (auto simp: moved_def)

lemma moved_eof:
  assumes "sys_read nleft k = Ret (Inr [], k1)" and "0 < nleft"
  shows "moved nleft AtEof [] k k1"
  using assms sys_read_eof [OF assms] by (auto simp: moved_def)

lemma moved_err:
  assumes "sys_read nleft k = Ret (Inl e, k1)" and "0 < nleft" and "e \<noteq> EINTR"
  shows "moved nleft (OnError e) [] k k1"
  using assms sys_read_err [OF assms(1)] by (auto simp: moved_def)

text \<open>Every way the loop can return, with the bytes it moved.\<close>

lemma readn_loop_Ret:
  assumes "readn_loop n nleft buf k = Ret (r, buf', k')"
  shows "\<exists>got w. buf' = buf @ got \<and> moved nleft w got k k' \<and> r = rd_ret n nleft w got"
  using assms
proof (induction n nleft buf k rule: readn_loop.induct)
  case (1 n nleft buf k)
  note unf = readn_loop.simps [of n nleft buf k]
  show ?case
  proof (cases "0 < nleft")
    case False
    with "1.prems" show ?thesis
      by (auto simp: unf moved_def intro!: exI [of _ Full])
  next
    case pos: True
    with "1.prems" obtain y k1 where sr: "sys_read nleft k = Ret (y, k1)"
      by (auto simp: unf split: run.splits)
    consider "y = Inl EINTR" | e where "y = Inl e" "e \<noteq> EINTR" | "y = Inr []"
      | bs where "y = Inr bs" "bs \<noteq> []" by (cases y) auto
    then show ?thesis
    proof cases
      case 1
      with "1.prems" "1.IH"(1) [OF pos sr refl 1 refl] pos sr moved_intr [of nleft k _ k1]
      show ?thesis by (fastforce simp: unf)
    next
      case 2
      with "1.prems" pos sr moved_err [of nleft k e k1] show ?thesis
        by (intro exI [of _ "[]"] exI [of _ "OnError e"]) (simp add: unf)
    next
      case 3
      with "1.prems" pos sr moved_eof [of nleft k k1] show ?thesis
        by (intro exI [of _ "[]"] exI [of _ AtEof]) (simp add: unf)
    next
      case 4
      with "1.prems" "1.IH"(2) [OF pos sr refl 4] pos sr obtain got w where
        "buf' = buf @ bs @ got" "moved (nleft - length bs) w got k1 k'"
        "r = rd_ret n (nleft - length bs) w got" by (fastforce simp: unf)
      then show ?thesis
        using moved_data [of nleft k bs k1 w got k'] rd_ret_data [of bs nleft n w got]
          sys_read_bound [of nleft k bs k1] sr pos 4 by blast
    qed
  qed
qed

text \<open>Progress: with enough data queued and no hard error, \<open>readn\<close> returns the data.\<close>

fun calm_rd :: "rd_event list \<Rightarrow> bool" where
  "calm_rd [] = True"
| "calm_rd (Seg bs # k) = (bs \<noteq> [] \<and> calm_rd k)"
| "calm_rd (RdErr e # k) = (e = EINTR \<and> calm_rd k)"

lemma sys_read_calm: "sys_read n k = Ret (x, k') \<Longrightarrow> calm_rd k \<Longrightarrow> calm_rd k'"
  by (induction n k rule: sys_read.induct) (auto split: if_splits)

lemma sys_read_not_Fatal [simp]: "sys_read n k \<noteq> Fatal m"
  by (induction n k rule: sys_read.induct) auto

lemma sys_read_Blocked: "sys_read n k = Blocked \<longleftrightarrow> k = []"
  by (induction n k rule: sys_read.induct) auto

lemma readn_loop_progress:
  assumes "calm_rd k" and "nleft \<le> length (rd_bytes k)" and "nleft \<le> n"
  shows "\<exists>k'. readn_loop n nleft buf k = Ret (int n, buf @ take nleft (rd_bytes k), k') \<and>
           rd_bytes k' = drop nleft (rd_bytes k) \<and> calm_rd k'"
  using assms
proof (induction n nleft buf k rule: readn_loop.induct)
  case (1 n nleft buf k)
  show ?case
  proof (cases "0 < nleft")
    case False
    with 1(3) show ?thesis by (auto simp: readn_loop.simps [of n 0 buf k])
  next
    case pos: True
    with 1(4) have "k \<noteq> []" by auto
    then obtain y k1 where sr: "sys_read nleft k = Ret (y, k1)"
      by (cases "sys_read nleft k") (auto simp: sys_read_Blocked)
    have calm1: "calm_rd k1" using sys_read_calm [OF sr 1(3)] .
    show ?thesis
    proof (cases y)
      case (Inl e)
      with sys_read_err [of nleft k e k1] sr 1(3) have e: "e = EINTR" by auto
      have "rd_bytes k1 = rd_bytes k" using sys_read_err_bytes sr Inl by blast
      then show ?thesis using 1(1) [OF pos sr refl Inl e] calm1 1(4,5) sr Inl e pos
        by (auto simp: readn_loop.simps [of n nleft buf k])
    next
      case (Inr bs)
      have ne: "bs \<noteq> []" using sys_read_eof [of nleft k k1] sr Inr pos 1(3) by auto
      have b: "length bs \<le> nleft" and c: "rd_bytes k = bs @ rd_bytes k1"
        using sys_read_bound sys_read_bytes sr Inr by blast+
      have d: "nleft - length bs \<le> length (rd_bytes k1)" "nleft - length bs \<le> n"
        using b c 1(4,5) by auto
      from 1(2) [OF pos sr refl Inr ne calm1 d] obtain k' where
        "readn_loop n (nleft - length bs) (buf @ bs) k1 =
           Ret (int n, (buf @ bs) @ take (nleft - length bs) (rd_bytes k1), k')"
        "rd_bytes k' = drop (nleft - length bs) (rd_bytes k1)" "calm_rd k'"
        by blast
      then show ?thesis using sr Inr ne pos b c
        by (auto simp: readn_loop.simps [of n nleft buf k])
    qed
  qed
qed

section \<open>writen\<close>

text \<open>
  The kernel side of a descriptor that is written: \<open>Room m\<close> accepts at most \<open>m\<close>
  bytes of the next \<open>write\<close>, \<open>WrErr e\<close> fails it.  The bytes accepted are the bytes
  that leave the process, in order.
\<close>

datatype wr_event = Room nat | WrErr errno

fun sys_write :: "byte list \<Rightarrow> wr_event list \<Rightarrow> ((errno + nat) \<times> wr_event list) run" where
  "sys_write bs [] = Blocked"
| "sys_write bs (WrErr e # k) = Ret (Inl e, k)"
| "sys_write bs (Room m # k) = Ret (Inr (min m (length bs)), k)"

lemma sys_write_length [io_laws]: "sys_write bs k = Ret (x, k') \<Longrightarrow> length k = Suc (length k')"
  by (induction bs k rule: sys_write.induct) auto

text \<open>
  The loop of \<open>writen\<close>: \<open>n\<close> is the caller's count, \<open>left\<close> the bytes from \<open>ptr\<close> on,
  \<open>out\<close> what the kernel has accepted.  A \<open>write\<close> that returns 0 is an error.
\<close>

function writen_loop ::
  "nat \<Rightarrow> byte list \<Rightarrow> byte list \<Rightarrow> wr_event list \<Rightarrow> (int \<times> byte list \<times> wr_event list) run" where
  "writen_loop n left out k =
     (if 0 < length left then
        (case sys_write left k of
           Blocked \<Rightarrow> Blocked
         | Fatal m \<Rightarrow> Fatal m
         | Ret (Inl e, k') \<Rightarrow>
             if e = EINTR then writen_loop n left out k' else Ret (-1, out, k')
         | Ret (Inr w, k') \<Rightarrow>
             if w = 0 then Ret (-1, out, k')
             else writen_loop n (drop w left) (out @ take w left) k')
      else Ret (int n, out, k))"
  by pat_completeness auto
termination
  by (relation "measure (\<lambda>(n, left, out, k). length k)") (auto dest: sys_write_length)

declare writen_loop.simps [simp del]

definition writen :: "byte list \<Rightarrow> wr_event list \<Rightarrow> (int \<times> byte list \<times> wr_event list) run" where
  "writen bs k = writen_loop (length bs) bs [] k"

definition Writen :: "byte list \<Rightarrow> wr_event list \<Rightarrow> (byte list \<times> wr_event list) run" where
  "Writen bs k = run_bind (writen bs k)
     (\<lambda>(r, out, k'). if r \<noteq> int (length bs) then Fatal ''writen error'' else Ret (out, k'))"

lemma sys_write_bound: "sys_write bs k = Ret (Inr w, k') \<Longrightarrow> w \<le> length bs"
  by (induction bs k rule: sys_write.induct) auto

lemma sys_write_not_Fatal [simp]: "sys_write bs k \<noteq> Fatal m"
  by (induction bs k rule: sys_write.induct) auto

lemma sys_write_Blocked: "sys_write bs k = Blocked \<longleftrightarrow> k = []"
  by (induction bs k rule: sys_write.induct) auto

text \<open>Whatever the kernel does, the bytes that left are a prefix, and all of them on success.\<close>

lemma writen_loop_Ret:
  assumes "writen_loop n left out k = Ret (r, out', k')"
  shows "\<exists>m. out' = out @ take m left \<and> m \<le> length left \<and>
           (r = int n \<and> m = length left \<or> r = -1 \<and> m < length left)"
  using assms
proof (induction n left out k rule: writen_loop.induct)
  case (1 n left out k)
  note unf = writen_loop.simps [of n left out k]
  show ?case
  proof (cases "0 < length left")
    case False
    with "1.prems" show ?thesis by (auto simp: unf)
  next
    case pos: True
    with "1.prems" obtain y k1 where sr: "sys_write left k = Ret (y, k1)"
      by (auto simp: unf split: run.splits)
    consider "y = Inl EINTR" | e where "y = Inl e" "e \<noteq> EINTR" | "y = Inr 0"
      | w where "y = Inr w" "w \<noteq> 0" by (cases y) auto
    then show ?thesis
    proof cases
      case 1
      with "1.prems" "1.IH"(1) [OF pos sr refl 1 refl] pos sr show ?thesis by (simp add: unf)
    next
      case 2
      with "1.prems" pos sr show ?thesis by (intro exI [of _ 0]) (simp add: unf)
    next
      case 3
      with "1.prems" pos sr show ?thesis by (intro exI [of _ 0]) (simp add: unf)
    next
      case 4
      then have b: "w \<le> length left" using sr sys_write_bound by blast
      from 4 "1.prems" "1.IH"(2) [OF pos sr refl 4] pos sr obtain m where
        "out' = (out @ take w left) @ take m (drop w left)" "m \<le> length left - w"
        "r = int n \<and> m = length left - w \<or> r = -1 \<and> m < length left - w"
        by (auto simp: unf)
      then show ?thesis using b by (intro exI [of _ "w + m"]) (auto simp: take_add)
    qed
  qed
qed

text \<open>Progress: a kernel that keeps accepting bytes gets all of them.\<close>

fun wr_room :: "wr_event list \<Rightarrow> nat" where
  "wr_room [] = 0"
| "wr_room (Room m # k) = m + wr_room k"
| "wr_room (WrErr e # k) = wr_room k"

fun calm_wr :: "wr_event list \<Rightarrow> bool" where
  "calm_wr [] = True"
| "calm_wr (Room m # k) = (0 < m \<and> calm_wr k)"
| "calm_wr (WrErr e # k) = (e = EINTR \<and> calm_wr k)"

lemma writen_loop_Nil [simp]: "writen_loop n [] out k = Ret (int n, out, k)"
  by (simp add: writen_loop.simps [of n "[]" out k])

lemma writen_loop_Room:
  "left \<noteq> [] \<Longrightarrow> 0 < m \<Longrightarrow>
     writen_loop n left out (Room m # k) = writen_loop n (drop m left) (out @ take m left) k"
  by (cases "m \<le> length left") (auto simp: writen_loop.simps [of n left out "Room m # k"] min_def)

lemma writen_loop_EINTR:
  "left \<noteq> [] \<Longrightarrow> writen_loop n left out (WrErr EINTR # k) = writen_loop n left out k"
  by (simp add: writen_loop.simps [of n left out "WrErr EINTR # k"])

lemma writen_loop_progress:
  assumes "calm_wr k" and "length left \<le> wr_room k"
  shows "\<exists>k'. writen_loop n left out k = Ret (int n, out @ left, k')"
  using assms
proof (induction k arbitrary: left out)
  case (Cons ev k)
  show ?case
  proof (cases "left = []")
    case False
    show ?thesis
    proof (cases ev)
      case (Room m)
      with Cons.prems have "calm_wr k" "length (drop m left) \<le> wr_room k" by auto
      with Cons.IH [of "drop m left" "out @ take m left"] show ?thesis
        using Room False Cons.prems by (simp add: writen_loop_Room)
    next
      case (WrErr e)
      with Cons.prems Cons.IH [of left out] False show ?thesis by (simp add: writen_loop_EINTR)
    qed
  qed simp
qed simp

section \<open>Properties\<close>

text \<open>
  The copies in \<open>my-src/Chapter-03\<close>: the same two loops, \<open>writen\<close> returning
  \<open>n-nleft\<close>, where \<open>nleft\<close> is 0 once the loop has ended.
\<close>

definition read_n :: "nat \<Rightarrow> rd_event list \<Rightarrow> (int \<times> byte list \<times> rd_event list) run" where
  "read_n n k = readn_loop n n [] k"

definition my_writen :: "byte list \<Rightarrow> wr_event list \<Rightarrow> (int \<times> byte list \<times> wr_event list) run" where
  "my_writen bs k = writen_loop (length bs) bs [] k"

text \<open>
  C7: \<open>readn\<close> moves a prefix of the stream into the caller's buffer and nothing else,
  and its return value tells which of three things happened: the count was filled; an
  end-of-file came first, and the value is the number of bytes stored; a \<open>read\<close> failed
  with something other than \<open>EINTR\<close>, and the value is -1.
\<close>

theorem readn_outcome:
  assumes "readn n k = Ret (r, buf, k')"
  shows "rd_bytes k = buf @ rd_bytes k' \<and>
     (r = int n \<and> length buf = n
      \<or> r = int (length buf) \<and> length buf < n \<and> (\<exists>pre. k = pre @ Seg [] # k')
      \<or> r = -1 \<and> length buf < n \<and> (\<exists>pre e. e \<noteq> EINTR \<and> k = pre @ RdErr e # k'))"
proof -
  from readn_loop_Ret [OF assms [unfolded readn_def]] obtain w where
    "moved n w buf k k'" "r = rd_ret n n w buf" by auto
  then show ?thesis by (cases w) (auto simp: moved_def)
qed

theorem readn_outcome_witness:
  "rd_bytes [Seg [1, 2], RdErr EINTR, Seg [3], Seg []] = [1, 2, 3] @ rd_bytes [] \<and>
   readn 5 [Seg [1, 2], RdErr EINTR, Seg [3], Seg []] = Ret (3, [1, 2, 3], [])"
proof -
  have h: "readn 5 [Seg [1, 2], RdErr EINTR, Seg [3], Seg []] = Ret (3, [1, 2, 3], [])"
    by (simp add: readn_def readn_loop.simps)
  show ?thesis using readn_outcome [OF h] h by simp
qed

text \<open>
  End-to-end transfer: when \<open>writen\<close> is given a buffer the kernel has room for
  (in pieces of any size, with interrupted calls in between) it returns the full count,
  and \<open>readn\<close> on a stream that carries the bytes that left, cut into segments in any
  way and with interrupted calls in between, returns exactly the buffer.
\<close>

lemma writen_readn_transfer:
  assumes "calm_wr kw" and "length bs \<le> wr_room kw"
  shows "\<exists>out kw'. writen bs kw = Ret (int (length bs), out, kw') \<and>
    (\<forall>kr more. calm_rd kr \<and> rd_bytes kr = out @ more \<longrightarrow>
       (\<exists>kr'. readn (length bs) kr = Ret (int (length bs), bs, kr') \<and> rd_bytes kr' = more))"
proof -
  obtain kw' where w: "writen bs kw = Ret (int (length bs), bs, kw')"
    using writen_loop_progress [OF assms, of "length bs" "[]"] by (auto simp: writen_def)
  have "\<exists>kr'. readn (length bs) kr = Ret (int (length bs), bs, kr') \<and> rd_bytes kr' = more"
    if "calm_rd kr" "rd_bytes kr = bs @ more" for kr more
    using readn_loop_progress [OF that(1), of "length bs" "length bs" "[]"] that(2)
    by (auto simp: readn_def)
  with w show ?thesis by blast
qed

lemma writen_readn_transfer_witness:
  "\<exists>out kw'. writen [1, 2, 3] [Room 2, WrErr EINTR, Room 9] = Ret (3, out, kw') \<and>
    (\<forall>kr more. calm_rd kr \<and> rd_bytes kr = out @ more \<longrightarrow>
       (\<exists>kr'. readn 3 kr = Ret (3, [1, 2, 3], kr') \<and> rd_bytes kr' = more))"
  using writen_readn_transfer [of "[Room 2, WrErr EINTR, Room 9]" "[1, 2, 3]"]
  by (simp add: numeral_3_eq_3)

end
