(* ===== verification/Line_Reader.thy ===== *)
theory Line_Reader
  imports Descriptor_IO
begin

text \<open>
  The line readers: \<open>lib/readline.c\<close> (static buffer), \<open>server/readline_r.c\<close>
  (caller-held buffer), \<open>threads/readline.c\<close> (one buffer per thread) and
  \<open>server/readline.c\<close> (one \<open>read\<close> per byte).  All of them take bytes one at a time
  from a source; the locale \<open>byte_source\<close> is that interface, and the four sources of
  the code are its interpretations.
\<close>

section \<open>Byte sources\<close>

definition MAXLINE :: nat where
  "MAXLINE = 4096"

lemma MAXLINE_pos [simp]: "0 < MAXLINE"
  by (simp add: MAXLINE_def)

definition NL :: byte where
  "NL = 10"

datatype getc = GByte byte | GEof | GErr errno

text \<open>\<open>again: read(...); if (errno == EINTR) goto again;\<close>\<close>

function read_retry :: "nat \<Rightarrow> rd_event list \<Rightarrow> ((errno + byte list) \<times> rd_event list) run" where
  "read_retry n k =
     (case sys_read n k of
        Ret (Inl e, k') \<Rightarrow> if e = EINTR then read_retry n k' else Ret (Inl e, k')
      | x \<Rightarrow> x)"
  by pat_completeness auto
termination
  by (relation "measure (\<lambda>(n, k). length k)") (auto dest: sys_read_err)

declare read_retry.simps [simp del]

lemma read_retry_simps:
  "read_retry n [] = Blocked"
  "read_retry n (RdErr e # k) = (if e = EINTR then read_retry n k else Ret (Inl e, k))"
  "read_retry n (Seg bs # k) = sys_read n (Seg bs # k)"
  by (simp_all add: read_retry.simps [of n] split: run.splits)

lemma read_retry_bytes:
  "read_retry n k = Ret (Inr bs, k') \<Longrightarrow> rd_bytes k = bs @ rd_bytes k' \<and> length bs \<le> n"
  by (induction k rule: rd_size.induct)
    (auto simp: read_retry_simps take_append_drop_app split: if_splits)

lemma read_retry_err_bytes: "read_retry n k = Ret (Inl e, k') \<Longrightarrow> rd_bytes k' = rd_bytes k"
  by (induction k rule: rd_size.induct) (auto simp: read_retry_simps split: if_splits)

lemma read_retry_not_Fatal [simp]: "read_retry n k \<noteq> Fatal m"
  by (induction k rule: rd_size.induct) (auto simp: read_retry_simps split: if_splits)

lemma read_retry_calm:
  "calm_rd k \<Longrightarrow> rd_bytes k \<noteq> [] \<Longrightarrow> 0 < n \<Longrightarrow>
     \<exists>b bs k'. read_retry n k = Ret (Inr (b # bs), k') \<and> calm_rd k'"
proof (induction k rule: rd_size.induct)
  case (2 bs k)
  then obtain b bs' where bs: "bs = b # bs'" by (cases bs) auto
  obtain n' where n: "n = Suc n'" using 2(4) by (cases n) auto
  show ?case using 2(2) by (auto simp: read_retry_simps bs n)
qed (auto simp: read_retry_simps)

section \<open>The buffered sources\<close>

text \<open>
  The static variables \<open>read_cnt\<close>, \<open>read_ptr\<close>, \<open>read_buf\<close> of \<open>lib/readline.c\<close>, which
  are also the last three fields of every \<open>Rline\<close>; \<open>read_ptr\<close> is kept as an index.
\<close>

record rl_state =
  read_cnt :: int
  read_ptr :: nat
  read_buf :: "byte list"

definition rl_init :: rl_state where
  "rl_init = \<lparr>read_cnt = 0, read_ptr = 0, read_buf = replicate MAXLINE 0\<rparr>"

text \<open>The last two statements of \<open>my_read\<close>: hand out one buffered byte.\<close>

definition rl_take :: "('a rl_state_scheme \<times> rd_event list) \<Rightarrow> (getc \<times> 'a rl_state_scheme \<times> rd_event list) run" where
  "rl_take = (\<lambda>(s, k).
     Ret (GByte (read_buf s ! read_ptr s),
          s\<lparr>read_cnt := read_cnt s - 1, read_ptr := Suc (read_ptr s)\<rparr>, k))"

definition my_read :: "('a rl_state_scheme \<times> rd_event list) \<Rightarrow> (getc \<times> 'a rl_state_scheme \<times> rd_event list) run" where
  "my_read = (\<lambda>(s, k).
     if read_cnt s \<le> 0 then
       (case read_retry MAXLINE k of
          Blocked \<Rightarrow> Blocked
        | Fatal m \<Rightarrow> Fatal m
        | Ret (Inl e, k') \<Rightarrow> Ret (GErr e, s\<lparr>read_cnt := -1\<rparr>, k')
        | Ret (Inr bs, k') \<Rightarrow>
            if bs = [] then Ret (GEof, s\<lparr>read_cnt := 0\<rparr>, k')
            else rl_take (s\<lparr>read_cnt := int (length bs), read_ptr := 0,
                            read_buf := bs @ drop (length bs) (read_buf s)\<rparr>, k'))
     else rl_take (s, k))"

text \<open>\<open>readlinebuf\<close>: what is still buffered.\<close>

definition readlinebuf :: "'a rl_state_scheme \<Rightarrow> int \<times> nat option" where
  "readlinebuf s = (read_cnt s, if read_cnt s \<noteq> 0 then Some (read_ptr s) else None)"

definition rl_left :: "'a rl_state_scheme \<Rightarrow> byte list" where
  "rl_left s = take (nat (read_cnt s)) (drop (read_ptr s) (read_buf s))"

definition rl_inv :: "('a rl_state_scheme \<times> rd_event list) \<Rightarrow> bool" where
  "rl_inv = (\<lambda>(s, k). length (read_buf s) = MAXLINE \<and>
     (0 < read_cnt s \<longrightarrow> read_ptr s + nat (read_cnt s) \<le> MAXLINE))"

definition rl_pending :: "('a rl_state_scheme \<times> rd_event list) \<Rightarrow> byte list" where
  "rl_pending = (\<lambda>(s, k). rl_left s @ rd_bytes k)"

lemma rl_init_inv: "rl_inv (rl_init, k)" and rl_init_pending: "rl_pending (rl_init, k) = rd_bytes k"
  by (simp_all add: rl_init_def rl_inv_def rl_pending_def rl_left_def)

lemma rl_take_pending:
  assumes "rl_inv (s, k)" and "0 < read_cnt s" and "rl_take (s, k) = Ret (x, s')"
  shows "\<exists>c. x = GByte c \<and> rl_pending (s, k) = c # rl_pending s' \<and> rl_inv s' \<and> snd s' = k"
proof -
  obtain c where c: "read_cnt s = int (Suc c)" using assms(2) by (metis gr0_conv_Suc zero_less_imp_eq_int of_nat_0_less_iff)
  with assms(1) have "read_ptr s < length (read_buf s)" by (auto simp: rl_inv_def)
  then have "drop (read_ptr s) (read_buf s) = read_buf s ! read_ptr s # drop (Suc (read_ptr s)) (read_buf s)"
    by (rule Cons_nth_drop_Suc [symmetric])
  moreover have n: "nat (1 + int c) = Suc c" "nat (int c) = c" by auto
  ultimately show ?thesis
    using assms c by (auto simp: rl_take_def rl_pending_def rl_left_def rl_inv_def n)
qed

lemma nat_1_int: "nat (1 + int n) = Suc n"
  by simp

lemma my_read_cases:
  assumes "rl_inv s" and "my_read s = Ret (x, s')"
  shows "rl_inv s' \<and> rl_pending s = (case x of GByte c \<Rightarrow> c # rl_pending s' | _ \<Rightarrow> rl_pending s')"
proof -
  obtain st k where s: "s = (st, k)" by (cases s)
  show ?thesis
  proof (cases "read_cnt st \<le> 0")
    case False
    with assms have "rl_take (st, k) = Ret (x, s')" by (simp add: my_read_def s)
    with rl_take_pending [of st k x s'] assms False show ?thesis by (auto simp: s)
  next
    case True
    with assms(2) obtain y k1 where rr: "read_retry MAXLINE k = Ret (y, k1)"
      by (auto simp: my_read_def s split: run.splits)
    have left: "rl_left st = []" using True by (simp add: rl_left_def)
    consider e where "y = Inl e" | "y = Inr []" | b bs where "y = Inr (b # bs)"
      by (metis (no_types) neq_Nil_conv old.sum.exhaust)
    then show ?thesis
    proof cases
      case 1
      with rr read_retry_err_bytes [of MAXLINE k e k1] assms True left show ?thesis
        by (auto simp: my_read_def s rl_inv_def rl_pending_def rl_left_def)
    next
      case 2
      with rr read_retry_bytes [of MAXLINE k "[]" k1] assms True left show ?thesis
        by (auto simp: my_read_def s rl_inv_def rl_pending_def rl_left_def)
    next
      case 3
      let ?s1 = "st\<lparr>read_cnt := int (length (b # bs)), read_ptr := 0,
                    read_buf := (b # bs) @ drop (length (b # bs)) (read_buf st)\<rparr>"
      have d: "rd_bytes k = (b # bs) @ rd_bytes k1" "length (b # bs) \<le> MAXLINE"
        using read_retry_bytes rr 3 by blast+
      have inv1: "rl_inv (?s1, k1)" using d(2) assms(1) by (simp add: rl_inv_def s)
      have "rl_take (?s1, k1) = Ret (x, s')"
        using assms(2) True rr 3 by (simp add: my_read_def s)
      with rl_take_pending [OF inv1 _ this] have "\<exists>c. x = GByte c \<and>
          rl_pending (?s1, k1) = c # rl_pending s' \<and> rl_inv s'" by auto
      moreover have "rl_pending (?s1, k1) = rl_pending s"
        using d True nat_1_int [of "length bs"] by (simp add: rl_pending_def rl_left_def s)
      ultimately show ?thesis by auto
    qed
  qed
qed


lemma my_read_not_Fatal [simp]: "my_read s \<noteq> Fatal m"
  by (cases s) (auto simp: my_read_def rl_take_def split: run.splits sum.splits prod.splits)

definition rl_calm :: "('a rl_state_scheme \<times> rd_event list) \<Rightarrow> bool" where
  "rl_calm = (\<lambda>(s, k). calm_rd k)"

lemma my_read_progress:
  assumes "rl_inv s" and "rl_calm s" and "rl_pending s \<noteq> []"
  shows "\<exists>c s'. my_read s = Ret (GByte c, s') \<and> rl_calm s'"
proof -
  obtain st k where s: "s = (st, k)" by (cases s)
  show ?thesis
  proof (cases "read_cnt st \<le> 0")
    case True
    with assms have "rd_bytes k \<noteq> []" by (auto simp: s rl_pending_def rl_left_def)
    with read_retry_calm [of k MAXLINE] assms True show ?thesis
      by (auto simp: s my_read_def rl_calm_def rl_take_def)
  next
    case False
    with assms show ?thesis by (auto simp: s my_read_def rl_calm_def rl_take_def)
  qed
qed

text \<open>
  \<open>server/readline_r.c\<close>: the same buffer inside a caller's \<open>Rline\<close>, with the saved
  arguments; its \<open>my_read_r\<close> masks the byte with 255.
\<close>

record rline = rl_state +
  rd_fd :: int
  rd_maxlen :: nat

definition readline_rinit :: "int \<Rightarrow> nat \<Rightarrow> rline \<Rightarrow> rline" where
  "readline_rinit fd maxlen r = r\<lparr>rd_fd := fd, rd_maxlen := maxlen, read_cnt := 0, read_ptr := 0\<rparr>"

definition my_read_r :: "(rline \<times> rd_event list) \<Rightarrow> (getc \<times> rline \<times> rd_event list) run" where
  "my_read_r = (\<lambda>(s, k).
     let give = (\<lambda>s1 k1. Ret (GByte (read_buf s1 ! read_ptr s1 AND 255),
           s1\<lparr>read_cnt := read_cnt s1 - 1, read_ptr := Suc (read_ptr s1)\<rparr>, k1))
     in if read_cnt s \<le> 0 then
       (case read_retry MAXLINE k of
          Blocked \<Rightarrow> Blocked
        | Fatal m \<Rightarrow> Fatal m
        | Ret (Inl e, k') \<Rightarrow> Ret (GErr e, s\<lparr>read_cnt := -1\<rparr>, k')
        | Ret (Inr bs, k') \<Rightarrow>
            if bs = [] then Ret (GEof, s\<lparr>read_cnt := 0\<rparr>, k')
            else give (s\<lparr>read_cnt := int (length bs), read_ptr := 0,
                         read_buf := bs @ drop (length bs) (read_buf s)\<rparr>) k')
     else give s k)"

lemma and_255_byte: "(b :: byte) AND 255 = b"
proof -
  have "(255 :: byte) = -1" by simp
  then show ?thesis by (simp only: bit.conj_one_right)
qed

lemma my_read_r_eq: "my_read_r = my_read"
  by (rule ext) (auto simp: my_read_r_def my_read_def rl_take_def Let_def and_255_byte
      split: run.splits sum.splits prod.splits)

lemma readline_rinit_inv:
  "length (read_buf r) = MAXLINE \<Longrightarrow> rl_inv (readline_rinit fd maxlen r, k)"
  by (simp add: readline_rinit_def rl_inv_def)

text \<open>
  \<open>threads/readline.c\<close>: the buffer is thread-specific data, allocated and zeroed at
  the first call of each thread.
\<close>

type_synonym tsd = "nat \<Rightarrow> rl_state option"

definition tsd_get :: "tsd \<Rightarrow> nat \<Rightarrow> rl_state" where
  "tsd_get m t = (case m t of None \<Rightarrow> rl_init | Some s \<Rightarrow> s)"

definition my_read_tsd :: "nat \<Rightarrow> (tsd \<times> rd_event list) \<Rightarrow> (getc \<times> tsd \<times> rd_event list) run" where
  "my_read_tsd t = (\<lambda>(m, k).
     run_bind (my_read (tsd_get m t, k)) (\<lambda>(x, s', k'). Ret (x, m(t \<mapsto> s'), k')))"

definition tsd_inv :: "nat \<Rightarrow> (tsd \<times> rd_event list) \<Rightarrow> bool" where
  "tsd_inv t = (\<lambda>(m, k). rl_inv (tsd_get m t, k))"

definition tsd_pending :: "nat \<Rightarrow> (tsd \<times> rd_event list) \<Rightarrow> byte list" where
  "tsd_pending t = (\<lambda>(m, k). rl_pending (tsd_get m t, k))"

text \<open>\<open>server/readline.c\<close>: one \<open>read\<close> of one byte, no buffer, no retry.\<close>

definition read_byte :: "rd_event list \<Rightarrow> (getc \<times> rd_event list) run" where
  "read_byte k =
     (case sys_read 1 k of
        Blocked \<Rightarrow> Blocked
      | Fatal m \<Rightarrow> Fatal m
      | Ret (Inl e, k') \<Rightarrow> Ret (GErr e, k')
      | Ret (Inr bs, k') \<Rightarrow> (case bs of [] \<Rightarrow> Ret (GEof, k') | b # _ \<Rightarrow> Ret (GByte b, k')))"

section \<open>The line loop over a source\<close>

text \<open>
  The \<open>for (n = 1; n < maxlen; n++)\<close> loop of \<open>lib/readline.c\<close>; \<open>m\<close> counts the
  iterations left (\<open>maxlen - n\<close>).  The result is the return value, the bytes stored at
  \<open>vptr\<close> (with the terminating 0 where the code stores it) and the source.
\<close>

fun readline_loop ::
  "('s \<Rightarrow> (getc \<times> 's) run) \<Rightarrow> nat \<Rightarrow> nat \<Rightarrow> byte list \<Rightarrow> 's \<Rightarrow> (int \<times> byte list \<times> 's) run" where
  "readline_loop get n 0 mem s = Ret (int n, mem @ [0], s)"
| "readline_loop get n (Suc m) mem s =
     (case get s of
        Blocked \<Rightarrow> Blocked
      | Fatal msg \<Rightarrow> Fatal msg
      | Ret (GByte c, s') \<Rightarrow>
          if c = NL then Ret (int n, mem @ [c] @ [0], s')
          else readline_loop get (Suc n) m (mem @ [c]) s'
      | Ret (GEof, s') \<Rightarrow> Ret (int n - 1, mem @ [0], s')
      | Ret (GErr e, s') \<Rightarrow> Ret (-1, mem, s'))"

text \<open>
  The loop of \<open>server/readline.c\<close> and \<open>server/readline_r.c\<close>: at end-of-file it returns
  0 when nothing was read, and otherwise falls out of the loop and returns \<open>n\<close>.
\<close>

fun readline_srv_loop ::
  "('s \<Rightarrow> (getc \<times> 's) run) \<Rightarrow> nat \<Rightarrow> nat \<Rightarrow> byte list \<Rightarrow> 's \<Rightarrow> (int \<times> byte list \<times> 's) run" where
  "readline_srv_loop get n 0 mem s = Ret (int n, mem @ [0], s)"
| "readline_srv_loop get n (Suc m) mem s =
     (case get s of
        Blocked \<Rightarrow> Blocked
      | Fatal msg \<Rightarrow> Fatal msg
      | Ret (GByte c, s') \<Rightarrow>
          if c = NL then Ret (int n, mem @ [c] @ [0], s')
          else readline_srv_loop get (Suc n) m (mem @ [c]) s'
      | Ret (GEof, s') \<Rightarrow> if n = 1 then Ret (0, mem, s') else Ret (int n, mem @ [0], s')
      | Ret (GErr e, s') \<Rightarrow> Ret (-1, mem, s'))"

definition readline ::
  "nat \<Rightarrow> (rl_state \<times> rd_event list) \<Rightarrow> (int \<times> byte list \<times> rl_state \<times> rd_event list) run" where
  "readline maxlen s = readline_loop my_read 1 (maxlen - 1) [] s"

definition Readline ::
  "nat \<Rightarrow> (rl_state \<times> rd_event list) \<Rightarrow> (int \<times> byte list \<times> rl_state \<times> rd_event list) run" where
  "Readline maxlen s = run_bind (readline maxlen s)
     (\<lambda>(n, mem, s'). if n < 0 then Fatal ''readline error'' else Ret (n, mem, s'))"

definition readline_r ::
  "(rline \<times> rd_event list) \<Rightarrow> (int \<times> byte list \<times> rline \<times> rd_event list) run" where
  "readline_r s = readline_srv_loop my_read_r 1 (rd_maxlen (fst s) - 1) [] s"

definition Readline_r ::
  "(rline \<times> rd_event list) \<Rightarrow> (int \<times> byte list \<times> rline \<times> rd_event list) run" where
  "Readline_r s = run_bind (readline_r s)
     (\<lambda>(n, mem, s'). if n = -1 then Fatal ''readline_r error'' else Ret (n, mem, s'))"

definition readline_tsd ::
  "nat \<Rightarrow> nat \<Rightarrow> (tsd \<times> rd_event list) \<Rightarrow> (int \<times> byte list \<times> tsd \<times> rd_event list) run" where
  "readline_tsd t maxlen = (\<lambda>(m, k).
     readline_loop (my_read_tsd t) 1 (maxlen - 1) [] (m(t \<mapsto> tsd_get m t), k))"

definition readline_srv :: "nat \<Rightarrow> rd_event list \<Rightarrow> (int \<times> byte list \<times> rd_event list) run" where
  "readline_srv maxlen k = readline_srv_loop read_byte 1 (maxlen - 1) [] k"

section \<open>The interface and what the loops do over it\<close>

locale byte_source =
  fixes get :: "'s \<Rightarrow> (getc \<times> 's) run"
    and pending :: "'s \<Rightarrow> byte list"
    and inv :: "'s \<Rightarrow> bool"
  assumes get_cases: "inv s \<Longrightarrow> get s = Ret (x, s') \<Longrightarrow>
      inv s' \<and> pending s = (case x of GByte c \<Rightarrow> c # pending s' | _ \<Rightarrow> pending s')"

locale calm_source = byte_source +
  fixes calm :: "'s \<Rightarrow> bool"
  assumes get_progress: "inv s \<Longrightarrow> calm s \<Longrightarrow> pending s \<noteq> [] \<Longrightarrow>
      \<exists>c s'. get s = Ret (GByte c, s') \<and> calm s'"

text \<open>Why the loop stopped, and the value and memory that go with it.\<close>

datatype line_end = AtNewline | BufferFull | AtEnd | ReadFailed

definition line_stop :: "line_end \<Rightarrow> nat \<Rightarrow> byte list \<Rightarrow> bool" where
  "line_stop w m line \<longleftrightarrow>
     (case w of
        AtNewline \<Rightarrow> \<exists>l. line = l @ [NL] \<and> NL \<notin> set l \<and> length l < m
      | BufferFull \<Rightarrow> NL \<notin> set line \<and> length line = m
      | _ \<Rightarrow> NL \<notin> set line \<and> length line < m)"

fun line_ret :: "line_end \<Rightarrow> nat \<Rightarrow> byte list \<Rightarrow> int" where
  "line_ret BufferFull n line = int n + int (length line)"
| "line_ret ReadFailed n line = -1"
| "line_ret w n line = int n + int (length line) - 1"

fun line_mem :: "line_end \<Rightarrow> byte list \<Rightarrow> byte list" where
  "line_mem ReadFailed line = line"
| "line_mem w line = line @ [0]"

lemma line_stop_Cons: "c \<noteq> NL \<Longrightarrow> line_stop w (Suc m) (c # line) = line_stop w m line"
  by (cases w) (auto simp: line_stop_def Cons_eq_append_conv)

lemma line_stop_length: "line_stop w m line \<Longrightarrow> length line \<le> m"
  by (cases w) (auto simp: line_stop_def)

lemma line_mem_Cons: "c # line_mem w line = line_mem w (c # line)"
  by (cases w) auto

lemma line_ret_Cons: "line_ret w (Suc n) line = line_ret w n (c # line)"
  by (cases w) auto

text \<open>The first line of the pending bytes, cut off after \<open>m\<close> bytes.\<close>

fun line_prefix :: "nat \<Rightarrow> byte list \<Rightarrow> byte list" where
  "line_prefix 0 bs = []"
| "line_prefix (Suc m) [] = []"
| "line_prefix (Suc m) (b # bs) = (if b = NL then [b] else b # line_prefix m bs)"

context byte_source
begin

lemma readline_loop_Ret:
  assumes "inv s" and "readline_loop get n m mem s = Ret (r, mem', s')"
  shows "\<exists>w line. pending s = line @ pending s' \<and> inv s' \<and> line_stop w m line \<and>
           r = line_ret w n line \<and> mem' = mem @ line_mem w line"
  using assms
proof (induction m arbitrary: n mem s)
  case 0
  then show ?case
    by (intro exI [of _ BufferFull] exI [of _ "[]"]) (auto simp: line_stop_def)
next
  case (Suc m)
  then obtain x s1 where g: "get s = Ret (x, s1)" by (auto split: run.splits)
  note c = get_cases [OF Suc.prems(1) g]
  show ?case
  proof (cases x)
    case (GByte b)
    show ?thesis
    proof (cases "b = NL")
      case True
      with Suc.prems g c GByte show ?thesis
        by (intro exI [of _ AtNewline] exI [of _ "[b]"]) (auto simp: line_stop_def)
    next
      case False
      with Suc.prems g c GByte Suc.IH [of s1 "Suc n" "mem @ [b]"] obtain w line where
        "pending s1 = line @ pending s'" "inv s'" "line_stop w m line"
        "r = line_ret w (Suc n) line" "mem' = (mem @ [b]) @ line_mem w line" by auto
      with False c GByte show ?thesis
        by (intro exI [of _ w] exI [of _ "b # line"])
          (simp add: line_stop_Cons line_ret_Cons [symmetric] line_mem_Cons [symmetric])
    qed
  next
    case GEof
    with Suc.prems g c show ?thesis
      by (intro exI [of _ AtEnd] exI [of _ "[]"]) (auto simp: line_stop_def)
  next
    case (GErr e)
    with Suc.prems g c show ?thesis
      by (intro exI [of _ ReadFailed] exI [of _ "[]"]) (auto simp: line_stop_def)
  qed
qed

lemma readline_srv_loop_Ret:
  assumes "inv s" and "0 < n" and "readline_srv_loop get n m mem s = Ret (r, mem', s')"
  shows "\<exists>w line. pending s = line @ pending s' \<and> inv s' \<and> line_stop w m line \<and>
           (if w = AtEnd then
              (if n + length line = 1 then r = 0 \<and> mem' = mem
               else r = int n + int (length line) \<and> mem' = mem @ line @ [0])
            else r = line_ret w n line \<and> mem' = mem @ line_mem w line)"
  using assms
proof (induction m arbitrary: n mem s)
  case 0
  then show ?case
    by (intro exI [of _ BufferFull] exI [of _ "[]"]) (auto simp: line_stop_def)
next
  case (Suc m)
  then obtain x s1 where g: "get s = Ret (x, s1)" by (auto split: run.splits)
  note c = get_cases [OF Suc.prems(1) g]
  show ?case
  proof (cases x)
    case (GByte b)
    show ?thesis
    proof (cases "b = NL")
      case True
      with Suc.prems g c GByte show ?thesis
        by (intro exI [of _ AtNewline] exI [of _ "[b]"]) (auto simp: line_stop_def)
    next
      case False
      with Suc.prems g c GByte Suc.IH [of s1 "Suc n" "mem @ [b]"] obtain w line where
        "pending s1 = line @ pending s'" "inv s'" "line_stop w m line"
        "if w = AtEnd then
           (if Suc n + length line = 1 then r = 0 \<and> mem' = mem @ [b]
            else r = int (Suc n) + int (length line) \<and> mem' = (mem @ [b]) @ line @ [0])
         else r = line_ret w (Suc n) line \<and> mem' = (mem @ [b]) @ line_mem w line" by auto
      with False c GByte Suc.prems(2) show ?thesis
        by (intro exI [of _ w] exI [of _ "b # line"])
          (auto simp: line_stop_Cons line_ret_Cons [symmetric] line_mem_Cons [symmetric] split: if_splits)
    qed
  next
    case GEof
    with Suc.prems g c show ?thesis
      by (intro exI [of _ AtEnd] exI [of _ "[]"]) (auto simp: line_stop_def split: if_splits)
  next
    case (GErr e)
    with Suc.prems g c show ?thesis
      by (intro exI [of _ ReadFailed] exI [of _ "[]"]) (auto simp: line_stop_def)
  qed
qed

end

context calm_source
begin

lemma readline_loop_progress:
  assumes "inv s" and "calm s" and "m \<le> length (pending s) \<or> NL \<in> set (pending s)"
  shows "\<exists>s'. readline_loop get n m mem s =
      Ret (line_ret (if NL \<in> set (line_prefix m (pending s)) then AtNewline else BufferFull)
             n (line_prefix m (pending s)),
           mem @ line_prefix m (pending s) @ [0], s') \<and>
      pending s = line_prefix m (pending s) @ pending s' \<and> inv s' \<and> calm s'"
  using assms
proof (induction m arbitrary: n mem s)
  case 0
  then show ?case by simp
next
  case (Suc m)
  then have "pending s \<noteq> []" by auto
  with get_progress Suc.prems obtain c s1 where g: "get s = Ret (GByte c, s1)" "calm s1" by blast
  with get_cases [OF Suc.prems(1)] have p: "pending s = c # pending s1" "inv s1" by fastforce+
  show ?case
  proof (cases "c = NL")
    case True
    with g p show ?thesis by simp
  next
    case False
    with Suc.prems p Suc.IH [of s1 "Suc n" "mem @ [c]"] g show ?thesis
      by (auto simp: line_ret_Cons [of _ n _ c, symmetric])
  qed
qed

end

section \<open>The four sources of the code\<close>

interpretation lib: calm_source my_read rl_pending rl_inv rl_calm
  by unfold_locales (rule my_read_cases my_read_progress; assumption)+

interpretation srv_r: calm_source my_read_r rl_pending rl_inv rl_calm
  unfolding my_read_r_eq by unfold_locales

definition tsd_calm :: "nat \<Rightarrow> (tsd \<times> rd_event list) \<Rightarrow> bool" where
  "tsd_calm t = (\<lambda>(m, k). calm_rd k)"

lemma tsd_get_upd [simp]: "tsd_get (m(t \<mapsto> s)) t = s"
  by (simp add: tsd_get_def)

interpretation thr: calm_source "my_read_tsd t" "tsd_pending t" "tsd_inv t" "tsd_calm t" for t
proof (unfold_locales, goal_cases)
  case (1 s x s')
  then obtain m k s1 k1 where "s = (m, k)" "s' = (m(t \<mapsto> s1), k1)"
    "my_read (tsd_get m t, k) = Ret (x, s1, k1)"
    by (cases s) (auto simp: my_read_tsd_def run_bind_Ret_conv split: prod.splits)
  with 1 my_read_cases [of "(tsd_get m t, k)" x "(s1, k1)"] show ?case
    by (auto simp: tsd_inv_def tsd_pending_def split: getc.splits)
next
  case (2 s)
  then obtain m k where s: "s = (m, k)" by (cases s)
  with 2 my_read_progress [of "(tsd_get m t, k)"] show ?case
    by (fastforce simp: tsd_inv_def tsd_pending_def tsd_calm_def rl_calm_def my_read_tsd_def)
qed

fun quiet_rd :: "rd_event list \<Rightarrow> bool" where
  "quiet_rd [] = True"
| "quiet_rd (Seg bs # k) = (bs \<noteq> [] \<and> quiet_rd k)"
| "quiet_rd (RdErr e # k) = False"

lemma read_byte_simps:
  "read_byte [] = Blocked"
  "read_byte (RdErr e # k) = Ret (GErr e, k)"
  "read_byte (Seg bs # k) = (case bs of [] \<Rightarrow> Ret (GEof, k) | [b] \<Rightarrow> Ret (GByte b, k)
      | b # c # r \<Rightarrow> Ret (GByte b, Seg (c # r) # k))"
  by (auto simp: read_byte_def split: list.splits)

interpretation raw: calm_source read_byte rd_bytes "\<lambda>_. True" quiet_rd
proof (unfold_locales, goal_cases)
  case (1 s x s')
  then show ?case
    by (cases s rule: rd_bytes.cases) (auto simp: read_byte_simps split: list.splits)
next
  case (2 s)
  then show ?case
    by (cases s rule: rd_bytes.cases) (auto simp: read_byte_simps split: list.splits)
qed

text \<open>
  A source that tells what stopped it: \<open>stop\<close> is the sequence of events from the next one on that is neither data nor an
  interrupted call.  A byte leaves it as it is; end-of-file and a failed call are its first element, and
  take it away.
\<close>

fun goes_on :: "rd_event \<Rightarrow> bool" where
  "goes_on (Seg bs) = (bs \<noteq> [])"
| "goes_on (RdErr e) = (e = EINTR)"

definition rd_stop :: "rd_event list \<Rightarrow> rd_event list" where
  "rd_stop = dropWhile goes_on"

lemma rd_stop_simps [simp]:
  "rd_stop [] = []" "rd_stop (ev # k) = (if goes_on ev then rd_stop k else ev # k)"
  by (simp_all add: rd_stop_def)

locale stopping_source = byte_source +
  fixes events :: "'s \<Rightarrow> rd_event list"
  assumes get_stop: "inv s \<Longrightarrow> get s = Ret (x, s') \<Longrightarrow>
      (case x of
         GByte c \<Rightarrow> rd_stop (events s') = rd_stop (events s)
       | GEof \<Rightarrow> rd_stop (events s) = Seg [] # events s'
       | GErr e \<Rightarrow> rd_stop (events s) = RdErr e # events s')"

text \<open>What the event sequence has to do with the way the loop of the servers ended.\<close>

definition stopped_by :: "line_end \<Rightarrow> rd_event list \<Rightarrow> rd_event list \<Rightarrow> bool" where
  "stopped_by w k k' \<longleftrightarrow>
     (case w of
        AtEnd \<Rightarrow> rd_stop k = Seg [] # k'
      | ReadFailed \<Rightarrow> \<exists>e. e \<noteq> EINTR \<and> rd_stop k = RdErr e # k'
      | _ \<Rightarrow> rd_stop k' = rd_stop k)"

lemma rd_stop_head: "rd_stop k = ev # k' \<Longrightarrow> \<not> goes_on ev"
  by (induction k) (auto split: if_splits)

context stopping_source
begin

lemma readline_srv_loop_stop:
  assumes "inv s" and "0 < n" and "readline_srv_loop get n m mem s = Ret (r, mem', s')"
  shows "\<exists>w line. pending s = line @ pending s' \<and> inv s' \<and> line_stop w m line \<and> stopped_by w (events s) (events s') \<and>
           (if w = AtEnd then
              (if n + length line = 1 then r = 0 \<and> mem' = mem
               else r = int n + int (length line) \<and> mem' = mem @ line @ [0])
            else r = line_ret w n line \<and> mem' = mem @ line_mem w line)"
  using assms
proof (induction m arbitrary: n mem s)
  case 0
  then show ?case
    by (intro exI [of _ BufferFull] exI [of _ "[]"]) (auto simp: line_stop_def stopped_by_def)
next
  case (Suc m)
  then obtain x s1 where g: "get s = Ret (x, s1)" by (auto split: run.splits)
  note c = get_cases [OF Suc.prems(1) g] and st = get_stop [OF Suc.prems(1) g]
  show ?case
  proof (cases x)
    case (GByte b)
    show ?thesis
    proof (cases "b = NL")
      case True
      with Suc.prems g c st GByte show ?thesis
        by (intro exI [of _ AtNewline] exI [of _ "[b]"]) (auto simp: line_stop_def stopped_by_def)
    next
      case False
      with Suc.prems g c GByte Suc.IH [of s1 "Suc n" "mem @ [b]"] obtain w line where
        "pending s1 = line @ pending s'" "inv s'" "line_stop w m line" "stopped_by w (events s1) (events s')"
        "if w = AtEnd then
           (if Suc n + length line = 1 then r = 0 \<and> mem' = mem @ [b]
            else r = int (Suc n) + int (length line) \<and> mem' = (mem @ [b]) @ line @ [0])
         else r = line_ret w (Suc n) line \<and> mem' = (mem @ [b]) @ line_mem w line" by auto
      moreover from this(4) st GByte have "stopped_by w (events s) (events s')"
        by (simp add: stopped_by_def split: line_end.splits)
      ultimately show ?thesis using False c GByte Suc.prems(2)
        by (intro exI [of _ w] exI [of _ "b # line"])
          (auto simp: line_stop_Cons line_ret_Cons [symmetric] line_mem_Cons [symmetric] split: if_splits)
    qed
  next
    case GEof
    with Suc.prems g c st show ?thesis
      by (intro exI [of _ AtEnd] exI [of _ "[]"]) (auto simp: line_stop_def stopped_by_def split: if_splits)
  next
    case (GErr e)
    with st rd_stop_head [of "events s" "RdErr e"] have "stopped_by ReadFailed (events s) (events s1)" by (auto simp: stopped_by_def)
    with Suc.prems g c GErr show ?thesis
      by (intro exI [of _ ReadFailed] exI [of _ "[]"]) (auto simp: line_stop_def)
  qed
qed

end

lemma read_retry_stop:
  "read_retry n k = Ret (x, k') \<Longrightarrow> 0 < n \<Longrightarrow>
     (case x of
        Inl e \<Rightarrow> rd_stop k = RdErr e # k'
      | Inr bs \<Rightarrow> if bs = [] then rd_stop k = Seg [] # k' else rd_stop k' = rd_stop k)"
  by (induction k rule: rd_size.induct) (auto simp: read_retry_simps split: if_splits sum.splits)

interpretation lib_stop: stopping_source my_read rl_pending rl_inv snd
proof (unfold_locales, goal_cases)
  case (1 s x s')
  obtain st k where s: "s = (st, k)" by (cases s)
  show ?case
  proof (cases "read_cnt st \<le> 0")
    case False
    with 1 show ?thesis by (auto simp: my_read_def rl_take_def s)
  next
    case True
    with 1(2) obtain y k1 where rr: "read_retry MAXLINE k = Ret (y, k1)"
      by (auto simp: my_read_def s split: run.splits)
    consider e where "y = Inl e" | "y = Inr []" | b bs where "y = Inr (b # bs)"
      by (metis (no_types) neq_Nil_conv old.sum.exhaust)
    then show ?thesis using 1(2) True rr read_retry_stop [OF rr MAXLINE_pos]
      by cases (auto simp: my_read_def rl_take_def s)
  qed
qed

interpretation srv_r_stop: stopping_source my_read_r rl_pending rl_inv snd
  unfolding my_read_r_eq by unfold_locales

section \<open>Properties\<close>

text \<open>
  C6: \<open>readline\<close> of \<open>lib/readline.c\<close> returns the next line of the stream: whatever is
  left in its static buffer from earlier calls, and however the kernel segments the rest,
  the bytes stored are the first line of the pending bytes (its newline included, cut
  after \<open>maxlen - 1\<close> bytes) and the terminating 0, and exactly those bytes leave the
  stream.  The return value is the number of bytes stored when the line ended with a
  newline, but \<open>maxlen\<close>, one more than was stored, when the buffer filled first.
\<close>

theorem readline_next_line:
  assumes "rl_inv (s, k)" and "calm_rd k"
    and "maxlen - 1 \<le> length (rl_pending (s, k)) \<or> NL \<in> set (rl_pending (s, k))"
  defines "line \<equiv> line_prefix (maxlen - 1) (rl_pending (s, k))"
  shows "\<exists>s' k'. readline maxlen (s, k) =
      Ret (if NL \<in> set line then int (length line) else int (length line) + 1, line @ [0], s', k') \<and>
    rl_pending (s, k) = line @ rl_pending (s', k') \<and> rl_inv (s', k') \<and> calm_rd k'"
  using lib.readline_loop_progress [of "(s, k)" "maxlen - 1" 1 "[]"] assms
  by (auto simp: readline_def rl_calm_def line_def split: if_splits)

theorem readline_next_line_witness:
  "\<exists>s' k'. readline 4 (rl_init, [Seg [65], Seg [66, 67, 68]]) = Ret (4, [65, 66, 67, 0], s', k')"
  using readline_next_line [of rl_init "[Seg [65], Seg [66, 67, 68]]" 4] rl_init_inv
  by (auto simp: rl_init_pending NL_def numeral_3_eq_3)

text \<open>
  C36: every return of \<open>readline_r\<close> of \<open>server/readline_r.c\<close>, with what caused it.  What it stores are the next bytes of the
  stream, and exactly these leave it.  With a newline, or when \<open>read_maxlen - 1\<close> bytes have been stored, no end-of-file
  and no error has been met; the value is the number of bytes, or one more.  When the next thing behind
  the data is end-of-file the value is 0 without data, and otherwise one more than the number of bytes; when it is a call
  that fails, the value is -1.  In both cases it comes before a newline and before the buffer is full.  The
  terminating 0 is stored unless there was no data or an error.
\<close>

theorem readline_r_outcome:
  assumes "rl_inv s" and "0 < rd_maxlen (fst s)" and "readline_r s = Ret (r, mem, s')"
  shows "\<exists>line. rl_pending s = line @ rl_pending s' \<and> rl_inv s' \<and> length mem \<le> rd_maxlen (fst s) \<and>
     (rd_stop (snd s') = rd_stop (snd s) \<and> r = int (length line) \<and> mem = line @ [0] \<and>
        length line < rd_maxlen (fst s) \<and> (\<exists>l. line = l @ [NL] \<and> NL \<notin> set l)
      \<or> rd_stop (snd s') = rd_stop (snd s) \<and> r = int (length line) + 1 \<and> mem = line @ [0] \<and>
        NL \<notin> set line \<and> length line + 1 = rd_maxlen (fst s)
      \<or> rd_stop (snd s) = Seg [] # snd s' \<and> NL \<notin> set line \<and> length line + 1 < rd_maxlen (fst s) \<and>
        (if line = [] then r = 0 \<and> mem = [] else r = int (length line) + 1 \<and> mem = line @ [0])
      \<or> (\<exists>e. e \<noteq> EINTR \<and> rd_stop (snd s) = RdErr e # snd s') \<and> NL \<notin> set line \<and> length line + 1 < rd_maxlen (fst s) \<and>
        r = -1 \<and> mem = line)"
proof -
  from srv_r_stop.readline_srv_loop_stop [OF assms(1) _ assms(3) [unfolded readline_r_def]]
  obtain w line where l: "rl_pending s = line @ rl_pending s'" "rl_inv s'"
    "line_stop w (rd_maxlen (fst s) - 1) line" "stopped_by w (snd s) (snd s')"
    "if w = AtEnd then (if 1 + length line = 1 then r = 0 \<and> mem = [] else
       r = int 1 + int (length line) \<and> mem = [] @ line @ [0])
     else r = line_ret w 1 line \<and> mem = [] @ line_mem w line" by auto
  show ?thesis using l(1,2) assms(2) line_stop_length [OF l(3)] l(3-5)
    by (intro exI [of _ line], cases w) (auto simp: line_stop_def stopped_by_def split: if_splits)
qed

theorem readline_r_outcome_witness:
  "\<exists>line. length [65 :: byte, 66, 0] \<le> 4 \<and> line = [65 :: byte, 66] \<and>
     readline_r (\<lparr>read_cnt = 2, read_ptr = 0, read_buf = [65, 66] @ replicate 4094 0,
                  rd_fd = 3, rd_maxlen = 4\<rparr>, [Seg []]) =
       Ret (3, [65, 66, 0], (\<lparr>read_cnt = 0, read_ptr = 2, read_buf = [65, 66] @ replicate 4094 0,
                  rd_fd = 3, rd_maxlen = 4\<rparr>, []))"
proof -
  let ?b = "[65, 66] @ replicate 4094 (0 :: byte)"
  let ?s = "(\<lparr>read_cnt = 2, read_ptr = 0, read_buf = ?b, rd_fd = 3, rd_maxlen = 4\<rparr>, [Seg []])"
  let ?t = "(\<lparr>read_cnt = 0, read_ptr = 2, read_buf = ?b, rd_fd = 3, rd_maxlen = 4\<rparr>, [])"
  have inv: "rl_inv ?s" by (simp add: rl_inv_def MAXLINE_def)
  have run: "readline_r ?s = Ret (3, [65, 66, 0], ?t)"
    by (simp add: readline_r_def my_read_r_def read_retry_simps NL_def and_255_byte
        numeral_3_eq_3 del: replicate.simps)
  from readline_r_outcome [OF inv _ run] show ?thesis using run by simp
qed

text \<open>
  The threaded \<open>readline\<close> keeps the threads apart: a call by thread \<open>t\<close>, whatever
  way it returns, leaves the buffered input of every other thread as it was.
\<close>

lemma readline_tsd_isolated:
  assumes "readline_tsd t maxlen (m, k) = Ret (r, mem, m', k')" and "u \<noteq> t"
  shows "m' u = m u"
proof -
  have "fst s' u = fst s u"
    if "readline_loop (my_read_tsd t) n i mm s = Ret (r, mem, s')" for n i mm s s'
    using that
  proof (induction i arbitrary: n mm s)
    case (Suc i)
    then obtain x s1 where g: "my_read_tsd t s = Ret (x, s1)" by (auto split: run.splits)
    then have "fst s1 u = fst s u" using assms(2)
      by (cases s) (auto simp: my_read_tsd_def run_bind_Ret_conv)
    with Suc g show ?case by (auto split: getc.splits if_splits)
  qed simp
  with assms show ?thesis by (fastforce simp: readline_tsd_def)
qed

lemma readline_tsd_isolated_witness:
  "\<exists>r mem m' k'. readline_tsd 1 3 (\<lambda>_. None, [Seg [10]]) = Ret (r, mem, m', k') \<and> m' 2 = None"
proof -
  obtain r mem m' k' where h: "readline_tsd 1 3 (\<lambda>_. None, [Seg [10]]) = Ret (r, mem, m', k')"
    by (auto simp: readline_tsd_def my_read_tsd_def my_read_def read_retry_simps rl_take_def
        MAXLINE_def tsd_get_def rl_init_def NL_def numeral_2_eq_2)
  show ?thesis using readline_tsd_isolated [OF h, of 2] h by auto
qed

end
