(* ===== verification/Kernel.thy ===== *)
theory Kernel
  imports Line_Reader
begin

text \<open>
  The process side of the kernel: the descriptors a program has open, what each of them
  will deliver and accept, and the queue of connections waiting on the listening socket.
  The wrappers of \<open>lib/wrapunix.c\<close> and \<open>lib/wrapsock.c\<close> act on it, and \<open>str_echo\<close> of
  \<open>lib/str_echo.c\<close> is the first program over it.
\<close>

section \<open>The world\<close>

text \<open>
  \<open>rds\<close> and \<open>wrs\<close> are the events of \<open>Descriptor_IO\<close>, per descriptor; \<open>got\<close> and \<open>sent\<close> record the
  bytes that \<open>read\<close> has returned and \<open>write\<close> has accepted since the descriptor was opened.
  \<open>backlog\<close> is what the next calls of \<open>accept\<close> find: an error, or a connection with its own
  events.
\<close>

record world =
  rds :: "int \<Rightarrow> rd_event list"
  wrs :: "int \<Rightarrow> wr_event list"
  got :: "int \<Rightarrow> byte list"
  sent :: "int \<Rightarrow> byte list"
  opened :: "int list"
  backlog :: "(errno + rd_event list \<times> wr_event list) list"

definition w_read :: "int \<Rightarrow> nat \<Rightarrow> world \<Rightarrow> ((errno + byte list) \<times> world) run" where
  "w_read fd n w = run_bind (sys_read n (rds w fd)) (\<lambda>(r, k).
     Ret (r, w\<lparr>rds := (rds w)(fd := k),
       got := (case r of Inl e \<Rightarrow> got w | Inr bs \<Rightarrow> (got w)(fd := got w fd @ bs))\<rparr>))"

text \<open>\<open>Read\<close>: every error ends the process.\<close>

definition w_Read :: "int \<Rightarrow> nat \<Rightarrow> world \<Rightarrow> (byte list \<times> world) run" where
  "w_Read fd n w = run_bind (w_read fd n w) (\<lambda>(r, w').
     case r of Inl e \<Rightarrow> Fatal ''read error'' | Inr bs \<Rightarrow> Ret (bs, w'))"

text \<open>One \<open>write\<close>, which may take a part of the buffer.\<close>

definition w_write :: "int \<Rightarrow> byte list \<Rightarrow> world \<Rightarrow> ((errno + nat) \<times> world) run" where
  "w_write fd bs w = run_bind (sys_write bs (wrs w fd)) (\<lambda>(r, k).
     Ret (r, w\<lparr>wrs := (wrs w)(fd := k),
       sent := (case r of Inl e \<Rightarrow> sent w | Inr n \<Rightarrow> (sent w)(fd := sent w fd @ take n bs))\<rparr>))"

definition w_Writen :: "int \<Rightarrow> byte list \<Rightarrow> world \<Rightarrow> world run" where
  "w_Writen fd bs w = run_bind (Writen bs (wrs w fd)) (\<lambda>(out, k).
     Ret (w\<lparr>wrs := (wrs w)(fd := k), sent := (sent w)(fd := sent w fd @ out)\<rparr>))"

definition w_Close :: "int \<Rightarrow> world \<Rightarrow> world run" where
  "w_Close fd w =
     (if fd \<in> set (opened w) then Ret (w\<lparr>opened := removeAll fd (opened w)\<rparr>)
      else Fatal ''close error'')"

text \<open>The kernel hands out the lowest descriptor that is not open.\<close>

fun free_from :: "nat \<Rightarrow> nat \<Rightarrow> int list \<Rightarrow> int" where
  "free_from 0 i os = int i"
| "free_from (Suc m) i os = (if int i \<in> set os then free_from m (Suc i) os else int i)"

definition lowest_free :: "int list \<Rightarrow> int" where
  "lowest_free os = free_from (length os) 0 os"

fun w_accept :: "world \<Rightarrow> ((errno + int) \<times> world) run" where
  "w_accept w =
     (case backlog w of
        [] \<Rightarrow> Blocked
      | Inl e # b \<Rightarrow> Ret (Inl e, w\<lparr>backlog := b\<rparr>)
      | Inr (r, k) # b \<Rightarrow>
          (let fd = lowest_free (opened w) in
           Ret (Inr fd, w\<lparr>backlog := b, opened := fd # opened w, rds := (rds w)(fd := r),
             wrs := (wrs w)(fd := k), got := (got w)(fd := []), sent := (sent w)(fd := [])\<rparr>)))"

lemma w_accept_backlog: "w_accept w = Ret (r, w') \<Longrightarrow> length (backlog w) = Suc (length (backlog w'))"
  by (auto split: list.splits sum.splits simp: Let_def)

declare w_accept.simps [simp del]

text \<open>\<open>Accept\<close> tries again after a connection that was aborted before it was accepted.\<close>

function w_Accept :: "world \<Rightarrow> (int \<times> world) run" where
  "w_Accept w =
     (case w_accept w of
        Blocked \<Rightarrow> Blocked
      | Fatal m \<Rightarrow> Fatal m
      | Ret (Inl e, w') \<Rightarrow>
          if e = EPROTO \<or> e = ECONNABORTED then w_Accept w' else Fatal ''accept error''
      | Ret (Inr fd, w') \<Rightarrow> Ret (fd, w'))"
  by pat_completeness auto
termination
  by (relation "measure (\<lambda>w. length (backlog w))") (auto dest: w_accept_backlog)

declare w_Accept.simps [simp del]

section \<open>What the calls do\<close>

lemma w_read_Ret:
  assumes "w_read fd n w = Ret (r, w')"
  shows "\<exists>k. sys_read n (rds w fd) = Ret (r, k) \<and>
    w' = w\<lparr>rds := (rds w)(fd := k),
       got := (case r of Inl e \<Rightarrow> got w | Inr bs \<Rightarrow> (got w)(fd := got w fd @ bs))\<rparr>"
  using assms by (auto simp: w_read_def run_bind_Ret_conv)

lemma w_Read_Ret:
  assumes "w_Read fd n w = Ret (bs, w')"
  shows "\<exists>k. sys_read n (rds w fd) = Ret (Inr bs, k) \<and>
    w' = w\<lparr>rds := (rds w)(fd := k), got := (got w)(fd := got w fd @ bs)\<rparr>"
proof -
  from assms obtain r w1 where r: "w_read fd n w = Ret (r, w1)"
    and c: "(case r of Inl e \<Rightarrow> Fatal ''read error'' | Inr bs \<Rightarrow> Ret (bs, w1)) = Ret (bs, w')"
    by (auto simp: w_Read_def run_bind_Ret_conv)
  from c have "r = Inr bs" "w1 = w'" by (cases r; simp)+
  with w_read_Ret [OF r] show ?thesis by simp
qed

lemma w_write_Ret:
  assumes "w_write fd bs w = Ret (r, w')"
  obtains k where "sys_write bs (wrs w fd) = Ret (r, k)"
    and "w' = w\<lparr>wrs := (wrs w)(fd := k),
       sent := (case r of Inl e \<Rightarrow> sent w | Inr n \<Rightarrow> (sent w)(fd := sent w fd @ take n bs))\<rparr>"
  using assms by (auto simp: w_write_def run_bind_Ret_conv)

lemma Writen_Ret: "Writen bs k = Ret (out, k') \<Longrightarrow> out = bs"
  using writen_loop_Ret [of "length bs" bs "[]" k]
  by (auto simp: Writen_def writen_def run_bind_Ret_conv split: if_splits)

lemma w_Writen_Ret:
  assumes "w_Writen fd bs w = Ret w'"
  shows "\<exists>k. w' = w\<lparr>wrs := (wrs w)(fd := k), sent := (sent w)(fd := sent w fd @ bs)\<rparr>"
  using assms by (auto simp: w_Writen_def run_bind_Ret_conv dest: Writen_Ret)

lemma w_Close_Ret: "w_Close fd w = Ret w' \<longleftrightarrow> fd \<in> set (opened w) \<and> w' = w\<lparr>opened := removeAll fd (opened w)\<rparr>"
  by (auto simp: w_Close_def)

lemma free_from_ge: "int i \<le> free_from m i os"
proof (induction m arbitrary: i)
  case (Suc m)
  from Suc.IH [of "Suc i"] show ?case by simp
qed simp

lemma free_from_least: "int i \<le> j \<Longrightarrow> j < free_from m i os \<Longrightarrow> j \<in> set os"
proof (induction m arbitrary: i)
  case (Suc m)
  then show ?case using Suc.IH [of "Suc i"] by (cases "j = int i") (auto split: if_splits)
qed simp

lemma free_from_fresh:
  assumes "card (set os \<inter> {int i..}) \<le> m"
  shows "free_from m i os \<notin> set os"
  using assms
proof (induction m arbitrary: i)
  case 0
  then have "set os \<inter> {int i..} = {}" by simp
  then show ?case by auto
next
  case (Suc m)
  show ?case
  proof (cases "int i \<in> set os")
    case True
    have "set os \<inter> {int i..} = insert (int i) (set os \<inter> {int (Suc i)..})" using True by auto
    then have "card (set os \<inter> {int (Suc i)..}) \<le> m" using Suc.prems by simp
    with Suc.IH True show ?thesis by simp
  qed simp
qed

lemma lowest_free_fresh: "lowest_free os \<notin> set os"
  and lowest_free_nonneg: "0 \<le> lowest_free os"
  and lowest_free_least: "0 \<le> j \<Longrightarrow> j < lowest_free os \<Longrightarrow> j \<in> set os"
proof -
  have "card (set os \<inter> {int 0..}) \<le> card (set os)" by (rule card_mono) auto
  also have "\<dots> \<le> length os" by (rule card_length)
  finally show "lowest_free os \<notin> set os" unfolding lowest_free_def by (rule free_from_fresh)
  show "0 \<le> lowest_free os" using free_from_ge [of 0] by (simp add: lowest_free_def)
  show "0 \<le> j \<Longrightarrow> j < lowest_free os \<Longrightarrow> j \<in> set os"
    using free_from_least [of 0 j] by (simp add: lowest_free_def)
qed

text \<open>
  \<open>Accept\<close> that returns has skipped aborted connections only, and opened the lowest free
  descriptor on the first connection behind them.
\<close>

definition accepted :: "int \<Rightarrow> world \<Rightarrow> world \<Rightarrow> bool" where
  "accepted fd w w' \<longleftrightarrow> fd = lowest_free (opened w) \<and> opened w' = fd # opened w \<and>
     (\<forall>g. g \<noteq> fd \<longrightarrow> rds w' g = rds w g \<and> wrs w' g = wrs w g \<and> got w' g = got w g \<and> sent w' g = sent w g) \<and>
     got w' fd = [] \<and> sent w' fd = [] \<and>
     (\<exists>es b. backlog w = map Inl es @ Inr (rds w' fd, wrs w' fd) # b \<and> backlog w' = b \<and>
        set es \<subseteq> {EPROTO, ECONNABORTED})"

lemma w_Accept_Ret: "w_Accept w = Ret (fd, w') \<Longrightarrow> accepted fd w w'"
proof (induction w rule: w_Accept.induct)
  case (1 w)
  note unf = w_Accept.simps [of w]
  show ?case
  proof (cases "w_accept w")
    case (Ret p)
    then obtain r w1 where r: "w_accept w = Ret (r, w1)" by (cases p) auto
    show ?thesis
    proof (cases r)
      case (Inr g)
      then have "g = fd" "w1 = w'" using 1(2) r by (simp_all add: unf)
      then show ?thesis using r Inr
        by (auto simp: w_accept.simps accepted_def Let_def split: list.splits sum.splits
            intro!: exI [of _ "[]"])
    next
      case (Inl e)
      then have e: "e = EPROTO \<or> e = ECONNABORTED" and w: "w_Accept w1 = Ret (fd, w')"
        using 1(2) r by (simp_all add: unf split: if_splits)
      obtain b1 where b: "backlog w = Inl e # b1" "w1 = w\<lparr>backlog := b1\<rparr>"
        using r Inl by (auto simp: w_accept.simps Let_def split: list.splits sum.splits)
      from 1(1) [OF r refl Inl e w] obtain es bl where
        a: "fd = lowest_free (opened w1)" "opened w' = fd # opened w1"
        "\<forall>g. g \<noteq> fd \<longrightarrow> rds w' g = rds w1 g \<and> wrs w' g = wrs w1 g \<and> got w' g = got w1 g \<and> sent w' g = sent w1 g"
        "got w' fd = []" "sent w' fd = []"
        "backlog w1 = map Inl es @ Inr (rds w' fd, wrs w' fd) # bl" "backlog w' = bl"
        "set es \<subseteq> {EPROTO, ECONNABORTED}"
        unfolding accepted_def by blast
      have "backlog w = map Inl (e # es) @ Inr (rds w' fd, wrs w' fd) # bl" "set (e # es) \<subseteq> {EPROTO, ECONNABORTED}"
        using b a(6,8) e by auto
      with a(1-5,7) show ?thesis unfolding accepted_def b(2)
        by (intro conjI exI [of _ "e # es"] exI [of _ bl]) simp_all
    qed
  qed (use 1(2) in \<open>simp_all add: unf\<close>)
qed

section \<open>The messages of the wrappers\<close>

lemma writen_loop_not_Fatal: "writen_loop n left out k \<noteq> Fatal m"
proof (induction n left out k rule: writen_loop.induct)
  case (1 n left out k)
  then show ?case
    by (auto simp: writen_loop.simps [of n left out k] split: run.split sum.split)
qed

lemma w_read_not_Fatal: "w_read fd n w \<noteq> Fatal m"
  by (auto simp: w_read_def run_bind_Fatal_conv)

lemma w_Read_Fatal: "w_Read fd n w = Fatal m \<Longrightarrow> m = ''read error''"
proof -
  assume f: "w_Read fd n w = Fatal m"
  show "m = ''read error''"
  proof (cases "w_read fd n w")
    case (Ret p)
    obtain r w1 where "p = (r, w1)" by (cases p)
    then show ?thesis using f Ret by (cases r) (simp_all add: w_Read_def)
  qed (use f w_read_not_Fatal in \<open>simp_all add: w_Read_def\<close>)
qed

lemma w_Writen_Fatal: "w_Writen fd bs w = Fatal m \<Longrightarrow> m = ''writen error''"
  using writen_loop_not_Fatal
  by (auto simp: w_Writen_def Writen_def writen_def run_bind_Fatal_conv split: if_splits)

lemma w_Close_Fatal: "w_Close fd w = Fatal m \<Longrightarrow> m = ''close error''"
  by (auto simp: w_Close_def split: if_splits)

lemmas wrapper_Fatal = w_Read_Fatal w_Writen_Fatal w_Close_Fatal

lemma w_accept_not_Fatal: "w_accept w \<noteq> Fatal m"
  by (auto simp: w_accept.simps Let_def split: list.splits sum.splits)

lemma w_Accept_Fatal: "w_Accept w = Fatal m \<Longrightarrow> m = ''accept error''"
proof (induction w rule: w_Accept.induct)
  case (1 w)
  then show ?case using w_accept_not_Fatal
    by (auto simp: w_Accept.simps [of w] split: run.splits sum.splits if_splits)
qed

end
