(* ===== verification/Echo.thy ===== *)
theory Echo
  imports Kernel
begin

text \<open>
  The echo service of one connection: \<open>str_echo\<close> (\<open>lib/str_echo.c\<close>, and the copy in
  \<open>my-src/Chapter-06\<close>), which the forking servers run in each child.
\<close>

function str_echo :: "int \<Rightarrow> world \<Rightarrow> world run" where
  "str_echo fd w =
     (case w_read fd MAXLINE w of
        Blocked \<Rightarrow> Blocked
      | Fatal m \<Rightarrow> Fatal m
      | Ret (Inl e, w1) \<Rightarrow>
          if e = EINTR then str_echo fd w1 else Fatal ''str_echo: read error''
      | Ret (Inr bs, w1) \<Rightarrow>
          if bs = [] then Ret w1
          else (case w_Writen fd bs w1 of
                  Ret w2 \<Rightarrow> str_echo fd w2
                | Fatal m \<Rightarrow> Fatal m
                | Blocked \<Rightarrow> Blocked))"
  by pat_completeness auto

lemma w_read_size: "w_read fd n w = Ret (r, w') \<Longrightarrow> 0 < n \<Longrightarrow> rd_size (rds w' fd) < rd_size (rds w fd)"
  using w_read_Ret [of fd n w r w'] sys_read_size by fastforce

lemma w_Writen_rds: "w_Writen fd bs w = Ret w' \<Longrightarrow> rds w' = rds w"
  using w_Writen_Ret [of fd bs w w'] by auto

termination str_echo
  by (relation "measure (\<lambda>(fd, w). rd_size (rds w fd))")
    (auto dest!: w_read_size [OF _ MAXLINE_pos] simp: w_Writen_rds)

declare str_echo.simps [simp del]

section \<open>What comes back\<close>

definition others_same :: "int \<Rightarrow> world \<Rightarrow> world \<Rightarrow> bool" where
  "others_same fd w w' \<longleftrightarrow> opened w' = opened w \<and> backlog w' = backlog w \<and>
     (\<forall>g. g \<noteq> fd \<longrightarrow> rds w' g = rds w g \<and> wrs w' g = wrs w g \<and> got w' g = got w g \<and> sent w' g = sent w g)"

lemma others_same_refl: "others_same fd w w"
  by (simp add: others_same_def)

lemma others_same_trans: "others_same fd w v \<Longrightarrow> others_same fd v u \<Longrightarrow> others_same fd w u"
  by (simp add: others_same_def)

lemma w_read_others: "w_read fd n w = Ret (r, w') \<Longrightarrow> others_same fd w w'"
  using w_read_Ret [of fd n w r w'] by (auto simp: others_same_def split: sum.splits)

lemma w_Writen_others: "w_Writen fd bs w = Ret w' \<Longrightarrow> others_same fd w w'"
  using w_Writen_Ret [of fd bs w w'] by (auto simp: others_same_def)

lemma w_read_data:
  "w_read fd n w = Ret (Inr bs, w') \<Longrightarrow> 0 < n \<Longrightarrow>
     got w' fd = got w fd @ bs \<and> sent w' = sent w \<and> wrs w' = wrs w \<and>
     rd_bytes (rds w fd) = bs @ rd_bytes (rds w' fd)"
  using w_read_Ret [of fd n w "Inr bs" w'] sys_read_bytes by auto

lemma w_read_error:
  "w_read fd n w = Ret (Inl e, w') \<Longrightarrow>
     got w' = got w \<and> sent w' = sent w \<and> wrs w' = wrs w \<and> rds w fd = RdErr e # rds w' fd"
  using w_read_Ret [of fd n w "Inl e" w'] sys_read_err by auto

lemma w_Writen_data:
  "w_Writen fd bs w = Ret w' \<Longrightarrow> sent w' fd = sent w fd @ bs \<and> got w' = got w \<and> rds w' = rds w"
  using w_Writen_Ret [of fd bs w w'] by auto

lemma str_echo_Ret:
  assumes "str_echo fd w = Ret w'"
  shows "others_same fd w w' \<and> (\<exists>bs. got w' fd = got w fd @ bs \<and> sent w' fd = sent w fd @ bs \<and>
     rd_bytes (rds w fd) = bs @ rd_bytes (rds w' fd))"
  using assms
proof (induction fd w rule: str_echo.induct)
  case (1 fd w)
  note unf = str_echo.simps [of fd w]
  show ?case
  proof (cases "w_read fd MAXLINE w")
    case (Ret p)
    then obtain r w1 where r: "w_read fd MAXLINE w = Ret (r, w1)" by (cases p) auto
    note o1 = w_read_others [OF r]
    show ?thesis
    proof (cases r)
      case (Inl e)
      then have "e = EINTR" and s: "str_echo fd w1 = Ret w'" using 1(3) r by (auto simp: unf split: if_splits)
      with 1(1) [OF r refl Inl] others_same_trans [OF o1, of w'] w_read_error [OF r [unfolded Inl]]
      show ?thesis by simp
    next
      case (Inr bs)
      note d = w_read_data [OF r [unfolded Inr] MAXLINE_pos]
      show ?thesis
      proof (cases "bs = []")
        case True
        then have "w1 = w'" using 1(3) r Inr by (simp add: unf)
        with d o1 True show ?thesis by auto
      next
        case False
        then obtain w2 where wr: "w_Writen fd bs w1 = Ret w2" and s: "str_echo fd w2 = Ret w'"
          using 1(3) r Inr by (auto simp: unf split: run.splits)
        note o = others_same_trans [OF o1 others_same_trans [OF w_Writen_others [OF wr]]]
        from 1(2) [OF r refl Inr False wr s] d w_Writen_data [OF wr] o [of w'] show ?thesis by auto
      qed
    qed
  qed (use 1(3) in \<open>simp_all add: unf\<close>)
qed

section \<open>Progress\<close>

fun rooms :: "wr_event list \<Rightarrow> nat" where
  "rooms [] = 0"
| "rooms (Room m # k) = Suc (rooms k)"
| "rooms (WrErr e # k) = rooms k"

text \<open>A buffer of \<open>n\<close> bytes uses up at most \<open>n\<close> acceptances.\<close>

lemma writen_loop_rooms:
  assumes "calm_wr k" and "length left \<le> rooms k"
  shows "\<exists>k'. writen_loop n left out k = Ret (int n, out @ left, k') \<and> calm_wr k' \<and>
    rooms k \<le> rooms k' + length left"
  using assms
proof (induction k arbitrary: left out)
  case (Cons ev k)
  show ?case
  proof (cases "left = []")
    case False
    show ?thesis
    proof (cases ev)
      case (Room m)
      with Cons.prems False have "calm_wr k" "0 < m" "length (drop m left) \<le> rooms k"
        by (cases left; auto)+
      then obtain k' where k: "writen_loop n (drop m left) (out @ take m left) k = Ret (int n, out @ left, k')"
        "calm_wr k'" "rooms k \<le> rooms k' + length (drop m left)"
        using Cons.IH [of "drop m left" "out @ take m left"] by auto
      have "length (drop m left) < length left" using \<open>0 < m\<close> False by (cases left) auto
      with k(3) have "Suc (rooms k) \<le> rooms k' + length left" by linarith
      then show ?thesis
        using Room False \<open>0 < m\<close> k by (intro exI [of _ k']) (simp add: writen_loop_Room)
    next
      case (WrErr e)
      with Cons.prems Cons.IH [of left out] False show ?thesis by (simp add: writen_loop_EINTR)
    qed
  qed (use Cons.prems in simp)
qed simp

lemma w_Writen_progress:
  assumes "calm_wr (wrs w fd)" and "length bs \<le> rooms (wrs w fd)"
  shows "\<exists>w'. w_Writen fd bs w = Ret w' \<and> calm_wr (wrs w' fd) \<and>
    rooms (wrs w fd) \<le> rooms (wrs w' fd) + length bs"
  using writen_loop_rooms [OF assms, of "length bs" "[]"]
  by (auto simp: w_Writen_def Writen_def writen_def)

text \<open>A stream of data and interrupted calls, closed at its end.\<close>

fun closed_rd :: "rd_event list \<Rightarrow> bool" where
  "closed_rd [] = False"
| "closed_rd (Seg bs # k) = (if bs = [] then k = [] else closed_rd k)"
| "closed_rd (RdErr e # k) = (e = EINTR \<and> closed_rd k)"

lemma sys_read_closed:
  assumes "closed_rd k" and "0 < n"
  shows "\<exists>r k'. sys_read n k = Ret (r, k') \<and> (r = Inl EINTR \<and> closed_rd k' \<or> r = Inr [] \<and> k' = []
    \<or> (\<exists>bs. r = Inr bs \<and> bs \<noteq> [] \<and> closed_rd k'))"
  using assms by (cases "(n, k)" rule: sys_read.cases) (auto split: if_splits)

lemma str_echo_progress:
  assumes "closed_rd (rds w fd)" and "calm_wr (wrs w fd)"
    and "length (rd_bytes (rds w fd)) \<le> rooms (wrs w fd)"
  shows "\<exists>w'. str_echo fd w = Ret w' \<and> rds w' fd = []"
  using assms
proof (induction fd w rule: str_echo.induct)
  case (1 fd w)
  note unf = str_echo.simps [of fd w]
  obtain r k where r: "sys_read MAXLINE (rds w fd) = Ret (r, k)"
    and c: "r = Inl EINTR \<and> closed_rd k \<or> r = Inr [] \<and> k = [] \<or> (\<exists>bs. r = Inr bs \<and> bs \<noteq> [] \<and> closed_rd k)"
    using sys_read_closed [OF 1(3) MAXLINE_pos] by blast
  then obtain w1 where w1: "w_read fd MAXLINE w = Ret (r, w1)" "rds w1 fd = k"
    by (simp add: w_read_def)
  from c show ?case
  proof (elim disjE conjE exE)
    assume "r = Inr []" "k = []"
    then show ?thesis using w1 by (simp add: unf)
  next
    assume e: "r = Inl EINTR" "closed_rd k"
    with w_read_error [of fd MAXLINE w EINTR w1] w1 have "wrs w1 = wrs w" "rd_bytes (rds w fd) = rd_bytes (rds w1 fd)" by auto
    with 1(1) [OF w1(1) refl e(1) refl] e 1(4,5) w1 show ?thesis by (simp add: unf)
  next
    fix bs assume e: "r = Inr bs" "bs \<noteq> []" "closed_rd k"
    note d = w_read_data [OF w1(1) [unfolded e(1)] MAXLINE_pos]
    obtain w2 where w2: "w_Writen fd bs w1 = Ret w2" "calm_wr (wrs w2 fd)"
      "rooms (wrs w1 fd) \<le> rooms (wrs w2 fd) + length bs"
      using w_Writen_progress [of w1 fd bs] d 1(4,5) by auto
    have "length (rd_bytes (rds w2 fd)) \<le> rooms (wrs w2 fd)"
      using w2(3) d 1(5) w_Writen_rds [OF w2(1)] by auto
    with 1(2) [OF w1(1) refl e(1,2) w2(1)] w2 e w1 w_Writen_rds [OF w2(1)] show ?thesis by (simp add: unf)
  qed
qed

section \<open>Properties\<close>

text \<open>
  The echo service is the identity on a connection: when the client's data, cut into
  segments in any way and with interrupted reads, ends with end-of-file and the kernel keeps
  accepting, \<open>str_echo\<close> returns, and what it has sent is exactly what it has read, the whole
  stream; no other descriptor is touched.
\<close>
lemma str_echo_identity:
  assumes "closed_rd (rds w fd)" and "calm_wr (wrs w fd)"
    and "length (rd_bytes (rds w fd)) \<le> rooms (wrs w fd)"
  shows "\<exists>w'. str_echo fd w = Ret w' \<and> sent w' fd = sent w fd @ rd_bytes (rds w fd) \<and>
    got w' fd = got w fd @ rd_bytes (rds w fd) \<and> others_same fd w w'"
proof -
  obtain w' where "str_echo fd w = Ret w'" "rds w' fd = []" using str_echo_progress [OF assms] by blast
  with str_echo_Ret [of fd w w'] show ?thesis by auto
qed

definition demo_world :: "int \<Rightarrow> rd_event list \<Rightarrow> wr_event list \<Rightarrow> world" where
  "demo_world fd r k = \<lparr>rds = (\<lambda>_. [])(fd := r), wrs = (\<lambda>_. [])(fd := k), got = (\<lambda>_. []),
     sent = (\<lambda>_. []), opened = [fd], backlog = []\<rparr>"

lemma str_echo_identity_witness:
  "\<exists>w'. str_echo 4 (demo_world 4 [Seg [1, 2], RdErr EINTR, Seg [3], Seg []] [Room 1, Room 9, Room 9]) = Ret w' \<and>
     sent w' 4 = [1, 2, 3] \<and> got w' 4 = [1, 2, 3] \<and>
     others_same 4 (demo_world 4 [Seg [1, 2], RdErr EINTR, Seg [3], Seg []] [Room 1, Room 9, Room 9]) w'"
  using str_echo_identity [of "demo_world 4 [Seg [1, 2], RdErr EINTR, Seg [3], Seg []] [Room 1, Room 9, Room 9]" 4]
  by (simp add: demo_world_def)

end
