(* ===== verification/Client_Table.thy ===== *)
theory Client_Table
  imports Echo
begin

text \<open>
  What the servers with one process and many clients share: a table of client descriptors
  with free slots, the service of one ready descriptor, and the pass over the ready
  descriptors of an iteration.
\<close>

section \<open>The pass over the ready clients\<close>

text \<open>
  The abstract pass: serve the given descriptors one after the other; the service tells
  whether it closed the connection.  The result lists the closed ones.
\<close>

fun serve_list :: "(int \<Rightarrow> world \<Rightarrow> (bool \<times> world) run) \<Rightarrow> int list \<Rightarrow> world \<Rightarrow> (int list \<times> world) run" where
  "serve_list serve [] w = Ret ([], w)"
| "serve_list serve (fd # fds) w =
     run_bind (serve fd w) (\<lambda>(c, w1).
     run_bind (serve_list serve fds w1) (\<lambda>(cl, w2). Ret (if c then fd # cl else cl, w2)))"

text \<open>
  One echo: either some bytes were read from the descriptor and the same bytes sent back on
  it, or it was closed; nothing else changes.
\<close>

definition same_at :: "int \<Rightarrow> world \<Rightarrow> world \<Rightarrow> bool" where
  "same_at g w w' \<longleftrightarrow> rds w' g = rds w g \<and> wrs w' g = wrs w g \<and> got w' g = got w g \<and> sent w' g = sent w g"

definition echoed :: "int \<Rightarrow> bool \<Rightarrow> world \<Rightarrow> world \<Rightarrow> bool" where
  "echoed fd c w w' \<longleftrightarrow> backlog w' = backlog w \<and> (\<forall>g. g \<noteq> fd \<longrightarrow> same_at g w w') \<and>
     rd_size (rds w' fd) < rd_size (rds w fd) \<and>
     (if c then fd \<in> set (opened w) \<and> opened w' = removeAll fd (opened w) \<and>
        got w' fd = got w fd \<and> sent w' fd = sent w fd
      else opened w' = opened w \<and> (\<exists>bs. bs \<noteq> [] \<and> got w' fd = got w fd @ bs \<and> sent w' fd = sent w fd @ bs \<and>
        rd_bytes (rds w fd) = bs @ rd_bytes (rds w' fd)))"

lemma same_at_refl [simp]: "same_at g w w"
  by (simp add: same_at_def)

lemma same_at_trans: "same_at g w v \<Longrightarrow> same_at g v u \<Longrightarrow> same_at g w u"
  by (simp add: same_at_def)

text \<open>What a turn has done for a client: some bytes read and sent back, or closed.\<close>

definition served :: "int \<Rightarrow> bool \<Rightarrow> world \<Rightarrow> world \<Rightarrow> bool" where
  "served g kept w w' \<longleftrightarrow>
     (if kept then \<exists>bs. bs \<noteq> [] \<and> got w' g = got w g @ bs \<and> sent w' g = sent w g @ bs \<and> rd_bytes (rds w g) = bs @ rd_bytes (rds w' g)
      else g \<notin> set (opened w') \<and> sent w' g = sent w g)"

lemma served_from: "same_at g w v \<Longrightarrow> served g kept v w' \<Longrightarrow> served g kept w w'"
  by (cases kept) (simp_all add: served_def same_at_def)

lemma accepted_same: "accepted g w w1 \<Longrightarrow> fd \<noteq> g \<Longrightarrow> same_at fd w w1"
  by (simp add: accepted_def same_at_def)

locale client_service =
  fixes serve :: "int \<Rightarrow> world \<Rightarrow> (bool \<times> world) run"
  assumes serve_echoed: "serve fd w = Ret (c, w') \<Longrightarrow> echoed fd c w w'"
begin

text \<open>
  A pass serves every descriptor it is given exactly once and leaves all others alone; what
  stays open is what was open less the closed ones.
\<close>

lemma pass:
  assumes "serve_list serve fds w = Ret (cl, w')" and "distinct fds"
  shows "set cl \<subseteq> set fds" and "backlog w' = backlog w" and "set (opened w') = set (opened w) - set cl"
    and "set cl \<subseteq> set (opened w)"
    and "\<And>g. g \<notin> set fds \<Longrightarrow> same_at g w w'"
    and "\<And>g. g \<in> set fds \<Longrightarrow> \<exists>v v'. echoed g (g \<in> set cl) v v' \<and> same_at g w v \<and> same_at g v' w'"
proof -
  have "set cl \<subseteq> set fds \<and> backlog w' = backlog w \<and> set (opened w') = set (opened w) - set cl \<and>
    set cl \<subseteq> set (opened w) \<and> (\<forall>g. g \<notin> set fds \<longrightarrow> same_at g w w') \<and>
    (\<forall>g \<in> set fds. \<exists>v v'. echoed g (g \<in> set cl) v v' \<and> same_at g w v \<and> same_at g v' w')"
    using assms
  proof (induction fds arbitrary: w cl)
    case (Cons fd fds)
    then obtain c w1 cl1 where s: "serve fd w = Ret (c, w1)" and r: "serve_list serve fds w1 = Ret (cl1, w')"
      and cl: "cl = (if c then fd # cl1 else cl1)"
      by (auto simp: run_bind_Ret_conv)
    note e = serve_echoed [OF s]
    from Cons.IH [OF r] Cons.prems(2) have ih: "set cl1 \<subseteq> set fds" "backlog w' = backlog w1"
      "set (opened w') = set (opened w1) - set cl1" "set cl1 \<subseteq> set (opened w1)"
      "\<And>g. g \<notin> set fds \<Longrightarrow> same_at g w1 w'"
      "\<And>g. g \<in> set fds \<Longrightarrow> \<exists>v v'. echoed g (g \<in> set cl1) v v' \<and> same_at g w1 v \<and> same_at g v' w'"
      by auto
    have fd: "fd \<notin> set fds" using Cons.prems(2) by simp
    have o: "\<And>g. g \<noteq> fd \<Longrightarrow> same_at g w w1" "backlog w1 = backlog w"
      "set (opened w1) = set (opened w) - (if c then {fd} else {})" "c \<Longrightarrow> fd \<in> set (opened w)"
      using e by (auto simp: echoed_def split: if_splits)
    have each: "\<exists>v v'. echoed g (g \<in> set cl) v v' \<and> same_at g w v \<and> same_at g v' w'"
      if g: "g \<in> set (fd # fds)" for g
    proof (cases "g = fd")
      case True
      have "fd \<in> set cl \<longleftrightarrow> c" using cl fd ih(1) by auto
      with e ih(5) [OF fd] True show ?thesis by (intro exI [of _ w] exI [of _ w1]) simp
    next
      case False
      then obtain v v' where "echoed g (g \<in> set cl1) v v'" "same_at g w1 v" "same_at g v' w'"
        using g ih(6) [of g] by auto
      with o(1) [OF False] False cl show ?thesis
        by (intro exI [of _ v] exI [of _ v']) (auto intro: same_at_trans)
    qed
    have frame: "same_at g w w'" if "g \<notin> set (fd # fds)" for g
      using that o(1) [of g] ih(5) [of g] by (auto intro: same_at_trans)
    show ?case
      using ih(1-4) o(2-4) cl each frame fd by (auto split: if_splits)
  qed simp
  then show "set cl \<subseteq> set fds" and "backlog w' = backlog w" and "set (opened w') = set (opened w) - set cl"
    and "set cl \<subseteq> set (opened w)"
    and "\<And>g. g \<notin> set fds \<Longrightarrow> same_at g w w'"
    and "\<And>g. g \<in> set fds \<Longrightarrow> \<exists>v v'. echoed g (g \<in> set cl) v v' \<and> same_at g w v \<and> same_at g v' w'"
    by auto
qed

text \<open>What each connection of the pass sees: its bytes echoed, or its end.\<close>

lemma pass_served:
  assumes "serve_list serve fds w = Ret (cl, w')" and "distinct fds" and "g \<in> set fds"
  shows "served g (g \<notin> set cl) w w'"
  using pass(6) [OF assms] pass(3) [OF assms(1,2)] by (auto simp: echoed_def same_at_def served_def)

end

section \<open>The table\<close>

text \<open>No descriptor is in two slots.\<close>

definition uniq_fds :: "int list \<Rightarrow> bool" where
  "uniq_fds xs \<longleftrightarrow> (\<forall>i j. i < length xs \<and> j < length xs \<and> 0 \<le> xs ! i \<and> xs ! i = xs ! j \<longrightarrow> i = j)"

lemma uniq_fds_update:
  assumes "uniq_fds xs" and "fd < 0 \<or> fd \<notin> set xs"
  shows "uniq_fds (xs[i := fd])"
  unfolding uniq_fds_def
proof (intro allI impI, elim conjE)
  fix a b assume h: "a < length (xs[i := fd])" "b < length (xs[i := fd])"
    "0 \<le> xs[i := fd] ! a" "xs[i := fd] ! a = xs[i := fd] ! b"
  then show "a = b"
    using assms unfolding uniq_fds_def
    by (cases "a = i"; cases "b = i") (auto simp: in_set_conv_nth)
qed

lemma uniq_fds_card:
  assumes "uniq_fds xs" and "\<forall>x \<in> set xs. 0 \<le> x"
  shows "card (set xs) = length xs"
  using assms by (intro distinct_card) (auto simp: uniq_fds_def distinct_conv_nth)

lemma live_update:
  assumes "i < length xs" and "xs ! i < 0" and "0 \<le> fd"
  shows "{x \<in> set (xs[i := fd]). 0 \<le> x} = insert fd {x \<in> set xs. 0 \<le> (x :: int)}"
proof -
  obtain a y b where xs: "xs = a @ y # b" "length a = i" "y < 0"
    using id_take_nth_drop [OF assms(1)] assms(1,2) by (metis length_take min.absorb4)
  then show ?thesis using assms(3) by (auto simp: list_update_append)
qed

text \<open>The descriptors in \<open>cl\<close> are replaced by the free mark.\<close>

definition drop_fds :: "int list \<Rightarrow> int list \<Rightarrow> int list" where
  "drop_fds cl = map (\<lambda>fd. if fd \<in> set cl then -1 else fd)"

lemma drop_fds_Nil [simp]: "drop_fds [] xs = xs"
  by (simp add: drop_fds_def)

lemma drop_fds_length [simp]: "length (drop_fds cl xs) = length xs"
  by (simp add: drop_fds_def)

lemma drop_fds_Cons:
  assumes "uniq_fds xs" and "i < length xs" and "0 \<le> xs ! i"
  shows "drop_fds (xs ! i # cl) xs = drop_fds cl (xs[i := -1])"
proof (rule nth_equalityI)
  fix j assume j: "j < length (drop_fds (xs ! i # cl) xs)"
  show "drop_fds (xs ! i # cl) xs ! j = drop_fds cl (xs[i := -1]) ! j"
    using j assms unfolding uniq_fds_def drop_fds_def by (cases "j = i") auto
qed simp

lemma uniq_fds_drop_fds: "uniq_fds xs \<Longrightarrow> uniq_fds (drop_fds cl xs)"
  unfolding uniq_fds_def drop_fds_def by (auto split: if_splits)

lemma drop_fds_live:
  "{fd \<in> set (drop_fds cl xs). 0 \<le> fd} = {fd \<in> set xs. 0 \<le> fd} - set cl"
  by (auto simp: drop_fds_def)

text \<open>
  \<open>fds t\<close> is the column of descriptors, a negative one marking a free slot; \<open>put\<close> stores a
  descriptor in the first free slot from \<open>base\<close> on, and \<open>clear\<close> frees a slot.
\<close>

locale slot_table =
  fixes base :: nat
    and fds :: "'t \<Rightarrow> int list"
    and put :: "int \<Rightarrow> 't \<Rightarrow> (nat \<times> 't) option"
    and clear :: "nat \<Rightarrow> 't \<Rightarrow> 't"
  assumes put_Some: "put fd t = Some (i, t') \<Longrightarrow> base \<le> i \<and> i < length (fds t) \<and> fds t ! i < 0 \<and>
      fds t' = (fds t)[i := fd] \<and> (\<forall>j. base \<le> j \<and> j < i \<longrightarrow> 0 \<le> fds t ! j)"
    and put_None: "put fd t = None \<Longrightarrow> base \<le> j \<Longrightarrow> j < length (fds t) \<Longrightarrow> 0 \<le> fds t ! j"
    and clear: "fds (clear i t) = (fds t)[i := -1]"
begin

definition live :: "'t \<Rightarrow> int set" where
  "live t = {fd \<in> set (drop base (fds t)). 0 \<le> fd}"

definition once :: "'t \<Rightarrow> bool" where
  "once t \<longleftrightarrow> uniq_fds (drop base (fds t))"

lemma put_live:
  assumes "put fd t = Some (i, t')" and "0 \<le> fd"
  shows "live t' = insert fd (live t)"
proof -
  note p = put_Some [OF assms(1)]
  have "drop base (fds t') = (drop base (fds t))[i - base := fd]" using p by (simp add: drop_update_swap)
  moreover have "i - base < length (drop base (fds t))" "drop base (fds t) ! (i - base) < 0" using p by auto
  ultimately show ?thesis using live_update [OF _ _ assms(2)] by (simp add: live_def)
qed

text \<open>A full table holds one live descriptor per slot.\<close>

lemma full_count:
  assumes "put fd t = None" and "once t"
  shows "card (live t) = length (fds t) - base"
proof -
  have p: "\<forall>x \<in> set (drop base (fds t)). 0 \<le> x"
    using put_None [OF assms(1)] by (auto simp: in_set_conv_nth)
  then have "live t = set (drop base (fds t))" by (auto simp: live_def)
  with uniq_fds_card [OF _ p] assms(2) show ?thesis by (simp add: once_def)
qed

end

end
