(* ===== verification/Select_Server.thy ===== *)
theory Select_Server
  imports Client_Table
begin

text \<open>
  The echo server of \<open>tcpcliserv/tcpservselect01.c\<close>: one process, \<open>select\<close>, and the array
  \<open>client[]\<close> of connected descriptors.  \<open>FD_SETSIZE\<close> is the length of the array.  The sets of descriptors have no
  bound here; \<open>FD_SET\<close> of a descriptor from \<open>FD_SETSIZE\<close> on, which the program does not exclude, is undefined in C.
\<close>

section \<open>State and operations\<close>

record sel_state =
  client :: "int list"
  maxi :: int
  maxfd :: int
  allset :: "int set"

definition sel_init :: "nat \<Rightarrow> int \<Rightarrow> sel_state" where
  "sel_init setsize listenfd =
     \<lparr>client = replicate setsize (-1), maxi = -1, maxfd = listenfd, allset = {listenfd}\<rparr>"

text \<open>The search \<open>for (i = 0; i < FD_SETSIZE; i++) if (client[i] < 0)\<close>.\<close>

fun free_slot :: "int list \<Rightarrow> nat option" where
  "free_slot [] = None"
| "free_slot (fd # fds) = (if fd < 0 then Some 0 else map_option Suc (free_slot fds))"

definition sel_put :: "int \<Rightarrow> sel_state \<Rightarrow> (nat \<times> sel_state) option" where
  "sel_put connfd s =
     (case free_slot (client s) of
        None \<Rightarrow> None
      | Some i \<Rightarrow> Some (i, s\<lparr>client := (client s)[i := connfd]\<rparr>))"

definition sel_free :: "nat \<Rightarrow> sel_state \<Rightarrow> sel_state" where
  "sel_free i s = s\<lparr>client := (client s)[i := -1]\<rparr>"

text \<open>The body for one readable client: whether it was closed.\<close>

definition sel_client :: "int \<Rightarrow> world \<Rightarrow> (bool \<times> world) run" where
  "sel_client sockfd w =
     run_bind (w_Read sockfd MAXLINE w) (\<lambda>(bs, w1).
       if bs = [] then run_bind (w_Close sockfd w1) (\<lambda>w2. Ret (True, w2))
       else run_bind (w_Writen sockfd bs w1) (\<lambda>w2. Ret (False, w2)))"

text \<open>
  The loop over \<open>client[i..maxi]\<close>, \<open>m\<close> slots of it left, with its \<open>continue\<close> on a free slot
  and its \<open>break\<close> when \<open>nready\<close> is used up.
\<close>

fun sel_serve :: "int set \<Rightarrow> nat \<Rightarrow> nat \<Rightarrow> int \<Rightarrow> sel_state \<Rightarrow> world \<Rightarrow> (sel_state \<times> world) run" where
  "sel_serve rset i 0 nready s w = Ret (s, w)"
| "sel_serve rset i (Suc m) nready s w =
     (let sockfd = client s ! i in
      if sockfd < 0 then sel_serve rset (Suc i) m nready s w
      else if sockfd \<in> rset then
        run_bind (sel_client sockfd w) (\<lambda>(closed, w1).
          let s1 = (if closed then sel_free i (s\<lparr>allset := allset s - {sockfd}\<rparr>) else s) in
          if nready - 1 \<le> 0 then Ret (s1, w1)
          else sel_serve rset (Suc i) m (nready - 1) s1 w1)
      else sel_serve rset (Suc i) m nready s w)"

definition sel_slots :: "sel_state \<Rightarrow> nat" where
  "sel_slots s = nat (maxi s + 1)"

text \<open>A new connection: stored, added to the set, and the two maxima raised.\<close>

definition sel_add :: "int \<Rightarrow> sel_state \<Rightarrow> sel_state run" where
  "sel_add connfd s =
     (case sel_put connfd s of
        None \<Rightarrow> Fatal ''too many clients''
      | Some (i, s1) \<Rightarrow>
          Ret (s1\<lparr>allset := insert connfd (allset s1), maxfd := max connfd (maxfd s1),
            maxi := max (int i) (maxi s1)\<rparr>))"

text \<open>One iteration, given what \<open>select\<close> stored in \<open>rset\<close> and returned.\<close>

definition sel_iter :: "int \<Rightarrow> int set \<Rightarrow> int \<Rightarrow> sel_state \<Rightarrow> world \<Rightarrow> (sel_state \<times> world) run" where
  "sel_iter listenfd rset nready s w =
     (if listenfd \<in> rset then
        run_bind (w_Accept w) (\<lambda>(connfd, w1).
        run_bind (sel_add connfd s) (\<lambda>s1.
          if nready - 1 \<le> 0 then Ret (s1, w1)
          else sel_serve rset 0 (sel_slots s1) (nready - 1) s1 w1))
      else sel_serve rset 0 (sel_slots s) nready s w)"

text \<open>
  The program as a relation: \<open>select\<close> reports a nonempty part of the set and its size.
\<close>

inductive sel_run :: "nat \<Rightarrow> int \<Rightarrow> world \<Rightarrow> sel_state \<Rightarrow> world \<Rightarrow> bool" for setsize listenfd w0 where
  start: "sel_run setsize listenfd w0 (sel_init setsize listenfd) w0"
| iterate: "sel_run setsize listenfd w0 s w \<Longrightarrow> rset \<subseteq> allset s \<Longrightarrow> rset \<noteq> {} \<Longrightarrow> nready = int (card rset) \<Longrightarrow>
    sel_iter listenfd rset nready s w = Ret (s', w') \<Longrightarrow> sel_run setsize listenfd w0 s' w'"

section \<open>The interfaces\<close>

lemma free_slot_Some: "free_slot xs = Some i \<Longrightarrow> i < length xs \<and> xs ! i < 0 \<and> (\<forall>j < i. 0 \<le> xs ! j)"
  by (induction xs arbitrary: i) (auto simp: nth_Cons less_Suc_eq_0_disj split: if_splits nat.splits)

lemma free_slot_None: "free_slot xs = None \<Longrightarrow> j < length xs \<Longrightarrow> 0 \<le> xs ! j"
  by (induction xs arbitrary: j) (auto simp: nth_Cons split: if_splits nat.splits)

interpretation sel_tab: slot_table 0 client sel_put sel_free
proof unfold_locales
  fix fd t i t' j
  show "sel_put fd t = Some (i, t') \<Longrightarrow> 0 \<le> i \<and> i < length (client t) \<and> client t ! i < 0 \<and>
      client t' = (client t)[i := fd] \<and> (\<forall>j. 0 \<le> j \<and> j < i \<longrightarrow> 0 \<le> client t ! j)"
    using free_slot_Some [of "client t" i] by (auto simp: sel_put_def split: option.splits)
  show "sel_put fd t = None \<Longrightarrow> 0 \<le> j \<Longrightarrow> j < length (client t) \<Longrightarrow> 0 \<le> client t ! j"
    using free_slot_None [of "client t" j] by (auto simp: sel_put_def split: option.splits)
  show "client (sel_free i t) = (client t)[i := -1]" by (simp add: sel_free_def)
qed

lemma sel_client_echoed: "sel_client fd w = Ret (c, w') \<Longrightarrow> echoed fd c w w'"
proof -
  assume "sel_client fd w = Ret (c, w')"
  then obtain bs w1 where r: "w_Read fd MAXLINE w = Ret (bs, w1)"
    and c: "(if bs = [] then run_bind (w_Close fd w1) (\<lambda>w2. Ret (True, w2))
      else run_bind (w_Writen fd bs w1) (\<lambda>w2. Ret (False, w2))) = Ret (c, w')"
    by (auto simp: sel_client_def run_bind_Ret_conv)
  from w_Read_Ret [OF r] obtain k where k: "sys_read MAXLINE (rds w fd) = Ret (Inr bs, k)"
    "w1 = w\<lparr>rds := (rds w)(fd := k), got := (got w)(fd := got w fd @ bs)\<rparr>" by blast
  note size = sys_read_size [OF k(1) MAXLINE_pos] and data = sys_read_bytes [OF k(1)]
  show ?thesis
  proof (cases "bs = []")
    case True
    with c k size show ?thesis
      by (auto simp: run_bind_Ret_conv w_Close_Ret echoed_def same_at_def)
  next
    case False
    with c obtain kw where "c = False" "w' = w1\<lparr>wrs := (wrs w1)(fd := kw), sent := (sent w1)(fd := sent w1 fd @ bs)\<rparr>"
      by (auto simp: run_bind_Ret_conv dest!: w_Writen_Ret)
    with k size data False show ?thesis by (simp add: echoed_def same_at_def)
  qed
qed

interpretation sel_svc: client_service sel_client
  by unfold_locales (rule sel_client_echoed)

section \<open>The loop is the pass over the ready clients\<close>

definition sel_drop :: "int list \<Rightarrow> sel_state \<Rightarrow> sel_state" where
  "sel_drop cl s = s\<lparr>client := drop_fds cl (client s), allset := allset s - set cl\<rparr>"

definition ready_in :: "int set \<Rightarrow> int list \<Rightarrow> int list" where
  "ready_in rset xs = filter (\<lambda>fd. 0 \<le> fd \<and> fd \<in> rset) xs"

lemma sel_drop_Nil [simp]: "sel_drop [] s = s"
  by (simp add: sel_drop_def)

lemma sel_drop_Cons:
  assumes "uniq_fds (client s)" and "i < length (client s)" and "0 \<le> client s ! i"
  shows "sel_drop cl (sel_free i (s\<lparr>allset := allset s - {client s ! i}\<rparr>)) = sel_drop (client s ! i # cl) s"
proof -
  have "allset s - {client s ! i} - set cl = allset s - set (client s ! i # cl)" by auto
  then show ?thesis using drop_fds_Cons [OF assms] by (simp add: sel_drop_def sel_free_def)
qed

lemma sel_serve_pass:
  assumes "uniq_fds (client s)" and "i + m \<le> length (client s)"
    and "nready = int (length (ready_in rset (take m (drop i (client s)))))"
  shows "sel_serve rset i m nready s w =
    run_bind (serve_list sel_client (ready_in rset (take m (drop i (client s)))) w)
      (\<lambda>(cl, w'). Ret (sel_drop cl s, w'))"
  using assms
proof (induction m arbitrary: i nready s w)
  case (Suc m)
  let ?fd = "client s ! i"
  have i: "i < length (client s)" using Suc.prems(2) by simp
  then have d: "take (Suc m) (drop i (client s)) = ?fd # take m (drop (Suc i) (client s))"
    by (simp flip: Cons_nth_drop_Suc)
  let ?rest = "ready_in rset (take m (drop (Suc i) (client s)))"
  show ?case
  proof (cases "0 \<le> ?fd \<and> ?fd \<in> rset")
    case False
    then have "ready_in rset (take (Suc m) (drop i (client s))) = ?rest" by (auto simp: d ready_in_def)
    with Suc.IH [of s "Suc i" nready w] Suc.prems False show ?thesis by (auto simp: Let_def)
  next
    case True
    then have r: "ready_in rset (take (Suc m) (drop i (client s))) = ?fd # ?rest" by (auto simp: d ready_in_def)
    show ?thesis
    proof (cases "sel_client ?fd w")
      case (Ret p)
      then obtain c w1 where p: "sel_client ?fd w = Ret (c, w1)" by (cases p) auto
      let ?s1 = "if c then sel_free i (s\<lparr>allset := allset s - {?fd}\<rparr>) else s"
      have c1: "client ?s1 = (if c then (client s)[i := -1] else client s)" by (simp add: sel_free_def)
      have u: "uniq_fds (client ?s1)" using uniq_fds_update [OF Suc.prems(1), of "-1" i] Suc.prems(1)
        by (simp add: c1)
      have dr: "drop (Suc i) (client ?s1) = drop (Suc i) (client s)" by (simp add: c1)
      have n: "nready - 1 = int (length (ready_in rset (take m (drop (Suc i) (client ?s1)))))"
        using Suc.prems(3) r dr by simp
      have ih: "sel_serve rset (Suc i) m (nready - 1) ?s1 w1 =
        run_bind (serve_list sel_client ?rest w1) (\<lambda>(cl, w'). Ret (sel_drop cl ?s1, w'))"
        using Suc.IH [OF u _ n, of w1] Suc.prems(2) dr c1 by simp
      have eq: "sel_drop cl ?s1 = sel_drop (if c then ?fd # cl else cl) s" for cl
        using sel_drop_Cons [OF Suc.prems(1) i] True by simp
      have z: "nready - 1 \<le> 0 \<longleftrightarrow> ?rest = []" using n dr by simp
      have "(if nready - 1 \<le> 0 then Ret (?s1, w1) else sel_serve rset (Suc i) m (nready - 1) ?s1 w1) =
        run_bind (serve_list sel_client ?rest w1) (\<lambda>(cl, w'). Ret (sel_drop (if c then ?fd # cl else cl) s, w'))"
      proof (cases "?rest = []")
        case True
        with z eq [of "[]"] show ?thesis by simp
      next
        case False
        with z ih show ?thesis by (simp only: if_False eq)
      qed
      moreover have "sel_serve rset i (Suc m) nready s w =
        (if nready - 1 \<le> 0 then Ret (?s1, w1) else sel_serve rset (Suc i) m (nready - 1) ?s1 w1)"
        using True p by (simp add: Let_def)
      ultimately show ?thesis
        by (simp only: r serve_list.simps p run_bind.simps prod.case run_bind_assoc) 
          (simp add: case_prod_beta')
    qed (use True r in \<open>simp_all add: Let_def\<close>)
  qed
qed (simp add: ready_in_def)

section \<open>The invariant\<close>

abbreviation sel_live :: "sel_state \<Rightarrow> int set" where
  "sel_live s \<equiv> {fd \<in> set (client s). 0 \<le> fd}"

text \<open>
  \<open>base\<close> are the descriptors the process had before it created the listening socket.  No
  descriptor is lost: what is open is \<open>base\<close>, the listening socket and the live slots.
\<close>

definition sel_inv :: "int set \<Rightarrow> int \<Rightarrow> sel_state \<Rightarrow> world \<Rightarrow> bool" where
  "sel_inv base lfd s w \<longleftrightarrow>
     uniq_fds (client s) \<and> 0 \<le> lfd \<and> lfd \<notin> sel_live s \<and> allset s = insert lfd (sel_live s) \<and>
     set (opened w) = base \<union> allset s \<and> base \<inter> allset s = {} \<and>
     (\<forall>fd \<in> allset s. fd \<le> maxfd s) \<and>
     -1 \<le> maxi s \<and> maxi s < int (length (client s)) \<and>
     (\<forall>j < length (client s). maxi s < int j \<longrightarrow> client s ! j < 0)"

lemma sel_tab_live: "sel_tab.live s = sel_live s" and sel_tab_once: "sel_tab.once s = uniq_fds (client s)"
  by (simp_all add: sel_tab.live_def sel_tab.once_def)

lemma sel_init_inv:
  assumes "0 \<le> lfd" and "set (opened w) = insert lfd base" and "lfd \<notin> base"
  shows "sel_inv base lfd (sel_init n lfd) w"
  using assms by (auto simp: sel_inv_def sel_init_def uniq_fds_def)

lemma sel_add_Ret:
  assumes "sel_add fd s = Ret s1"
  obtains i where "client s1 = (client s)[i := fd]" and "i < length (client s)" and "client s ! i < 0"
    and "allset s1 = insert fd (allset s)" and "maxfd s1 = max fd (maxfd s)" and "maxi s1 = max (int i) (maxi s)"
proof -
  from assms obtain i t where p: "sel_put fd s = Some (i, t)"
    and s1: "s1 = t\<lparr>allset := insert fd (allset t), maxfd := max fd (maxfd t), maxi := max (int i) (maxi t)\<rparr>"
    by (auto simp: sel_add_def split: option.splits)
  have "allset t = allset s" "maxfd t = maxfd s" "maxi t = maxi s"
    using p by (auto simp: sel_put_def split: option.splits)
  with that [of i] sel_tab.put_Some [OF p] s1 show ?thesis by simp
qed

lemma sel_inv_add:
  assumes inv: "sel_inv base lfd s w" and acc: "accepted fd w w1" and add: "sel_add fd s = Ret s1"
  shows "sel_inv base lfd s1 w1" and "fd \<in> sel_live s1" and "fd \<notin> allset s" and "fd \<notin> base"
    and "sel_live s1 = insert fd (sel_live s)"
proof -
  from sel_add_Ret [OF add] obtain i where i: "client s1 = (client s)[i := fd]" "i < length (client s)"
    "client s ! i < 0" and v: "allset s1 = insert fd (allset s)" "maxfd s1 = max fd (maxfd s)"
    "maxi s1 = max (int i) (maxi s)" .
  have f: "fd \<notin> set (opened w)" "0 \<le> fd" "opened w1 = fd # opened w"
    using acc lowest_free_fresh lowest_free_nonneg by (auto simp: accepted_def)
  have live: "sel_live s1 = insert fd (sel_live s)"
    using live_update [OF i(2,3) f(2)] i(1) by simp
  have o: "allset s = insert lfd (sel_live s)" "set (opened w) = base \<union> allset s" "base \<inter> allset s = {}"
    "lfd \<notin> sel_live s" "0 \<le> lfd" "uniq_fds (client s)"
    using inv unfolding sel_inv_def by blast+
  have new: "fd \<notin> allset s" "fd \<notin> base" using f(1) o(2) by auto
  then have "fd \<notin> set (client s)" using o(1) f(2) by auto
  then have u: "uniq_fds (client s1)" unfolding i(1) by (intro uniq_fds_update o) simp
  have "\<forall>g \<in> allset s. g \<le> maxfd s" using inv unfolding sel_inv_def by blast
  then have m: "\<forall>g \<in> allset s1. g \<le> maxfd s1" using v by (auto simp: max_def)
  have above: "\<forall>j < length (client s1). maxi s1 < int j \<longrightarrow> client s1 ! j < 0"
    using inv i v by (auto simp: sel_inv_def)
  have mi: "-1 \<le> maxi s1" "maxi s1 < int (length (client s1))" using inv i v by (auto simp: sel_inv_def)
  have "lfd \<notin> sel_live s1" "allset s1 = insert lfd (sel_live s1)" "set (opened w1) = base \<union> allset s1"
    "base \<inter> allset s1 = {}"
    using live o v(1) new f(3) by auto
  with u m above mi o(5) show "sel_inv base lfd s1 w1" by (simp add: sel_inv_def)
  show "fd \<in> sel_live s1" "fd \<notin> allset s" "fd \<notin> base" "sel_live s1 = insert fd (sel_live s)"
    using live new by auto
qed

lemma ready_in_set: "set (ready_in rset xs) = rset \<inter> {fd \<in> set xs. 0 \<le> fd}"
  by (auto simp: ready_in_def)

lemma ready_in_distinct: "uniq_fds xs \<Longrightarrow> distinct (ready_in rset xs)"
proof (induction xs)
  case (Cons x xs)
  have "uniq_fds xs" using Cons.prems unfolding uniq_fds_def by (metis Suc_less_eq length_Cons nat.inject nth_Cons_Suc)
  moreover have "x \<notin> set xs" if "0 \<le> x"
  proof
    assume "x \<in> set xs"
    then obtain j where "j < length xs" "xs ! j = x" by (auto simp: in_set_conv_nth)
    then show False using Cons.prems that by (simp add: uniq_fds_def) (metis Suc_less_eq nat.distinct(1) nth_Cons_0 nth_Cons_Suc zero_less_Suc)
  qed
  ultimately show ?case using Cons.IH by (auto simp: ready_in_def)
qed (simp add: ready_in_def)

lemma ready_in_above:
  assumes "sel_inv base lfd s w"
  shows "ready_in rset (take (sel_slots s) (client s)) = ready_in rset (client s)"
proof -
  have "\<forall>x \<in> set (drop (sel_slots s) (client s)). x < 0"
    using assms by (auto simp: sel_inv_def sel_slots_def in_set_conv_nth)
  then have "ready_in rset (drop (sel_slots s) (client s)) = []" by (auto simp: ready_in_def filter_empty_conv)
  then show ?thesis
    by (metis append.right_neutral append_take_drop_id filter_append ready_in_def)
qed

lemma sel_serve_all:
  assumes "sel_inv base lfd s w" and "nready = int (card (rset \<inter> sel_live s))"
  shows "sel_serve rset 0 (sel_slots s) nready s v =
    run_bind (serve_list sel_client (ready_in rset (client s)) v) (\<lambda>(cl, w'). Ret (sel_drop cl s, w'))"
proof -
  have u: "uniq_fds (client s)" and le: "sel_slots s \<le> length (client s)"
    using assms(1) by (auto simp: sel_inv_def sel_slots_def)
  have "nready = int (length (ready_in rset (client s)))"
    using assms(2) distinct_card [OF ready_in_distinct [OF u], of rset] by (simp add: ready_in_set)
  then show ?thesis
    using sel_serve_pass [OF u, of 0 "sel_slots s" nready rset v] le ready_in_above [OF assms(1)] by simp
qed

lemma sel_inv_pass:
  assumes inv: "sel_inv base lfd s w" and pass: "serve_list sel_client (ready_in rset (client s)) w = Ret (cl, w')"
  shows "sel_inv base lfd (sel_drop cl s) w'"
proof -
  have u: "uniq_fds (client s)" using inv by (simp add: sel_inv_def)
  note p = sel_svc.pass [OF pass ready_in_distinct [OF u]]
  have cl: "set cl \<subseteq> sel_live s" using p(1) ready_in_set by fastforce
  have live: "sel_live (sel_drop cl s) = sel_live s - set cl"
    using drop_fds_live [of cl "client s"] by (simp add: sel_drop_def)
  have "client (sel_drop cl s) ! j < 0" if "j < length (client s)" "maxi s < int j" for j
    using that inv by (auto simp: sel_inv_def sel_drop_def drop_fds_def)
  then show ?thesis
    using inv cl live p(3) uniq_fds_drop_fds [OF u] unfolding sel_inv_def
    by (auto simp: sel_drop_def)
qed

text \<open>An iteration is: accept if asked, then the pass over the ready clients, all of them.\<close>

lemma sel_iter_Ret:
  assumes inv: "sel_inv base lfd s w" and sub: "rset \<subseteq> allset s" and n: "nready = int (card rset)"
    and r: "sel_iter lfd rset nready s w = Ret (s', w')"
  obtains s1 w1 cl where "sel_inv base lfd s1 w1"
    and "serve_list sel_client (ready_in rset (client s1)) w1 = Ret (cl, w')" and "s' = sel_drop cl s1"
    and "rset \<inter> sel_live s1 = rset \<inter> sel_live s" and "sel_live s \<subseteq> sel_live s1"
    and "if lfd \<in> rset then \<exists>fd. accepted fd w w1 \<and> sel_live s1 = insert fd (sel_live s) \<and> fd \<notin> allset s \<and> fd \<notin> base
         else s1 = s \<and> w1 = w"
proof -
  have fin: "finite rset" using sub inv by (auto simp: sel_inv_def intro: finite_subset)
  have lnl: "lfd \<notin> sel_live s" and al: "allset s = insert lfd (sel_live s)" using inv by (auto simp: sel_inv_def)
  show ?thesis
  proof (cases "lfd \<in> rset")
    case False
    then have "rset \<inter> sel_live s = rset" using sub al by auto
    then have "sel_serve rset 0 (sel_slots s) nready s w =
      run_bind (serve_list sel_client (ready_in rset (client s)) w) (\<lambda>(cl, w'). Ret (sel_drop cl s, w'))"
      using sel_serve_all [OF inv, of nready rset w] n by (simp only:)
    with r False obtain cl where "serve_list sel_client (ready_in rset (client s)) w = Ret (cl, w')" "s' = sel_drop cl s"
      by (auto simp: sel_iter_def run_bind_Ret_conv)
    with that [OF inv] False show ?thesis by simp
  next
    case True
    with r obtain fd w1 s1 where a: "w_Accept w = Ret (fd, w1)" and s1: "sel_add fd s = Ret s1"
      and rest: "(if nready - 1 \<le> 0 then Ret (s1, w1) else sel_serve rset 0 (sel_slots s1) (nready - 1) s1 w1) = Ret (s', w')"
      by (auto simp: sel_iter_def run_bind_Ret_conv)
    note acc = w_Accept_Ret [OF a]
    note add = sel_inv_add [OF inv acc s1]
    have live: "rset \<inter> sel_live s1 = rset - {lfd}" "rset \<inter> sel_live s = rset - {lfd}"
      using sub add(3,5) al lnl by auto
    have n1: "nready - 1 = int (card (rset \<inter> sel_live s1))"
      using n True fin live(1) by (simp add: card_Diff_singleton) (metis One_nat_def Suc_pred card_gt_0_iff empty_iff of_nat_Suc add_diff_cancel_left')
    have "\<exists>cl. serve_list sel_client (ready_in rset (client s1)) w1 = Ret (cl, w') \<and> s' = sel_drop cl s1"
    proof (cases "nready - 1 \<le> 0")
      case True
      with n1 have "card (rset \<inter> sel_live s1) = 0" by simp
      then have "set (ready_in rset (client s1)) = {}" by (simp add: ready_in_set fin)
      with rest True show ?thesis by simp
    next
      case False
      with rest sel_serve_all [OF add(1) n1, of w1] show ?thesis by (auto simp: run_bind_Ret_conv)
    qed
    then obtain cl where "serve_list sel_client (ready_in rset (client s1)) w1 = Ret (cl, w')" "s' = sel_drop cl s1"
      by blast
    from that [OF add(1) this] live add acc True show ?thesis by auto
  qed
qed

lemma sel_iter_inv:
  assumes "sel_inv base lfd s w" and "rset \<subseteq> allset s" and "nready = int (card rset)"
    and "sel_iter lfd rset nready s w = Ret (s', w')"
  shows "sel_inv base lfd s' w'"
  by (rule sel_iter_Ret [OF assms]) (use sel_inv_pass in blast)

lemma sel_run_inv:
  assumes "sel_run n lfd w0 s w" and "0 \<le> lfd" and "set (opened w0) = insert lfd base" and "lfd \<notin> base"
  shows "sel_inv base lfd s w"
  using assms(1) by induction (use sel_init_inv [OF assms(2-4)] sel_iter_inv in blast)+

section \<open>Descriptors and the size of an fd_set\<close>

text \<open>
  The table can only be full when the set already holds a descriptor that is not below the
  table's size.
\<close>

lemma sel_full:
  assumes inv: "sel_inv base lfd s w" and full: "sel_put fd s = None"
  shows "\<exists>g \<in> allset s. int (length (client s)) \<le> g"
proof (rule ccontr)
  assume "\<not> ?thesis"
  then have lt: "\<forall>g \<in> allset s. g < int (length (client s))" by force
  have al: "allset s = insert lfd (sel_live s)" "lfd \<notin> sel_live s" "0 \<le> lfd" "uniq_fds (client s)"
    using inv by (auto simp: sel_inv_def)
  have "card (sel_live s) = length (client s)"
    using sel_tab.full_count [OF full] al(4) by (simp add: sel_tab_live sel_tab_once)
  moreover have "insert lfd (sel_live s) \<subseteq> {0..<int (length (client s))}" using lt al by auto
  then have "card (insert lfd (sel_live s)) \<le> length (client s)"
    using card_mono [of "{0..<int (length (client s))}"] by fastforce
  moreover have "finite (sel_live s)" by simp
  ultimately show False using al(2) by simp
qed

lemma sel_serve_not_full: "sel_serve rset i m nready s w \<noteq> Fatal ''too many clients''"
proof (induction m arbitrary: i nready s w)
  case (Suc m)
  have no: "sel_client fd w \<noteq> Fatal ''too many clients''" for fd
    by (auto simp: sel_client_def run_bind_Fatal_conv dest: wrapper_Fatal)
  show ?case
    using Suc.IH no [of "client s ! i"]
    by (cases "sel_client (client s ! i) w") (auto simp: Let_def split: prod.splits)
qed simp

section \<open>A small server\<close>

text \<open>Three descriptors and the listening socket 3 are open; \<open>k\<close> clients wait, each with one byte.\<close>

definition sel_demo :: "nat \<Rightarrow> world" where
  "sel_demo k = \<lparr>rds = \<lambda>_. [], wrs = \<lambda>_. [], got = \<lambda>_. [], sent = \<lambda>_. [], opened = [3, 2, 1, 0],
     backlog = replicate k (Inr ([Seg [7]], [Room 5]))\<rparr>"

definition sel_demo1 :: "nat \<Rightarrow> world" where
  "sel_demo1 k = (sel_demo k)\<lparr>opened := [4, 3, 2, 1, 0], rds := (\<lambda>_. [])(4 := [Seg [7]]),
     wrs := (\<lambda>_. [])(4 := [Room 5])\<rparr>"

definition sel_demo_s :: "nat \<Rightarrow> sel_state" where
  "sel_demo_s n = \<lparr>client = 4 # replicate n (-1), maxi = 0, maxfd = 4, allset = {4, 3}\<rparr>"

lemma sel_demo_accept: "sel_iter 3 {3} 1 (sel_init (Suc n) 3) (sel_demo (Suc k)) = Ret (sel_demo_s n, sel_demo1 k)"
  by (simp add: sel_iter_def w_Accept.simps w_accept.simps sel_demo_def sel_demo1_def lowest_free_def Let_def
      sel_add_def sel_put_def sel_init_def sel_demo_s_def fun_upd_idem insert_commute)

lemma sel_demo_run: "sel_run (Suc n) 3 (sel_demo (Suc k)) (sel_demo_s n) (sel_demo1 k)"
proof (rule sel_run.iterate [OF sel_run.start])
  show "{3} \<subseteq> allset (sel_init (Suc n) 3)" by (simp add: sel_init_def)
  show "sel_iter 3 {3} 1 (sel_init (Suc n) 3) (sel_demo (Suc k)) = Ret (sel_demo_s n, sel_demo1 k)"
    by (rule sel_demo_accept)
qed simp_all

section \<open>Properties\<close>

text \<open>
  C4: every state the server reaches keeps its tables consistent: a descriptor is in one slot
  at most, the set given to \<open>select\<close> is exactly the listening socket and the connected clients,
  \<open>maxfd\<close> bounds it, no slot above \<open>maxi\<close> is used, and the descriptors open in the process are
  those it started with, the listening socket and the clients: none is leaked.
\<close>
theorem sel_reachable_inv:
  assumes "sel_run n lfd w0 s w" and "0 \<le> lfd" and "set (opened w0) = insert lfd base" and "lfd \<notin> base"
  shows "uniq_fds (client s) \<and> allset s = insert lfd {fd \<in> set (client s). 0 \<le> fd} \<and>
    (\<forall>fd \<in> allset s. fd \<le> maxfd s) \<and> (\<forall>j < length (client s). maxi s < int j \<longrightarrow> client s ! j < 0) \<and>
    set (opened w) = base \<union> allset s \<and> base \<inter> allset s = {}"
  using sel_run_inv [OF assms] unfolding sel_inv_def by blast

theorem sel_reachable_inv_witness:
  "sel_run 2 3 (sel_demo 1) (sel_demo_s 1) (sel_demo1 0) \<and> uniq_fds (client (sel_demo_s 1)) \<and>
   set (opened (sel_demo1 0)) = {0, 1, 2} \<union> allset (sel_demo_s 1)"
proof -
  have r: "sel_run 2 3 (sel_demo 1) (sel_demo_s 1) (sel_demo1 0)"
    using sel_demo_run [of 1 0] by (simp add: numeral_2_eq_2)
  have o: "set (opened (sel_demo 1)) = insert 3 {0, 1, 2}" by (auto simp: sel_demo_def)
  have h: "(0 :: int) \<le> 3" "(3 :: int) \<notin> {0, 1, 2}" by simp_all
  from sel_reachable_inv [OF r h(1) o h(2)] r show ?thesis by blast
qed

text \<open>An iteration for every client, in terms of the clients it has closed.\<close>

lemma sel_iter_served:
  assumes "sel_inv base lfd s w" and "rset \<subseteq> allset s" and "nready = int (card rset)"
    and "sel_iter lfd rset nready s w = Ret (s', w')"
  obtains cl where "set cl \<subseteq> rset \<inter> sel_live s" and "sel_live s - set cl \<subseteq> sel_live s'" and "set cl \<inter> sel_live s' = {}"
    and "\<forall>fd \<in> rset \<inter> sel_live s. served fd (fd \<notin> set cl) w w'" and "\<forall>fd \<in> sel_live s - rset. same_at fd w w'"
    and "lfd \<in> rset \<longrightarrow> lowest_free (opened w) \<in> sel_live s'"
proof -
  obtain s1 w1 cl where s1: "sel_inv base lfd s1 w1"
    and pass: "serve_list sel_client (ready_in rset (client s1)) w1 = Ret (cl, w')" and s': "s' = sel_drop cl s1"
    and r: "rset \<inter> sel_live s1 = rset \<inter> sel_live s" "sel_live s \<subseteq> sel_live s1"
    and acc: "if lfd \<in> rset then \<exists>fd. accepted fd w w1 \<and> sel_live s1 = insert fd (sel_live s) \<and> fd \<notin> allset s \<and> fd \<notin> base
         else s1 = s \<and> w1 = w"
    by (rule sel_iter_Ret [OF assms])
  have u: "uniq_fds (client s1)" using s1 unfolding sel_inv_def by blast
  have al: "allset s = insert lfd (sel_live s)" using assms(1) unfolding sel_inv_def by blast
  note d = ready_in_distinct [OF u, of rset] and p = sel_svc.pass [OF pass ready_in_distinct [OF u]]
  have ready: "set (ready_in rset (client s1)) = rset \<inter> sel_live s" using r ready_in_set by simp
  have live': "sel_live s' = sel_live s1 - set cl" using drop_fds_live [of cl "client s1"] by (simp add: s' sel_drop_def)
  have same: "same_at fd w w1" if "fd \<in> sel_live s" for fd
    using acc that al by (cases "lfd \<in> rset") (auto intro: accepted_same)
  show ?thesis
  proof (rule that)
    show "set cl \<subseteq> rset \<inter> sel_live s" using p(1) ready by blast
    then show "lfd \<in> rset \<longrightarrow> lowest_free (opened w) \<in> sel_live s'" using acc live' al by (auto simp: accepted_def)
    show "sel_live s - set cl \<subseteq> sel_live s'" "set cl \<inter> sel_live s' = {}" using live' r(2) by blast+
    show "\<forall>fd \<in> rset \<inter> sel_live s. served fd (fd \<notin> set cl) w w'"
      using served_from [OF same sel_svc.pass_served [OF pass d]] ready by blast
    show "\<forall>fd \<in> sel_live s - rset. same_at fd w w'" using same_at_trans [OF same p(5)] ready by blast
  qed
qed

text \<open>
  C3: an iteration of \<open>select\<close> leaves no reported client behind: with the count and the set that
  \<open>select\<close> returns, every client in \<open>rset\<close> has some bytes read and the same bytes sent back, or
  is closed and dropped from the table, although the loop stops when its counter reaches zero;
  a client that was not reported is not touched; a new connection is in the table afterwards.
\<close>
theorem sel_iter_serves_all:
  assumes "sel_inv base lfd s w" and "rset \<subseteq> allset s" and "nready = int (card rset)"
    and "sel_iter lfd rset nready s w = Ret (s', w')"
  shows "(\<forall>fd \<in> rset - {lfd}.
      (fd \<in> set (client s') \<and> fd \<in> set (opened w') \<and> (\<exists>bs. bs \<noteq> [] \<and> got w' fd = got w fd @ bs \<and> sent w' fd = sent w fd @ bs \<and>
         rd_bytes (rds w fd) = bs @ rd_bytes (rds w' fd))) \<or>
      (fd \<notin> set (client s') \<and> fd \<notin> set (opened w') \<and> sent w' fd = sent w fd)) \<and>
    (\<forall>fd \<in> sel_live s - rset. fd \<in> set (client s') \<and> same_at fd w w') \<and>
    (lfd \<in> rset \<longrightarrow> (\<exists>fd. lowest_free (opened w) = fd \<and> fd \<in> set (client s')))"
proof -
  obtain cl where cl: "set cl \<subseteq> rset \<inter> sel_live s" "sel_live s - set cl \<subseteq> sel_live s'" "set cl \<inter> sel_live s' = {}"
    and sv: "\<forall>fd \<in> rset \<inter> sel_live s. served fd (fd \<notin> set cl) w w'"
    and rest: "\<forall>fd \<in> sel_live s - rset. same_at fd w w'" "lfd \<in> rset \<longrightarrow> lowest_free (opened w) \<in> sel_live s'"
    by (rule sel_iter_served [OF assms])
  have "allset s = insert lfd (sel_live s)" using assms(1) unfolding sel_inv_def by blast
  then have live: "rset - {lfd} \<subseteq> rset \<inter> sel_live s" using assms(2) by blast
  have "set (opened w') = base \<union> allset s'" "allset s' = insert lfd (sel_live s')"
    using sel_iter_inv [OF assms] unfolding sel_inv_def by blast+
  then have op: "sel_live s' \<subseteq> set (opened w')" by blast
  have "(fd \<in> set (client s') \<and> fd \<in> set (opened w') \<and> served fd True w w') \<or> (fd \<notin> set (client s') \<and> served fd False w w')"
    if "fd \<in> rset - {lfd}" for fd
    using bspec [OF sv, of fd] that live op cl by (cases "fd \<in> set cl") auto
  then show ?thesis using rest cl unfolding served_def by auto
qed

theorem sel_iter_serves_all_witness:
  "\<exists>s' w'. sel_iter 3 {4} 1 (sel_demo_s 1) (sel_demo1 0) = Ret (s', w') \<and>
    ((4 \<in> set (client s') \<and> (\<exists>bs. bs \<noteq> [] \<and> sent w' 4 = bs \<and> [7] = bs @ rd_bytes (rds w' 4))) \<or>
     (4 \<notin> set (client s') \<and> sent w' 4 = []))"
proof -
  have inv: "sel_inv {0, 1, 2} 3 (sel_demo_s 1) (sel_demo1 0)"
    by (rule sel_run_inv [OF sel_demo_run [of 1 0]]) (simp_all add: sel_demo_def insert_commute)
  obtain s' w' where r: "sel_iter 3 {4} 1 (sel_demo_s 1) (sel_demo1 0) = Ret (s', w')"
    by (simp add: sel_iter_def sel_slots_def sel_demo_s_def sel_client_def w_Read_def w_read_def sel_demo1_def
        sel_demo_def MAXLINE_def w_Writen_def Writen_def writen_def writen_loop_Room)
  have "(4 \<in> set (client s') \<and> 4 \<in> set (opened w') \<and> (\<exists>bs. bs \<noteq> [] \<and> got w' 4 = got (sel_demo1 0) 4 @ bs \<and>
         sent w' 4 = sent (sel_demo1 0) 4 @ bs \<and> rd_bytes (rds (sel_demo1 0) 4) = bs @ rd_bytes (rds w' 4))) \<or>
      (4 \<notin> set (client s') \<and> 4 \<notin> set (opened w') \<and> sent w' 4 = sent (sel_demo1 0) 4)"
    using sel_iter_serves_all [OF inv _ _ r] by (simp add: sel_demo_s_def)
  with r show ?thesis by (auto simp: sel_demo1_def sel_demo_def)
qed

text \<open>
  The \<open>too many clients\<close> exit does not protect the \<open>fd_set\<close>: whenever the server takes it,
  a descriptor of at least \<open>FD_SETSIZE\<close> is already in the set, so \<open>FD_SET\<close> has been applied
  outside the array before.
\<close>
lemma sel_full_after_overflow:
  assumes "sel_run n lfd w0 s w" and "0 \<le> lfd" and "set (opened w0) = insert lfd base" and "lfd \<notin> base"
    and "sel_iter lfd rset nready s w = Fatal ''too many clients''"
  shows "\<exists>fd \<in> allset s. int (length (client s)) \<le> fd"
proof -
  have inv: "sel_inv base lfd s w" by (rule sel_run_inv [OF assms(1-4)])
  have "sel_put fd s = None" if "sel_add fd s = Fatal ''too many clients''" for fd
    using that by (auto simp: sel_add_def split: option.splits)
  moreover have "\<exists>fd. sel_add fd s = Fatal ''too many clients''"
    using assms(5) sel_serve_not_full
    by (auto simp: sel_iter_def run_bind_Fatal_conv split: if_splits dest: w_Accept_Fatal)
  ultimately show ?thesis using sel_full [OF inv] by blast
qed

lemma sel_full_after_overflow_witness:
  "sel_iter 3 {3} 1 (sel_demo_s 0) (sel_demo1 1) = Fatal ''too many clients'' \<and>
   (\<exists>fd \<in> allset (sel_demo_s 0). int (length (client (sel_demo_s 0))) \<le> fd)"
proof -
  have r: "sel_run 1 3 (sel_demo 2) (sel_demo_s 0) (sel_demo1 1)"
    using sel_demo_run [of 0 1] by (simp add: numeral_2_eq_2)
  have f: "sel_iter 3 {3} 1 (sel_demo_s 0) (sel_demo1 1) = Fatal ''too many clients''"
    by (simp add: sel_iter_def w_Accept.simps w_accept.simps sel_demo_def sel_demo1_def lowest_free_def Let_def
        sel_add_def sel_put_def sel_demo_s_def)
  have "set (opened (sel_demo 2)) = insert 3 {0, 1, 2}" by (auto simp: sel_demo_def)
  from sel_full_after_overflow [OF r _ this _ f] f show ?thesis by simp
qed

end
