(* ===== verification/Poll_Server.thy ===== *)
theory Poll_Server
  imports Select_Server
begin

text \<open>
  The echo server of \<open>tcpcliserv/tcpservpoll01.c\<close>: the same service over an array of
  \<open>pollfd\<close> structures, entry 0 being the listening socket, and the variant of
  \<open>my-src/Chapter-06/tcpsrvpoll01.c\<close>.  \<open>OPEN_MAX\<close> is the length of the array.
\<close>

section \<open>State and operations\<close>

record pollfd =
  pfd :: int
  pevents :: u16
  revents :: u16

record poll_state =
  entries :: "pollfd list"
  pmaxi :: nat

definition POLLRDNORM :: u16 where "POLLRDNORM = 0x40"
definition POLLERR :: u16 where "POLLERR = 0x8"

text \<open>
  The array is an automatic variable: \<open>junk\<close> is what the stack held, and only the \<open>fd\<close>
  members, and entry 0's \<open>events\<close>, are assigned.
\<close>

definition poll_init :: "int \<Rightarrow> pollfd list \<Rightarrow> poll_state" where
  "poll_init listenfd junk =
     \<lparr>entries = (hd junk)\<lparr>pfd := listenfd, pevents := POLLRDNORM\<rparr> # map (\<lambda>p. p\<lparr>pfd := -1\<rparr>) (tl junk),
      pmaxi = 0\<rparr>"

text \<open>What \<open>poll(client, n, ...)\<close> stores: \<open>rv i\<close> in the first \<open>n\<close> entries.\<close>

definition poll_store :: "(nat \<Rightarrow> u16) \<Rightarrow> nat \<Rightarrow> pollfd list \<Rightarrow> pollfd list" where
  "poll_store rv n ps = map (\<lambda>i. if i < n then (ps ! i)\<lparr>revents := rv i\<rparr> else ps ! i) [0..<length ps]"

definition poll_put :: "int \<Rightarrow> poll_state \<Rightarrow> (nat \<times> poll_state) option" where
  "poll_put connfd s =
     (case free_slot (map pfd (drop 1 (entries s))) of
        None \<Rightarrow> None
      | Some i \<Rightarrow> Some (Suc i, s\<lparr>entries := (entries s)[Suc i := (entries s ! Suc i)\<lparr>pfd := connfd\<rparr>]\<rparr>))"

definition poll_free :: "nat \<Rightarrow> poll_state \<Rightarrow> poll_state" where
  "poll_free i s = s\<lparr>entries := (entries s)[i := (entries s ! i)\<lparr>pfd := -1\<rparr>]\<rparr>"

text \<open>The body for one readable client: a reset connection is closed like one at its end.\<close>

definition poll_client :: "int \<Rightarrow> world \<Rightarrow> (bool \<times> world) run" where
  "poll_client sockfd w =
     run_bind (w_read sockfd MAXLINE w) (\<lambda>(r, w1).
       case r of
         Inl e \<Rightarrow>
           if e = ECONNRESET then run_bind (w_Close sockfd w1) (\<lambda>w2. Ret (True, w2))
           else Fatal ''read error''
       | Inr bs \<Rightarrow>
           if bs = [] then run_bind (w_Close sockfd w1) (\<lambda>w2. Ret (True, w2))
           else run_bind (w_Writen sockfd bs w1) (\<lambda>w2. Ret (False, w2)))"

fun poll_serve :: "nat \<Rightarrow> nat \<Rightarrow> int \<Rightarrow> poll_state \<Rightarrow> world \<Rightarrow> (poll_state \<times> world) run" where
  "poll_serve i 0 nready s w = Ret (s, w)"
| "poll_serve i (Suc m) nready s w =
     (let sockfd = pfd (entries s ! i) in
      if sockfd < 0 then poll_serve (Suc i) m nready s w
      else if revents (entries s ! i) AND (POLLRDNORM OR POLLERR) \<noteq> 0 then
        run_bind (poll_client sockfd w) (\<lambda>(closed, w1).
          let s1 = (if closed then poll_free i s else s) in
          if nready - 1 \<le> 0 then Ret (s1, w1)
          else poll_serve (Suc i) m (nready - 1) s1 w1)
      else poll_serve (Suc i) m nready s w)"

definition poll_add :: "int \<Rightarrow> poll_state \<Rightarrow> poll_state run" where
  "poll_add connfd s =
     (case poll_put connfd s of
        None \<Rightarrow> Fatal ''too many clients''
      | Some (i, s1) \<Rightarrow>
          Ret (s1\<lparr>entries := (entries s1)[i := (entries s1 ! i)\<lparr>pevents := POLLRDNORM\<rparr>],
            pmaxi := max i (pmaxi s1)\<rparr>))"

text \<open>
  One iteration from the return of \<open>poll\<close> on; \<open>last s\<close> is the number of entries the loop over
  the clients visits.
\<close>

definition poll_body :: "(poll_state \<Rightarrow> nat) \<Rightarrow> int \<Rightarrow> poll_state \<Rightarrow> world \<Rightarrow> (poll_state \<times> world) run" where
  "poll_body visits nready s w =
     (if revents (entries s ! 0) AND POLLRDNORM \<noteq> 0 then
        run_bind (w_Accept w) (\<lambda>(connfd, w1).
        run_bind (poll_add connfd s) (\<lambda>s1.
          if nready - 1 \<le> 0 then Ret (s1, w1)
          else poll_serve 1 (visits s1) (nready - 1) s1 w1))
      else poll_serve 1 (visits s) nready s w)"

definition poll_iter :: "(nat \<Rightarrow> u16) \<Rightarrow> int \<Rightarrow> poll_state \<Rightarrow> world \<Rightarrow> (poll_state \<times> world) run" where
  "poll_iter rv nready s w =
     poll_body pmaxi nready (s\<lparr>entries := poll_store rv (pmaxi s + 1) (entries s)\<rparr>) w"

text \<open>
  The variant loops \<open>for (i = 1; i < maxi; i++)\<close>, where the original has \<open>i <= maxi\<close>.
\<close>

definition my_poll_iter :: "(nat \<Rightarrow> u16) \<Rightarrow> int \<Rightarrow> poll_state \<Rightarrow> world \<Rightarrow> (poll_state \<times> world) run" where
  "my_poll_iter rv nready s w =
     poll_body (\<lambda>s. pmaxi s - 1) nready (s\<lparr>entries := poll_store rv (pmaxi s + 1) (entries s)\<rparr>) w"

section \<open>The interfaces\<close>

definition poll_fds :: "poll_state \<Rightarrow> int list" where
  "poll_fds s = map pfd (entries s)"

interpretation poll_tab: slot_table 1 poll_fds poll_put poll_free
proof unfold_locales
  fix fd t i t' j
  show "1 \<le> i \<and> i < length (poll_fds t) \<and> poll_fds t ! i < 0 \<and>
      poll_fds t' = (poll_fds t)[i := fd] \<and> (\<forall>j. 1 \<le> j \<and> j < i \<longrightarrow> 0 \<le> poll_fds t ! j)"
    if p: "poll_put fd t = Some (i, t')"
  proof -
    from p obtain k where k: "free_slot (map pfd (drop 1 (entries t))) = Some k" "i = Suc k"
      "t' = t\<lparr>entries := (entries t)[Suc k := (entries t ! Suc k)\<lparr>pfd := fd\<rparr>]\<rparr>"
      by (auto simp: poll_put_def split: option.splits)
    from free_slot_Some [OF k(1)] have f: "Suc k < length (entries t)" "pfd (entries t ! Suc k) < 0"
      "\<forall>j < k. 0 \<le> pfd (entries t ! Suc j)" by auto
    have "0 \<le> poll_fds t ! j" if "1 \<le> j" "j < i" for j
      using f(1,3) that k(2) by (cases j) (auto simp: poll_fds_def)
    with f k show ?thesis by (simp add: poll_fds_def map_update)
  qed
  show "0 \<le> poll_fds t ! j" if p: "poll_put fd t = None" and j: "1 \<le> j" "j < length (poll_fds t)"
  proof -
    from p have "free_slot (map pfd (drop 1 (entries t))) = None" by (auto simp: poll_put_def split: option.splits)
    from free_slot_None [OF this, of "j - 1"] j show ?thesis by (cases j) (auto simp: poll_fds_def)
  qed
  show "poll_fds (poll_free i t) = (poll_fds t)[i := -1]" by (simp add: poll_fds_def poll_free_def map_update)
qed

lemma poll_client_echoed: "poll_client fd w = Ret (c, w') \<Longrightarrow> echoed fd c w w'"
proof -
  assume h: "poll_client fd w = Ret (c, w')"
  then obtain r w1 where r: "w_read fd MAXLINE w = Ret (r, w1)"
    by (auto simp: poll_client_def run_bind_Ret_conv)
  note size = w_read_size [OF r MAXLINE_pos] and o = w_read_others [OF r]
  show ?thesis
  proof (cases r)
    case (Inl e)
    with h r have "c" "w_Close fd w1 = Ret w'" by (auto simp: poll_client_def run_bind_Ret_conv split: if_splits)
    with w_read_error [OF r [unfolded Inl]] size o show ?thesis
      by (auto simp: w_Close_Ret echoed_def same_at_def others_same_def)
  next
    case (Inr bs)
    note d = w_read_data [OF r [unfolded Inr] MAXLINE_pos]
    show ?thesis
    proof (cases "bs = []")
      case True
      with h r Inr have "c" "w_Close fd w1 = Ret w'" by (auto simp: poll_client_def run_bind_Ret_conv)
      with d True size o show ?thesis by (auto simp: w_Close_Ret echoed_def same_at_def others_same_def)
    next
      case False
      with h r Inr have c: "\<not> c" "w_Writen fd bs w1 = Ret w'" by (auto simp: poll_client_def run_bind_Ret_conv)
      with d False size o w_Writen_data [OF c(2)] w_Writen_others [OF c(2)] show ?thesis
        by (auto simp: echoed_def same_at_def others_same_def)
    qed
  qed
qed

interpretation poll_svc: client_service poll_client
  by unfold_locales (rule poll_client_echoed)

section \<open>The loop is the pass over the reported clients\<close>

definition reported :: "pollfd \<Rightarrow> bool" where
  "reported p \<longleftrightarrow> 0 \<le> pfd p \<and> revents p AND (POLLRDNORM OR POLLERR) \<noteq> 0"

definition poll_ready :: "pollfd list \<Rightarrow> int list" where
  "poll_ready ps = map pfd (filter reported ps)"

definition drop_entries :: "int list \<Rightarrow> pollfd list \<Rightarrow> pollfd list" where
  "drop_entries cl = map (\<lambda>p. if pfd p \<in> set cl then p\<lparr>pfd := -1\<rparr> else p)"

text \<open>Entry 0, the listening socket, is not a client.\<close>

definition poll_drop :: "int list \<Rightarrow> poll_state \<Rightarrow> poll_state" where
  "poll_drop cl s = s\<lparr>entries := take 1 (entries s) @ drop_entries cl (drop 1 (entries s))\<rparr>"

lemma poll_ready_simps [simp]:
  "poll_ready [] = []"
  "poll_ready (p # ps) = (if reported p then pfd p # poll_ready ps else poll_ready ps)"
  "poll_ready (ps @ qs) = poll_ready ps @ poll_ready qs"
  by (simp_all add: poll_ready_def)

lemma drop_entries_simps [simp]:
  "drop_entries [] ps = ps" "length (drop_entries cl ps) = length ps"
  "map pfd (drop_entries cl ps) = drop_fds cl (map pfd ps)"
  by (simp_all add: drop_entries_def drop_fds_def comp_def)

lemma poll_drop_Nil [simp]: "poll_drop [] s = s"
  by (simp add: poll_drop_def)

lemma drop_entries_Cons:
  assumes "uniq_fds (map pfd ps)" and "i < length ps" and "0 \<le> pfd (ps ! i)"
  shows "drop_entries (pfd (ps ! i) # cl) ps = drop_entries cl (ps[i := (ps ! i)\<lparr>pfd := -1\<rparr>])"
proof (rule nth_equalityI)
  fix j assume j: "j < length (drop_entries (pfd (ps ! i) # cl) ps)"
  then have j: "j < length ps" by simp
  show "drop_entries (pfd (ps ! i) # cl) ps ! j = drop_entries cl (ps[i := (ps ! i)\<lparr>pfd := -1\<rparr>]) ! j"
  proof (cases "j = i")
    case True
    with j show ?thesis by (simp add: drop_entries_def)
  next
    case False
    then have "pfd (ps ! j) \<noteq> pfd (ps ! i)"
      using assms j unfolding uniq_fds_def by (metis length_map nth_map)
    with False j show ?thesis by (simp add: drop_entries_def)
  qed
qed simp

lemma poll_drop_Cons:
  assumes "uniq_fds (map pfd (drop 1 (entries s)))" and "Suc i < length (entries s)"
    and "0 \<le> pfd (entries s ! Suc i)"
  shows "poll_drop cl (poll_free (Suc i) s) = poll_drop (pfd (entries s ! Suc i) # cl) s"
proof -
  obtain p ps where e: "entries s = p # ps" using assms(2) by (cases "entries s") auto
  then show ?thesis using drop_entries_Cons [of ps i cl] assms
    by (simp add: poll_drop_def poll_free_def)
qed

lemma poll_serve_pass:
  assumes "uniq_fds (map pfd (drop 1 (entries s)))" and "Suc i + m \<le> length (entries s)"
    and "int (length (poll_ready (take m (drop (Suc i) (entries s))))) \<le> nready"
  shows "poll_serve (Suc i) m nready s w =
    run_bind (serve_list poll_client (poll_ready (take m (drop (Suc i) (entries s)))) w)
      (\<lambda>(cl, w'). Ret (poll_drop cl s, w'))"
  using assms
proof (induction m arbitrary: i nready s w)
  case (Suc m)
  let ?p = "entries s ! Suc i"
  have i: "Suc i < length (entries s)" using Suc.prems(2) by simp
  then have d: "take (Suc m) (drop (Suc i) (entries s)) = ?p # take m (drop (Suc (Suc i)) (entries s))"
    by (simp flip: Cons_nth_drop_Suc)
  let ?rest = "poll_ready (take m (drop (Suc (Suc i)) (entries s)))"
  show ?case
  proof (cases "reported ?p")
    case False
    then have "poll_ready (take (Suc m) (drop (Suc i) (entries s))) = ?rest" by (simp add: d)
    with Suc.IH [of s "Suc i" nready w] Suc.prems False show ?thesis by (auto simp: Let_def reported_def)
  next
    case True
    then have r: "poll_ready (take (Suc m) (drop (Suc i) (entries s))) = pfd ?p # ?rest" by (simp add: d)
    show ?thesis
    proof (cases "poll_client (pfd ?p) w")
      case (Ret q)
      then obtain c w1 where p: "poll_client (pfd ?p) w = Ret (c, w1)" by (cases q) auto
      let ?s1 = "if c then poll_free (Suc i) s else s"
      have u: "uniq_fds (map pfd (drop 1 (entries ?s1)))"
        using uniq_fds_update [OF Suc.prems(1), of "-1" i] Suc.prems(1)
        by (auto simp: poll_free_def drop_update_swap map_update)
      have dr: "drop (Suc (Suc i)) (entries ?s1) = drop (Suc (Suc i)) (entries s)"
        and len: "length (entries ?s1) = length (entries s)" by (simp_all add: poll_free_def)
      have n: "int (length (poll_ready (take m (drop (Suc (Suc i)) (entries ?s1))))) \<le> nready - 1"
        using Suc.prems(3) r dr by simp
      have ih: "poll_serve (Suc (Suc i)) m (nready - 1) ?s1 w1 =
        run_bind (serve_list poll_client ?rest w1) (\<lambda>(cl, w'). Ret (poll_drop cl ?s1, w'))"
        using Suc.IH [OF u _ n, of w1] Suc.prems(2) dr len by simp
      have eq: "poll_drop cl ?s1 = poll_drop (if c then pfd ?p # cl else cl) s" for cl
        using poll_drop_Cons [OF Suc.prems(1) i] True by (simp add: reported_def)
      have z: "?rest = []" if "nready - 1 \<le> 0"
      proof -
        have "int (length ?rest) \<le> 0" using n that unfolding dr by linarith
        then show ?thesis by simp
      qed
      have "(if nready - 1 \<le> 0 then Ret (?s1, w1) else poll_serve (Suc (Suc i)) m (nready - 1) ?s1 w1) =
        run_bind (serve_list poll_client ?rest w1) (\<lambda>(cl, w'). Ret (poll_drop (if c then pfd ?p # cl else cl) s, w'))"
      proof (cases "nready - 1 \<le> 0")
        case True
        with z eq [of "[]"] show ?thesis by simp
      next
        case False
        with ih show ?thesis by (simp only: if_False eq)
      qed
      moreover have "poll_serve (Suc i) (Suc m) nready s w =
        (if nready - 1 \<le> 0 then Ret (?s1, w1) else poll_serve (Suc (Suc i)) m (nready - 1) ?s1 w1)"
        using True p by (simp add: Let_def reported_def)
      ultimately show ?thesis
        by (simp only: r serve_list.simps p run_bind.simps prod.case run_bind_assoc)
          (simp add: case_prod_beta')
    qed (use True r in \<open>simp_all add: Let_def reported_def\<close>)
  qed
qed simp

section \<open>The invariant\<close>

abbreviation poll_live :: "poll_state \<Rightarrow> int set" where
  "poll_live s \<equiv> {fd \<in> set (drop 1 (poll_fds s)). 0 \<le> fd}"

text \<open>
  An entry \<open>poll\<close> has not filled in yet, or filled in for a free slot, is not reported.  For the former this is an
  assumption on the local array of \<open>main\<close>, of which the program sets only the descriptors.
\<close>

definition poll_inv :: "int set \<Rightarrow> int \<Rightarrow> poll_state \<Rightarrow> world \<Rightarrow> bool" where
  "poll_inv base lfd s w \<longleftrightarrow>
     uniq_fds (drop 1 (poll_fds s)) \<and> 0 \<le> lfd \<and> lfd \<notin> poll_live s \<and> poll_fds s \<noteq> [] \<and> poll_fds s ! 0 = lfd \<and>
     set (opened w) = base \<union> insert lfd (poll_live s) \<and> base \<inter> insert lfd (poll_live s) = {} \<and>
     pmaxi s < length (entries s) \<and>
     (\<forall>j < length (entries s). pmaxi s < j \<longrightarrow> pfd (entries s ! j) < 0 \<and> revents (entries s ! j) = 0)"

lemma poll_tab_live: "poll_tab.live s = poll_live s"
  by (rule poll_tab.live_def)

lemma poll_store_simps [simp]:
  "length (poll_store rv n ps) = length ps"
  "j < length ps \<Longrightarrow> poll_store rv n ps ! j = (if j < n then (ps ! j)\<lparr>revents := rv j\<rparr> else ps ! j)"
  by (simp_all add: poll_store_def)

lemma poll_store_fds [simp]: "map pfd (poll_store rv n ps) = map pfd ps"
  by (rule nth_equalityI) simp_all

lemma poll_init_inv:
  assumes "junk \<noteq> []" and "\<forall>p \<in> set (tl junk). revents p = 0" and "0 \<le> lfd"
    and "set (opened w) = insert lfd base" and "lfd \<notin> base"
  shows "poll_inv base lfd (poll_init lfd junk) w"
proof -
  have f: "poll_fds (poll_init lfd junk) = lfd # replicate (length (tl junk)) (-1)"
    by (simp add: poll_fds_def poll_init_def comp_def map_replicate_const)
  have "pfd (entries (poll_init lfd junk) ! j) < 0 \<and> revents (entries (poll_init lfd junk) ! j) = 0"
    if "0 < j" "j < length (entries (poll_init lfd junk))" for j
    using that assms(2) by (cases j) (simp_all add: poll_init_def)
  then show ?thesis using assms f
    by (auto simp: poll_inv_def uniq_fds_def) (simp_all add: poll_init_def)
qed

text \<open>What \<open>poll\<close> documents: an entry with a negative descriptor gets no events.\<close>

definition poll_answer :: "(nat \<Rightarrow> u16) \<Rightarrow> int \<Rightarrow> poll_state \<Rightarrow> bool" where
  "poll_answer rv nready s \<longleftrightarrow>
     (\<forall>i \<le> pmaxi s. pfd (entries s ! i) < 0 \<longrightarrow> rv i = 0) \<and>
     nready = int (card {i. i \<le> pmaxi s \<and> rv i \<noteq> 0})"

definition stored :: "(nat \<Rightarrow> u16) \<Rightarrow> poll_state \<Rightarrow> poll_state" where
  "stored rv s = s\<lparr>entries := poll_store rv (pmaxi s + 1) (entries s)\<rparr>"

lemma stored_simps [simp]:
  "pmaxi (stored rv s) = pmaxi s" "poll_fds (stored rv s) = poll_fds s"
  "length (entries (stored rv s)) = length (entries s)"
  by (simp_all add: stored_def poll_fds_def)

lemma stored_inv: "poll_inv base lfd s w \<Longrightarrow> poll_inv base lfd (stored rv s) w"
  unfolding poll_inv_def stored_simps by (auto simp: stored_def)

text \<open>The entries up to \<open>maxi\<close> that are reported are counted by \<open>poll\<close>.\<close>

lemma stored_count:
  assumes "poll_inv base lfd s w" and "poll_answer rv nready s"
  shows "int (length (poll_ready (drop 1 (entries (stored rv s))))) \<le>
    nready - (if rv 0 \<noteq> 0 then 1 else 0)"
proof -
  let ?es = "entries (stored rv s)" and ?n = "length (entries s)"
  have n: "pmaxi s < ?n" and clean: "\<forall>j < ?n. pmaxi s < j \<longrightarrow> pfd (entries s ! j) < 0"
    using assms(1) by (auto simp: poll_inv_def)
  let ?R = "{i. i \<le> pmaxi s \<and> rv i \<noteq> 0}"
  have fin: "finite ?R" by simp
  have "length (poll_ready (drop 1 ?es)) = card {i. i < ?n - 1 \<and> reported (drop 1 ?es ! i)}"
    by (simp add: poll_ready_def length_filter_conv_card)
  also have "\<dots> = card (Suc ` {i. i < ?n - 1 \<and> reported (drop 1 ?es ! i)})"
    by (simp add: card_image)
  also have "\<dots> \<le> card (?R - {0})"
  proof (rule card_mono)
    show "Suc ` {i. i < ?n - 1 \<and> reported (drop 1 ?es ! i)} \<subseteq> ?R - {0}"
    proof
      fix x assume "x \<in> Suc ` {i. i < ?n - 1 \<and> reported (drop 1 ?es ! i)}"
      then obtain i where i: "x = Suc i" "Suc i < ?n" "reported (?es ! Suc i)" by auto
      have le: "Suc i \<le> pmaxi s"
      proof (rule ccontr)
        assume "\<not> Suc i \<le> pmaxi s"
        then show False using i clean [rule_format, of "Suc i"] by (simp add: stored_def reported_def)
      qed
      then have "rv (Suc i) \<noteq> 0" using i by (auto simp: stored_def reported_def)
      with le i(1) show "x \<in> ?R - {0}" by simp
    qed
  qed (simp add: fin)
  finally have l: "length (poll_ready (drop 1 ?es)) \<le> card (?R - {0})" .
  have nr: "nready = int (card ?R)" using assms(2) unfolding poll_answer_def by blast
  show ?thesis
  proof (cases "rv 0 = 0")
    case True
    then have "?R - {0} = ?R" by auto
    then show ?thesis using l nr True by (simp only:) simp
  next
    case False
    then have "0 \<in> ?R" by simp
    then have "card ?R = Suc (card (?R - {0}))" by (rule card.remove [OF fin])
    moreover have "(if rv 0 \<noteq> 0 then 1 else 0 :: int) = 1" using False by simp
    ultimately show ?thesis using l nr by linarith
  qed
qed

lemma poll_ready_above:
  assumes "poll_inv base lfd s w"
  shows "poll_ready (take (pmaxi s) (drop 1 (entries s))) = poll_ready (drop 1 (entries s))"
proof -
  have "\<forall>p \<in> set (drop (pmaxi s) (drop 1 (entries s))). \<not> reported p"
    using assms by (auto simp: poll_inv_def reported_def in_set_conv_nth)
  then have "poll_ready (drop (pmaxi s) (drop 1 (entries s))) = []" by (auto simp: poll_ready_def filter_empty_conv)
  then show ?thesis by (metis append.right_neutral append_take_drop_id poll_ready_simps(3))
qed

lemma poll_serve_all:
  assumes "poll_inv base lfd s w" and "int (length (poll_ready (drop 1 (entries s)))) \<le> nready"
  shows "poll_serve 1 (pmaxi s) nready s v =
    run_bind (serve_list poll_client (poll_ready (drop 1 (entries s))) v) (\<lambda>(cl, w'). Ret (poll_drop cl s, w'))"
proof -
  have u: "uniq_fds (map pfd (drop 1 (entries s)))" and le: "Suc 0 + pmaxi s \<le> length (entries s)"
    using assms(1) by (auto simp: poll_inv_def poll_fds_def drop_map)
  show ?thesis
    using poll_serve_pass [OF u le, of nready v] assms(2) poll_ready_above [OF assms(1)] by simp
qed

lemma poll_ready_set: "set (poll_ready (drop 1 (entries s))) \<subseteq> poll_live s"
  by (auto simp: poll_ready_def poll_fds_def reported_def drop_map)

lemma poll_ready_distinct: "uniq_fds (map pfd ps) \<Longrightarrow> distinct (poll_ready ps)"
proof (induction ps)
  case (Cons p ps)
  have "uniq_fds (map pfd ps)" using Cons.prems unfolding uniq_fds_def
    by (metis (no_types, lifting) Suc_less_eq length_Cons list.simps(9) nat.inject nth_Cons_Suc)
  moreover have "pfd p \<notin> pfd ` set ps" if "0 \<le> pfd p"
  proof
    assume "pfd p \<in> pfd ` set ps"
    then obtain j where "j < length ps" "map pfd (p # ps) ! Suc j = pfd p" by (auto simp: in_set_conv_nth)
    then show False using Cons.prems that unfolding uniq_fds_def
      by (metis length_Cons length_map list.simps(9) nat.distinct(1) nth_Cons_0 Suc_less_eq zero_less_Suc)
  qed
  ultimately show ?case using Cons.IH by (auto simp: poll_ready_def reported_def)
qed simp

lemma poll_inv_pass:
  assumes inv: "poll_inv base lfd s w"
    and pass: "serve_list poll_client (poll_ready (drop 1 (entries s))) w = Ret (cl, w')"
  shows "poll_inv base lfd (poll_drop cl s) w'" and "poll_live (poll_drop cl s) = poll_live s - set cl"
proof -
  have u: "uniq_fds (map pfd (drop 1 (entries s)))" using inv by (simp add: poll_inv_def poll_fds_def drop_map)
  note p = poll_svc.pass [OF pass poll_ready_distinct [OF u]]
  have cl: "set cl \<subseteq> poll_live s" using p(1) poll_ready_set by blast
  obtain e es where e: "entries s = e # es" using inv by (cases "entries s") (auto simp: poll_inv_def poll_fds_def)
  have fds: "poll_fds (poll_drop cl s) = pfd e # drop_fds cl (map pfd es)"
    "poll_fds s = pfd e # map pfd es" by (simp_all add: poll_drop_def poll_fds_def e)
  show live: "poll_live (poll_drop cl s) = poll_live s - set cl"
    using drop_fds_live [of cl "map pfd es"] by (simp add: fds)
  have "pfd (entries (poll_drop cl s) ! j) < 0 \<and> revents (entries (poll_drop cl s) ! j) = 0"
    if j: "j < length (entries s)" "pmaxi s < j" for j
  proof -
    obtain k where k: "j = Suc k" using j(2) by (cases j) auto
    have "pfd (es ! k) < 0 \<and> revents (es ! k) = 0" using inv j k e by (auto simp: poll_inv_def)
    then show ?thesis using k j(1) e by (simp add: poll_drop_def drop_entries_def)
  qed
  then show "poll_inv base lfd (poll_drop cl s) w'"
    using inv cl live p(3) uniq_fds_drop_fds [OF u, of cl] unfolding poll_inv_def
    by (simp add: fds) (auto simp: poll_drop_def e)
qed

lemma poll_add_Ret:
  assumes "poll_add fd s = Ret s1"
  obtains i where "1 \<le> i" and "i < length (entries s)" and "pfd (entries s ! i) < 0"
    and "entries s1 = (entries s)[i := (entries s ! i)\<lparr>pfd := fd, pevents := POLLRDNORM\<rparr>]"
    and "pmaxi s1 = max i (pmaxi s)"
proof -
  from assms obtain i t where p: "poll_put fd s = Some (i, t)"
    and s1: "s1 = t\<lparr>entries := (entries t)[i := (entries t ! i)\<lparr>pevents := POLLRDNORM\<rparr>], pmaxi := max i (pmaxi t)\<rparr>"
    by (auto simp: poll_add_def split: option.splits)
  have t: "entries t = (entries s)[i := (entries s ! i)\<lparr>pfd := fd\<rparr>]" "pmaxi t = pmaxi s"
    using p by (auto simp: poll_put_def split: option.splits)
  have "1 \<le> i" "i < length (entries s)" "pfd (entries s ! i) < 0"
    using poll_tab.put_Some [OF p] by (auto simp: poll_fds_def)
  with that [of i] s1 t show ?thesis by simp
qed

text \<open>The slot of a new connection was not reported, whether or not \<open>poll\<close> looked at it.\<close>

definition unreported_free :: "poll_state \<Rightarrow> bool" where
  "unreported_free s \<longleftrightarrow> (\<forall>p \<in> set (drop 1 (entries s)). pfd p < 0 \<longrightarrow> revents p = 0)"

lemma stored_unreported: "poll_inv base lfd s w \<Longrightarrow> poll_answer rv nready s \<Longrightarrow> unreported_free (stored rv s)"
  unfolding unreported_free_def
proof
  fix p assume inv: "poll_inv base lfd s w" and ans: "poll_answer rv nready s"
    and p: "p \<in> set (drop 1 (entries (stored rv s)))"
  then obtain j where "j < length (entries s) - 1" "p = entries (stored rv s) ! Suc j"
    by (auto simp: in_set_conv_nth)
  then have j: "Suc j < length (entries s)" "p = entries (stored rv s) ! Suc j" by auto
  then show "pfd p < 0 \<longrightarrow> revents p = 0"
    using inv ans by (cases "Suc j \<le> pmaxi s") (auto simp: stored_def poll_inv_def poll_answer_def)
qed

lemma poll_ready_update:
  "k < length ps \<Longrightarrow> \<not> reported (ps ! k) \<Longrightarrow> \<not> reported p \<Longrightarrow> poll_ready (ps[k := p]) = poll_ready ps"
  by (induction ps arbitrary: k) (auto split: nat.splits)

lemma poll_inv_add:
  assumes inv: "poll_inv base lfd s w" and acc: "accepted fd w w1" and add: "poll_add fd s = Ret s1"
    and free: "unreported_free s"
  shows "poll_inv base lfd s1 w1" and "fd \<noteq> lfd" and "fd \<notin> poll_live s"
    and "poll_live s1 = insert fd (poll_live s)"
    and "poll_ready (drop 1 (entries s1)) = poll_ready (drop 1 (entries s))"
proof -
  from poll_add_Ret [OF add] obtain i where i: "1 \<le> i" "i < length (entries s)" "pfd (entries s ! i) < 0"
    "entries s1 = (entries s)[i := (entries s ! i)\<lparr>pfd := fd, pevents := POLLRDNORM\<rparr>]"
    "pmaxi s1 = max i (pmaxi s)" .
  obtain k where k: "i = Suc k" using i(1) by (cases i) auto
  obtain e es where e: "entries s = e # es" using i(2) by (cases "entries s") auto
  have es1: "entries s1 = e # es[k := (es ! k)\<lparr>pfd := fd, pevents := POLLRDNORM\<rparr>]"
    and kl: "k < length es" "pfd (es ! k) < 0"
    using i e k by simp_all
  have fds: "poll_fds s = pfd e # map pfd es" "poll_fds s1 = pfd e # (map pfd es)[k := fd]"
    by (simp_all add: poll_fds_def e es1 map_update)
  have f: "fd \<notin> set (opened w)" "0 \<le> fd" "opened w1 = fd # opened w"
    using acc lowest_free_fresh lowest_free_nonneg by (auto simp: accepted_def)
  show live: "poll_live s1 = insert fd (poll_live s)"
    using live_update [of k "map pfd es" fd] kl f(2) by (simp add: fds)
  have o: "uniq_fds (map pfd es)" "set (opened w) = base \<union> insert lfd (poll_live s)"
    "base \<inter> insert lfd (poll_live s) = {}" "lfd \<notin> poll_live s" "0 \<le> lfd" "pfd e = lfd"
    using inv unfolding poll_inv_def fds by (simp_all, blast+)
  show new: "fd \<noteq> lfd" "fd \<notin> poll_live s" using f(1) o(2) by auto
  then have "fd \<notin> set (map pfd es)" using f(2) by (auto simp: fds)
  then have u: "uniq_fds (drop 1 (poll_fds s1))" using uniq_fds_update [OF o(1)] by (simp add: fds)
  have r: "revents (es ! k) = 0" using free kl by (auto simp: unreported_free_def e)
  then show "poll_ready (drop 1 (entries s1)) = poll_ready (drop 1 (entries s))"
    using poll_ready_update [OF kl(1)] kl(2) by (simp add: e es1 reported_def)
  have "pfd (entries s1 ! j) < 0 \<and> revents (entries s1 ! j) = 0"
    if "j < length (entries s1)" "pmaxi s1 < j" for j
    using that inv i unfolding poll_inv_def by simp
  moreover have "pmaxi s1 < length (entries s1)" using inv i unfolding poll_inv_def by simp
  moreover have "set (opened w1) = base \<union> insert lfd (poll_live s1)" "lfd \<notin> poll_live s1"
    "base \<inter> insert lfd (poll_live s1) = {}"
    unfolding live using f o(2-4) new by auto
  ultimately show "poll_inv base lfd s1 w1" using u o(5,6) unfolding poll_inv_def by (simp add: fds)
qed

lemma stored_entry0: "poll_inv base lfd s w \<Longrightarrow> revents (entries (stored rv s) ! 0) = rv 0"
  by (cases "entries s")
    (auto simp: stored_def poll_inv_def poll_store_def upt_conv_Cons simp del: upt_Suc)

lemma poll_iter_Ret:
  assumes inv: "poll_inv base lfd s w" and ans: "poll_answer rv nready s"
    and r: "poll_iter rv nready s w = Ret (s', w')"
  obtains s1 w1 cl where "poll_inv base lfd s1 w1"
    and "serve_list poll_client (poll_ready (drop 1 (entries s1))) w1 = Ret (cl, w')" and "s' = poll_drop cl s1"
    and "poll_ready (drop 1 (entries s1)) = poll_ready (drop 1 (entries (stored rv s)))"
    and "poll_live s \<subseteq> poll_live s1"
    and "if rv 0 AND POLLRDNORM \<noteq> 0 then
           \<exists>fd. accepted fd w w1 \<and> poll_live s1 = insert fd (poll_live s) \<and> fd \<notin> poll_live s
         else s1 = stored rv s \<and> w1 = w"
proof -
  let ?s = "stored rv s"
  note inv0 = stored_inv [OF inv, of rv]
  note rv0 = stored_entry0 [OF inv]
  have iter: "poll_iter rv nready s w = poll_body pmaxi nready ?s w" by (simp add: poll_iter_def stored_def)
  note count = stored_count [OF inv ans]
  show ?thesis
  proof (cases "rv 0 AND POLLRDNORM \<noteq> 0")
    case False
    have "int (length (poll_ready (drop 1 (entries ?s)))) \<le> nready" using count by (auto split: if_splits)
    from poll_serve_all [OF inv0 this, of w] r False obtain cl where
      "serve_list poll_client (poll_ready (drop 1 (entries ?s))) w = Ret (cl, w')" "s' = poll_drop cl ?s"
      by (auto simp: iter poll_body_def rv0 run_bind_Ret_conv)
    with that [OF inv0] False show ?thesis by simp
  next
    case True
    then have nz: "rv 0 \<noteq> 0" by auto
    from True r obtain fd w1 s1 where a: "w_Accept w = Ret (fd, w1)" and s1: "poll_add fd ?s = Ret s1"
      and rest: "(if nready - 1 \<le> 0 then Ret (s1, w1) else poll_serve 1 (pmaxi s1) (nready - 1) s1 w1) = Ret (s', w')"
      by (auto simp: iter poll_body_def rv0 run_bind_Ret_conv)
    note acc = w_Accept_Ret [OF a]
    note add = poll_inv_add [OF inv0 acc s1 stored_unreported [OF inv ans]]
    have c1: "int (length (poll_ready (drop 1 (entries s1)))) \<le> nready - 1"
      using count nz add(5) by simp
    have "\<exists>cl. serve_list poll_client (poll_ready (drop 1 (entries s1))) w1 = Ret (cl, w') \<and> s' = poll_drop cl s1"
    proof (cases "nready - 1 \<le> 0")
      case True
      with c1 have "int (length (poll_ready (drop 1 (entries s1)))) \<le> 0" by linarith
      then have "poll_ready (drop 1 (entries s1)) = []" by simp
      with rest True show ?thesis by simp
    next
      case False
      then have "poll_serve 1 (pmaxi s1) (nready - 1) s1 w1 = Ret (s', w')" using rest by (simp only: if_False)
      then show ?thesis unfolding poll_serve_all [OF add(1) c1] run_bind_Ret_conv by auto
    qed
    then obtain cl where "serve_list poll_client (poll_ready (drop 1 (entries s1))) w1 = Ret (cl, w')"
      "s' = poll_drop cl s1" by blast
    from that [OF add(1) this add(5)] add(3,4) acc True show ?thesis by auto
  qed
qed

lemma poll_iter_inv:
  assumes "poll_inv base lfd s w" and "poll_answer rv nready s" and "poll_iter rv nready s w = Ret (s', w')"
  shows "poll_inv base lfd s' w'"
  by (rule poll_iter_Ret [OF assms]) (use poll_inv_pass in blast)

text \<open>The program as a relation, from a cleared stack.\<close>

inductive poll_run :: "pollfd list \<Rightarrow> int \<Rightarrow> world \<Rightarrow> poll_state \<Rightarrow> world \<Rightarrow> bool" for junk listenfd w0 where
  start: "poll_run junk listenfd w0 (poll_init listenfd junk) w0"
| iterate: "poll_run junk listenfd w0 s w \<Longrightarrow> poll_answer rv nready s \<Longrightarrow>
    poll_iter rv nready s w = Ret (s', w') \<Longrightarrow> poll_run junk listenfd w0 s' w'"

lemma poll_run_inv:
  assumes "poll_run junk lfd w0 s w" and "junk \<noteq> []" and "\<forall>p \<in> set (tl junk). revents p = 0" and "0 \<le> lfd"
    and "set (opened w0) = insert lfd base" and "lfd \<notin> base"
  shows "poll_inv base lfd s w"
  using assms(1) by induction (use poll_init_inv [OF assms(2-6)] poll_iter_inv in blast)+

section \<open>Properties\<close>

text \<open>
  C13: an iteration of \<open>poll\<close> serves every client whose entry was reported with \<open>POLLRDNORM\<close> or
  \<open>POLLERR\<close>, by echoing some of its bytes or by closing it (also after a reset), leaves the
  others alone, and keeps the table consistent and every descriptor accounted for.
\<close>
theorem poll_iter_serves_all:
  assumes "poll_inv base lfd s w" and "poll_answer rv nready s"
    and "poll_iter rv nready s w = Ret (s', w')"
  shows "poll_inv base lfd s' w' \<and>
    (\<forall>fd \<in> poll_live s. if fd \<in> set (poll_ready (drop 1 (entries (stored rv s))))
      then (fd \<in> poll_live s' \<and> (\<exists>bs. bs \<noteq> [] \<and> got w' fd = got w fd @ bs \<and> sent w' fd = sent w fd @ bs \<and>
              rd_bytes (rds w fd) = bs @ rd_bytes (rds w' fd))) \<or>
           (fd \<notin> poll_live s' \<and> fd \<notin> set (opened w') \<and> sent w' fd = sent w fd)
      else fd \<in> poll_live s' \<and> same_at fd w w')"
proof -
  obtain s1 w1 cl where s1: "poll_inv base lfd s1 w1"
    and pass: "serve_list poll_client (poll_ready (drop 1 (entries s1))) w1 = Ret (cl, w')" and s': "s' = poll_drop cl s1"
    and rd: "poll_ready (drop 1 (entries s1)) = poll_ready (drop 1 (entries (stored rv s)))"
    and sub: "poll_live s \<subseteq> poll_live s1"
    and acc: "if rv 0 AND POLLRDNORM \<noteq> 0 then
           \<exists>fd. accepted fd w w1 \<and> poll_live s1 = insert fd (poll_live s) \<and> fd \<notin> poll_live s
         else s1 = stored rv s \<and> w1 = w"
    by (rule poll_iter_Ret [OF assms])
  have u: "uniq_fds (map pfd (drop 1 (entries s1)))"
    using s1 by (simp add: poll_inv_def poll_fds_def drop_map)
  note d = poll_ready_distinct [OF u] and p = poll_svc.pass [OF pass poll_ready_distinct [OF u]]
  note after = poll_inv_pass [OF s1 pass]
  have same: "same_at fd w w1" if "fd \<in> poll_live s" for fd
    using acc that by (cases "rv 0 AND POLLRDNORM \<noteq> 0") (auto intro: accepted_same)
  have each: "if fd \<in> set (poll_ready (drop 1 (entries (stored rv s))))
      then fd \<in> poll_live s' \<and> served fd True w w' \<or> fd \<notin> poll_live s' \<and> served fd False w w'
      else fd \<in> poll_live s' \<and> same_at fd w w'" if fd: "fd \<in> poll_live s" for fd
  proof (cases "fd \<in> set (poll_ready (drop 1 (entries s1)))")
    case False
    then have "fd \<in> poll_live s'" using p(1) sub fd after(2) s' by blast
    with same_at_trans [OF same [OF fd] p(5) [OF False]] False show ?thesis unfolding rd by (simp only: if_False)
  next
    case True
    have "served fd (fd \<notin> set cl) w w'" by (rule served_from [OF same [OF fd] poll_svc.pass_served [OF pass d True]])
    moreover have "fd \<in> poll_live s' \<longleftrightarrow> fd \<notin> set cl" using sub fd after(2) s' by blast
    ultimately show ?thesis using True unfolding rd by (cases "fd \<in> set cl") simp_all
  qed
  then show ?thesis using after(1) s' unfolding served_def by (simp only: if_True if_False simp_thms) blast
qed

text \<open>One client with a byte pending, and the answer of \<open>poll\<close> that reports it.\<close>

definition poll_demo_s :: "u16 \<Rightarrow> poll_state" where
  "poll_demo_s junk = \<lparr>entries = [\<lparr>pfd = 3, pevents = POLLRDNORM, revents = 0\<rparr>,
      \<lparr>pfd = 4, pevents = POLLRDNORM, revents = 0\<rparr>, \<lparr>pfd = -1, pevents = 0, revents = junk\<rparr>], pmaxi = 1\<rparr>"

definition poll_demo_w :: "world" where
  "poll_demo_w = (sel_demo 0)\<lparr>opened := [4, 3, 2, 1, 0], rds := (\<lambda>_. [])(4 := [Seg [7]]),
     wrs := (\<lambda>_. [])(4 := [Room 5]), backlog := [Inr ([], [Room 5])]\<rparr>"

lemma poll_demo_ok:
  "poll_inv {0, 1, 2} 3 (poll_demo_s 0) poll_demo_w"
  "poll_answer (\<lambda>i :: nat. if i = 1 then POLLRDNORM else 0) 1 (poll_demo_s 0)"
proof -
  let ?rv = "\<lambda>i :: nat. if i = 1 then POLLRDNORM else 0"
  show "poll_inv {0, 1, 2} 3 (poll_demo_s 0) poll_demo_w"
    by (auto simp: poll_inv_def poll_demo_s_def poll_demo_w_def poll_fds_def sel_demo_def uniq_fds_def less_Suc_eq)
  have "{i. i \<le> 1 \<and> ?rv i \<noteq> 0} = {1 :: nat}" by (auto simp: POLLRDNORM_def)
  then show "poll_answer ?rv 1 (poll_demo_s 0)"
    by (auto simp: poll_answer_def poll_demo_s_def le_Suc_eq)
qed

theorem poll_iter_serves_all_witness:
  "\<exists>s' w'. poll_iter (\<lambda>i. if i = 1 then POLLRDNORM else 0) 1 (poll_demo_s 0) poll_demo_w = Ret (s', w') \<and>
    poll_inv {0, 1, 2} 3 s' w'"
proof -
  let ?rv = "\<lambda>i :: nat. if i = 1 then POLLRDNORM else 0"
  have inv: "poll_inv {0, 1, 2} 3 (poll_demo_s 0) poll_demo_w" and ans: "poll_answer ?rv 1 (poll_demo_s 0)"
    by (rule poll_demo_ok)+
  obtain s' w' where r: "poll_iter ?rv 1 (poll_demo_s 0) poll_demo_w = Ret (s', w')"
    by (simp add: poll_iter_def poll_body_def poll_demo_s_def poll_demo_w_def sel_demo_def poll_store_def
        upt_conv_Cons POLLRDNORM_def POLLERR_def poll_client_def w_read_def MAXLINE_def w_Writen_def Writen_def
        writen_def writen_loop_Room)
  from poll_iter_serves_all [OF inv ans r] r show ?thesis by blast
qed

lemma poll_serve_2: "poll_serve i 2 = poll_serve i (Suc (Suc 0))"
  by (simp only: numeral_2_eq_2)

text \<open>
  An entry that \<open>poll\<close> has not looked at is examined nevertheless: when the stack held
  \<open>POLLRDNORM\<close> where the new client's entry is, and the old client was reported with an event the
  loop does not test (a hang-up), the iteration that accepts the connection reads from it and
  blocks, although \<open>poll\<close> never reported it readable.
\<close>
lemma poll_stale_revents_block:
  "poll_iter (\<lambda>i. if i = 0 then POLLRDNORM else 0x10) 2 (poll_demo_s POLLRDNORM) poll_demo_w = Blocked \<and>
   (\<exists>s' w'. poll_iter (\<lambda>i. if i = 0 then POLLRDNORM else 0x10) 2 (poll_demo_s 0) poll_demo_w = Ret (s', w'))"
  by (simp add: poll_iter_def poll_body_def poll_demo_s_def poll_demo_w_def sel_demo_def poll_store_def
        upt_conv_Cons POLLRDNORM_def POLLERR_def poll_client_def w_read_def MAXLINE_def w_Accept.simps
        w_accept.simps lowest_free_def Let_def poll_add_def poll_put_def poll_serve_2)

text \<open>
  The variant with \<open>i < maxi\<close> never serves the client in the last used slot: an iteration
  without a new connection does not touch it, whatever \<open>poll\<close> reports about it, so a single
  client is never answered.
\<close>
lemma my_poll_starves_last:
  assumes "poll_inv base lfd s w" and "rv 0 AND POLLRDNORM = 0" and "1 \<le> pmaxi s"
    and "my_poll_iter rv nready s w = Ret (s', w')" and "poll_answer rv nready s"
    and "fd = pfd (entries s ! pmaxi s)" and "0 \<le> fd"
  shows "same_at fd w w' \<and> (pmaxi s = 1 \<longrightarrow> w' = w)"
proof -
  let ?s = "stored rv s" and ?m = "pmaxi s - 1"
  note inv0 = stored_inv [OF assms(1), of rv]
  have u: "uniq_fds (map pfd (drop 1 (entries ?s)))" and len: "pmaxi s < length (entries ?s)"
    using inv0 by (simp_all add: poll_inv_def poll_fds_def drop_map)
  have le: "Suc 0 + ?m \<le> length (entries ?s)" using len by simp
  have rv0: "revents (entries ?s ! 0) AND POLLRDNORM = 0"
    using assms(2) stored_entry0 [OF assms(1)] by simp
  from assms(4) rv0 have "poll_serve (Suc 0) ?m nready ?s w = Ret (s', w')"
    by (simp add: my_poll_iter_def poll_body_def stored_def)
  moreover have "int (length (poll_ready (take ?m (drop 1 (entries ?s))))) \<le> nready"
  proof -
    have "length (poll_ready (take ?m (drop 1 (entries ?s)))) \<le> length (poll_ready (drop 1 (entries ?s)))"
      by (metis append_take_drop_id le_add1 length_append poll_ready_simps(3))
    with stored_count [OF assms(1,5)] show ?thesis by (auto split: if_splits)
  qed
  ultimately obtain cl where
    pass: "serve_list poll_client (poll_ready (take ?m (drop 1 (entries ?s)))) w = Ret (cl, w')"
    using poll_serve_pass [OF u le, of nready w] by (auto simp: run_bind_Ret_conv)
  have "fd \<notin> pfd ` set (take ?m (drop 1 (entries ?s)))"
  proof
    assume "fd \<in> pfd ` set (take ?m (drop 1 (entries ?s)))"
    then obtain j where j: "j < ?m" "Suc j < length (entries ?s)" "pfd (entries ?s ! Suc j) = fd"
      by (auto simp: in_set_conv_nth)
    have "j < length (map pfd (drop 1 (entries ?s)))" "?m < length (map pfd (drop 1 (entries ?s)))"
      "map pfd (drop 1 (entries ?s)) ! j = fd" "map pfd (drop 1 (entries ?s)) ! ?m = fd"
      using j len assms(3,6) by (auto simp: stored_def)
    then have "j = ?m" using u assms(7) unfolding uniq_fds_def by metis
    with j(1) show False by simp
  qed
  then have n: "fd \<notin> set (poll_ready (take ?m (drop 1 (entries ?s))))" by (auto simp: poll_ready_def)
  have ut: "uniq_fds (map pfd (take ?m (drop 1 (entries ?s))))"
    using u unfolding uniq_fds_def by (auto simp: take_map [symmetric])
  from poll_svc.pass(5) [OF pass poll_ready_distinct [OF ut] n] pass show ?thesis by auto
qed

lemma my_poll_starves_last_witness:
  "my_poll_iter (\<lambda>i. if i = 1 then POLLRDNORM else 0) 1 (poll_demo_s 0) poll_demo_w =
     Ret (stored (\<lambda>i. if i = 1 then POLLRDNORM else 0) (poll_demo_s 0), poll_demo_w) \<and>
   same_at 4 poll_demo_w poll_demo_w"
proof -
  let ?rv = "\<lambda>i :: nat. if i = 1 then POLLRDNORM else 0"
  have inv: "poll_inv {0, 1, 2} 3 (poll_demo_s 0) poll_demo_w" and ans: "poll_answer ?rv 1 (poll_demo_s 0)"
    by (rule poll_demo_ok)+
  have r: "my_poll_iter ?rv 1 (poll_demo_s 0) poll_demo_w = Ret (stored ?rv (poll_demo_s 0), poll_demo_w)"
    by (simp add: my_poll_iter_def poll_body_def poll_demo_s_def stored_def poll_store_def upt_conv_Cons)
  have "same_at 4 poll_demo_w poll_demo_w \<and> (pmaxi (poll_demo_s 0) = 1 \<longrightarrow> poll_demo_w = poll_demo_w)"
    by (rule my_poll_starves_last [OF inv _ _ r ans]) (simp_all add: poll_demo_s_def)
  with r show ?thesis by blast
qed

end
