(* ===== verification/Nonblock_Client.thy ===== *)
theory Nonblock_Client
  imports Echo
begin

text \<open>
  The client of \<open>nonblock/strclinonb.c\<close>: \<open>select\<close> over nonblocking descriptors, one buffer from
  standard input to the socket and one from the socket to standard output.
\<close>

section \<open>State\<close>

text \<open>
  \<open>to_buf\<close> is \<open>to[0..toiptr)\<close> and \<open>too\<close> the offset of \<open>tooptr\<close>, likewise \<open>fr_buf\<close> and \<open>fro\<close>;
  \<open>fins\<close> counts the calls of \<open>Shutdown(sockfd, SHUT_WR)\<close>.
\<close>

record nb_state =
  to_buf :: "byte list"
  too :: nat
  fr_buf :: "byte list"
  fro :: nat
  stdineof :: bool
  fins :: nat

definition nb_init :: nb_state where
  "nb_init = \<lparr>to_buf = [], too = 0, fr_buf = [], fro = 0, stdineof = False, fins = 0\<rparr>"

text \<open>The two sets given to \<open>select\<close>.\<close>

definition nb_rset :: "int \<Rightarrow> nb_state \<Rightarrow> int set" where
  "nb_rset sockfd s =
     (if \<not> stdineof s \<and> length (to_buf s) < MAXLINE then {0} else {}) \<union>
     (if length (fr_buf s) < MAXLINE then {sockfd} else {})"

definition nb_wset :: "int \<Rightarrow> nb_state \<Rightarrow> int set" where
  "nb_wset sockfd s =
     (if too s \<noteq> length (to_buf s) then {sockfd} else {}) \<union>
     (if fro s \<noteq> length (fr_buf s) then {1} else {})"

section \<open>The four blocks of an iteration\<close>

definition nb_stdin :: "int \<Rightarrow> nb_state \<times> int set \<Rightarrow> world \<Rightarrow> ((nb_state \<times> int set) \<times> world) run" where
  "nb_stdin sockfd = (\<lambda>(s, ws) w.
     run_bind (w_read 0 (MAXLINE - length (to_buf s)) w) (\<lambda>(r, w1).
       case r of
         Inl e \<Rightarrow> if e \<noteq> EWOULDBLOCK then Fatal ''read error on stdin'' else Ret ((s, ws), w1)
       | Inr bs \<Rightarrow>
           if bs = [] then
             (let s1 = s\<lparr>stdineof := True\<rparr> in
              Ret ((if too s1 = length (to_buf s1) then s1\<lparr>fins := fins s1 + 1\<rparr> else s1, ws), w1))
           else Ret ((s\<lparr>to_buf := to_buf s @ bs\<rparr>, insert sockfd ws), w1)))"

text \<open>\<open>None\<close> is the \<open>return\<close> of \<open>str_cli\<close>.\<close>

definition nb_socket :: "int \<Rightarrow> nb_state \<times> int set \<Rightarrow> world \<Rightarrow> ((nb_state \<times> int set) option \<times> world) run" where
  "nb_socket sockfd = (\<lambda>(s, ws) w.
     run_bind (w_read sockfd (MAXLINE - length (fr_buf s)) w) (\<lambda>(r, w1).
       case r of
         Inl e \<Rightarrow> if e \<noteq> EWOULDBLOCK then Fatal ''read error on socket'' else Ret (Some (s, ws), w1)
       | Inr bs \<Rightarrow>
           if bs = [] then
             (if stdineof s then Ret (None, w1)
              else Fatal ''str_cli: server terminated prematurely'')
           else Ret (Some (s\<lparr>fr_buf := fr_buf s @ bs\<rparr>, insert 1 ws), w1)))"

definition nb_stdout :: "nb_state \<Rightarrow> world \<Rightarrow> (nb_state \<times> world) run" where
  "nb_stdout s w =
     run_bind (w_write 1 (drop (fro s) (fr_buf s)) w) (\<lambda>(r, w1).
       case r of
         Inl e \<Rightarrow> if e \<noteq> EWOULDBLOCK then Fatal ''write error to stdout'' else Ret (s, w1)
       | Inr n \<Rightarrow>
           (let s1 = s\<lparr>fro := fro s + n\<rparr> in
            Ret (if fro s1 = length (fr_buf s1) then s1\<lparr>fr_buf := [], fro := 0\<rparr> else s1, w1)))"

definition nb_sockout :: "int \<Rightarrow> nb_state \<Rightarrow> world \<Rightarrow> (nb_state \<times> world) run" where
  "nb_sockout sockfd s w =
     run_bind (w_write sockfd (drop (too s) (to_buf s)) w) (\<lambda>(r, w1).
       case r of
         Inl e \<Rightarrow> if e \<noteq> EWOULDBLOCK then Fatal ''write error to socket'' else Ret (s, w1)
       | Inr n \<Rightarrow>
           (let s1 = s\<lparr>too := too s + n\<rparr> in
            Ret (if too s1 = length (to_buf s1) then
                   (let s2 = s1\<lparr>to_buf := [], too := 0\<rparr> in
                    if stdineof s2 then s2\<lparr>fins := fins s2 + 1\<rparr> else s2)
                 else s1, w1)))"

definition nb_outputs :: "int \<Rightarrow> int set \<Rightarrow> nb_state \<Rightarrow> world \<Rightarrow> (nb_state \<times> world) run" where
  "nb_outputs sockfd ws s w =
     run_bind (if 1 \<in> ws \<and> 0 < length (fr_buf s) - fro s then nb_stdout s w else Ret (s, w)) (\<lambda>(s1, w1).
       if sockfd \<in> ws \<and> 0 < length (to_buf s1) - too s1 then nb_sockout sockfd s1 w1 else Ret (s1, w1))"

text \<open>One iteration from the return of \<open>Select\<close> on; the flag tells that \<open>str_cli\<close> returned.\<close>

definition nb_iter :: "int \<Rightarrow> int set \<Rightarrow> int set \<Rightarrow> nb_state \<Rightarrow> world \<Rightarrow> (bool \<times> nb_state \<times> world) run" where
  "nb_iter sockfd rs ws s w =
     run_bind (if 0 \<in> rs then nb_stdin sockfd (s, ws) w else Ret ((s, ws), w)) (\<lambda>((s1, ws1), w1).
     run_bind (if sockfd \<in> rs then nb_socket sockfd (s1, ws1) w1 else Ret (Some (s1, ws1), w1)) (\<lambda>(o2, w2).
       case o2 of
         None \<Rightarrow> Ret (True, s1, w2)
       | Some (s2, ws2) \<Rightarrow> run_bind (nb_outputs sockfd ws2 s2 w2) (\<lambda>(s4, w4). Ret (False, s4, w4))))"

inductive nb_run :: "int \<Rightarrow> world \<Rightarrow> bool \<Rightarrow> nb_state \<Rightarrow> world \<Rightarrow> bool" for sockfd w0 where
  start: "nb_run sockfd w0 False nb_init w0"
| iterate: "nb_run sockfd w0 False s w \<Longrightarrow> rs \<subseteq> nb_rset sockfd s \<Longrightarrow> ws \<subseteq> nb_wset sockfd s \<Longrightarrow>
    nb_iter sockfd rs ws s w = Ret (fin, s', w') \<Longrightarrow> nb_run sockfd w0 fin s' w'"

section \<open>The invariant\<close>

text \<open>
  What was read is what was written followed by what is in the buffer, in both directions; the
  offsets are inside the buffers, a drained buffer has been reset; the FIN has been sent exactly
  when standard input has ended and nothing is left to send.
\<close>

definition buf_ok :: "byte list \<Rightarrow> nat \<Rightarrow> bool" where
  "buf_ok b p \<longleftrightarrow> length b \<le> MAXLINE \<and> (p < length b \<or> b = [] \<and> p = 0)"

definition nb_inv :: "int \<Rightarrow> nb_state \<Rightarrow> world \<Rightarrow> bool" where
  "nb_inv sockfd s w \<longleftrightarrow>
     buf_ok (to_buf s) (too s) \<and> buf_ok (fr_buf s) (fro s) \<and>
     got w 0 = sent w sockfd @ drop (too s) (to_buf s) \<and>
     got w sockfd = sent w 1 @ drop (fro s) (fr_buf s) \<and>
     fins s = (if stdineof s \<and> to_buf s = [] then 1 else 0)"

lemma w_read_got:
  assumes "w_read fd n w = Ret (r, w')"
  shows "sent w' = sent w \<and> got w' = (case r of Inl e \<Rightarrow> got w | Inr bs \<Rightarrow> (got w)(fd := got w fd @ bs)) \<and>
    (\<forall>bs. r = Inr bs \<longrightarrow> length bs \<le> n)"
  using w_read_Ret [OF assms] sys_read_bound by auto

lemma w_write_sent:
  assumes "w_write fd bs w = Ret (r, w')"
  shows "got w' = got w \<and> sent w' = (case r of Inl e \<Rightarrow> sent w | Inr n \<Rightarrow> (sent w)(fd := sent w fd @ take n bs)) \<and>
    (\<forall>n. r = Inr n \<longrightarrow> n \<le> length bs)"
  by (rule w_write_Ret [OF assms]) (auto dest: sys_write_bound)

lemma nb_stdin_inv:
  assumes inv: "nb_inv sockfd s w" and fds: "sockfd \<noteq> 0" "sockfd \<noteq> 1"
    and room: "length (to_buf s) < MAXLINE" "\<not> stdineof s"
    and r: "nb_stdin sockfd (s, ws) w = Ret ((s', ws'), w')"
  shows "nb_inv sockfd s' w' \<and> fr_buf s' = fr_buf s"
proof -
  from r obtain x w1 where x: "w_read 0 (MAXLINE - length (to_buf s)) w = Ret (x, w1)"
    by (auto simp: nb_stdin_def run_bind_Ret_conv)
  note g = w_read_got [OF x]
  show ?thesis
  proof (cases x)
    case (Inl e)
    with r x have "s' = s" "w' = w1" by (auto simp: nb_stdin_def split: if_splits)
    with inv g Inl show ?thesis by (simp add: nb_inv_def)
  next
    case (Inr bs)
    show ?thesis
    proof (cases "bs = []")
      case True
      with r x Inr have s': "s' = (if too s = length (to_buf s) then s\<lparr>stdineof := True, fins := fins s + 1\<rparr> else s\<lparr>stdineof := True\<rparr>)"
        and w': "w' = w1" by (auto simp: nb_stdin_def Let_def)
      have "too s = length (to_buf s) \<longleftrightarrow> to_buf s = []" using inv by (auto simp: nb_inv_def buf_ok_def)
      with inv g Inr True room(2) s' w' show ?thesis by (auto simp: nb_inv_def)
    next
      case False
      with r x Inr have s': "s' = s\<lparr>to_buf := to_buf s @ bs\<rparr>" "w' = w1" by (auto simp: nb_stdin_def)
      have "buf_ok (to_buf s @ bs) (too s)" "drop (too s) (to_buf s @ bs) = drop (too s) (to_buf s) @ bs"
        using inv g Inr room False by (auto simp: nb_inv_def buf_ok_def)
      with inv g Inr s' room(2) fds show ?thesis by (simp add: nb_inv_def)
    qed
  qed
qed

lemma nb_socket_inv:
  assumes inv: "nb_inv sockfd s w" and fds: "sockfd \<noteq> 0" "sockfd \<noteq> 1"
    and room: "length (fr_buf s) < MAXLINE"
    and r: "nb_socket sockfd (s, ws) w = Ret (res, w')"
  shows "case res of None \<Rightarrow> nb_inv sockfd s w' \<and> stdineof s | Some (s', ws') \<Rightarrow> nb_inv sockfd s' w'"
proof -
  from r obtain x w1 where x: "w_read sockfd (MAXLINE - length (fr_buf s)) w = Ret (x, w1)"
    by (auto simp: nb_socket_def run_bind_Ret_conv)
  note g = w_read_got [OF x]
  show ?thesis
  proof (cases x)
    case (Inl e)
    with r x have "res = Some (s, ws)" "w' = w1" by (auto simp: nb_socket_def split: if_splits)
    with inv g Inl show ?thesis by (simp add: nb_inv_def)
  next
    case (Inr bs)
    show ?thesis
    proof (cases "bs = []")
      case True
      with r x Inr have "res = None" "w' = w1" "stdineof s" by (auto simp: nb_socket_def split: if_splits)
      with inv g Inr True show ?thesis by (simp add: nb_inv_def fun_upd_idem)
    next
      case False
      with r x Inr have s': "res = Some (s\<lparr>fr_buf := fr_buf s @ bs\<rparr>, insert 1 ws)" "w' = w1"
        by (auto simp: nb_socket_def)
      have "buf_ok (fr_buf s @ bs) (fro s)" "drop (fro s) (fr_buf s @ bs) = drop (fro s) (fr_buf s) @ bs"
        using inv g Inr room False by (auto simp: nb_inv_def buf_ok_def)
      with inv g Inr s' fds show ?thesis by (simp add: nb_inv_def)
    qed
  qed
qed

lemma nb_stdout_inv:
  assumes inv: "nb_inv sockfd s w" and fds: "sockfd \<noteq> 1"
    and r: "nb_stdout s w = Ret (s', w')"
  shows "nb_inv sockfd s' w'"
proof -
  from r obtain x w1 where x: "w_write 1 (drop (fro s) (fr_buf s)) w = Ret (x, w1)"
    by (auto simp: nb_stdout_def run_bind_Ret_conv)
  note g = w_write_sent [OF x]
  show ?thesis
  proof (cases x)
    case (Inl e)
    with r x have "s' = s" "w' = w1" by (auto simp: nb_stdout_def split: if_splits)
    with inv g Inl show ?thesis by (simp add: nb_inv_def)
  next
    case (Inr n)
    let ?f = "fr_buf s" and ?p = "fro s"
    have n: "n \<le> length ?f - ?p" using g Inr by simp
    have p: "buf_ok ?f ?p" "?p \<le> length ?f" using inv by (auto simp: nb_inv_def buf_ok_def)
    have cut: "take n (drop ?p ?f) @ drop (?p + n) ?f = drop ?p ?f"
      by (metis add.commute append_take_drop_id drop_drop)
    from r x Inr have s': "s' = (if ?p + n = length ?f then s\<lparr>fr_buf := [], fro := 0\<rparr> else s\<lparr>fro := ?p + n\<rparr>)"
      and w': "w' = w1" by (auto simp: nb_stdout_def Let_def)
    show ?thesis
    proof (cases "?p + n = length ?f")
      case True
      then have "take n (drop ?p ?f) = drop ?p ?f" by simp
      with True inv g Inr s' w' fds show ?thesis by (simp add: nb_inv_def buf_ok_def)
    next
      case False
      then have "buf_ok ?f (?p + n)" using p n by (auto simp: buf_ok_def)
      with False inv g Inr s' w' fds cut show ?thesis by (simp add: nb_inv_def)
    qed
  qed
qed

lemma nb_sockout_inv:
  assumes inv: "nb_inv sockfd s w" and fds: "sockfd \<noteq> 1" and pos: "too s < length (to_buf s)"
    and r: "nb_sockout sockfd s w = Ret (s', w')"
  shows "nb_inv sockfd s' w'"
proof -
  from r obtain x w1 where x: "w_write sockfd (drop (too s) (to_buf s)) w = Ret (x, w1)"
    by (auto simp: nb_sockout_def run_bind_Ret_conv)
  note g = w_write_sent [OF x]
  show ?thesis
  proof (cases x)
    case (Inl e)
    with r x have "s' = s" "w' = w1" by (auto simp: nb_sockout_def split: if_splits)
    with inv g Inl show ?thesis by (simp add: nb_inv_def)
  next
    case (Inr n)
    let ?f = "to_buf s" and ?p = "too s"
    have n: "n \<le> length ?f - ?p" using g Inr by simp
    have p: "buf_ok ?f ?p" "?f \<noteq> []" using inv pos by (auto simp: nb_inv_def)
    have cut: "take n (drop ?p ?f) @ drop (?p + n) ?f = drop ?p ?f"
      by (metis add.commute append_take_drop_id drop_drop)
    from r x Inr have s': "s' = (if ?p + n = length ?f then
        (if stdineof s then s\<lparr>to_buf := [], too := 0, fins := fins s + 1\<rparr> else s\<lparr>to_buf := [], too := 0\<rparr>)
        else s\<lparr>too := ?p + n\<rparr>)"
      and w': "w' = w1" by (auto simp: nb_sockout_def Let_def)
    show ?thesis
    proof (cases "?p + n = length ?f")
      case True
      then have "take n (drop ?p ?f) = drop ?p ?f" by simp
      with True inv g Inr s' w' fds p(2) show ?thesis by (auto simp: nb_inv_def buf_ok_def)
    next
      case False
      then have "buf_ok ?f (?p + n)" using p n pos by (auto simp: buf_ok_def)
      with False inv g Inr s' w' fds cut show ?thesis by (simp add: nb_inv_def)
    qed
  qed
qed

lemma nb_outputs_inv:
  assumes inv: "nb_inv sockfd s w" and fds: "sockfd \<noteq> 1" and r: "nb_outputs sockfd ws s w = Ret (s', w')"
  shows "nb_inv sockfd s' w'"
proof -
  from r obtain s1 w1 where
    1: "(if 1 \<in> ws \<and> 0 < length (fr_buf s) - fro s then nb_stdout s w else Ret (s, w)) = Ret (s1, w1)" and
    2: "(if sockfd \<in> ws \<and> 0 < length (to_buf s1) - too s1 then nb_sockout sockfd s1 w1 else Ret (s1, w1)) = Ret (s', w')"
    unfolding nb_outputs_def by (auto simp only: run_bind_Ret_conv prod.case split_paired_Ex)
  have i: "nb_inv sockfd s1 w1" using 1 inv nb_stdout_inv [OF inv fds, of s1 w1] by (auto split: if_splits)
  show ?thesis using 2 i nb_sockout_inv [OF i fds, of s' w'] by (auto split: if_splits)
qed

lemma nb_iter_inv:
  assumes inv: "nb_inv sockfd s w" and fds: "sockfd \<noteq> 0" "sockfd \<noteq> 1"
    and rs: "rs \<subseteq> nb_rset sockfd s"
    and r: "nb_iter sockfd rs ws s w = Ret (fin, s', w')"
  shows "nb_inv sockfd s' w' \<and> (fin \<longrightarrow> stdineof s')"
proof -
  from r obtain s1 ws1 w1 o2 w2 where
    1: "(if 0 \<in> rs then nb_stdin sockfd (s, ws) w else Ret ((s, ws), w)) = Ret ((s1, ws1), w1)" and
    2: "(if sockfd \<in> rs then nb_socket sockfd (s1, ws1) w1 else Ret (Some (s1, ws1), w1)) = Ret (o2, w2)" and
    rest: "(case o2 of
         None \<Rightarrow> Ret (True, s1, w2)
       | Some (s2, ws2) \<Rightarrow> run_bind (nb_outputs sockfd ws2 s2 w2) (\<lambda>(s4, w4). Ret (False, s4, w4))) = Ret (fin, s', w')"
    unfolding nb_iter_def by (auto simp only: run_bind_Ret_conv prod.case split_paired_Ex)
  have i1: "nb_inv sockfd s1 w1 \<and> fr_buf s1 = fr_buf s"
  proof (cases "0 \<in> rs")
    case True
    then have "\<not> stdineof s" "length (to_buf s) < MAXLINE"
      using rs fds by (auto simp: nb_rset_def split: if_splits)
    with nb_stdin_inv [OF inv fds] 1 True show ?thesis by simp
  qed (use 1 inv in auto)
  have i2: "case o2 of None \<Rightarrow> nb_inv sockfd s1 w2 \<and> stdineof s1 | Some (s2, ws2) \<Rightarrow> nb_inv sockfd s2 w2"
  proof (cases "sockfd \<in> rs")
    case True
    then have "length (fr_buf s1) < MAXLINE" using rs fds i1 by (auto simp: nb_rset_def split: if_splits)
    with nb_socket_inv [of sockfd s1 w1 ws1 o2 w2] i1 fds 2 True show ?thesis by simp
  qed (use 2 i1 in auto)
  show ?thesis
  proof (cases o2)
    case None
    with rest i2 show ?thesis by auto
  next
    case (Some p)
    then obtain s2 ws2 where o2: "o2 = Some (s2, ws2)" by (cases p) auto
    with rest have out: "nb_outputs sockfd ws2 s2 w2 = Ret (s', w')" and d: "\<not> fin"
      by (auto simp: run_bind_Ret_conv)
    have i: "nb_inv sockfd s2 w2" using i2 o2 by simp
    from nb_outputs_inv [OF i fds(2) out] d show ?thesis by simp
  qed
qed

lemma nb_run_inv:
  assumes "nb_run sockfd w0 fin s w" and "sockfd \<noteq> 0" and "sockfd \<noteq> 1"
    and "got w0 0 = sent w0 sockfd" and "got w0 sockfd = sent w0 1"
  shows "nb_inv sockfd s w \<and> (fin \<longrightarrow> stdineof s)"
  using assms(1)
proof induction
  case start
  then show ?case using assms(4,5) by (simp add: nb_inv_def nb_init_def buf_ok_def)
next
  case (iterate s w rs ws fin s' w')
  then show ?case using nb_iter_inv [of sockfd s w rs ws fin s' w'] assms(2,3) by blast
qed

section \<open>Properties\<close>

text \<open>
  C8: nothing is lost, duplicated or reordered between standard input and the socket, nor
  between the socket and standard output: at every point what has been read is what has been
  written followed by the buffer between the pointers; the pointers stay inside the buffers;
  the FIN is sent exactly once, when standard input has ended and its last byte has been sent;
  and \<open>str_cli\<close> returns only after the end of standard input.
\<close>
theorem nb_conservation:
  assumes "nb_run sockfd w0 fin s w" and "sockfd \<noteq> 0" and "sockfd \<noteq> 1"
    and "got w0 0 = sent w0 sockfd" and "got w0 sockfd = sent w0 1"
  shows "got w 0 = sent w sockfd @ drop (too s) (to_buf s) \<and>
    got w sockfd = sent w 1 @ drop (fro s) (fr_buf s) \<and>
    too s \<le> length (to_buf s) \<and> length (to_buf s) \<le> MAXLINE \<and>
    fro s \<le> length (fr_buf s) \<and> length (fr_buf s) \<le> MAXLINE \<and>
    fins s = (if stdineof s \<and> sent w sockfd = got w 0 then 1 else 0) \<and>
    (fin \<longrightarrow> stdineof s)"
proof -
  have inv: "nb_inv sockfd s w" and f: "fin \<longrightarrow> stdineof s" using nb_run_inv [OF assms] by auto
  then have "sent w sockfd = got w 0 \<longleftrightarrow> to_buf s = []" by (auto simp: nb_inv_def buf_ok_def)
  with inv f show ?thesis by (auto simp: nb_inv_def buf_ok_def)
qed

text \<open>Standard output is not ready when the server's last byte and its FIN arrive.\<close>

definition nb_demo :: "rd_event list \<Rightarrow> world" where
  "nb_demo sock = \<lparr>rds = (\<lambda>_. [])(0 := [Seg []], 3 := sock), wrs = (\<lambda>_. [])(1 := [WrErr EWOULDBLOCK]),
     got = \<lambda>_. [], sent = \<lambda>_. [], opened = [3, 2, 1, 0], backlog = []\<rparr>"

definition nb_demo_s :: nb_state where
  "nb_demo_s = \<lparr>to_buf = [], too = 0, fr_buf = [7], fro = 0, stdineof = True, fins = 1\<rparr>"

definition nb_demo_w :: "rd_event list \<Rightarrow> world" where
  "nb_demo_w sock = (nb_demo sock)\<lparr>rds := (\<lambda>_. [])(3 := sock), wrs := (\<lambda>_. []), got := (\<lambda>_. [])(3 := [7])\<rparr>"

lemma nb_demo_first:
  "nb_iter 3 {0, 3} {} nb_init (nb_demo (Seg [7] # k)) = Ret (False, nb_demo_s, nb_demo_w k)"
  by (simp add: nb_iter_def nb_stdin_def nb_socket_def nb_outputs_def nb_stdout_def nb_init_def nb_demo_def
      w_read_def w_write_def MAXLINE_def nb_demo_s_def nb_demo_w_def Let_def fun_upd_idem fun_upd_twist)

lemma nb_demo_run: "nb_run 3 (nb_demo (Seg [7] # k)) False nb_demo_s (nb_demo_w k)"
  by (rule nb_run.iterate [OF nb_run.start _ _ nb_demo_first])
    (simp_all add: nb_rset_def nb_wset_def nb_init_def MAXLINE_def)

theorem nb_conservation_witness:
  "nb_run 3 (nb_demo [Seg [7]]) False nb_demo_s (nb_demo_w []) \<and>
   got (nb_demo_w []) 3 = sent (nb_demo_w []) 1 @ drop (fro nb_demo_s) (fr_buf nb_demo_s) \<and> fins nb_demo_s = 1"
proof -
  note run = nb_demo_run [of "[]"]
  have "fins nb_demo_s = (if stdineof nb_demo_s \<and> sent (nb_demo_w []) 3 = got (nb_demo_w []) 0 then 1 else 0)"
    and "got (nb_demo_w []) 3 = sent (nb_demo_w []) 1 @ drop (fro nb_demo_s) (fr_buf nb_demo_s)"
    using nb_conservation [OF run] by (simp_all add: nb_demo_def)
  with run show ?thesis by (simp add: nb_demo_s_def)
qed

text \<open>
  C22: \<open>str_cli\<close> can return with data it has read from the server and not yet written: the return
  at the end-of-file of the socket does not look at the buffer, so bytes that standard output
  was not ready for are dropped.
\<close>
lemma nb_return_drops_output:
  "\<exists>s w. nb_run 3 (nb_demo [Seg [7], Seg []]) True s w \<and> got w 3 = [7] \<and> sent w 1 = []"
proof -
  let ?w = "(nb_demo_w [Seg []])\<lparr>rds := (\<lambda>_. [])\<rparr>"
  have "nb_iter 3 {3} {} nb_demo_s (nb_demo_w [Seg []]) = Ret (True, nb_demo_s, ?w)"
    by (simp add: nb_iter_def nb_socket_def nb_demo_s_def nb_demo_w_def nb_demo_def w_read_def MAXLINE_def fun_upd_idem)
  from nb_run.iterate [OF nb_demo_run _ _ this] have "nb_run 3 (nb_demo [Seg [7], Seg []]) True nb_demo_s ?w"
    by (simp add: nb_rset_def nb_wset_def nb_demo_s_def MAXLINE_def)
  then show ?thesis by (intro exI [of _ nb_demo_s] exI [of _ ?w]) (simp add: nb_demo_w_def nb_demo_def)
qed

end
