(* ===== verification/Num_Text.thy ===== *)
theory Num_Text
  imports Prelude
begin

text \<open>
  Numbers as text, the part of the C library the address code uses: \<open>sprintf\<close> with
  \<open>%u\<close>, \<open>%d\<close> (of a nonnegative value) and \<open>%x\<close>, and \<open>strchr\<close> in a digit table.
\<close>

section \<open>Digits\<close>

fun digits_of :: "nat \<Rightarrow> nat \<Rightarrow> nat list" where
  "digits_of b n = (if n < b \<or> b < 2 then [n] else digits_of b (n div b) @ [n mod b])"

declare digits_of.simps [simp del]

definition digits_val :: "nat \<Rightarrow> nat \<Rightarrow> nat list \<Rightarrow> nat" where
  "digits_val b = foldl (\<lambda>a d. a * b + d)"

lemma digits_val_simps [simp]:
  "digits_val b a [] = a"
  "digits_val b a (d # ds) = digits_val b (a * b + d) ds"
  "digits_val b a (ds @ es) = digits_val b (digits_val b a ds) es"
  by (simp_all add: digits_val_def)

lemma digits_of_not_Nil [simp]: "digits_of b n \<noteq> []"
  by (subst digits_of.simps) simp

lemma digits_of_val: "digits_val b 0 (digits_of b n) = n"
proof (induction b n rule: digits_of.induct)
  case (1 b n)
  then show ?case by (cases "n < b \<or> b < 2") (simp_all add: digits_of.simps [of b n])
qed

lemma digits_of_less: "2 \<le> b \<Longrightarrow> d \<in> set (digits_of b n) \<Longrightarrow> d < b"
proof (induction b n rule: digits_of.induct)
  case (1 b n)
  then show ?case by (cases "n < b") (auto simp: digits_of.simps [of b n])
qed

lemma digits_of_length:
  "2 \<le> b \<Longrightarrow> n < b ^ Suc k \<Longrightarrow> length (digits_of b n) \<le> Suc k"
proof (induction k arbitrary: n)
  case 0
  then show ?case by (simp add: digits_of.simps [of b n])
next
  case (Suc k)
  then have "n div b < b ^ Suc k" by (metis div_less_iff_less_mult mult.commute not_numeral_le_zero not_gr_zero power_Suc)
  with Suc show ?case by (cases "n < b") (simp_all add: digits_of.simps [of b n])
qed

lemma digits_val_mono: "2 \<le> b \<Longrightarrow> a \<le> digits_val b a ds"
proof (induction ds arbitrary: a)
  case (Cons d ds)
  have "a \<le> a * b + d" using Cons.prems by (simp add: trans_le_add1)
  also have "\<dots> \<le> digits_val b (a * b + d) ds" using Cons by blast
  finally show ?case by simp
qed simp

section \<open>Digit tables\<close>

definition dec_digits :: string where "dec_digits = ''0123456789''"
definition xdigits_l :: string where "xdigits_l = ''0123456789abcdef''"
definition xdigits_u :: string where "xdigits_u = ''0123456789ABCDEF''"

text \<open>\<open>strchr(s, c)\<close> for a character other than 0, as the offset \<open>pch - s\<close>.\<close>

fun strchr :: "string \<Rightarrow> char \<Rightarrow> nat option" where
  "strchr [] c = None"
| "strchr (x # xs) c = (if x = c then Some 0 else map_option Suc (strchr xs c))"

lemma strchr_Some: "strchr s c = Some i \<Longrightarrow> i < length s \<and> s ! i = c"
  by (induction s arbitrary: i) (auto split: if_splits)

lemma strchr_nth: "distinct s \<Longrightarrow> i < length s \<Longrightarrow> strchr s (s ! i) = Some i"
  by (induction s arbitrary: i) (auto simp: nth_Cons split: nat.splits)

lemma strchr_None: "strchr s c = None \<longleftrightarrow> c \<notin> set s"
  by (induction s) auto

lemma less_10_cases: "d < 10 \<Longrightarrow> d \<in> {0, 1, 2, 3, 4, 5, 6, 7, 8, 9 :: nat}"
  by auto

lemma less_16_cases: "d < 16 \<Longrightarrow> d \<in> {0, 1, 2, 3, 4, 5, 6, 7, 8, 9, 10, 11, 12, 13, 14, 15 :: nat}"
  by (simp only: insert_iff empty_iff simp_thms) arith

lemma strchr_dec [simp]: "d < 10 \<Longrightarrow> strchr dec_digits (dec_digits ! d) = Some d"
  by (rule strchr_nth) (auto simp: dec_digits_def)

lemma strchr_xdig [simp]: "d < 16 \<Longrightarrow> strchr xdigits_l (xdigits_l ! d) = Some d"
  by (rule strchr_nth) (auto simp: xdigits_l_def)

lemma dec_is_xdig: "d < 10 \<Longrightarrow> dec_digits ! d = xdigits_l ! d"
  by (drule less_10_cases) (auto simp: dec_digits_def xdigits_l_def)

lemma dec_digit_neq [simp]: "d < 10 \<Longrightarrow> dec_digits ! d \<noteq> CHR ''.''" "d < 10 \<Longrightarrow> dec_digits ! d \<noteq> CHR '':''"
  by (drule less_10_cases, auto simp: dec_digits_def)+

lemma xdigit_neq [simp]: "d < 16 \<Longrightarrow> xdigits_l ! d \<noteq> CHR '':''"
  by (drule less_16_cases) (auto simp: xdigits_l_def)

lemma strchr_dec_dot [simp]: "strchr dec_digits CHR ''.'' = None"
  by (simp add: dec_digits_def)

lemma strchr_hex_other [simp]:
  "strchr xdigits_l CHR '':'' = None" "strchr xdigits_u CHR '':'' = None"
  "strchr xdigits_l CHR ''.'' = None" "strchr xdigits_u CHR ''.'' = None"
  by (simp_all add: xdigits_l_def xdigits_u_def)

section \<open>Printing\<close>

definition dec_text :: "nat list \<Rightarrow> string" where
  "dec_text = map ((!) dec_digits)"

definition hex_text :: "nat list \<Rightarrow> string" where
  "hex_text = map ((!) xdigits_l)"

text \<open>\<open>%u\<close> and \<open>%x\<close>.\<close>

definition fmt_u :: "nat \<Rightarrow> string" where
  "fmt_u n = dec_text (digits_of 10 n)"

definition fmt_x :: "nat \<Rightarrow> string" where
  "fmt_x n = hex_text (digits_of 16 n)"

lemma text_simps [simp]:
  "dec_text [] = []" "dec_text (d # ds) = dec_digits ! d # dec_text ds"
  "hex_text [] = []" "hex_text (d # ds) = xdigits_l ! d # hex_text ds"
  "length (dec_text ds) = length ds" "length (hex_text ds) = length ds"
  "(dec_text ds = []) = (ds = [])" "(hex_text ds = []) = (ds = [])"
  by (simp_all add: dec_text_def hex_text_def)

lemma fmt_u_not_Nil [simp]: "fmt_u n \<noteq> []" and fmt_x_not_Nil [simp]: "fmt_x n \<noteq> []"
  by (simp_all add: fmt_u_def fmt_x_def)

lemma fmt_u_length: "n < 10 ^ Suc k \<Longrightarrow> length (fmt_u n) \<le> Suc k"
  using digits_of_length [of 10 n k] by (simp add: fmt_u_def)

lemma fmt_x_length: "n < 16 ^ Suc k \<Longrightarrow> length (fmt_x n) \<le> Suc k"
  using digits_of_length [of 16 n k] by (simp add: fmt_x_def)

lemma byte_fmt_u_length: "length (fmt_u (unat (b :: byte))) \<le> 3"
proof -
  have "unat b < 10 ^ Suc 2" using unat_byte_less [of b] by simp
  then show ?thesis using fmt_u_length [of "unat b" 2] by simp
qed

end
