(* ===== verification/Web_Client.thy ===== *)
theory Web_Client
  imports Client_Table Num_Text
begin

text \<open>
  The web client of \<open>nonblock/\<close>: \<open>web.c\<close> keeps up to \<open>maxnconn\<close> nonblocking connections open at a
  time and fetches one file over each (\<open>start_connect.c\<close>, \<open>write_get_cmd.c\<close>).
\<close>

section \<open>State\<close>

definition F_CONNECTING :: nat where "F_CONNECTING = 1"
definition F_READING :: nat where "F_READING = 2"
definition F_DONE :: nat where "F_DONE = 4"

lemmas f_flag_defs = F_CONNECTING_def F_READING_def F_DONE_def

record wfile =
  f_name :: string
  f_fd :: int
  f_flags :: nat

record web_state =
  files :: "wfile list"
  nconn :: int
  nlefttoconn :: int
  nlefttoread :: int
  wmaxfd :: int
  wrset :: "int set"
  wwset :: "int set"

definition MAXFILES :: nat where "MAXFILES = 20"

definition web_init :: "string list \<Rightarrow> web_state" where
  "web_init names =
     (let nfiles = min (length names) MAXFILES in
      \<lparr>files = map (\<lambda>n. \<lparr>f_name = n, f_fd = 0, f_flags = 0\<rparr>) (take nfiles names), nconn = 0,
       nlefttoconn = int nfiles, nlefttoread = int nfiles, wmaxfd = -1, wrset = {}, wwset = {}\<rparr>)"

text \<open>
  What the network does with the connection for the file at an index: what \<open>connect\<close> answers
  (\<open>None\<close>: connected at once), the pending error that \<open>SO_ERROR\<close> reports, and the events of the
  descriptor.
\<close>

record peer =
  connect_answer :: "errno option"
  so_error :: "errno option"
  peer_rds :: "rd_event list"
  peer_wrs :: "wr_event list"

section \<open>Operations\<close>

text \<open>\<open>GET_CMD\<close> with the file's name, as bytes.\<close>

definition text_bytes :: "string \<Rightarrow> byte list" where
  "text_bytes s = map of_char s"

definition get_cmd :: "string \<Rightarrow> byte list" where
  "get_cmd name = text_bytes (''GET '' @ name @ '' HTTP/1.0'') @ [13, 10, 13, 10]"

definition set_file :: "nat \<Rightarrow> (wfile \<Rightarrow> wfile) \<Rightarrow> web_state \<Rightarrow> web_state" where
  "set_file i f s = s\<lparr>files := (files s)[i := f (files s ! i)]\<rparr>"

text \<open>
  \<open>snprintf\<close> returns the length of the whole text, and \<open>Writen\<close> is given that length although
  \<open>line\<close> has \<open>MAXLINE\<close> bytes.
\<close>

definition write_get_cmd :: "nat \<Rightarrow> web_state \<Rightarrow> world \<Rightarrow> (web_state \<times> world) run" where
  "write_get_cmd i s w =
     (let fd = f_fd (files s ! i); line = get_cmd (f_name (files s ! i)) in
      if MAXLINE \<le> length line then Fatal ''read past the end of line''
      else run_bind (w_Writen fd line w) (\<lambda>w1.
        Ret ((set_file i (\<lambda>f. f\<lparr>f_flags := F_READING\<rparr>) s)
          \<lparr>wrset := insert fd (wrset s), wmaxfd := max fd (wmaxfd s)\<rparr>, w1)))"

definition open_socket :: "peer \<Rightarrow> world \<Rightarrow> int \<times> world" where
  "open_socket p w =
     (let fd = lowest_free (opened w) in
      (fd, w\<lparr>opened := fd # opened w, rds := (rds w)(fd := peer_rds p), wrs := (wrs w)(fd := peer_wrs p),
        got := (got w)(fd := []), sent := (sent w)(fd := [])\<rparr>))"

definition start_connect :: "(nat \<Rightarrow> peer) \<Rightarrow> nat \<Rightarrow> web_state \<Rightarrow> world \<Rightarrow> (web_state \<times> world) run" where
  "start_connect peers i s w =
     (let (fd, w1) = open_socket (peers i) w; s1 = set_file i (\<lambda>f. f\<lparr>f_fd := fd\<rparr>) s in
      case connect_answer (peers i) of
        Some e \<Rightarrow>
          if e \<noteq> EINPROGRESS then Fatal ''nonblocking connect error''
          else Ret ((set_file i (\<lambda>f. f\<lparr>f_flags := F_CONNECTING\<rparr>) s1)
            \<lparr>wrset := insert fd (wrset s1), wwset := insert fd (wwset s1), wmaxfd := max fd (wmaxfd s1)\<rparr>, w1)
      | None \<Rightarrow> write_get_cmd i s1 w1)"

text \<open>\<open>home_page\<close>: one blocking fetch before the others; the connection is made by \<open>Tcp_connect\<close>.\<close>

function home_read :: "int \<Rightarrow> world \<Rightarrow> world run" where
  "home_read fd w =
     (case w_Read fd MAXLINE w of
        Ret (bs, w1) \<Rightarrow> if bs = [] then Ret w1 else home_read fd w1
      | Fatal m \<Rightarrow> Fatal m
      | Blocked \<Rightarrow> Blocked)"
  by pat_completeness auto

lemma w_Read_size: "w_Read fd n w = Ret (bs, w') \<Longrightarrow> 0 < n \<Longrightarrow> rd_size (rds w' fd) < rd_size (rds w fd)"
  using w_Read_Ret [of fd n w bs w'] sys_read_size by fastforce

termination home_read
  by (relation "measure (\<lambda>(fd, w). rd_size (rds w fd))") (auto dest: w_Read_size [OF _ MAXLINE_pos])

declare home_read.simps [simp del]

definition home_page :: "peer \<Rightarrow> string \<Rightarrow> world \<Rightarrow> world run" where
  "home_page p fname w =
     (let (fd, w1) = open_socket p w; line = get_cmd fname in
      if MAXLINE \<le> length line then Fatal ''read past the end of line''
      else run_bind (w_Writen fd line w1) (\<lambda>w2.
        run_bind (home_read fd w2) (\<lambda>w3. w_Close fd w3)))"

text \<open>The search for a file not yet asked for.\<close>

fun next_file :: "wfile list \<Rightarrow> nat option" where
  "next_file [] = None"
| "next_file (f # fs) = (if f_flags f = 0 then Some 0 else map_option Suc (next_file fs))"

text \<open>\<open>while (nconn < maxnconn && nlefttoconn > 0)\<close>, with \<open>m\<close> at least \<open>nlefttoconn\<close>.\<close>

fun web_connect :: "(nat \<Rightarrow> peer) \<Rightarrow> int \<Rightarrow> nat \<Rightarrow> web_state \<Rightarrow> world \<Rightarrow> (web_state \<times> world) run" where
  "web_connect peers maxnconn 0 s w = Ret (s, w)"
| "web_connect peers maxnconn (Suc m) s w =
     (if nconn s < maxnconn \<and> 0 < nlefttoconn s then
        (case next_file (files s) of
           None \<Rightarrow> Fatal ''nlefttoconn but nothing found''
         | Some i \<Rightarrow>
             run_bind (start_connect peers i s w) (\<lambda>(s1, w1).
               web_connect peers maxnconn m (s1\<lparr>nconn := nconn s1 + 1, nlefttoconn := nlefttoconn s1 - 1\<rparr>) w1))
      else Ret (s, w))"

text \<open>
  The body for one file.  A pending error is only reported, then the connection is treated as
  established.
\<close>

definition web_file :: "int set \<Rightarrow> int set \<Rightarrow> nat \<Rightarrow> web_state \<Rightarrow> world \<Rightarrow> (web_state \<times> world) run" where
  "web_file rs ws i s w =
     (let flags = f_flags (files s ! i); fd = f_fd (files s ! i) in
      if flags = 0 \<or> flags AND F_DONE \<noteq> 0 then Ret (s, w)
      else if flags AND F_CONNECTING \<noteq> 0 \<and> (fd \<in> rs \<or> fd \<in> ws) then
        write_get_cmd i (s\<lparr>wwset := wwset s - {fd}\<rparr>) w
      else if flags AND F_READING \<noteq> 0 \<and> fd \<in> rs then
        run_bind (w_Read fd MAXLINE w) (\<lambda>(bs, w1).
          if bs = [] then
            run_bind (w_Close fd w1) (\<lambda>w2.
              Ret ((set_file i (\<lambda>f. f\<lparr>f_flags := F_DONE\<rparr>) s)
                \<lparr>wrset := wrset s - {fd}, nconn := nconn s - 1, nlefttoread := nlefttoread s - 1\<rparr>, w2))
          else Ret (s, w1))
      else Ret (s, w))"

fun web_scan :: "int set \<Rightarrow> int set \<Rightarrow> nat \<Rightarrow> nat \<Rightarrow> web_state \<Rightarrow> world \<Rightarrow> (web_state \<times> world) run" where
  "web_scan rs ws i 0 s w = Ret (s, w)"
| "web_scan rs ws i (Suc m) s w =
     run_bind (web_file rs ws i s w) (\<lambda>(s1, w1). web_scan rs ws (Suc i) m s1 w1)"

text \<open>
  The program: \<open>web_top\<close> is the state at the test of the outer loop; each turn connects, selects
  and scans the files.
\<close>

inductive web_top :: "(nat \<Rightarrow> peer) \<Rightarrow> int \<Rightarrow> string list \<Rightarrow> world \<Rightarrow> web_state \<Rightarrow> world \<Rightarrow> bool"
  for peers maxnconn names w0 where
  start: "web_top peers maxnconn names w0 (web_init names) w0"
| turn: "web_top peers maxnconn names w0 s w \<Longrightarrow> 0 < nlefttoread s \<Longrightarrow>
    web_connect peers maxnconn (nat (nlefttoconn s)) s w = Ret (s1, w1) \<Longrightarrow>
    rs \<subseteq> wrset s1 \<Longrightarrow> ws \<subseteq> wwset s1 \<Longrightarrow>
    web_scan rs ws 0 (length (files s1)) s1 w1 = Ret (s2, w2) \<Longrightarrow>
    web_top peers maxnconn names w0 s2 w2"

section \<open>The invariant\<close>

definition flag :: "web_state \<Rightarrow> nat \<Rightarrow> nat" where
  "flag s i = f_flags (files s ! i)"

definition n_in :: "nat set \<Rightarrow> web_state \<Rightarrow> nat" where
  "n_in fl s = length (filter (\<lambda>f. f_flags f \<in> fl) (files s))"

text \<open>The descriptors of the files in one of the given states, without the file at \<open>i\<close>.\<close>

definition rest_fds :: "nat set \<Rightarrow> nat \<Rightarrow> web_state \<Rightarrow> int set" where
  "rest_fds fl i s = {f_fd (files s ! j) |j. j < length (files s) \<and> j \<noteq> i \<and> flag s j \<in> fl}"

definition fds_in :: "nat set \<Rightarrow> web_state \<Rightarrow> int set" where
  "fds_in fl s = {f_fd (files s ! j) |j. j < length (files s) \<and> flag s j \<in> fl}"

abbreviation active :: "nat set" where
  "active \<equiv> {F_CONNECTING, F_READING}"

definition web_inv :: "int set \<Rightarrow> int \<Rightarrow> web_state \<Rightarrow> world \<Rightarrow> bool" where
  "web_inv base maxnconn s w \<longleftrightarrow>
     (\<forall>f \<in> set (files s). f_flags f \<in> {0, F_CONNECTING, F_READING, F_DONE}) \<and>
     nconn s = int (n_in active s) \<and> nconn s \<le> maxnconn \<and>
     nlefttoconn s = int (n_in {0} s) \<and>
     nlefttoread s = int (n_in {0, F_CONNECTING, F_READING} s) \<and>
     (\<forall>i < length (files s). flag s i \<in> active \<longrightarrow> f_fd (files s ! i) \<notin> rest_fds active i s) \<and>
     wrset s = fds_in active s \<and> wwset s = fds_in {F_CONNECTING} s \<and>
     (\<forall>fd \<in> wrset s. fd \<le> wmaxfd s) \<and>
     set (opened w) = base \<union> wrset s \<and> base \<inter> wrset s = {}"

lemma fds_split:
  "i < length (files s) \<Longrightarrow>
     fds_in fl s = rest_fds fl i s \<union> (if flag s i \<in> fl then {f_fd (files s ! i)} else {})"
  by (auto simp: fds_in_def rest_fds_def)

text \<open>Changing the file at \<open>i\<close>.\<close>

definition upd :: "nat \<Rightarrow> wfile \<Rightarrow> web_state \<Rightarrow> web_state \<Rightarrow> bool" where
  "upd i f s s' \<longleftrightarrow> files s' = (files s)[i := f]"

lemma rest_upd: "upd i f s s' \<Longrightarrow> rest_fds fl i s' = rest_fds fl i s"
  unfolding rest_fds_def upd_def flag_def by (intro Collect_cong ex_cong1) auto

lemma n_in_upd:
  assumes "upd i f s s'" and "i < length (files s)"
  shows "int (n_in fl s') = int (n_in fl s) - (if flag s i \<in> fl then 1 else 0) + (if f_flags f \<in> fl then 1 else 0)"
proof -
  have "filter P (files s) = filter P (take i (files s)) @ filter P (files s ! i # drop (Suc i) (files s))" for P
    by (metis filter_append id_take_nth_drop [OF assms(2)])
  then have "n_in fl s = length (filter (\<lambda>f. f_flags f \<in> fl) (take i (files s))) + (if flag s i \<in> fl then 1 else 0) +
      length (filter (\<lambda>f. f_flags f \<in> fl) (drop (Suc i) (files s)))"
    by (simp add: n_in_def flag_def)
  moreover have "n_in fl s' = length (filter (\<lambda>f. f_flags f \<in> fl) (take i (files s))) + (if f_flags f \<in> fl then 1 else 0) +
      length (filter (\<lambda>f. f_flags f \<in> fl) (drop (Suc i) (files s)))"
    using assms by (simp add: n_in_def upd_def upd_conv_take_nth_drop)
  ultimately show ?thesis by simp
qed

lemma web_inv_upd:
  assumes inv: "web_inv base mx s w" and u: "upd i f s s'" and i: "i < length (files s)"
    and fl: "f_flags f \<in> {0, F_CONNECTING, F_READING, F_DONE}"
    and fresh: "f_flags f \<in> active \<Longrightarrow> f_fd f \<notin> rest_fds active i s"
    and n: "nconn s' = nconn s - (if flag s i \<in> active then 1 else 0) + (if f_flags f \<in> active then 1 else 0)"
      "nconn s' \<le> mx"
      "nlefttoconn s' = nlefttoconn s - (if flag s i = 0 then 1 else 0) + (if f_flags f = 0 then 1 else 0)"
      "nlefttoread s' = nlefttoread s - (if flag s i \<in> {0, F_CONNECTING, F_READING} then 1 else 0)
         + (if f_flags f \<in> {0, F_CONNECTING, F_READING} then 1 else 0)"
    and sets: "wrset s' = rest_fds active i s \<union> (if f_flags f \<in> active then {f_fd f} else {})"
      "wwset s' = rest_fds {F_CONNECTING} i s \<union> (if f_flags f = F_CONNECTING then {f_fd f} else {})"
    and mx: "\<forall>fd \<in> wrset s'. fd \<le> wmaxfd s'"
    and op: "set (opened w') = base \<union> wrset s'" "base \<inter> wrset s' = {}"
  shows "web_inv base mx s' w'"
proof -
  have fs: "files s' = (files s)[i := f]" using u by (simp add: upd_def)
  then have len: "length (files s') = length (files s)" and at: "flag s' i = f_flags f" "f_fd (files s' ! i) = f_fd f"
    using i by (simp_all add: flag_def)
  have other: "flag s' j = flag s j" "files s' ! j = files s ! j" if "j \<noteq> i" for j
    using that by (simp_all add: flag_def fs)
  have "\<forall>f \<in> set (files s). f_flags f \<in> {0, F_CONNECTING, F_READING, F_DONE}"
    using inv unfolding web_inv_def by blast
  then have "\<forall>f \<in> set (files s'). f_flags f \<in> {0, F_CONNECTING, F_READING, F_DONE}"
    using fl set_update_subset_insert [of "files s" i f] unfolding fs by blast
  moreover have "wrset s' = fds_in active s'" "wwset s' = fds_in {F_CONNECTING} s'"
    using fds_split [of i s'] i len rest_upd [OF u] at sets by simp_all
  moreover have "f_fd (files s' ! j) \<notin> rest_fds active j s'" if j: "j < length (files s')" "flag s' j \<in> active" for j
  proof (cases "j = i")
    case True
    then show ?thesis using fresh j at rest_upd [OF u] by simp
  next
    case False
    have un: "\<forall>i < length (files s). flag s i \<in> active \<longrightarrow> f_fd (files s ! i) \<notin> rest_fds active i s"
      using inv unfolding web_inv_def by blast
    have a: "flag s j \<in> active" using j(2) unfolding other(1) [OF False] .
    then have nj: "f_fd (files s ! j) \<notin> rest_fds active j s" using un j(1) unfolding len by blast
    have "f_fd (files s ! j) \<in> rest_fds active i s"
      using False j(1) len a unfolding rest_fds_def by auto
    then have "f_flags f \<in> active \<Longrightarrow> f_fd f \<noteq> f_fd (files s ! j)" using fresh by auto
    moreover have "x \<in> rest_fds active j s \<or> f_flags f \<in> active \<and> x = f_fd f"
      if "x \<in> rest_fds active j s'" for x
    proof -
      from that obtain k where k: "x = f_fd (files s' ! k)" "k < length (files s')" "k \<noteq> j" "flag s' k \<in> active"
        unfolding rest_fds_def by blast
      show ?thesis
      proof (cases "k = i")
        case True
        with k at show ?thesis by simp
      next
        case k': False
        with k other [OF k'] len show ?thesis unfolding rest_fds_def by auto
      qed
    qed
    ultimately show ?thesis using nj other(2) [OF False] by metis
  qed
  moreover have "nconn s' = int (n_in active s')" "nlefttoconn s' = int (n_in {0} s')"
    "nlefttoread s' = int (n_in {0, F_CONNECTING, F_READING} s')"
    using inv n n_in_upd [OF u i] unfolding web_inv_def by simp_all
  ultimately show ?thesis using n(2) mx op unfolding web_inv_def by blast
qed

lemma web_inv_facts:
  assumes "web_inv base mx s w"
  shows "wrset s = fds_in active s" "wwset s = fds_in {F_CONNECTING} s" "\<forall>fd \<in> wrset s. fd \<le> wmaxfd s"
    "set (opened w) = base \<union> wrset s" "base \<inter> wrset s = {}" "nconn s \<le> mx"
    "i < length (files s) \<Longrightarrow> flag s i \<in> active \<Longrightarrow> f_fd (files s ! i) \<notin> rest_fds active i s"
    "i < length (files s) \<Longrightarrow> flag s i \<in> {0, F_CONNECTING, F_READING, F_DONE}"
  using assms unfolding web_inv_def flag_def by (blast, blast, blast, blast, blast, blast, blast, simp)

lemma web_inv_opened: "opened w' = opened w \<Longrightarrow> web_inv base mx s w' = web_inv base mx s w"
  unfolding web_inv_def by simp

lemma rest_sub: "rest_fds fl i s \<subseteq> fds_in fl s" "fl \<subseteq> fl' \<Longrightarrow> rest_fds fl i s \<subseteq> rest_fds fl' i s"
  by (auto simp: rest_fds_def fds_in_def)

lemma set_file_simps [simp]:
  "nconn (set_file i g s) = nconn s" "nlefttoconn (set_file i g s) = nlefttoconn s"
  "nlefttoread (set_file i g s) = nlefttoread s" "wrset (set_file i g s) = wrset s"
  "wwset (set_file i g s) = wwset s" "wmaxfd (set_file i g s) = wmaxfd s"
  "files (set_file i g s) = (files s)[i := g (files s ! i)]"
  by (simp_all add: set_file_def)

lemma write_get_cmd_Ret:
  assumes "write_get_cmd i s w = Ret (s', w')" and "i < length (files s)"
  shows "upd i ((files s ! i)\<lparr>f_flags := F_READING\<rparr>) s s' \<and> nconn s' = nconn s \<and> nlefttoconn s' = nlefttoconn s \<and>
    nlefttoread s' = nlefttoread s \<and> wrset s' = insert (f_fd (files s ! i)) (wrset s) \<and> wwset s' = wwset s \<and>
    wmaxfd s' = max (f_fd (files s ! i)) (wmaxfd s) \<and> opened w' = opened w \<and>
    sent w' (f_fd (files s ! i)) = sent w (f_fd (files s ! i)) @ get_cmd (f_name (files s ! i))"
  using assms by (auto simp: write_get_cmd_def Let_def upd_def run_bind_Ret_conv split: if_splits dest!: w_Writen_Ret)

text \<open>A new connection, in progress or already established.\<close>

lemma start_connect_inv:
  assumes inv: "web_inv base mx s w" and i: "i < length (files s)" "flag s i = 0" and room: "nconn s < mx"
    and r: "start_connect peers i s w = Ret (s', w')"
  shows "web_inv base mx (s'\<lparr>nconn := nconn s' + 1, nlefttoconn := nlefttoconn s' - 1\<rparr>) w' \<and>
    length (files s') = length (files s) \<and> nlefttoconn s' = nlefttoconn s"
proof -
  define fd where "fd = lowest_free (opened w)"
  note facts = web_inv_facts [OF inv]
  have fresh: "fd \<notin> wrset s" "fd \<notin> base"
    using lowest_free_fresh [of "opened w"] facts(4) by (auto simp: fd_def)
  have rest: "rest_fds active i s = wrset s" "rest_fds {F_CONNECTING} i s = wwset s"
    using fds_split [OF i(1), of active] fds_split [OF i(1), of "{F_CONNECTING}"] i(2) facts(1,2)
    by (simp_all add: f_flag_defs)
  obtain w1 where o: "open_socket (peers i) w = (fd, w1)" "opened w1 = fd # opened w"
    by (simp add: open_socket_def Let_def fd_def)
  let ?s1 = "set_file i (\<lambda>f. f\<lparr>f_fd := fd\<rparr>) s"
  have step: "web_inv base mx (t\<lparr>nconn := nconn t + 1, nlefttoconn := nlefttoconn t - 1\<rparr>) v"
    if u: "upd i ((files s ! i)\<lparr>f_fd := fd, f_flags := fl\<rparr>) s t" and fl: "fl \<in> active"
      and n: "nconn t = nconn s" "nlefttoconn t = nlefttoconn s" "nlefttoread t = nlefttoread s"
      and sets: "wrset t = insert fd (wrset s)" "wwset t = (if fl = F_CONNECTING then insert fd (wwset s) else wwset s)"
        "wmaxfd t = max fd (wmaxfd s)"
      and v: "opened v = fd # opened w" for t v fl
  proof (rule web_inv_upd [OF inv _ i(1)])
    show "upd i ((files s ! i)\<lparr>f_fd := fd, f_flags := fl\<rparr>) s (t\<lparr>nconn := nconn t + 1, nlefttoconn := nlefttoconn t - 1\<rparr>)"
      using u by (simp add: upd_def)
  qed (use fl fresh rest n room sets v facts(3-5) i(2) in \<open>auto simp: f_flag_defs max_def\<close>)
  show ?thesis
  proof (cases "connect_answer (peers i)")
    case (Some e)
    with r o have s': "s' = (set_file i (\<lambda>f. f\<lparr>f_flags := F_CONNECTING\<rparr>) ?s1)
        \<lparr>wrset := insert fd (wrset s), wwset := insert fd (wwset s), wmaxfd := max fd (wmaxfd s)\<rparr>" "w' = w1"
      by (auto simp: start_connect_def Let_def split: if_splits)
    have "upd i ((files s ! i)\<lparr>f_fd := fd, f_flags := F_CONNECTING\<rparr>) s s'"
      using i(1) by (simp add: upd_def s')
    from step [OF this] s' o i(1) show ?thesis by simp
  next
    case None
    with r o have wg: "write_get_cmd i ?s1 w1 = Ret (s', w')" by (auto simp: start_connect_def Let_def)
    from write_get_cmd_Ret [OF wg] i(1) have
      "upd i ((files s ! i)\<lparr>f_fd := fd, f_flags := F_READING\<rparr>) s s'"
      and "nconn s' = nconn s" "nlefttoconn s' = nlefttoconn s" "nlefttoread s' = nlefttoread s"
        "wrset s' = insert fd (wrset s)" "wwset s' = wwset s" "wmaxfd s' = max fd (wmaxfd s)" "opened w' = opened w1"
      by (simp_all add: upd_def)
    with step [OF this(1)] o show ?thesis by (simp add: f_flag_defs upd_def)
  qed
qed

lemma next_file_Some: "next_file fs = Some i \<Longrightarrow> i < length fs \<and> f_flags (fs ! i) = 0"
  by (induction fs arbitrary: i) (auto split: if_splits)

lemma next_file_None: "next_file fs = None \<Longrightarrow> filter (\<lambda>f. f_flags f \<in> {0}) fs = []"
  by (induction fs) (auto split: if_splits)

lemma web_connect_inv:
  assumes "web_inv base mx s w" and "web_connect peers mx m s w = Ret (s', w')"
  shows "web_inv base mx s' w' \<and> length (files s') = length (files s)"
  using assms
proof (induction m arbitrary: s w)
  case (Suc m)
  show ?case
  proof (cases "nconn s < mx \<and> 0 < nlefttoconn s")
    case True
    with Suc.prems(2) obtain i s1 w1 where i: "next_file (files s) = Some i"
      and s1: "start_connect peers i s w = Ret (s1, w1)"
      and rest: "web_connect peers mx m (s1\<lparr>nconn := nconn s1 + 1, nlefttoconn := nlefttoconn s1 - 1\<rparr>) w1 = Ret (s', w')"
      by (auto simp: run_bind_Ret_conv split: option.splits)
    from next_file_Some [OF i] have "i < length (files s)" "flag s i = 0" by (simp_all add: flag_def)
    with start_connect_inv [OF Suc.prems(1) this _ s1] True have
      "web_inv base mx (s1\<lparr>nconn := nconn s1 + 1, nlefttoconn := nlefttoconn s1 - 1\<rparr>) w1"
      and len: "length (files s1) = length (files s)" by blast+
    from Suc.IH [OF this(1) rest] len show ?thesis by simp
  qed (use Suc.prems in auto)
qed simp

text \<open>\<open>nlefttoconn\<close> turns are enough for the loop to end by its own test.\<close>

lemma web_connect_exit:
  assumes "web_inv base mx s w" and "web_connect peers mx m s w = Ret (s', w')" and "nlefttoconn s \<le> int m"
  shows "\<not> (nconn s' < mx \<and> 0 < nlefttoconn s')"
  using assms
proof (induction m arbitrary: s w)
  case (Suc m)
  show ?case
  proof (cases "nconn s < mx \<and> 0 < nlefttoconn s")
    case True
    with Suc.prems(2) obtain i s1 w1 where i: "next_file (files s) = Some i"
      and s1: "start_connect peers i s w = Ret (s1, w1)"
      and rest: "web_connect peers mx m (s1\<lparr>nconn := nconn s1 + 1, nlefttoconn := nlefttoconn s1 - 1\<rparr>) w1 = Ret (s', w')"
      by (auto simp: run_bind_Ret_conv split: option.splits)
    from next_file_Some [OF i] have "i < length (files s)" "flag s i = 0" by (simp_all add: flag_def)
    with start_connect_inv [OF Suc.prems(1) this _ s1] True have
      "web_inv base mx (s1\<lparr>nconn := nconn s1 + 1, nlefttoconn := nlefttoconn s1 - 1\<rparr>) w1"
      and n: "nlefttoconn s1 = nlefttoconn s" by blast+
    from Suc.IH [OF this(1) rest] n Suc.prems(3) show ?thesis by simp
  qed (use Suc.prems in auto)
qed simp

lemma home_read_opened: "home_read fd w = Ret w' \<Longrightarrow> opened w' = opened w"
proof (induction fd w rule: home_read.induct)
  case (1 fd w)
  show ?case
  proof (cases "w_Read fd MAXLINE w")
    case (Ret p)
    then obtain bs w1 where r: "w_Read fd MAXLINE w = Ret (bs, w1)" by (cases p) auto
    then have "opened w1 = opened w" by (auto dest!: w_Read_Ret)
    with 1(1) [OF r refl] 1(2) r show ?thesis by (auto simp: home_read.simps [of fd w] split: if_splits)
  qed (use 1(2) in \<open>simp_all add: home_read.simps [of fd w]\<close>)
qed

lemma home_page_opened: "home_page p fname w = Ret w' \<Longrightarrow> set (opened w') = set (opened w)"
  using lowest_free_fresh [of "opened w"]
  by (auto simp: home_page_def open_socket_def Let_def run_bind_Ret_conv w_Close_Ret split: if_splits
      dest!: home_read_opened w_Writen_Ret)

text \<open>The exit \<open>nothing found\<close> of the connecting loop is dead code.\<close>

lemma web_finds_file:
  assumes "web_inv base mx s w" and "0 < nlefttoconn s"
  shows "next_file (files s) \<noteq> None"
proof
  assume "next_file (files s) = None"
  then have "n_in {0} s = 0" using next_file_None by (simp add: n_in_def)
  with assms show False by (simp add: web_inv_def)
qed

lemma flags_bits:
  "F_CONNECTING AND F_DONE = 0" "F_READING AND F_DONE = 0" "F_CONNECTING AND F_CONNECTING = F_CONNECTING"
  "F_READING AND F_READING = F_READING" "F_READING AND F_CONNECTING = 0" "F_DONE AND F_DONE = F_DONE"
  "F_CONNECTING \<noteq> 0" "F_READING \<noteq> 0" "0 < F_DONE" "F_DONE \<noteq> 0" "F_READING \<noteq> F_CONNECTING" "0 < F_CONNECTING" "0 < F_READING"
  "F_READING \<noteq> F_DONE" "F_CONNECTING \<noteq> F_DONE" "F_CONNECTING \<noteq> F_READING" "F_DONE \<noteq> F_READING" "F_DONE \<noteq> F_CONNECTING"
  by (simp_all add: f_flag_defs)

lemma web_file_other: "flag s i = 0 \<or> flag s i = F_DONE \<Longrightarrow> web_file rs ws i s w = Ret (s, w)"
  by (auto simp: web_file_def flag_def flags_bits Let_def)

lemma web_file_conn:
  "flag s i = F_CONNECTING \<Longrightarrow> web_file rs ws i s w =
     (if f_fd (files s ! i) \<in> rs \<or> f_fd (files s ! i) \<in> ws
      then write_get_cmd i (s\<lparr>wwset := wwset s - {f_fd (files s ! i)}\<rparr>) w else Ret (s, w))"
  by (simp add: web_file_def flag_def flags_bits Let_def)

lemma web_file_read:
  "flag s i = F_READING \<Longrightarrow> web_file rs ws i s w =
     (if f_fd (files s ! i) \<in> rs then
        run_bind (w_Read (f_fd (files s ! i)) MAXLINE w) (\<lambda>(bs, w1).
          if bs = [] then
            run_bind (w_Close (f_fd (files s ! i)) w1) (\<lambda>w2.
              Ret ((set_file i (\<lambda>f. f\<lparr>f_flags := F_DONE\<rparr>) s)
                \<lparr>wrset := wrset s - {f_fd (files s ! i)}, nconn := nconn s - 1, nlefttoread := nlefttoread s - 1\<rparr>, w2))
          else Ret (s, w1))
      else Ret (s, w))"
  by (simp add: web_file_def flag_def flags_bits Let_def)

text \<open>What the turn of the loop for one file can have been.\<close>

lemma web_file_cases:
  assumes inv: "web_inv base mx s w" and i: "i < length (files s)" and r: "web_file rs ws i s w = Ret (s', w')"
  obtains (idle) "s' = s" "\<exists>bs. w' = w \<or> w_Read (f_fd (files s ! i)) MAXLINE w = Ret (bs, w')"
    | (conn) "flag s i = F_CONNECTING" "write_get_cmd i (s\<lparr>wwset := wwset s - {(f_fd (files s ! i))}\<rparr>) w = Ret (s', w')"
    | (eof) w1 where "flag s i = F_READING" "w_Read (f_fd (files s ! i)) MAXLINE w = Ret ([], w1)" "w_Close (f_fd (files s ! i)) w1 = Ret w'"
       "s' = (set_file i (\<lambda>f. f\<lparr>f_flags := F_DONE\<rparr>) s)
                \<lparr>wrset := wrset s - {(f_fd (files s ! i))}, nconn := nconn s - 1, nlefttoread := nlefttoread s - 1\<rparr>"
proof -
  let ?fd = "f_fd (files s ! i)"
  have cases: "flag s i = 0 \<or> flag s i = F_DONE \<or> flag s i = F_CONNECTING \<or> flag s i = F_READING"
    using web_inv_facts(8) [OF inv i] by auto
  then show thesis
  proof (elim disjE)
    have other: thesis if "flag s i = 0 \<or> flag s i = F_DONE"
      using r web_file_other [OF that, of rs ws w] \<open>s' = s \<Longrightarrow> \<exists>bs. w' = w \<or> w_Read ?fd MAXLINE w = Ret (bs, w') \<Longrightarrow> thesis\<close> by simp
    show thesis if "flag s i = 0" using that other by blast
    show thesis if "flag s i = F_DONE" using that other by blast
  next
    assume "flag s i = F_CONNECTING"
    with r web_file_conn [OF this, of rs ws w] that(1,2) show thesis by (auto split: if_splits)
  next
    assume f: "flag s i = F_READING"
    show thesis
    proof (cases "?fd \<in> rs")
      case True
      with r web_file_read [OF f, of rs ws w] obtain bs w1 where rd: "w_Read ?fd MAXLINE w = Ret (bs, w1)"
        by (auto simp: run_bind_Ret_conv)
      show thesis
      proof (cases "bs = []")
        case True
        with r rd web_file_read [OF f, of rs ws w] \<open>?fd \<in> rs\<close> that(3) [OF f, of w1] show thesis
          by (auto simp: run_bind_Ret_conv)
      next
        case False
        with r rd web_file_read [OF f, of rs ws w] \<open>?fd \<in> rs\<close> that(1) show thesis by auto
      qed
    qed (use r web_file_read [OF f, of rs ws w] that(1) in auto)
  qed
qed

lemma web_file_connected:
  assumes inv: "web_inv base mx s w" and i: "i < length (files s)" and conn: "flag s i = F_CONNECTING"
    "write_get_cmd i (s\<lparr>wwset := wwset s - {f_fd (files s ! i)}\<rparr>) w = Ret (s', w')"
  shows "web_inv base mx s' w' \<and> length (files s') = length (files s)"
proof -
  note facts = web_inv_facts [OF inv]
  let ?fd = "f_fd (files s ! i)"
  let ?s0 = "s\<lparr>wwset := wwset s - {?fd}\<rparr>"
  note wg = write_get_cmd_Ret [OF conn(2)]
  have in_r: "?fd \<in> wrset s" using facts(1) fds_split [OF i, of active] conn(1) by simp
  have rest: "rest_fds active i s = wrset s - {?fd}" "rest_fds {F_CONNECTING} i s = wwset s - {?fd}"
    using facts(1,2) facts(7) [OF i] fds_split [OF i, of active] fds_split [OF i, of "{F_CONNECTING}"] conn(1)
      rest_sub(2) [of "{F_CONNECTING}" active i s] by auto
  have "wrset s' = insert ?fd (wrset s)" using wg i by simp
  then have wr0: "wrset s' = wrset s" using insert_absorb [OF in_r] by (rule trans)
  have wr1: "wwset s' = wwset s - {?fd}" "wmaxfd s' = max ?fd (wmaxfd s)" "opened w' = opened w"
    "nconn s' = nconn s" "nlefttoconn s' = nlefttoconn s" "nlefttoread s' = nlefttoread s"
    using wg i by simp_all
  note wr = wr0 wr1
  have u: "upd i ((files s ! i)\<lparr>f_flags := F_READING\<rparr>) s s'" using wg i by (simp add: upd_def)
  note ins = insert_absorb [OF in_r]
  have "web_inv base mx s' w'"
    by (rule web_inv_upd [OF inv u i])
      (simp_all add: rest wr ins conn(1) flags_bits facts(3-6) max.coboundedI2)
  with wg i show ?thesis by (simp add: upd_def)
qed

lemma web_file_eof:
  assumes inv: "web_inv base mx s w" and i: "i < length (files s)" and eof: "flag s i = F_READING"
    "w_Read (f_fd (files s ! i)) MAXLINE w = Ret ([], w1)" "w_Close (f_fd (files s ! i)) w1 = Ret w'"
    "s' = (set_file i (\<lambda>f. f\<lparr>f_flags := F_DONE\<rparr>) s)
       \<lparr>wrset := wrset s - {f_fd (files s ! i)}, nconn := nconn s - 1, nlefttoread := nlefttoread s - 1\<rparr>"
  shows "web_inv base mx s' w' \<and> length (files s') = length (files s)"
proof -
  note facts = web_inv_facts [OF inv]
  let ?fd = "f_fd (files s ! i)"
  have in_r: "?fd \<in> wrset s" using facts(1) fds_split [OF i, of active] eof(1) by simp
  have nc: "F_READING \<notin> {F_CONNECTING}" by (simp add: flags_bits)
  have rest: "rest_fds active i s = wrset s - {?fd}" "rest_fds {F_CONNECTING} i s = wwset s"
    using facts(1,2) facts(7) [OF i] fds_split [OF i, of active] fds_split [OF i, of "{F_CONNECTING}"] eof(1) nc
    by auto
  have op: "set (opened w') = set (opened w) - {?fd}" "?fd \<notin> base"
    using eof(2,3) in_r facts(5) by (auto simp: w_Close_Ret dest!: w_Read_Ret)
  have u: "upd i ((files s ! i)\<lparr>f_flags := F_DONE\<rparr>) s s'" by (simp add: upd_def eof(4))
  have wr: "wrset s' = wrset s - {?fd}" "wwset s' = wwset s" "wmaxfd s' = wmaxfd s"
    "nconn s' = nconn s - 1" "nlefttoconn s' = nlefttoconn s" "nlefttoread s' = nlefttoread s - 1"
    by (simp_all add: eof(4))
  have o1: "set (opened w') = base \<union> (wrset s - {?fd})" using op facts(4) by blast
  have o2: "base \<inter> (wrset s - {?fd}) = {}" using facts(5) by blast
  have m: "\<forall>fd \<in> wrset s - {?fd}. fd \<le> wmaxfd s" using facts(3) by blast
  have n: "nconn s - 1 \<le> mx" using facts(6) by simp
  have "web_inv base mx s' w'"
    by (rule web_inv_upd [OF inv u i]) (use o1 o2 m n in \<open>simp_all add: rest wr eof(1) flags_bits\<close>)
  with eof(4) show ?thesis by simp
qed

lemma web_file_inv:
  assumes inv: "web_inv base mx s w" and i: "i < length (files s)" and r: "web_file rs ws i s w = Ret (s', w')"
  shows "web_inv base mx s' w' \<and> length (files s') = length (files s)"
proof (cases rule: web_file_cases [OF assms])
  case 1
  then have "opened w' = opened w" by (auto dest!: w_Read_Ret)
  with inv 1(1) web_inv_opened [of w' w base mx s] show ?thesis by simp
qed (use web_file_connected [OF inv i] web_file_eof [OF inv i] in blast)+

lemma web_scan_inv:
  assumes "web_inv base mx s w" and "web_scan rs ws i m s w = Ret (s', w')" and "i + m \<le> length (files s)"
  shows "web_inv base mx s' w' \<and> length (files s') = length (files s)"
  using assms
proof (induction m arbitrary: i s w)
  case (Suc m)
  then obtain s1 w1 where f: "web_file rs ws i s w = Ret (s1, w1)"
    and r: "web_scan rs ws (Suc i) m s1 w1 = Ret (s', w')" by (auto simp: run_bind_Ret_conv)
  from web_file_inv [OF Suc.prems(1) _ f] Suc.prems(3) have i1: "web_inv base mx s1 w1"
    and len: "length (files s1) = length (files s)" by simp_all
  from Suc.IH [OF i1 r] Suc.prems(3) len show ?case by simp
qed simp

lemma web_init_inv:
  assumes "set (opened w) = base" and "0 \<le> mx"
  shows "web_inv base mx (web_init names) w"
  using assms
  by (auto simp: web_inv_def web_init_def Let_def n_in_def fds_in_def flag_def filter_empty_conv flags_bits f_flag_defs comp_def)

lemma web_top_inv:
  assumes "web_top peers mx names w0 s w" and "0 \<le> mx"
  shows "web_inv (set (opened w0)) mx s w"
  using assms(1)
proof induction
  case start
  show ?case by (rule web_init_inv [OF refl assms(2)])
next
  case (turn s w s1 w1 rs ws s2 w2)
  from web_connect_inv [OF turn.IH turn.hyps(3)] have "web_inv (set (opened w0)) mx s1 w1" by simp
  from web_scan_inv [OF this turn.hyps(6)] show ?case by simp
qed

section \<open>One file\<close>

lemma get_cmd_length [simp]: "length (get_cmd name) = length name + 17"
  by (simp add: get_cmd_def text_bytes_def)

lemma get_cmd_not_Nil [simp]: "get_cmd name \<noteq> []"
  by (simp add: get_cmd_def)

definition web_demo_peer :: peer where
  "web_demo_peer = \<lparr>connect_answer = Some EINPROGRESS, so_error = None, peer_rds = [Seg []], peer_wrs = [Room 99]\<rparr>"

definition web_demo_w :: world where
  "web_demo_w = \<lparr>rds = \<lambda>_. [], wrs = \<lambda>_. [], got = \<lambda>_. [], sent = \<lambda>_. [], opened = [2, 1, 0], backlog = []\<rparr>"

definition web_demo_w1 :: "rd_event list \<Rightarrow> wr_event list \<Rightarrow> byte list \<Rightarrow> world" where
  "web_demo_w1 r k bs = web_demo_w\<lparr>opened := [3, 2, 1, 0], rds := (\<lambda>_. [])(3 := r), wrs := (\<lambda>_. [])(3 := k),
     sent := (\<lambda>_. [])(3 := bs)\<rparr>"

definition web_demo_s :: "nat \<Rightarrow> int \<Rightarrow> int \<Rightarrow> int set \<Rightarrow> int set \<Rightarrow> web_state" where
  "web_demo_s fl nc nl r v = \<lparr>files = [\<lparr>f_name = ''a'', f_fd = 3, f_flags = fl\<rparr>], nconn = nc, nlefttoconn = 0,
     nlefttoread = nl, wmaxfd = 3, wrset = r, wwset = v\<rparr>"

lemma web_demo_turn1:
  "web_top (\<lambda>_. web_demo_peer) 1 [''a''] web_demo_w (web_demo_s F_READING 1 1 {3} {}) (web_demo_w1 [Seg []] [] (get_cmd ''a''))"
proof (rule web_top.turn [OF web_top.start])
  show "web_connect (\<lambda>_. web_demo_peer) 1 (nat (nlefttoconn (web_init [''a'']))) (web_init [''a'']) web_demo_w =
      Ret (web_demo_s F_CONNECTING 1 1 {3} {3}, web_demo_w1 [Seg []] [Room 99] [])"
    by (simp add: web_init_def MAXFILES_def start_connect_def open_socket_def lowest_free_def Let_def web_demo_w_def
        web_demo_w1_def web_demo_peer_def set_file_def web_demo_s_def fun_upd_idem)
  show "{} \<subseteq> wrset (web_demo_s F_CONNECTING 1 1 {3} {3})" "{3} \<subseteq> wwset (web_demo_s F_CONNECTING 1 1 {3} {3})"
    by (simp_all add: web_demo_s_def)
  show "web_scan {} {3} 0 (length (files (web_demo_s F_CONNECTING 1 1 {3} {3}))) (web_demo_s F_CONNECTING 1 1 {3} {3})
      (web_demo_w1 [Seg []] [Room 99] []) = Ret (web_demo_s F_READING 1 1 {3} {}, web_demo_w1 [Seg []] [] (get_cmd ''a''))"
    by (simp add: web_demo_s_def web_file_def write_get_cmd_def Let_def flags_bits MAXLINE_def w_Writen_def Writen_def
        writen_def writen_loop_Room web_demo_w1_def web_demo_w_def set_file_def)
qed (simp add: web_init_def MAXFILES_def Let_def)

lemma web_demo_turn2:
  "web_top (\<lambda>_. web_demo_peer) 1 [''a''] web_demo_w (web_demo_s F_DONE 0 0 {} {})
     ((web_demo_w1 [] [] (get_cmd ''a''))\<lparr>opened := [2, 1, 0]\<rparr>)"
proof (rule web_top.turn [OF web_demo_turn1])
  show "web_scan {3} {} 0 (length (files (web_demo_s F_READING 1 1 {3} {}))) (web_demo_s F_READING 1 1 {3} {})
      (web_demo_w1 [Seg []] [] (get_cmd ''a'')) =
      Ret (web_demo_s F_DONE 0 0 {} {}, (web_demo_w1 [] [] (get_cmd ''a''))\<lparr>opened := [2, 1, 0]\<rparr>)"
    by (simp add: web_demo_s_def web_file_def Let_def flags_bits w_Read_def w_read_def MAXLINE_def w_Close_def
        web_demo_w1_def web_demo_w_def set_file_def fun_upd_idem)
qed (simp_all add: web_demo_s_def)

section \<open>Properties\<close>

text \<open>
  C27: at every test of the outer loop the counters of the web client agree with the states of the
  files: \<open>nconn\<close> connections are open, never more than \<open>maxnconn\<close>; \<open>nlefttoconn\<close> files wait; the
  sets given to \<open>select\<close> are the descriptors of the open connections and of those in progress;
  no descriptor is leaked; the inner loop always finds the file it looks for.
\<close>
theorem web_counters:
  assumes "web_top peers maxnconn names w0 s w" and "0 \<le> maxnconn"
  shows "nconn s = int (n_in {F_CONNECTING, F_READING} s) \<and> nconn s \<le> maxnconn \<and>
    nlefttoconn s = int (n_in {0} s) \<and>
    wrset s = fds_in {F_CONNECTING, F_READING} s \<and> wwset s = fds_in {F_CONNECTING} s \<and>
    set (opened w) = set (opened w0) \<union> wrset s \<and>
    (0 < nlefttoconn s \<longrightarrow> next_file (files s) \<noteq> None)"
proof -
  have inv: "web_inv (set (opened w0)) maxnconn s w" by (rule web_top_inv [OF assms])
  with web_finds_file [OF inv] show ?thesis unfolding web_inv_def by blast
qed

theorem web_counters_witness:
  "nconn (web_demo_s F_READING 1 1 {3} {}) = int (n_in {F_CONNECTING, F_READING} (web_demo_s F_READING 1 1 {3} {})) \<and>
   wrset (web_demo_s F_READING 1 1 {3} {}) = fds_in {F_CONNECTING, F_READING} (web_demo_s F_READING 1 1 {3} {})"
  using web_counters [OF web_demo_turn1] by (simp del: insert_iff)

text \<open>
  When the outer loop ends, with \<open>nlefttoread\<close> down to zero, every file has reached
  \<open>F_DONE\<close> and every connection has been closed.
\<close>
lemma web_exit_all_done:
  assumes "web_top peers maxnconn names w0 s w" and "0 \<le> maxnconn" and "\<not> 0 < nlefttoread s"
  shows "(\<forall>f \<in> set (files s). f_flags f = F_DONE) \<and> set (opened w) = set (opened w0)"
proof -
  have inv: "web_inv (set (opened w0)) maxnconn s w" by (rule web_top_inv [OF assms(1,2)])
  then have "n_in {0, F_CONNECTING, F_READING} s = 0" using assms(3) by (simp add: web_inv_def)
  then have none: "\<forall>f \<in> set (files s). f_flags f \<notin> {0, F_CONNECTING, F_READING}"
    by (simp add: n_in_def filter_empty_conv)
  then have fin: "\<forall>f \<in> set (files s). f_flags f = F_DONE" using inv unfolding web_inv_def by blast
  have "fds_in {F_CONNECTING, F_READING} s = {}" using none by (auto simp: fds_in_def flag_def)
  then have "wrset s = {}" "set (opened w) = set (opened w0) \<union> wrset s"
    using inv unfolding web_inv_def by blast+
  with fin show ?thesis by simp
qed

lemma web_exit_all_done_witness:
  "\<exists>s w. web_top (\<lambda>_. web_demo_peer) 1 [''a''] web_demo_w s w \<and> \<not> 0 < nlefttoread s \<and>
     (\<forall>f \<in> set (files s). f_flags f = F_DONE) \<and> set (opened w) = set (opened web_demo_w)"
proof -
  have n: "\<not> 0 < nlefttoread (web_demo_s F_DONE 0 0 {} {})" by (simp add: web_demo_s_def)
  have z: "(0 :: int) \<le> 1" by simp
  from web_exit_all_done [OF web_demo_turn2 z n] web_demo_turn2 n show ?thesis by blast
qed

text \<open>
  A connection that failed is used as if it were established: the error that \<open>SO_ERROR\<close>
  reports plays no part, the request is written to the failed socket, and when that write
  fails the whole program exits, whatever the state of the other files.
\<close>
lemma web_failed_connect_exits:
  assumes "flag s i = F_CONNECTING" and "f_fd (files s ! i) \<in> rs \<union> ws"
    and "wrs w (f_fd (files s ! i)) = WrErr e # k" and "e \<noteq> EINTR"
    and "length (get_cmd (f_name (files s ! i))) < MAXLINE" and "i < m"
    and "\<forall>j < i. flag s j = F_DONE"
  shows "web_scan rs ws 0 m s w = Fatal ''writen error''"
proof -
  have "get_cmd (f_name (files s ! i)) \<noteq> []" by (simp add: get_cmd_def)
  then have "w_Writen (f_fd (files s ! i)) (get_cmd (f_name (files s ! i))) w = Fatal ''writen error''"
    using assms(3,4)
    by (simp add: w_Writen_def Writen_def writen_def writen_loop.simps [of _ "get_cmd (f_name (files s ! i))"])
  then have fail: "web_file rs ws i s w = Fatal ''writen error''"
    using assms(2,5) web_file_conn [OF assms(1), of rs ws w] by (auto simp: write_get_cmd_def Let_def)
  have "web_scan rs ws j (Suc d) s w = Fatal ''writen error''" if "j + n = i" "n \<le> d" for j n d
    using that
  proof (induction n arbitrary: j d)
    case 0
    with fail show ?case by simp
  next
    case (Suc n)
    then have "flag s j = F_DONE" using assms(7) by simp
    moreover obtain d' where "d = Suc d'" using Suc.prems(2) by (cases d) auto
    ultimately show ?case using Suc.IH [of "Suc j" d'] Suc.prems web_file_other [of s j rs ws w] by simp
  qed
  from this [of 0 i "m - 1"] assms(6) show ?thesis by (cases m) auto
qed

lemma web_failed_connect_exits_witness:
  "web_scan {} {3} 0 1 (web_demo_s F_CONNECTING 1 1 {3} {3}) (web_demo_w1 [] [WrErr ECONNREFUSED] []) =
     Fatal ''writen error''"
  by (rule web_failed_connect_exits [where i = 0 and e = ECONNREFUSED and k = "[]"])
    (simp_all add: web_demo_s_def web_demo_w1_def flag_def MAXLINE_def)

end
