(* ===== verification/Inet4.thy ===== *)
theory Inet4
  imports Num_Text
begin

text \<open>
  The IPv4 presentation format: \<open>inet_pton4\<close> and \<open>inet_ntop4\<close> of
  \<open>libfree/inet_pton.c\<close> and \<open>libfree/inet_ntop.c\<close>, the small
  \<open>inet_pton_ipv4.c\<close> and \<open>inet_ntop_ipv4.c\<close> (with the copies of \<open>my-src\<close>), and
  \<open>libfree/inet_aton.c\<close>.  An address is the list of its four bytes in network order.
\<close>

section \<open>inet_pton4\<close>

text \<open>
  \<open>tmp[0..tp)\<close> is \<open>done\<close> and \<open>*tp\<close> is \<open>cur\<close>; the string is what is left at \<open>src\<close>.
\<close>

fun inet_pton4_loop :: "string \<Rightarrow> bool \<Rightarrow> nat \<Rightarrow> byte list \<Rightarrow> byte \<Rightarrow> byte list option" where
  "inet_pton4_loop [] saw_digit octets done cur =
     (if octets < 4 then None else Some (done @ [cur]))"
| "inet_pton4_loop (ch # src) saw_digit octets done cur =
     (case strchr dec_digits ch of
        Some d \<Rightarrow>
          (let new = unat cur * 10 + d in
           if new > 255 then None
           else if \<not> saw_digit then
             (if octets + 1 > 4 then None
              else inet_pton4_loop src True (octets + 1) done (of_nat new))
           else inet_pton4_loop src True octets done (of_nat new))
      | None \<Rightarrow>
          if ch = CHR ''.'' \<and> saw_digit then
            (if octets = 4 then None else inet_pton4_loop src False octets (done @ [cur]) 0)
          else None)"

definition inet_pton4 :: "string \<Rightarrow> byte list option" where
  "inet_pton4 src = inet_pton4_loop src False 0 [] 0"

section \<open>inet_ntop4\<close>

definition dotted :: "byte list \<Rightarrow> string" where
  "dotted src = fmt_u (unat (src ! 0)) @ ''.'' @ fmt_u (unat (src ! 1)) @ ''.'' @
     fmt_u (unat (src ! 2)) @ ''.'' @ fmt_u (unat (src ! 3))"

text \<open>The result is the string left at \<open>dst\<close>; \<open>strcpy\<close> writes one byte more than its length.\<close>

definition inet_ntop4 :: "byte list \<Rightarrow> nat \<Rightarrow> errno + string" where
  "inet_ntop4 src sz =
     (let tmp = dotted src in if length tmp > sz then Inl ENOSPC else Inr tmp)"

definition strcpy_bytes :: "string \<Rightarrow> nat" where
  "strcpy_bytes s = length s + 1"

text \<open>\<open>libfree/inet_ntop_ipv4.c\<close> and its copy \<open>my-src/Chapter-03/inet_ntop_ipv4.c\<close>.\<close>

definition INET_ADDRSTRLEN :: nat where
  "INET_ADDRSTRLEN = 16"

definition AF_INET :: int where "AF_INET = 2"

text \<open>\<open>snprintf\<close> cuts the text to \<open>size - 1\<close> characters.\<close>

definition snprintf_cut :: "nat \<Rightarrow> string \<Rightarrow> string" where
  "snprintf_cut sz s = take (sz - 1) s"

definition inet_ntop_ipv4 :: "int \<Rightarrow> byte list \<Rightarrow> nat \<Rightarrow> errno + string" where
  "inet_ntop_ipv4 family p len =
     (if family = AF_INET then
        (let temp = snprintf_cut INET_ADDRSTRLEN (dotted p)
         in if length temp \<ge> len then Inl ENOSPC else Inr temp)
      else Inl EAFNOSUPPORT)"

definition my_inet_ntop :: "int \<Rightarrow> byte list \<Rightarrow> nat \<Rightarrow> errno + string" where
  "my_inet_ntop family p len =
     (if family = AF_INET then
        (let temp = snprintf_cut INET_ADDRSTRLEN (dotted p)
         in if length temp > len then Inl ENOSPC else Inr temp)
      else Inl EAFNOSUPPORT)"

section \<open>inet_aton\<close>

text \<open>
  \<open>acc\<close> and \<open>addr\<close> are \<open>u_long\<close>, whose width is the type parameter.  The loop ends
  with the terminating 0, which is handled like a dot.
\<close>

fun inet_aton_loop ::
  "string \<Rightarrow> nat \<Rightarrow> 'w::len word \<Rightarrow> 'w word \<Rightarrow> (nat \<times> 'w word) option" where
  "inet_aton_loop [] dots acc addr =
     (if acc > 255 then None else Some (dots, push_bit 8 addr OR acc))"
| "inet_aton_loop (cc # cp) dots acc addr =
     (case strchr dec_digits cc of
        Some d \<Rightarrow> inet_aton_loop cp dots (acc * 10 + of_nat d) addr
      | None \<Rightarrow>
          if cc = CHR ''.'' then
            (if dots + 1 > 3 then None
             else if acc > 255 then None
             else inet_aton_loop cp (dots + 1) 0 (push_bit 8 addr OR acc))
          else None)"

text \<open>The four bytes \<open>htonl\<close> stores.\<close>

definition htonl_bytes :: "u32 \<Rightarrow> byte list" where
  "htonl_bytes w = [ucast (drop_bit 24 w), ucast (drop_bit 16 w), ucast (drop_bit 8 w), ucast w]"

definition inet_aton :: "'w::len itself \<Rightarrow> string \<Rightarrow> byte list option" where
  "inet_aton TYPE('w) cp =
     (case inet_aton_loop cp 0 (0 :: 'w word) 0 of
        None \<Rightarrow> None
      | Some (dots, addr) \<Rightarrow>
          Some (htonl_bytes (ucast (if dots < 3 then push_bit (8 * (3 - dots)) addr else addr))))"

text \<open>\<open>libfree/inet_pton_ipv4.c\<close>, and \<open>my-src/Chapter-03/inet_pton_ipv4.c\<close>.\<close>

datatype pton_result = PtonOk int "byte list" | PtonBad | PtonError errno

definition inet_pton_ipv4 :: "'w::len itself \<Rightarrow> int \<Rightarrow> string \<Rightarrow> pton_result" where
  "inet_pton_ipv4 w family strptr =
     (if family = AF_INET then
        (case inet_aton w strptr of Some a \<Rightarrow> PtonOk 1 a | None \<Rightarrow> PtonBad)
      else PtonError EAFNOSUPPORT)"

definition my_inet_pton :: "'w::len itself \<Rightarrow> int \<Rightarrow> string \<Rightarrow> pton_result" where
  "my_inet_pton w family strptr =
     (if family = AF_INET then
        (case inet_aton w strptr of Some a \<Rightarrow> PtonOk 0 a | None \<Rightarrow> PtonError EAFNOSUPPORT)
      else PtonError EAFNOSUPPORT)"

section \<open>The accepted language\<close>

text \<open>One component: a nonempty run of decimal digits with value at most 255.\<close>

definition octet_ok :: "nat list \<Rightarrow> bool" where
  "octet_ok ds \<longleftrightarrow> ds \<noteq> [] \<and> (\<forall>d \<in> set ds. d < 10) \<and> digits_val 10 0 ds \<le> 255"

definition octet :: "nat list \<Rightarrow> byte" where
  "octet ds = of_nat (digits_val 10 0 ds)"

definition dot_tail :: "nat list list \<Rightarrow> string" where
  "dot_tail ts = concat (map (\<lambda>t. CHR ''.'' # dec_text t) ts)"

lemma dot_tail_simps [simp]:
  "dot_tail [] = []" "dot_tail (t # ts) = CHR ''.'' # dec_text t @ dot_tail ts"
  by (simp_all add: dot_tail_def)

lemma pton4_digits:
  assumes "\<forall>d \<in> set ds. d < 10" and "digits_val 10 v ds \<le> 255"
  shows "inet_pton4_loop (dec_text ds @ rest) True octets done (of_nat v) =
     inet_pton4_loop rest True octets done (of_nat (digits_val 10 v ds))"
  using assms
proof (induction ds arbitrary: v)
  case (Cons d ds)
  then have "v * 10 + d \<le> 255" using digits_val_mono [of 10 "v * 10 + d" ds] by simp
  with Cons show ?case by (simp add: Let_def unat_of_nat_byte del: of_nat_add of_nat_mult)
qed simp

lemma pton4_first:
  assumes "octet_ok ds" and "octets < 4"
  shows "inet_pton4_loop (dec_text ds @ rest) False octets done 0 =
     inet_pton4_loop rest True (octets + 1) done (octet ds)"
proof -
  obtain d ds' where ds: "ds = d # ds'" using assms(1) by (cases ds) (auto simp: octet_ok_def)
  with assms(1) have b: "d < 10" "\<forall>d \<in> set ds'. d < 10" "digits_val 10 d ds' \<le> 255"
    by (auto simp: octet_ok_def)
  with pton4_digits [OF b(2,3), of rest "octets + 1" "done"] assms(2) show ?thesis
    by (simp add: ds octet_def Let_def)
qed

lemma pton4_tail:
  assumes "\<forall>t \<in> set ts. octet_ok t" and "octets + length ts = 4"
  shows "inet_pton4_loop (dot_tail ts) True octets done cur = Some (done @ cur # map octet ts)"
  using assms
proof (induction ts arbitrary: octets "done" cur)
  case (Cons t ts)
  then show ?case by (simp add: pton4_first [simplified])
qed simp

lemma pton4_complete:
  assumes "inet_pton4_loop s saw octets done cur = Some bs"
    and "octets \<le> (if saw then 4 else 3)"
  shows "\<exists>ds ts. (\<forall>d \<in> set ds. d < 10) \<and> digits_val 10 (unat cur) ds \<le> 255 \<and> (saw \<or> ds \<noteq> []) \<and>
     (\<forall>t \<in> set ts. octet_ok t) \<and> s = dec_text ds @ dot_tail ts \<and>
     octets + length ts = (if saw then 4 else 3) \<and>
     bs = done @ of_nat (digits_val 10 (unat cur) ds) # map octet ts"
  using assms
proof (induction s saw octets "done" cur rule: inet_pton4_loop.induct)
  case (1 saw octets "done" cur)
  then show ?case
    using unat_byte_less [of cur]
    by (intro exI [of _ "[]"]) (auto split: if_splits)
next
  case (2 ch src saw octets "done" cur)
  show ?case
  proof (cases "strchr dec_digits ch")
    case (Some d)
    then have d: "d < 10" "ch = dec_digits ! d" using strchr_Some [of dec_digits ch d]
      by (auto simp: dec_digits_def)
    let ?new = "unat cur * 10 + d"
    have new: "?new \<le> 255" using 2(4) Some by (auto simp: Let_def split: if_splits)
    have "inet_pton4_loop src True (if saw then octets else octets + 1) done (of_nat ?new) = Some bs"
      using 2(4) Some new by (auto simp: Let_def split: if_splits)
    then obtain ds ts where h: "\<forall>d \<in> set ds. d < 10"
      "digits_val 10 (unat (of_nat ?new :: byte)) ds \<le> 255" "\<forall>t \<in> set ts. octet_ok t"
      "src = dec_text ds @ dot_tail ts" "(if saw then octets else octets + 1) + length ts = 4"
      "bs = done @ of_nat (digits_val 10 (unat (of_nat ?new :: byte)) ds) # map octet ts"
      using "2.IH"(2) [OF Some refl] "2.IH"(3) [OF Some refl] new 2(5) by (cases saw) (auto simp: not_less)
    have u: "unat (of_nat ?new :: byte) = ?new" using new by (intro unat_of_nat_byte) simp
    show ?thesis using h d new unfolding u
      by (intro exI [of _ "d # ds"] exI [of _ ts]) (auto split: if_splits)
  next
    case None
    then have c: "ch = CHR ''.''" "saw" "octets \<noteq> 4"
      "inet_pton4_loop src False octets (done @ [cur]) 0 = Some bs"
      using 2(4) by (auto split: if_splits)
    with "2.IH"(1) [OF None] 2(5) obtain ds ts where h: "\<forall>d \<in> set ds. d < 10"
      "digits_val 10 0 ds \<le> 255" "ds \<noteq> []" "\<forall>t \<in> set ts. octet_ok t"
      "src = dec_text ds @ dot_tail ts" "octets + length ts = 3"
      "bs = (done @ [cur]) @ of_nat (digits_val 10 0 ds) # map octet ts"
      by fastforce
    then show ?thesis using c unat_byte_less [of cur]
      by (intro exI [of _ "[]"] exI [of _ "ds # ts"]) (auto simp: octet_ok_def octet_def)
  qed
qed

lemma inet_pton4_language:
  "inet_pton4 s = Some bs \<longleftrightarrow>
     (\<exists>a ts. octet_ok a \<and> (\<forall>t \<in> set ts. octet_ok t) \<and> length ts = 3 \<and>
        s = dec_text a @ dot_tail ts \<and> bs = octet a # map octet ts)" (is "?l \<longleftrightarrow> ?r")
proof
  assume ?l
  from pton4_complete [OF this [unfolded inet_pton4_def]] show ?r
    by (auto simp: octet_ok_def octet_def)
next
  assume ?r
  then obtain a ts where "octet_ok a" "\<forall>t \<in> set ts. octet_ok t" "length ts = 3"
    "s = dec_text a @ dot_tail ts" "bs = octet a # map octet ts" by blast
  then show ?l by (simp add: inet_pton4_def pton4_first pton4_tail)
qed

lemma inet_pton4_length: "inet_pton4 s = Some bs \<Longrightarrow> length bs = 4"
  by (auto simp: inet_pton4_language)

lemma octet_digits_of: "octet_ok (digits_of 10 (unat (b :: byte)))" "octet (digits_of 10 (unat b)) = b"
proof -
  have "unat b \<le> 255" using unat_byte_less [of b] by simp
  then show "octet_ok (digits_of 10 (unat b))" "octet (digits_of 10 (unat b)) = b"
    by (auto simp: octet_ok_def octet_def digits_of_val dest: digits_of_less [rotated])
qed

lemma dotted_pton4:
  assumes "length src = 4"
  shows "inet_pton4 (dotted src) = Some src"
proof -
  obtain a b c d where src: "src = [a, b, c, d]"
    using assms by (auto simp: length_Suc_conv eval_nat_numeral)
  show ?thesis unfolding inet_pton4_language
    by (intro exI [of _ "digits_of 10 (unat a)"]
          exI [of _ "map (\<lambda>x. digits_of 10 (unat x)) [b, c, d]"])
      (simp add: src dotted_def fmt_u_def octet_digits_of)
qed

lemma dotted_length: "length (dotted src) \<le> 15"
  using byte_fmt_u_length [of "src ! 0"] byte_fmt_u_length [of "src ! 1"]
    byte_fmt_u_length [of "src ! 2"] byte_fmt_u_length [of "src ! 3"]
  by (simp add: dotted_def)

section \<open>inet_aton accepts every dotted quad\<close>

lemma aton_digits:
  assumes "\<forall>d \<in> set ds. d < 10"
  shows "inet_aton_loop (dec_text ds @ rest) dots (of_nat v) addr =
     inet_aton_loop rest dots (of_nat (digits_val 10 v ds) :: 'w::len word) addr"
  using assms
proof (induction ds arbitrary: v)
  case (Cons d ds)
  have "(of_nat v * 10 + of_nat d :: 'w word) = of_nat (v * 10 + d)" by simp
  with Cons show ?case by (simp del: of_nat_add of_nat_mult)
qed simp

lemma of_nat_le_255:
  assumes "8 \<le> LENGTH('w::len)" and "n \<le> 255"
  shows "\<not> (255 :: 'w word) < of_nat n" and "unat (of_nat n :: 'w word) = n"
proof -
  have b: "(255 :: nat) < 2 ^ LENGTH('w)"
    using power_increasing [OF assms(1), of "2 :: nat"] by simp
  then show u: "unat (of_nat n :: 'w word) = n"
    using assms(2) by (simp add: unat_of_nat take_bit_nat_eq_self_iff)
  have "unat (of_nat 255 :: 'w word) = 255"
    using b by (simp add: unat_of_nat take_bit_nat_eq_self_iff del: of_nat_numeral)
  then show "\<not> (255 :: 'w word) < of_nat n"
    using u assms(2) by (simp add: word_less_nat_alt)
qed

lemma aton_tail:
  assumes "\<forall>t \<in> set ts. octet_ok t" and "v \<le> 255" and "dots + length ts \<le> 3"
    and "8 \<le> LENGTH('w::len)"
  shows "inet_aton_loop (dot_tail ts) dots (of_nat v) addr =
     Some (dots + length ts,
       foldl (\<lambda>A t. push_bit 8 A OR of_nat (digits_val 10 0 t)) (push_bit 8 addr OR of_nat v) ts :: 'w word)"
  using assms
proof (induction ts arbitrary: dots v addr)
  case Nil
  then show ?case using of_nat_le_255 [where 'w = 'w, of v] by simp
next
  case (Cons t ts)
  then have "digits_val 10 0 t \<le> 255" "\<forall>d \<in> set t. d < 10" by (auto simp: octet_ok_def)
  with Cons show ?case
    using of_nat_le_255 [where 'w = 'w, of v]
      aton_digits [of t "dot_tail ts" "Suc dots" 0 "push_bit 8 addr OR of_nat v :: 'w word"]
    by simp
qed

lemma of_nat_via_byte:
  assumes "n \<le> 255"
  shows "(of_nat n :: 'w::len word) = ucast (of_nat n :: byte)"
  using unat_of_nat_byte [of n] assms of_nat_unat [of "of_nat n :: byte", where 'a = "'w word"] by simp

lemma htonl_quad:
  assumes "32 \<le> LENGTH('w::len)"
  shows "htonl_bytes (ucast (push_bit 8 (push_bit 8 (push_bit 8 (ucast a) OR ucast b) OR ucast c) OR ucast d :: 'w word)) = [a, b, c, d]"
  using assms unfolding htonl_bytes_def
  by (auto intro!: bit_word_eqI simp: bit_simps)
lemma aton_accepts_quad:
  assumes "inet_pton4 s = Some bs" and "32 \<le> LENGTH('w::len)"
  shows "inet_aton TYPE('w) s = Some bs"
proof -
  obtain a ts where l: "octet_ok a" "\<forall>t \<in> set ts. octet_ok t" "length ts = 3"
    "s = dec_text a @ dot_tail ts" "bs = octet a # map octet ts"
    using assms(1) inet_pton4_language by blast
  then obtain b c d where ts: "ts = [b, c, d]" by (auto simp: length_Suc_conv numeral_3_eq_3)
  have v: "digits_val 10 0 t \<le> 255 \<and> (of_nat (digits_val 10 0 t) :: 'w word) = ucast (octet t)"
    if "octet_ok t" for t
    using that of_nat_via_byte [where 'w = 'w] by (auto simp: octet_ok_def octet_def)
  have "inet_aton_loop s 0 (0 :: 'w word) 0 =
      inet_aton_loop (dot_tail ts) 0 (of_nat (digits_val 10 0 a) :: 'w word) 0"
    using l aton_digits [of a "dot_tail ts" 0 0 "0 :: 'w word"] by (simp add: octet_ok_def)
  also have "\<dots> = Some (3, push_bit 8 (push_bit 8 (push_bit 8 (ucast (octet a)) OR ucast (octet b))
      OR ucast (octet c)) OR ucast (octet d))"
    using aton_tail [of ts "digits_val 10 0 a" 0 "0 :: 'w word"] l v ts assms(2) by simp
  finally show ?thesis using htonl_quad [OF assms(2)] l ts by (simp add: inet_aton_def)
qed

section \<open>Properties\<close>

text \<open>
  C30: \<open>inet_pton4\<close> accepts exactly the dotted quads: four nonempty runs of decimal
  digits, each with a value of at most 255, separated by single dots, and then the result
  is the four values; every other string is refused.
\<close>

theorem inet_pton4_exact:
  "inet_pton4 s = Some bs \<longleftrightarrow>
     (\<exists>a b c d. octet_ok a \<and> octet_ok b \<and> octet_ok c \<and> octet_ok d \<and>
        s = dec_text a @ ''.'' @ dec_text b @ ''.'' @ dec_text c @ ''.'' @ dec_text d \<and>
        bs = [octet a, octet b, octet c, octet d])" (is "_ \<longleftrightarrow> ?r")
proof
  assume "inet_pton4 s = Some bs"
  then obtain a ts where "octet_ok a" "\<forall>t \<in> set ts. octet_ok t" "length ts = 3"
    "s = dec_text a @ dot_tail ts" "bs = octet a # map octet ts" by (auto simp: inet_pton4_language)
  then obtain b c d where "ts = [b, c, d]" by (auto simp: length_Suc_conv numeral_3_eq_3)
  with \<open>octet_ok a\<close> \<open>\<forall>t \<in> set ts. octet_ok t\<close> \<open>s = dec_text a @ dot_tail ts\<close>
    \<open>bs = octet a # map octet ts\<close> show ?r
    by (intro exI [of _ a] exI [of _ b] exI [of _ c] exI [of _ d]) simp
next
  assume ?r
  then obtain a b c d where "octet_ok a" "octet_ok b" "octet_ok c" "octet_ok d"
    "s = dec_text a @ dot_tail [b, c, d]" "bs = octet a # map octet [b, c, d]" by auto
  then show "inet_pton4 s = Some bs"
    by (intro inet_pton4_language [THEN iffD2] exI [of _ a] exI [of _ "[b, c, d]"]) auto
qed

text \<open>
  Round trip of the IPv4 presentation format: what \<open>inet_ntop4\<close> prints for a
  4-byte address, \<open>inet_pton4\<close> reads back as that address, and printing succeeds for
  every buffer of \<open>INET_ADDRSTRLEN\<close> bytes.
\<close>

lemma inet4_roundtrip:
  assumes "length src = 4" and "INET_ADDRSTRLEN \<le> sz"
  shows "\<exists>s. inet_ntop4 src sz = Inr s \<and> strcpy_bytes s \<le> sz \<and> inet_pton4 s = Some src"
  using assms dotted_pton4 [OF assms(1)] dotted_length [of src]
  by (simp add: inet_ntop4_def INET_ADDRSTRLEN_def strcpy_bytes_def Let_def)

lemma inet4_roundtrip_witness:
  "\<exists>s. inet_ntop4 [192, 168, 0, 1] 16 = Inr s \<and> strcpy_bytes s \<le> 16 \<and>
     inet_pton4 s = Some [192, 168, 0, 1]"
  by (rule inet4_roundtrip) (simp_all add: INET_ADDRSTRLEN_def)

text \<open>The longest and the shortest text, and one of every length between.\<close>

lemma dotted_of_length:
  assumes "7 \<le> n" and "n \<le> 15"
  shows "\<exists>p. length p = 4 \<and> length (dotted p) = n"
proof -
  have d: "length (fmt_u (unat (1 :: byte))) = 1" "length (fmt_u (unat (10 :: byte))) = 2" "length (fmt_u (unat (100 :: byte))) = 3"
    by (simp_all add: fmt_u_def digits_of.simps)
  have w: "\<exists>p. length p = 4 \<and> length (dotted p) = n" if "length (dotted [a, b, c, e]) = n" for a b c e
    using that by (intro exI [of _ "[a, b, c, e]"]) simp
  have "n \<in> {7, 8, 9, 10, 11, 12, 13, 14, 15}" using assms by auto
  then show ?thesis
    using d w [of 1 1 1 1] w [of 1 1 1 10] w [of 1 1 1 100] w [of 1 1 10 100] w [of 1 1 100 100] w [of 1 10 100 100]
      w [of 1 100 100 100] w [of 10 100 100 100] w [of 100 100 100 100]
    by (auto simp: dotted_def)
qed

lemma fmt_u_pos: "1 \<le> length (fmt_u n)"
  by (cases "fmt_u n") (use fmt_u_not_Nil [of n] in auto)

lemma snprintf_dotted: "snprintf_cut INET_ADDRSTRLEN (dotted p) = dotted p"
  using dotted_length [of p] by (simp add: snprintf_cut_def INET_ADDRSTRLEN_def)

text \<open>
  C37: the three IPv4 printers succeed on a text in a buffer of \<open>sz\<close> bytes under these conditions, give the same
  whole text when they do, and \<open>ENOSPC\<close> otherwise: \<open>inet_ntop_ipv4\<close> when the text and its terminating 0 fit, so that it
  never writes past the buffer; \<open>inet_ntop4\<close> and the copy in \<open>my-src\<close>, which compare with \<open>>\<close> instead of \<open>>=\<close>, also when the
  text alone fills the buffer, and then the terminating 0 goes one byte past it.  There are such addresses for
  every size from 7 to 15, and none for \<open>INET_ADDRSTRLEN\<close> or more.
\<close>

theorem inet_ntop_bounds:
  "inet_ntop_ipv4 AF_INET p sz = (if strcpy_bytes (dotted p) \<le> sz then Inr (dotted p) else Inl ENOSPC) \<and>
   inet_ntop4 p sz = (if strcpy_bytes (dotted p) \<le> sz + 1 then Inr (dotted p) else Inl ENOSPC) \<and>
   my_inet_ntop AF_INET p sz = (if strcpy_bytes (dotted p) \<le> sz + 1 then Inr (dotted p) else Inl ENOSPC) \<and>
   (fam \<noteq> AF_INET \<longrightarrow> inet_ntop_ipv4 fam p sz = Inl EAFNOSUPPORT \<and> my_inet_ntop fam p sz = Inl EAFNOSUPPORT) \<and>
   ((\<exists>q. length q = 4 \<and> inet_ntop4 q sz = Inr (dotted q) \<and> sz < strcpy_bytes (dotted q)) \<longleftrightarrow>
      7 \<le> sz \<and> sz < INET_ADDRSTRLEN) \<and>
   ((\<exists>q. length q = 4 \<and> my_inet_ntop AF_INET q sz = Inr (dotted q) \<and> sz < strcpy_bytes (dotted q)) \<longleftrightarrow>
      7 \<le> sz \<and> sz < INET_ADDRSTRLEN)"
proof -
  have i4: "inet_ntop4 q sz = (if strcpy_bytes (dotted q) \<le> sz + 1 then Inr (dotted q) else Inl ENOSPC)" for q
    by (auto simp: inet_ntop4_def strcpy_bytes_def)
  have my: "my_inet_ntop AF_INET q sz = (if strcpy_bytes (dotted q) \<le> sz + 1 then Inr (dotted q) else Inl ENOSPC)" for q
    by (auto simp: my_inet_ntop_def strcpy_bytes_def snprintf_dotted)
  have ip: "inet_ntop_ipv4 AF_INET p sz = (if strcpy_bytes (dotted p) \<le> sz then Inr (dotted p) else Inl ENOSPC)"
    by (auto simp: inet_ntop_ipv4_def strcpy_bytes_def snprintf_dotted)
  have len: "7 \<le> length (dotted q)" "length (dotted q) < 16" for q
    using dotted_length [of q] fmt_u_pos [of "unat (q ! 0)"] fmt_u_pos [of "unat (q ! 1)"]
      fmt_u_pos [of "unat (q ! 2)"] fmt_u_pos [of "unat (q ! 3)"] by (simp_all add: dotted_def)
  have "(\<exists>q. length q = 4 \<and> strcpy_bytes (dotted q) \<le> sz + 1 \<and> sz < strcpy_bytes (dotted q)) \<longleftrightarrow>
      (\<exists>q. length q = 4 \<and> length (dotted q) = sz)" by (auto simp: strcpy_bytes_def)
  also have "\<dots> \<longleftrightarrow> 7 \<le> sz \<and> sz < INET_ADDRSTRLEN"
    using dotted_of_length [of sz] len by (auto simp: INET_ADDRSTRLEN_def)
  finally have ex: "(\<exists>q. length q = 4 \<and> strcpy_bytes (dotted q) \<le> sz + 1 \<and> sz < strcpy_bytes (dotted q)) \<longleftrightarrow>
      7 \<le> sz \<and> sz < INET_ADDRSTRLEN" .
  have ok: "(if c then Inr x else Inl ENOSPC) = Inr x \<longleftrightarrow> c" for c and x :: string by simp
  show ?thesis unfolding i4 my ip ok ex by (simp add: inet_ntop_ipv4_def my_inet_ntop_def)
qed

theorem inet_ntop_bounds_witness:
  "inet_ntop_ipv4 7 [1, 2, 3, 4] 7 = Inl EAFNOSUPPORT \<and>
   (\<exists>q. length q = 4 \<and> inet_ntop4 q 7 = Inr (dotted q) \<and> 7 < strcpy_bytes (dotted q))"
  using inet_ntop_bounds [of "[1, 2, 3, 4]" 7 7] by (simp add: AF_INET_def INET_ADDRSTRLEN_def)

text \<open>
  \<open>inet_aton\<close>, whatever the width of \<open>u_long\<close> from 32 bits on, accepts every
  string \<open>inet_pton4\<close> accepts, with the same four bytes.
\<close>

lemma inet_aton_extends_pton4:
  assumes "inet_pton4 s = Some bs" and "32 \<le> LENGTH('w::len)"
  shows "inet_aton TYPE('w) s = Some bs"
  using assms by (rule aton_accepts_quad)

lemma inet_aton_extends_pton4_witness:
  "inet_aton TYPE(64) ''10.0.0.255'' = Some [10, 0, 0, 255]"
  by (rule inet_aton_extends_pton4)
    (simp_all add: inet_pton4_def dec_digits_def Let_def)

text \<open>
  The converse fails: \<open>inet_aton\<close> also accepts the empty string, empty components and
  addresses with fewer parts (filled from the left, so \<open>127.1\<close> is 127.1.0.0), and with a
  32-bit \<open>u_long\<close> a component that wraps around to a small value.
\<close>

lemma inet_aton_overaccepts:
  "inet_aton TYPE(32) '''' = Some [0, 0, 0, 0] \<and>
   inet_aton TYPE(32) ''127.1'' = Some [127, 1, 0, 0] \<and>
   inet_aton TYPE(32) ''1..2'' = Some [1, 0, 2, 0] \<and>
   inet_aton TYPE(32) ''4294967297.0.0.1'' = Some [1, 0, 0, 1] \<and>
   inet_pton4 '''' = None \<and> inet_pton4 ''127.1'' = None \<and> inet_pton4 ''4294967297.0.0.1'' = None"
  by (simp add: inet_aton_def inet_pton4_def dec_digits_def htonl_bytes_def Let_def)

end
