(* ===== verification/Inet6.thy ===== *)
theory Inet6
  imports Inet4
begin

text \<open>
  The IPv6 presentation format: \<open>inet_pton6\<close> of \<open>libfree/inet_pton.c\<close> and
  \<open>inet_ntop6\<close> of \<open>libfree/inet_ntop.c\<close>, and the two entry points that choose the
  family.  An address is the list of its sixteen bytes.
\<close>

section \<open>inet_pton6\<close>

definition IN6ADDRSZ :: nat where "IN6ADDRSZ = 16"
definition INADDRSZ :: nat where "INADDRSZ = 4"
definition INT16SZ :: nat where "INT16SZ = 2"

lemmas addr_sizes = IN6ADDRSZ_def INADDRSZ_def INT16SZ_def

text \<open>The two table lookups of the loop: lower case first, then upper case.\<close>

definition xdigit :: "char \<Rightarrow> nat option" where
  "xdigit ch = (case strchr xdigits_l ch of Some d \<Rightarrow> Some d | None \<Rightarrow> strchr xdigits_u ch)"

text \<open>\<open>*tp++ = (val >> 8) & 0xff; *tp++ = val & 0xff\<close>\<close>

definition be16 :: "nat \<Rightarrow> byte list" where
  "be16 val = [of_nat (drop_bit 8 val), of_nat val]"

text \<open>
  The loop.  \<open>out\<close> is \<open>tmp[0..tp)\<close>, \<open>colonp\<close> the offset recorded at \<open>::\<close>, \<open>curtok\<close> the
  text from the current group on.  Where the loop ends it gives \<open>tp\<close>'s contents,
  \<open>colonp\<close>, \<open>saw_xdigit\<close> and \<open>val\<close>.
\<close>

fun inet_pton6_loop ::
  "string \<Rightarrow> string \<Rightarrow> byte list \<Rightarrow> nat option \<Rightarrow> bool \<Rightarrow> nat \<Rightarrow>
     (byte list \<times> nat option \<times> bool \<times> nat) option" where
  "inet_pton6_loop [] curtok out colonp saw_xdigit val = Some (out, colonp, saw_xdigit, val)"
| "inet_pton6_loop (ch # src) curtok out colonp saw_xdigit val =
     (case xdigit ch of
        Some d \<Rightarrow>
          (let val' = push_bit 4 val OR d in
           if val' > 0xffff then None
           else inet_pton6_loop src curtok out colonp True val')
      | None \<Rightarrow>
          if ch = CHR '':'' then
            (if \<not> saw_xdigit then
               (if colonp \<noteq> None then None
                else inet_pton6_loop src src out (Some (length out)) saw_xdigit val)
             else if length out + INT16SZ > IN6ADDRSZ then None
             else inet_pton6_loop src src (out @ be16 val) colonp False 0)
          else if ch = CHR ''.'' \<and> length out + INADDRSZ \<le> IN6ADDRSZ then
            (case inet_pton4 curtok of
               Some bs \<Rightarrow> Some (out @ bs, colonp, False, val)
             | None \<Rightarrow> None)
          else None)"

text \<open>The shift by hand: \<open>endp[-i] = colonp[n-i]; colonp[n-i] = 0\<close> for \<open>i\<close> from 1 to \<open>n\<close>.\<close>

fun shift_tail :: "nat \<Rightarrow> nat \<Rightarrow> nat \<Rightarrow> byte list \<Rightarrow> byte list" where
  "shift_tail c n 0 tmp = tmp"
| "shift_tail c n (Suc i) tmp =
     (let t = shift_tail c n i tmp;
          t1 = t[IN6ADDRSZ - Suc i := t ! (c + n - Suc i)]
      in t1[c + n - Suc i := 0])"

definition inet_pton6_finish :: "byte list \<times> nat option \<times> bool \<times> nat \<Rightarrow> byte list option" where
  "inet_pton6_finish = (\<lambda>(out, colonp, saw_xdigit, val).
     if saw_xdigit \<and> length out + INT16SZ > IN6ADDRSZ then None
     else
       let out' = (if saw_xdigit then out @ be16 val else out);
           tmp = out' @ replicate (IN6ADDRSZ - length out') 0
       in case colonp of
            Some c \<Rightarrow> let n = length out' - c in Some (shift_tail c n n tmp)
          | None \<Rightarrow> if length out' \<noteq> IN6ADDRSZ then None else Some tmp)"

definition inet_pton6 :: "string \<Rightarrow> byte list option" where
  "inet_pton6 src0 =
     (let start = (case src0 of
           c # r \<Rightarrow> if c = CHR '':'' then
                     (case r of c' # _ \<Rightarrow> if c' = CHR '':'' then Some r else None | [] \<Rightarrow> None)
                   else Some src0
         | [] \<Rightarrow> Some src0)
      in case start of
           None \<Rightarrow> None
         | Some src \<Rightarrow>
             (case inet_pton6_loop src src [] None False 0 of
                None \<Rightarrow> None
              | Some st \<Rightarrow> inet_pton6_finish st))"

definition AF_INET6 :: int where "AF_INET6 = 10"

definition inet_pton :: "int \<Rightarrow> string \<Rightarrow> pton_result" where
  "inet_pton af src =
     (if af = AF_INET then (case inet_pton4 src of Some bs \<Rightarrow> PtonOk 1 bs | None \<Rightarrow> PtonBad)
      else if af = AF_INET6 then (case inet_pton6 src of Some bs \<Rightarrow> PtonOk 1 bs | None \<Rightarrow> PtonBad)
      else PtonError EAFNOSUPPORT)"

section \<open>inet_ntop6\<close>

text \<open>\<open>words[i / 2] |= src[i] << ((1 - (i % 2)) << 3)\<close> for the sixteen bytes.\<close>

definition words_of :: "byte list \<Rightarrow> nat list" where
  "words_of src =
     fold (\<lambda>i w. w[i div 2 := (w ! (i div 2)) OR push_bit (push_bit 3 (1 - i mod 2)) (unat (src ! i))])
       [0..<IN6ADDRSZ] (replicate (IN6ADDRSZ div INT16SZ) 0)"

text \<open>A run \<open>{base, len}\<close>; \<open>None\<close> stands for \<open>base == -1\<close>, when \<open>len\<close> is not read.\<close>

type_synonym zrun = "(nat \<times> nat) option"

definition better_run :: "zrun \<Rightarrow> zrun \<Rightarrow> zrun" where
  "better_run cur best =
     (case cur of None \<Rightarrow> best
      | Some (cb, cl) \<Rightarrow>
          (case best of None \<Rightarrow> Some (cb, cl)
           | Some (bb, bl) \<Rightarrow> if cl > bl then Some (cb, cl) else Some (bb, bl)))"

fun scan_runs :: "nat \<Rightarrow> nat list \<Rightarrow> zrun \<Rightarrow> zrun \<Rightarrow> zrun" where
  "scan_runs i [] cur best = better_run cur best"
| "scan_runs i (w # ws) cur best =
     (if w = 0 then
        scan_runs (Suc i) ws (case cur of None \<Rightarrow> Some (i, 1) | Some (b, l) \<Rightarrow> Some (b, l + 1)) best
      else scan_runs (Suc i) ws None (better_run cur best))"

definition best_run :: "nat list \<Rightarrow> zrun" where
  "best_run ws =
     (case scan_runs 0 ws None None of
        None \<Rightarrow> None
      | Some (b, l) \<Rightarrow> if l < 2 then None else Some (b, l))"

text \<open>
  The formatting loop from index \<open>i\<close>, with \<open>m\<close> iterations left and \<open>acc\<close> the text from
  \<open>tmp\<close> to \<open>tp\<close>.  \<open>sizeof tmp\<close> is 46.
\<close>

fun ntop6_fmt :: "byte list \<Rightarrow> nat list \<Rightarrow> zrun \<Rightarrow> nat \<Rightarrow> nat \<Rightarrow> string \<Rightarrow> errno + string" where
  "ntop6_fmt src ws best i 0 acc = Inr acc"
| "ntop6_fmt src ws best i (Suc m) acc =
     (if (case best of None \<Rightarrow> False | Some (b, l) \<Rightarrow> b \<le> i \<and> i < b + l) then
        ntop6_fmt src ws best (Suc i) m (if fst (the best) = i then acc @ '':'' else acc)
      else
        (let acc1 = (if i \<noteq> 0 then acc @ '':'' else acc) in
         if i = 6 \<and> (case best of None \<Rightarrow> False
              | Some (b, l) \<Rightarrow> b = 0 \<and> (l = 6 \<or> l = 5 \<and> ws ! 5 = 0xffff))
         then (case inet_ntop4 (drop 12 src) (46 - length acc1) of
                 Inl e \<Rightarrow> Inl e
               | Inr t \<Rightarrow> Inr (acc1 @ t))
         else ntop6_fmt src ws best (Suc i) m (acc1 @ fmt_x (ws ! i))))"

definition inet_ntop6 :: "byte list \<Rightarrow> nat \<Rightarrow> errno + string" where
  "inet_ntop6 src sz =
     (let ws = words_of src; best = best_run ws in
      case ntop6_fmt src ws best 0 (IN6ADDRSZ div INT16SZ) [] of
        Inl e \<Rightarrow> Inl e
      | Inr tmp \<Rightarrow>
          (let tmp' = (case best of None \<Rightarrow> tmp
                 | Some (b, l) \<Rightarrow> if b + l = IN6ADDRSZ div INT16SZ then tmp @ '':'' else tmp)
           in if length tmp' + 1 > sz then Inl ENOSPC else Inr tmp'))"

definition inet_ntop :: "int \<Rightarrow> byte list \<Rightarrow> nat \<Rightarrow> errno + string" where
  "inet_ntop af src sz =
     (if af = AF_INET then inet_ntop4 src sz
      else if af = AF_INET6 then inet_ntop6 src sz
      else Inl EAFNOSUPPORT)"

section \<open>How inet_pton6 reads the pieces of an address\<close>

lemma xdigit_simps [simp]:
  "d < 16 \<Longrightarrow> xdigit (xdigits_l ! d) = Some d"
  "d < 10 \<Longrightarrow> xdigit (dec_digits ! d) = Some d"
  "xdigit CHR '':'' = None" "xdigit CHR ''.'' = None"
  by (simp_all add: xdigit_def dec_is_xdig)

lemma digits_val_less:
  "\<forall>d \<in> set ds. d < b \<Longrightarrow> digits_val b v ds < (v + 1) * b ^ length ds"
proof (induction ds arbitrary: v)
  case (Cons d ds)
  then have "digits_val b (v * b + d) ds < (v * b + d + 1) * b ^ length ds" by simp
  also have "\<dots> \<le> (v * b + b) * b ^ length ds" using Cons.prems by (intro mult_le_mono1) auto
  finally show ?case by (simp add: algebra_simps)
qed simp

lemma pton6_hex:
  assumes "\<forall>d \<in> set ds. d < 16" and "digits_val 16 v ds \<le> 0xffff"
  shows "inet_pton6_loop (hex_text ds @ rest) ct out cp saw v =
     inet_pton6_loop rest ct out cp (saw \<or> ds \<noteq> []) (digits_val 16 v ds)"
  using assms
proof (induction ds arbitrary: v saw)
  case (Cons d ds)
  then have "v * 16 + d \<le> 0xffff" using digits_val_mono [of 16 "v * 16 + d" ds] by simp
  with Cons push_bit_or_nat [of d 4 v] show ?case by (simp add: Let_def)
qed simp

lemma pton6_word:
  "w \<le> 0xffff \<Longrightarrow> inet_pton6_loop (fmt_x w @ rest) ct out cp False 0 =
     inet_pton6_loop rest ct out cp True w"
  using pton6_hex [of "digits_of 16 w" 0 rest ct out cp False] digits_of_less [of 16 _ w]
  by (simp add: fmt_x_def digits_of_val)

definition hexc :: "nat list \<Rightarrow> string" where
  "hexc ws = concat (map (\<lambda>w. fmt_x w @ '':'') ws)"

definition be16s :: "nat list \<Rightarrow> byte list" where
  "be16s ws = concat (map be16 ws)"

lemma hexc_simps [simp]: "hexc [] = []" "hexc (w # ws) = fmt_x w @ CHR '':'' # hexc ws"
    "hexc (vs @ ws) = hexc vs @ hexc ws"
  by (simp_all add: hexc_def)

lemma be16s_simps [simp]: "be16s [] = []" "be16s (w # ws) = be16 w @ be16s ws"
    "be16s (vs @ ws) = be16s vs @ be16s ws"
  by (simp_all add: be16s_def)

lemma be16s_length [simp]: "length (be16 w) = 2" "length (be16s ws) = 2 * length ws"
  by (induction ws) (simp_all add: be16_def)

lemma be16_0 [simp]: "be16 0 = [0, 0]"
  by (simp add: be16_def)

lemma be16s_zeros: "be16s (replicate n 0) = replicate (2 * n) 0"
  by (induction n) simp_all

text \<open>A prefix of groups, each ended by a colon.\<close>

lemma pton6_prefix:
  assumes "\<forall>w \<in> set ws. w \<le> 0xffff" and "length out + 2 * length ws \<le> 16" and "ws \<noteq> []"
  shows "inet_pton6_loop (hexc ws @ rest) ct out cp False 0 =
     inet_pton6_loop rest rest (out @ be16s ws) cp False 0"
  using assms
proof (induction ws arbitrary: out ct)
  case (Cons w ws)
  then have step: "inet_pton6_loop (hexc (w # ws) @ rest) ct out cp False 0 =
      inet_pton6_loop (hexc ws @ rest) (hexc ws @ rest) (out @ be16 w) cp False 0"
    by (simp add: pton6_word addr_sizes)
  show ?case
  proof (cases "ws = []")
    case True
    with step show ?thesis by simp
  next
    case False
    then have "inet_pton6_loop (hexc ws @ rest) (hexc ws @ rest) (out @ be16 w) cp False 0 =
        inet_pton6_loop rest rest ((out @ be16 w) @ be16s ws) cp False 0"
      using Cons.prems by (intro Cons.IH) auto
    with step show ?thesis by simp
  qed
qed simp

text \<open>Groups separated by colons up to the end of the text.\<close>

definition hex_join :: "nat list \<Rightarrow> string" where
  "hex_join ws = (if ws = [] then [] else hexc (butlast ws) @ fmt_x (last ws))"

lemma pton6_join:
  assumes "\<forall>w \<in> set ws. w \<le> 0xffff" and "length out + 2 * length ws \<le> 16" and "ws \<noteq> []"
  shows "inet_pton6_loop (hex_join ws) ct out cp False 0 =
     Some (out @ be16s (butlast ws), cp, True, last ws)"
proof -
  have m: "\<forall>w \<in> set (butlast ws). w \<le> 0xffff" "last ws \<le> 0xffff"
    using assms(1,3) by (auto dest: in_set_butlastD)
  show ?thesis
  proof (cases "butlast ws = []")
    case True
    with pton6_word [OF m(2), of "[]"] assms show ?thesis by (simp add: hex_join_def)
  next
    case False
    with pton6_prefix [OF m(1) _ False, of out "fmt_x (last ws)"] pton6_word [OF m(2), of "[]"] assms
    show ?thesis by (simp add: hex_join_def)
  qed
qed

text \<open>An embedded dotted quad at the end of the text.\<close>

lemma dec_is_hex_text: "\<forall>d \<in> set ds. d < 10 \<Longrightarrow> dec_text ds = hex_text ds"
  by (induction ds) (simp_all add: dec_is_xdig)

lemma pton6_quad:
  assumes "length bs = 4" and "length out \<le> 12"
  shows "\<exists>v. inet_pton6_loop (dotted bs) (dotted bs) out cp False 0 = Some (out @ bs, cp, False, v)"
proof -
  let ?ds = "digits_of 10 (unat (bs ! 0))"
  obtain rest where rest: "dotted bs = dec_text ?ds @ CHR ''.'' # rest"
    by (simp add: dotted_def fmt_u_def)
  have d: "\<forall>d \<in> set ?ds. d < 10" using digits_of_less [of 10] by auto
  have l: "length ?ds \<le> 3" using byte_fmt_u_length [of "bs ! 0"] by (simp add: fmt_u_def)
  have "digits_val 16 0 ?ds < 16 ^ length ?ds"
    using digits_val_less [of ?ds 16 0] d by fastforce
  also have "\<dots> \<le> 16 ^ 3" using l by (rule power_increasing) simp
  finally have v: "digits_val 16 0 ?ds \<le> 0xffff" by simp
  have d16: "\<forall>d \<in> set ?ds. d < 16" using d by auto
  show ?thesis
    using pton6_hex [OF d16 v, of "CHR ''.'' # rest" "dotted bs" out cp False]
      dotted_pton4 [OF assms(1)] assms
    by (simp add: rest [symmetric] dec_is_hex_text [OF d, symmetric] addr_sizes)
qed

section \<open>The shift\<close>

lemma shift_tail_nth:
  assumes "length tmp = 16" and "c + n < 16" and "i \<le> n"
    and "\<forall>j. c + n \<le> j \<and> j < 16 \<longrightarrow> tmp ! j = 0"
  shows "length (shift_tail c n i tmp) = 16 \<and>
    (\<forall>j < 16. shift_tail c n i tmp ! j =
      (if 16 - i \<le> j then tmp ! (j + c + n - 16) else if c + n - i \<le> j then 0 else tmp ! j))"
  using assms(3)
proof (induction i)
  case 0
  then show ?case using assms by simp
next
  case (Suc i)
  then have len: "length (shift_tail c n i tmp) = 16"
    and nth: "\<And>j. j < 16 \<Longrightarrow> shift_tail c n i tmp ! j =
      (if 16 - i \<le> j then tmp ! (j + c + n - 16) else if c + n - i \<le> j then 0 else tmp ! j)"
    by auto
  have src: "shift_tail c n i tmp ! (c + n - Suc i) = tmp ! (c + n - Suc i)"
    using Suc.prems assms(2) by (subst nth) auto
  show ?case
  proof (intro conjI allI impI)
    fix j :: nat assume j: "j < 16"
    show "shift_tail c n (Suc i) tmp ! j =
      (if 16 - Suc i \<le> j then tmp ! (j + c + n - 16) else if c + n - Suc i \<le> j then 0 else tmp ! j)"
    proof (cases "j = 16 - Suc i")
      case True
      then have "j + c + n - 16 = c + n - Suc i" "j \<noteq> c + n - Suc i"
        using Suc.prems assms(2) by auto
      then show ?thesis using True len src j by (simp add: Let_def addr_sizes)
    next
      case False
      then show ?thesis using j len nth [OF j] Suc.prems assms(2)
        by (auto simp: Let_def addr_sizes nth_list_update)
    qed
  qed (simp add: Let_def len)
qed

lemma shift_tail_moves:
  assumes "length pre + length mid + z = 16" and "0 < z"
  shows "shift_tail (length pre) (length mid) (length mid) (pre @ mid @ replicate z 0) =
     pre @ replicate z (0 :: byte) @ mid" (is "?l = ?r")
proof (rule nth_equalityI)
  let ?t = "pre @ mid @ replicate z 0"
  have t: "length ?t = 16" "length pre + length mid < 16"
    "\<forall>j. length pre + length mid \<le> j \<and> j < 16 \<longrightarrow> ?t ! j = 0"
    using assms by (auto simp: nth_append)
  note s = shift_tail_nth [OF t(1,2) le_refl t(3)]
  show "length ?l = length ?r" using s assms by simp
  fix j assume "j < length ?l"
  then have j: "j < 16" using s by simp
  then show "?l ! j = ?r ! j"
    using s assms by (auto simp: nth_append intro!: arg_cong [where f = "(!) mid"])
qed

lemma finish_tail:
  assumes "length pre + length mid < 16"
  shows "inet_pton6_finish (pre @ mid, Some (length pre), False, v) =
     Some (pre @ replicate (16 - length pre - length mid) 0 @ mid)"
  using assms shift_tail_moves [of pre mid "16 - length pre - length mid"]
  by (simp add: inet_pton6_finish_def addr_sizes Let_def)

lemma finish_tail_word:
  assumes "length pre + length mid + 2 < 16"
  shows "inet_pton6_finish (pre @ mid, Some (length pre), True, w) =
     Some (pre @ replicate (14 - length pre - length mid) 0 @ mid @ be16 w)"
  using assms finish_tail [of pre "mid @ be16 w"]
  by (simp add: inet_pton6_finish_def addr_sizes Let_def be16_def)

lemma finish_whole:
  assumes "length out = 14"
  shows "inet_pton6_finish (out, None, True, w) = Some (out @ be16 w)"
  using assms by (simp add: inet_pton6_finish_def addr_sizes Let_def be16_def)

section \<open>The words of an address\<close>

lemma word_of_bytes:
  "push_bit 8 (unat a) OR unat (b :: byte) = unat a * 256 + unat b"
  using push_bit_or_nat [of "unat b" 8 "unat a"] unat_byte_less [of b] by simp

lemma words_of_fold:
  assumes "n \<le> 8"
  shows "fold (\<lambda>i w. w[i div 2 := (w ! (i div 2)) OR push_bit (push_bit 3 (1 - i mod 2)) (unat (src ! i))])
      [0..<2 * n] (replicate 8 0) =
    map (\<lambda>k. unat ((src :: byte list) ! (2 * k)) * 256 + unat (src ! (2 * k + 1))) [0..<n] @
      replicate (8 - n) 0"
  using assms
proof (induction n)
  case (Suc n)
  have u: "[0..<2 * Suc n] = [0..<2 * n] @ [2 * n, 2 * n + 1]" by simp
  have r: "replicate (8 - n) (0 :: nat) = 0 # replicate (8 - Suc n) 0"
    using Suc.prems by (simp add: Suc_diff_le flip: replicate_Suc)
  show ?case
    using Suc unfolding u
    by (simp add: r nth_append list_update_append word_of_bytes push_bit_eq_mult [of 3])
qed simp

lemma words_of_eq:
  "words_of src = map (\<lambda>k. unat (src ! (2 * k)) * 256 + unat (src ! (2 * k + 1))) [0..<8]"
  using words_of_fold [of 8 src] by (simp add: words_of_def addr_sizes)

lemma words_of_length [simp]: "length (words_of src) = 8"
  by (simp add: words_of_eq)

lemma words_of_le: "\<forall>w \<in> set (words_of src). w \<le> 0xffff"
proof -
  have "unat a * 256 + unat b \<le> 0xffff" for a b :: byte
    using unat_byte_less [of a] unat_byte_less [of b] by simp
  then show ?thesis by (auto simp: words_of_eq)
qed

lemma be16_word: "be16 (unat a * 256 + unat (b :: byte)) = [a, b]"
proof -
  have "(unat a * 256 + unat b) div 256 = unat a" using unat_byte_less [of b] by simp
  then have h: "drop_bit 8 (unat a * 256 + unat b) = unat a" by (simp add: drop_bit_eq_div)
  have "a * (256 :: byte) = a * 0" by (rule arg_cong [where f = "(*) a"]) simp
  then show ?thesis unfolding be16_def h by simp
qed

lemma be16s_pairs:
  assumes "length src = 2 * n"
  shows "be16s (map (\<lambda>k. unat (src ! (2 * k)) * 256 + unat (src ! (2 * k + 1))) [0..<n]) = src"
  using assms
proof (induction n arbitrary: src)
  case (Suc n)
  then obtain a b r where s: "src = a # b # r" "length r = 2 * n"
    by (auto simp: length_Suc_conv)
  have u: "[0..<Suc n] = 0 # map Suc [0..<n]" by (simp add: map_Suc_upt upt_conv_Cons del: upt_Suc)
  show ?case using Suc.IH [OF s(2)] unfolding u s(1)
    by (simp add: be16_word comp_def del: upt_Suc)
qed simp

lemma be16s_words: "length src = 16 \<Longrightarrow> be16s (words_of src) = src"
  using be16s_pairs [of src 8] by (simp only: words_of_eq)

section \<open>The run that is compressed\<close>

definition zero_run :: "nat list \<Rightarrow> nat \<Rightarrow> nat \<Rightarrow> bool" where
  "zero_run ws b l \<longleftrightarrow> 0 < l \<and> b + l \<le> length ws \<and> (\<forall>k. b \<le> k \<and> k < b + l \<longrightarrow> ws ! k = 0)"

text \<open>\<open>best\<close> is at least as long as, and on a tie not right of, every run that ends by \<open>j\<close>.\<close>

definition covers :: "nat list \<Rightarrow> nat \<Rightarrow> zrun \<Rightarrow> bool" where
  "covers ws j best \<longleftrightarrow> (\<forall>b l. zero_run ws b l \<and> b + l \<le> j \<longrightarrow>
     (\<exists>bb bl. best = Some (bb, bl) \<and> (l < bl \<or> l = bl \<and> bb \<le> b)))"

definition within_run :: "nat list \<Rightarrow> nat \<Rightarrow> zrun \<Rightarrow> bool" where
  "within_run ws j r \<longleftrightarrow> (case r of None \<Rightarrow> True | Some (b, l) \<Rightarrow> zero_run ws b l \<and> b + l \<le> j)"

definition scan_inv :: "nat list \<Rightarrow> nat \<Rightarrow> zrun \<Rightarrow> zrun \<Rightarrow> bool" where
  "scan_inv ws i cur best \<longleftrightarrow>
     (case cur of
        None \<Rightarrow> within_run ws i best \<and> covers ws i best \<and> (i = 0 \<or> ws ! (i - 1) \<noteq> 0)
      | Some (b, l) \<Rightarrow> b + l = i \<and> zero_run ws b l \<and> (b = 0 \<or> ws ! (b - 1) \<noteq> 0) \<and>
          within_run ws b best \<and> covers ws b best)"

lemma zero_run_left:
  assumes "zero_run ws b' l'" and "b' + l' \<le> b + l" and "b = 0 \<or> ws ! (b - 1) \<noteq> 0"
  shows "b' + l' \<le> b \<or> b \<le> b'"
proof (rule ccontr)
  assume "\<not> ?thesis"
  then have "b' \<le> b - 1" "b - 1 < b' + l'" "b \<noteq> 0" by auto
  then show False using assms by (auto simp: zero_run_def)
qed

lemma better_run_inv:
  assumes "scan_inv ws i cur best"
  shows "within_run ws i (better_run cur best)" and "covers ws i (better_run cur best)"
proof -
  have "within_run ws i (better_run cur best) \<and> covers ws i (better_run cur best)"
  proof (cases cur)
    case None
    then show ?thesis using assms by (simp add: scan_inv_def better_run_def)
  next
    case (Some p)
    then obtain b l where c: "cur = Some (b, l)" by (cases p) auto
    with assms have i: "b + l = i" and z: "zero_run ws b l" and e: "b = 0 \<or> ws ! (b - 1) \<noteq> 0"
      and w: "within_run ws b best" and cv: "covers ws b best"
      by (simp_all add: scan_inv_def)
    have "covers ws i (better_run cur best)"
      unfolding covers_def
    proof (intro allI impI)
      fix b' l' assume r: "zero_run ws b' l' \<and> b' + l' \<le> i"
      then consider "b' + l' \<le> b" | "b \<le> b'" using zero_run_left [of ws b' l' b l] e i by auto
      then show "\<exists>bb bl. better_run cur best = Some (bb, bl) \<and> (l' < bl \<or> l' = bl \<and> bb \<le> b')"
      proof cases
        case 1
        with r cv obtain bb bl where "best = Some (bb, bl)" "l' < bl \<or> l' = bl \<and> bb \<le> b'"
          unfolding covers_def by blast
        then show ?thesis by (auto simp: better_run_def c)
      next
        case 2
        then have "l' < l \<or> l' = l \<and> b' = b" using r i by auto
        then show ?thesis using w by (auto simp: better_run_def c within_run_def split: option.splits)
      qed
    qed
    moreover have "within_run ws i (better_run cur best)"
      using w z i by (auto simp: better_run_def c within_run_def split: option.splits)
    ultimately show ?thesis by blast
  qed
  then show "within_run ws i (better_run cur best)" "covers ws i (better_run cur best)" by auto
qed

lemma scan_runs_spec:
  assumes "scan_inv ws i cur best" and "i + length rest = length ws" and "drop i ws = rest"
  shows "within_run ws (length ws) (scan_runs i rest cur best) \<and>
    covers ws (length ws) (scan_runs i rest cur best)"
  using assms
proof (induction rest arbitrary: i cur best)
  case Nil
  then show ?case using better_run_inv [of ws i cur best] by simp
next
  case (Cons w rest)
  have w: "ws ! i = w" using Cons.prems(3) by (metis nth_via_drop)
  have d: "drop (Suc i) ws = rest" using Cons.prems(3) by (metis drop_Suc list.sel(3) tl_drop)
  have len: "Suc i + length rest = length ws" using Cons.prems(2) by simp
  show ?case
  proof (cases "w = 0")
    case True
    have "scan_inv ws (Suc i)
        (case cur of None \<Rightarrow> Some (i, 1) | Some (b, l) \<Rightarrow> Some (b, l + 1)) best"
      using Cons.prems(1) w True len
      by (auto simp: scan_inv_def zero_run_def less_Suc_eq split: option.splits)
    from Cons.IH [OF this len d] True show ?thesis by simp
  next
    case False
    have z: "b' + l' \<noteq> Suc i" if "zero_run ws b' l'" for b' l'
    proof
      assume "b' + l' = Suc i"
      then have "b' \<le> i \<and> i < b' + l'" using that by (auto simp: zero_run_def)
      then show False using that w False by (auto simp: zero_run_def)
    qed
    have "scan_inv ws (Suc i) None (better_run cur best)"
      using better_run_inv [OF Cons.prems(1)] w False z
      by (auto simp: scan_inv_def within_run_def covers_def le_Suc_eq split: option.splits)
    from Cons.IH [OF this len d] False show ?thesis by simp
  qed
qed

text \<open>The run is the leftmost longest run of zero words, and is at least two words long.\<close>

lemma best_run_spec:
  "case best_run ws of
     None \<Rightarrow> \<forall>b l. zero_run ws b l \<longrightarrow> l < 2
   | Some (b, l) \<Rightarrow> zero_run ws b l \<and> 2 \<le> l \<and>
       (\<forall>b' l'. zero_run ws b' l' \<longrightarrow> l' < l \<or> l' = l \<and> b \<le> b')"
proof -
  have "scan_inv ws 0 None None"
    by (auto simp: scan_inv_def within_run_def covers_def zero_run_def)
  from scan_runs_spec [OF this, of ws]
  have s: "within_run ws (length ws) (scan_runs 0 ws None None)"
    "covers ws (length ws) (scan_runs 0 ws None None)" by auto
  have le: "b + l \<le> length ws" if "zero_run ws b l" for b l using that by (simp add: zero_run_def)
  show ?thesis
  proof (cases "scan_runs 0 ws None None")
    case None
    then have "\<not> zero_run ws b l" for b l using s(2) le [of b l] unfolding covers_def None by blast
    with None show ?thesis by (simp add: best_run_def)
  next
    case (Some p)
    then obtain bb bl where p: "scan_runs 0 ws None None = Some (bb, bl)" by (cases p) auto
    have z: "zero_run ws bb bl" using s(1) p by (simp add: within_run_def)
    have c: "l < bl \<or> l = bl \<and> bb \<le> b" if "zero_run ws b l" for b l
      using s(2) le [OF that] that unfolding covers_def p by blast
    show ?thesis
    proof (cases "bl < 2")
      case True
      then have "l < 2" if "zero_run ws b l" for b l using c [OF that] by auto
      with True p show ?thesis by (simp add: best_run_def)
    next
      case False
      with z c p show ?thesis by (simp add: best_run_def)
    qed
  qed
qed

lemma best_run_SomeD:
  assumes "best_run ws = Some (b, l)"
  shows "2 \<le> l" and "b + l \<le> length ws" and "\<And>k. b \<le> k \<Longrightarrow> k < b + l \<Longrightarrow> ws ! k = 0"
  using best_run_spec [of ws] assms by (auto simp: zero_run_def)

section \<open>The text that inet_ntop6 writes\<close>

text \<open>The loop from \<open>i\<close> on, past the run and without an embedded IPv4 address.\<close>

definition past_run :: "zrun \<Rightarrow> nat \<Rightarrow> bool" where
  "past_run best i \<longleftrightarrow> (case best of None \<Rightarrow> True | Some (b, l) \<Rightarrow> b + l \<le> i)"

definition holds_v4 :: "nat list \<Rightarrow> zrun \<Rightarrow> bool" where
  "holds_v4 ws best \<longleftrightarrow> (case best of None \<Rightarrow> False
     | Some (b, l) \<Rightarrow> b = 0 \<and> (l = 6 \<or> l = 5 \<and> ws ! 5 = 0xffff))"

lemma ntop6_fmt_inside:
  assumes "b \<le> i" and "i < b + l"
  shows "ntop6_fmt src ws (Some (b, l)) i (Suc m) acc =
     ntop6_fmt src ws (Some (b, l)) (Suc i) m (if b = i then acc @ '':'' else acc)"
  using assms by simp

lemma ntop6_fmt_skip:
  assumes "b < i" and "i + k = b + l"
  shows "ntop6_fmt src ws (Some (b, l)) i (k + m) acc = ntop6_fmt src ws (Some (b, l)) (b + l) m acc"
  using assms
proof (induction k arbitrary: i)
  case (Suc k)
  then show ?case using ntop6_fmt_inside [of b i l src ws "k + m" acc] Suc.IH [of "Suc i"] by simp
qed simp

lemma ntop6_fmt_run:
  assumes "0 < l"
  shows "ntop6_fmt src ws (Some (b, l)) b (l + m) acc =
     ntop6_fmt src ws (Some (b, l)) (b + l) m (acc @ '':'')"
proof -
  obtain k where "l = Suc k" using assms by (cases l) auto
  then show ?thesis
    using ntop6_fmt_inside [of b b l src ws "k + m" acc] ntop6_fmt_skip [of b "Suc b" k l src ws m]
    by simp
qed

lemma ntop6_fmt_word:
  assumes "\<not> (case best of None \<Rightarrow> False | Some (b, l) \<Rightarrow> b \<le> i \<and> i < b + l)"
    and "i \<noteq> 6 \<or> \<not> holds_v4 ws best"
  shows "ntop6_fmt src ws best i (Suc m) acc =
     ntop6_fmt src ws best (Suc i) m ((if i \<noteq> 0 then acc @ '':'' else acc) @ fmt_x (ws ! i))"
  using assms by (auto simp: Let_def holds_v4_def split: option.splits)

lemma ntop6_fmt_tail:
  assumes "past_run best i" and "0 < i" and "i + m = length ws" and "\<not> holds_v4 ws best"
  shows "ntop6_fmt src ws best i m acc =
     Inr (acc @ concat (map (\<lambda>w. CHR '':'' # fmt_x w) (drop i ws)))"
  using assms
proof (induction m arbitrary: i acc)
  case (Suc m)
  have d: "drop i ws = ws ! i # drop (Suc i) ws" using Suc.prems(3) by (intro Cons_nth_drop_Suc [symmetric]) simp
  have "ntop6_fmt src ws best i (Suc m) acc =
      ntop6_fmt src ws best (Suc i) m ((acc @ '':'') @ fmt_x (ws ! i))"
    using Suc.prems by (subst ntop6_fmt_word) (auto simp: past_run_def split: option.splits)
  moreover have "past_run best (Suc i)" using Suc.prems(1) by (auto simp: past_run_def split: option.splits)
  ultimately show ?case using Suc.IH [of "Suc i"] Suc.prems d by (simp del: ntop6_fmt.simps)
qed simp

text \<open>The loop before the run.\<close>

lemma ntop6_fmt_head:
  assumes "i + k \<le> b" and "b + l \<le> 8"
  shows "ntop6_fmt src ws (Some (b, l)) i (k + m) acc =
     ntop6_fmt src ws (Some (b, l)) (i + k) m
       (acc @ concat (map (\<lambda>j. (if j \<noteq> 0 then '':'' else []) @ fmt_x (ws ! j)) [i..<i + k]))"
  using assms
proof (induction k arbitrary: i acc)
  case (Suc k)
  have "ntop6_fmt src ws (Some (b, l)) i (Suc (k + m)) acc =
      ntop6_fmt src ws (Some (b, l)) (Suc i) (k + m) ((if i \<noteq> 0 then acc @ '':'' else acc) @ fmt_x (ws ! i))"
    using Suc.prems by (intro ntop6_fmt_word) (auto simp: holds_v4_def)
  with Suc.IH [of "Suc i"] Suc.prems show ?case
    by (simp add: upt_conv_Cons del: upt_Suc)
qed simp

lemma colons_join: "ws \<noteq> [] \<Longrightarrow> concat (map (\<lambda>w. CHR '':'' # fmt_x w) ws) = CHR '':'' # hex_join ws"
  by (induction ws) (auto simp: hex_join_def)

lemma head_text:
  assumes "b \<le> length ws" and "0 < b"
  shows "concat (map (\<lambda>j. (if j \<noteq> 0 then '':'' else []) @ fmt_x (ws ! j)) [0..<b]) =
     hex_join (take b ws)"
  using assms
proof (induction b)
  case (Suc b)
  show ?case
  proof (cases "b = 0")
    case True
    with Suc.prems show ?thesis by (cases ws) (auto simp: hex_join_def)
  next
    case False
    have t: "take (Suc b) ws = take b ws @ [ws ! b]" using Suc.prems by (simp add: take_Suc_conv_app_nth)
    have h: "hexc (take b ws) = hex_join (take b ws) @ '':''" using False Suc.prems
      by (cases "take b ws" rule: rev_cases) (auto simp: hex_join_def)
    from Suc False t h show ?thesis by (simp add: hex_join_def)
  qed
qed simp

text \<open>The whole text: the words, the words around \<open>::\<close>, or \<open>::\<close> before a dotted quad.\<close>

definition ntop6_text :: "byte list \<Rightarrow> string" where
  "ntop6_text src =
     (let ws = words_of src in
      case best_run ws of
        None \<Rightarrow> hex_join ws
      | Some (b, l) \<Rightarrow>
          if holds_v4 ws (best_run ws) then ''::'' @ hexc (drop l (take 6 ws)) @ dotted (drop 12 src)
          else hex_join (take b ws) @ ''::'' @ hex_join (drop (b + l) ws))"

lemma fmt_none:
  assumes "length ws = 8"
  shows "ntop6_fmt src ws None 0 8 [] = Inr (hex_join ws)"
proof -
  obtain w vs where ws: "ws = w # vs" "vs \<noteq> []" using assms by (cases ws; force)
  have h: "hex_join (w # vs) = fmt_x w @ CHR '':'' # hex_join vs"
    using ws(2) by (simp add: hex_join_def)
  have "ntop6_fmt src ws None 0 (Suc 7) [] = ntop6_fmt src ws None 1 7 (fmt_x w)"
    by (subst ntop6_fmt_word) (simp_all add: ws)
  also have "\<dots> = Inr (fmt_x w @ concat (map (\<lambda>w. CHR '':'' # fmt_x w) (drop 1 ws)))"
    using assms by (intro ntop6_fmt_tail) (simp_all add: past_run_def holds_v4_def)
  also have "\<dots> = Inr (hex_join ws)" using ws h by (simp add: colons_join)
  finally show ?thesis by simp
qed

lemma fmt_run:
  assumes "length ws = 8" and "best = Some (b, l)" and "2 \<le> l" and "b + l \<le> 8"
    and "\<not> holds_v4 ws best"
  shows "\<exists>t. ntop6_fmt src ws best 0 8 [] = Inr t \<and>
     (if b + l = 8 then t @ '':'' else t) = hex_join (take b ws) @ ''::'' @ hex_join (drop (b + l) ws)"
proof -
  define h where "h = concat (map (\<lambda>j. (if j \<noteq> 0 then '':'' else []) @ fmt_x (ws ! j)) [0..<b])"
  define m where "m = 8 - (b + l)"
  have m: "b + (l + m) = 8" using assms(4) by (simp add: m_def)
  have "ntop6_fmt src ws best 0 8 [] = ntop6_fmt src ws best b (l + m) h"
    using ntop6_fmt_head [of 0 b b l src ws "l + m" "[]"] assms(2,4) m by (simp add: h_def)
  also have "\<dots> = ntop6_fmt src ws best (b + l) m (h @ '':'')"
    using ntop6_fmt_run [of l src ws b m h] assms(2,3) by simp
  also have "\<dots> = Inr ((h @ '':'') @ concat (map (\<lambda>w. CHR '':'' # fmt_x w) (drop (b + l) ws)))"
    using assms m by (intro ntop6_fmt_tail) (simp_all add: past_run_def)
  finally have f: "ntop6_fmt src ws best 0 8 [] =
    Inr (h @ '':'' @ concat (map (\<lambda>w. CHR '':'' # fmt_x w) (drop (b + l) ws)))" by simp
  have h: "h = hex_join (take b ws)"
    using head_text [of b ws] assms(1,4) by (cases "b = 0") (simp_all add: h_def hex_join_def)
  show ?thesis
  proof (cases "b + l = 8")
    case True
    with f h assms(1) show ?thesis by (simp add: hex_join_def)
  next
    case False
    then have "drop (b + l) ws \<noteq> []" using assms(1,4) by simp
    from colons_join [OF this] f h False show ?thesis by simp
  qed
qed

lemma fmt_v4:
  assumes "length ws = 8" and "best = Some (b, l)" and "holds_v4 ws best" and "length src = 16"
  shows "b = 0 \<and> b + l < 8 \<and>
    ntop6_fmt src ws best 0 8 [] = Inr (''::'' @ hexc (drop l (take 6 ws)) @ dotted (drop 12 src))"
proof -
  have b: "b = 0" "l = 6 \<or> l = 5" using assms(2,3) by (auto simp: holds_v4_def)
  have d: "length (dotted (drop 12 src)) \<le> 15" by (rule dotted_length)
  have run: "ntop6_fmt src ws best 0 8 [] = ntop6_fmt src ws best l (8 - l) '':''"
    using ntop6_fmt_run [of l src ws 0 "8 - l" "[]"] b assms(2) by auto
  have six: "ntop6_fmt src ws best 6 2 acc = Inr (acc @ '':'' @ dotted (drop 12 src))"
    if "length acc \<le> 6" for acc
    using that d assms(3) b assms(2) by (auto simp: numeral_2_eq_2 Let_def inet_ntop4_def holds_v4_def)
  from b(2) show ?thesis
  proof
    assume "l = 6"
    with run six [of "'':''"] b assms show ?thesis by simp
  next
    assume l: "l = 5"
    have "ntop6_fmt src ws best 5 (Suc 2) '':'' = ntop6_fmt src ws best 6 2 (''::'' @ fmt_x (ws ! 5))"
      using ntop6_fmt_word [of 5 best ws src 2 "'':''"] b l assms(2) by simp
    moreover have "length (fmt_x (ws ! 5)) \<le> 4"
      using assms(2,3) l by (intro fmt_x_length [of _ 3, simplified]) (simp add: holds_v4_def)
    moreover have "drop 5 (take 6 ws) = [ws ! 5]"
      using assms(1) Cons_nth_drop_Suc [of 5 ws, symmetric] by (simp add: drop_take)
    ultimately show ?thesis using run six [of "''::'' @ fmt_x (ws ! 5)"] b l by simp
  qed
qed

lemma inet_ntop6_eq:
  assumes "length src = 16"
  shows "inet_ntop6 src sz =
    (if length (ntop6_text src) + 1 > sz then Inl ENOSPC else Inr (ntop6_text src))"
proof -
  let ?ws = "words_of src" and ?best = "best_run (words_of src)"
  have l8: "length ?ws = 8" by simp
  have eight: "IN6ADDRSZ div INT16SZ = 8" by (simp add: addr_sizes)
  show ?thesis
  proof (cases ?best)
    case None
    then show ?thesis using fmt_none [OF l8, of src]
      by (simp add: inet_ntop6_def ntop6_text_def Let_def eight)
  next
    case (Some p)
    then obtain b l where p: "?best = Some (b, l)" by (cases p) auto
    note run = best_run_SomeD [OF p, unfolded l8]
    show ?thesis
    proof (cases "holds_v4 ?ws ?best")
      case True
      from fmt_v4 [OF l8 p True assms] p have "?best = Some (0, l)" "l < 8"
        "ntop6_fmt src ?ws (Some (0, l)) 0 8 [] = Inr (''::'' @ hexc (drop l (take 6 ?ws)) @ dotted (drop 12 src))"
        by auto
      with True show ?thesis
        by (simp add: inet_ntop6_def ntop6_text_def Let_def eight)
    next
      case False
      obtain t where "ntop6_fmt src ?ws ?best 0 8 [] = Inr t"
        "(if b + l = 8 then t @ '':'' else t) = hex_join (take b ?ws) @ ''::'' @ hex_join (drop (b + l) ?ws)"
        using fmt_run [OF l8 p run(1,2) False] by blast
      with False p show ?thesis
        by (simp add: inet_ntop6_def ntop6_text_def Let_def eight)
    qed
  qed
qed

section \<open>Reading the text back\<close>

lemma fmt_x_start: "\<exists>c r. fmt_x w = c # r \<and> c \<noteq> CHR '':''"
proof -
  obtain d ds where d: "digits_of 16 w = d # ds" using digits_of_not_Nil [of 16 w] by (cases "digits_of 16 w") auto
  then have "d < 16" using digits_of_less [of 16 d w] by simp
  with d show ?thesis by (simp add: fmt_x_def)
qed

lemma hex_join_start: "ws \<noteq> [] \<Longrightarrow> \<exists>c r. hex_join ws @ rest = c # r \<and> c \<noteq> CHR '':''"
proof -
  assume "ws \<noteq> []"
  then obtain w vs where "ws = w # vs" by (cases ws) auto
  with fmt_x_start [of w] show ?thesis by (auto simp: hex_join_def)
qed

lemma pton6_start:
  assumes "ws \<noteq> []"
  shows "inet_pton6 (hex_join ws @ rest) =
    (case inet_pton6_loop (hex_join ws @ rest) (hex_join ws @ rest) [] None False 0 of
       None \<Rightarrow> None | Some st \<Rightarrow> inet_pton6_finish st)"
  using hex_join_start [OF assms, of rest] by (auto simp: inet_pton6_def)

lemma be16s_butlast: "ws \<noteq> [] \<Longrightarrow> be16s (butlast ws) @ be16 (last ws) = be16s ws"
  by (cases ws rule: rev_cases) simp_all

text \<open>After \<open>::\<close>: the second colon, then the words of the tail.\<close>

lemma pton6_after_run:
  assumes "\<forall>w \<in> set vs. w \<le> 0xffff" and "length out + 2 * length vs < 16"
  shows "(case inet_pton6_loop (CHR '':'' # hex_join vs) ct out None False 0 of
       None \<Rightarrow> None | Some st \<Rightarrow> inet_pton6_finish st) =
    Some (out @ replicate (16 - length out - 2 * length vs) 0 @ be16s vs)"
proof (cases "vs = []")
  case True
  then show ?thesis using finish_tail [of out "[]" 0] assms by (simp add: hex_join_def)
next
  case False
  have "length out + length (be16s (butlast vs)) + 2 < 16"
    using assms(2) False by (cases vs rule: rev_cases) simp_all
  from finish_tail_word [OF this, of "last vs"]
  have "inet_pton6_finish (out @ be16s (butlast vs), Some (length out), True, last vs) =
      Some (out @ replicate (14 - length out - 2 * (length vs - 1)) 0 @ be16s vs)"
    by (simp add: be16s_butlast [OF False])
  moreover have "14 - length out - 2 * (length vs - 1) = 16 - length out - 2 * length vs"
    using False by (cases vs) auto
  ultimately show ?thesis
    using pton6_join [OF assms(1) _ False, of out "hex_join vs" "Some (length out)"] assms(2) by simp
qed

lemma words_split:
  assumes "b + l \<le> length ws" and "\<And>k. b \<le> k \<Longrightarrow> k < b + l \<Longrightarrow> ws ! k = 0"
  shows "take b ws @ replicate l 0 @ drop (b + l) ws = (ws :: nat list)"
proof (rule nth_equalityI)
  fix i assume "i < length (take b ws @ replicate l 0 @ drop (b + l) ws)"
  with assms show "(take b ws @ replicate l 0 @ drop (b + l) ws) ! i = ws ! i"
    by (auto simp: nth_append min_def)
qed (use assms in simp)

lemma pton6_compressed:
  assumes "length ws = 8" and "\<forall>w \<in> set ws. w \<le> 0xffff" and "b + l \<le> 8" and "0 < l"
    and "\<And>k. b \<le> k \<Longrightarrow> k < b + l \<Longrightarrow> ws ! k = 0"
  shows "inet_pton6 (hex_join (take b ws) @ ''::'' @ hex_join (drop (b + l) ws)) = Some (be16s ws)"
proof -
  let ?vs = "drop (b + l) ws"
  have v: "\<forall>w \<in> set ?vs. w \<le> 0xffff" "\<forall>w \<in> set (take b ws). w \<le> 0xffff"
    using assms(2) by (auto dest: in_set_dropD in_set_takeD)
  have "be16s (take b ws @ replicate l 0 @ ?vs) = be16s ws"
    using words_split [of b l ws] assms by simp
  then have whole: "be16s (take b ws) @ replicate (2 * l) 0 @ be16s ?vs = be16s ws"
    by (simp only: be16s_simps be16s_zeros append_assoc)
  have size: "length (be16s (take b ws)) + 2 * length ?vs < 16"
    "16 - length (be16s (take b ws)) - 2 * length ?vs = 2 * l"
    using assms(1,3,4) by auto
  note tail = pton6_after_run [OF v(1) size(1), unfolded size(2) whole]
  show ?thesis
  proof (cases "b = 0")
    case True
    then show ?thesis using tail by (simp add: inet_pton6_def hex_join_def)
  next
    case False
    then have ne: "take b ws \<noteq> []" using assms(1) by auto
    have h: "hex_join (take b ws) @ ''::'' @ hex_join ?vs = hexc (take b ws) @ CHR '':'' # hex_join ?vs"
      using ne by (cases "take b ws" rule: rev_cases) (simp_all add: hex_join_def)
    have "inet_pton6_loop (hexc (take b ws) @ CHR '':'' # hex_join ?vs) (hexc (take b ws) @ CHR '':'' # hex_join ?vs)
        [] None False 0 =
      inet_pton6_loop (CHR '':'' # hex_join ?vs) (CHR '':'' # hex_join ?vs) (be16s (take b ws)) None False 0"
      using pton6_prefix [OF v(2) _ ne, of "[]"] assms(1,3) by simp
    with tail pton6_start [OF ne, of "''::'' @ hex_join ?vs"] show ?thesis by (simp only: h)
  qed
qed

lemma pton6_plain:
  assumes "length ws = 8" and "\<forall>w \<in> set ws. w \<le> 0xffff"
  shows "inet_pton6 (hex_join ws) = Some (be16s ws)"
proof -
  have ne: "ws \<noteq> []" using assms(1) by auto
  have "length (be16s (butlast ws)) = 14" using assms(1) by simp
  from finish_whole [OF this, of "last ws"]
  have "inet_pton6_finish (be16s (butlast ws), None, True, last ws) = Some (be16s ws)"
    by (simp add: be16s_butlast [OF ne])
  with pton6_join [OF assms(2) _ ne, of "[]" "hex_join ws" None] pton6_start [OF ne, of "[]"] assms(1)
  show ?thesis by simp
qed

lemma pton6_v4:
  assumes "\<forall>w \<in> set vs. w \<le> 0xffff" and "length vs \<le> 1" and "length bs = 4"
  shows "inet_pton6 (''::'' @ hexc vs @ dotted bs) =
    Some (replicate (12 - 2 * length vs) 0 @ be16s vs @ bs)"
proof -
  obtain v where v: "inet_pton6_loop (dotted bs) (dotted bs) (be16s vs) (Some 0) False 0 =
      Some (be16s vs @ bs, Some 0, False, v)"
    using pton6_quad [OF assms(3), of "be16s vs"] assms(2) by auto
  have "inet_pton6_loop (hexc vs @ dotted bs) (hexc vs @ dotted bs) [] (Some 0) False 0 =
      Some (be16s vs @ bs, Some 0, False, v)"
    using pton6_prefix [OF assms(1), of "[]" "dotted bs"] v assms(2) by (cases "vs = []") simp_all
  then show ?thesis
    using finish_tail [of "[]" "be16s vs @ bs" v] assms(2,3) by (simp add: inet_pton6_def)
qed

lemma inet6_text_parses:
  assumes "length src = 16"
  shows "inet_pton6 (ntop6_text src) = Some src"
proof -
  let ?ws = "words_of src"
  have l8: "length ?ws = 8" by simp
  note le = words_of_le [of src]
  have whole: "be16s ?ws = src" by (rule be16s_words [OF assms])
  show ?thesis
  proof (cases "best_run ?ws")
    case None
    then show ?thesis using pton6_plain [OF l8 le] whole by (simp add: ntop6_text_def Let_def)
  next
    case (Some p)
    then obtain b l where p: "best_run ?ws = Some (b, l)" by (cases p) auto
    note run = best_run_SomeD [OF p, unfolded l8]
    show ?thesis
    proof (cases "holds_v4 ?ws (best_run ?ws)")
      case False
      then show ?thesis
        using pton6_compressed [OF l8 le run(2) _ run(3)] run(1) whole p
        by (simp add: ntop6_text_def Let_def)
    next
      case True
      then have b: "b = 0" "l = 5 \<or> l = 6" using p by (auto simp: holds_v4_def)
      let ?vs = "drop l (take 6 ?ws)"
      have v: "\<forall>w \<in> set ?vs. w \<le> 0xffff" "length ?vs \<le> 1"
        using le b(2) by (auto dest!: in_set_dropD in_set_takeD)
      have "take 6 ?ws = replicate l 0 @ ?vs"
        using words_split [of 0 l "take 6 ?ws"] run b by (simp add: min_def) force
      then have "be16s (take 6 ?ws) = replicate (2 * l) 0 @ be16s ?vs"
        by (metis be16s_simps(3) be16s_zeros)
      moreover have split: "be16s (take 6 ?ws) @ be16s (drop 6 ?ws) = src"
        using whole by (metis append_take_drop_id be16s_simps(3))
      moreover have "drop 12 (be16s (take 6 ?ws) @ be16s (drop 6 ?ws)) = be16s (drop 6 ?ws)" by simp
      ultimately have e: "replicate (2 * l) 0 @ be16s ?vs @ drop 12 src = src" by (simp only: split append_assoc)
      have "12 - 2 * length ?vs = 2 * l" using b(2) by auto
      with pton6_v4 [OF v, of "drop 12 src"] e assms have
        "inet_pton6 (''::'' @ hexc ?vs @ dotted (drop 12 src)) = Some src" by simp
      with True p show ?thesis by (simp add: ntop6_text_def Let_def)
    qed
  qed
qed

lemma hexc_length: "\<forall>w \<in> set ws. w \<le> 0xffff \<Longrightarrow> length (hexc ws) \<le> 5 * length ws"
proof (induction ws)
  case (Cons w ws)
  then have "length (fmt_x w) \<le> 4" by (intro fmt_x_length [of _ 3, simplified]) simp
  with Cons show ?case by simp
qed simp

lemma hex_join_length: "\<forall>w \<in> set ws. w \<le> 0xffff \<Longrightarrow> length (hex_join ws) \<le> 5 * length ws - 1"
proof (cases ws rule: rev_cases)
  case (snoc vs v)
  assume "\<forall>w \<in> set ws. w \<le> 0xffff"
  then have "length (fmt_x v) \<le> 4" "length (hexc vs) \<le> 5 * length vs"
    using snoc by (auto intro!: fmt_x_length [of _ 3, simplified] hexc_length)
  then show ?thesis by (simp add: snoc hex_join_def)
qed (simp add: hex_join_def)

definition INET6_ADDRSTRLEN :: nat where "INET6_ADDRSTRLEN = 46"

lemma ntop6_text_length: "length (ntop6_text src) < INET6_ADDRSTRLEN"
proof -
  let ?ws = "words_of src"
  have le: "\<forall>w \<in> set (take n ?ws). w \<le> 0xffff" "\<forall>w \<in> set (drop n ?ws). w \<le> 0xffff"
    "\<forall>w \<in> set (drop m (take n ?ws)). w \<le> 0xffff" for m n
    using words_of_le [of src] by (auto dest!: in_set_takeD in_set_dropD)
  have h: "length (hex_join (take n ?ws)) \<le> 5 * length (take n ?ws)"
    "length (hex_join (drop n ?ws)) \<le> 5 * length (drop n ?ws)"
    "length (hexc (drop m (take n ?ws))) \<le> 5 * length (drop m (take n ?ws))" for m n
    using hex_join_length [OF le(1) [of n]] hex_join_length [OF le(2) [of n]] hexc_length [OF le(3) [of m n]]
    by linarith+
  show ?thesis
  proof (cases "best_run ?ws")
    case None
    then show ?thesis using hex_join_length [OF words_of_le [of src]]
      by (simp add: ntop6_text_def Let_def INET6_ADDRSTRLEN_def)
  next
    case (Some p)
    then obtain b l where p: "best_run ?ws = Some (b, l)" by (cases p) auto
    show ?thesis
    proof (cases "holds_v4 ?ws (best_run ?ws)")
      case True
      then have "l = 5 \<or> l = 6" using p by (auto simp: holds_v4_def)
      then show ?thesis using True p h(3) [of l 6] dotted_length [of "drop 12 src"]
        by (auto simp: ntop6_text_def Let_def INET6_ADDRSTRLEN_def)
    next
      case False
      then show ?thesis
        using p h(1) [of b] h(2) [of "b + l"] best_run_SomeD(1,2) [OF p]
        by (simp add: ntop6_text_def Let_def INET6_ADDRSTRLEN_def)
    qed
  qed
qed


section \<open>Bounds of the parser\<close>

lemma pton6_loop_bounds:
  assumes "inet_pton6_loop s ct out cp saw v = Some (out', cp', saw', v')"
    and "length out \<le> 16" and "\<And>c. cp = Some c \<Longrightarrow> c \<le> length out"
  shows "length out' \<le> 16 \<and> (\<forall>c. cp' = Some c \<longrightarrow> c \<le> length out')"
  using assms
proof (induction s ct out cp saw v rule: inet_pton6_loop.induct)
  case (2 ch src curtok out colonp saw_xdigit val)
  show ?case
  proof (cases "xdigit ch")
    case (Some d)
    with "2.IH"(3) [OF Some refl] "2.prems" show ?thesis by (simp add: Let_def split: if_splits)
  next
    case None
    note x = None
    show ?thesis
    proof (cases "ch = CHR '':''")
      case True
      show ?thesis
      proof (cases saw_xdigit)
        case False
        then show ?thesis using "2.prems"(1,2) "2.IH"(1) [OF x True False] x True
          by (simp split: if_splits)
      next
        case s: True
        then have "\<not> length out + INT16SZ > IN6ADDRSZ" "length (out @ be16 val) \<le> 16"
          using "2.prems"(1,2) x True by (auto simp: addr_sizes split: if_splits)
        then show ?thesis using "2.prems"(1,3) "2.IH"(2) [OF x True] x True s
          by (fastforce split: if_splits)
      qed
    next
      case False
      then obtain bs where "ch = CHR ''.''" "length out + INADDRSZ \<le> IN6ADDRSZ" "inet_pton4 curtok = Some bs"
        "out' = out @ bs" "cp' = colonp"
        using "2.prems"(1) x by (auto split: if_splits option.splits)
      then show ?thesis using "2.prems"(3) inet_pton4_length [of curtok bs] by (auto simp: addr_sizes)
    qed
  qed
qed simp

lemma shift_tail_length [simp]: "length (shift_tail c n i tmp) = length tmp"
  by (induction i) (simp_all add: Let_def)

lemma inet_pton6_length: "inet_pton6 s = Some bs \<Longrightarrow> length bs = 16"
proof -
  assume "inet_pton6 s = Some bs"
  then obtain src out cp saw v where l: "inet_pton6_loop src src [] None False 0 = Some (out, cp, saw, v)"
    and f: "inet_pton6_finish (out, cp, saw, v) = Some bs"
    by (auto simp: inet_pton6_def split: option.splits prod.splits)
  from pton6_loop_bounds [OF l] have "length out \<le> 16" by simp
  with f show ?thesis
    by (auto simp: inet_pton6_finish_def addr_sizes Let_def split: if_splits option.splits)
qed

section \<open>Accepted although not an address\<close>

lemma shift_full:
  assumes "c + n = 16" and "length tmp = 16" and "i \<le> n"
  shows "shift_tail c n i tmp = take (16 - i) tmp @ replicate i 0"
  using assms(3)
proof (induction i)
  case (Suc i)
  let ?k = "15 - i"
  have k: "16 - Suc i = ?k" "c + n - Suc i = ?k" using Suc.prems assms(1) by auto
  have "Suc ?k = 16 - i" "?k < length tmp" using Suc.prems assms(1,2) by auto
  then have t: "take (16 - i) tmp = take ?k tmp @ [tmp ! ?k]"
    using take_Suc_conv_app_nth [of ?k tmp] by simp
  have "shift_tail c n i tmp = take ?k tmp @ tmp ! ?k # replicate i 0" using Suc t by simp
  then show ?case using Suc.prems assms(1,2)
    by (auto simp: Let_def addr_sizes k list_update_append min_def)
qed (simp add: assms)

lemma pton6_trailing_colon:
  assumes "length ws = 8" and "\<forall>w \<in> set ws. w \<le> 0xffff"
  shows "inet_pton6 (hexc ws) = Some (be16s ws)"
proof -
  have ne: "ws \<noteq> []" using assms(1) by auto
  have h: "hexc ws = hex_join ws @ '':''" using ne by (cases ws rule: rev_cases) (simp_all add: hex_join_def)
  have "inet_pton6_loop (hexc ws) (hexc ws) [] None False 0 = Some (be16s ws, None, False, 0)"
    using pton6_prefix [OF assms(2) _ ne, of "[]" "[]"] assms(1) by simp
  then show ?thesis using pton6_start [OF ne, of "'':''"] assms(1)
    by (simp add: h inet_pton6_finish_def addr_sizes)
qed

lemma pton6_full_run:
  assumes "length us + length vs = 8" and "us \<noteq> []" and "vs \<noteq> []"
    and "\<forall>w \<in> set (us @ vs). w \<le> 0xffff"
  shows "inet_pton6 (hex_join us @ ''::'' @ hex_join vs) =
    Some (be16s us @ replicate (2 * length vs) 0)"
proof -
  have u: "\<forall>w \<in> set us. w \<le> 0xffff" and v: "\<forall>w \<in> set vs. w \<le> 0xffff" using assms(4) by auto
  have h: "hex_join us @ ''::'' @ hex_join vs = hexc us @ CHR '':'' # hex_join vs"
    using assms(2) by (cases us rule: rev_cases) (simp_all add: hex_join_def)
  have "inet_pton6_loop (hexc us @ CHR '':'' # hex_join vs) (hexc us @ CHR '':'' # hex_join vs) [] None False 0 =
      Some (be16s us @ be16s (butlast vs), Some (2 * length us), True, last vs)"
    using pton6_prefix [OF u _ assms(2), of "[]"] pton6_join [OF v _ assms(3), of "be16s us"] assms(1) by simp
  moreover have "inet_pton6_finish (be16s us @ be16s (butlast vs), Some (2 * length us), True, last vs) =
      Some (shift_tail (2 * length us) (2 * length vs) (2 * length vs) (be16s us @ be16s vs))"
    using assms(1,3) be16s_butlast [OF assms(3)]
    by (cases vs rule: rev_cases) (simp_all add: inet_pton6_finish_def addr_sizes Let_def)
  moreover have "shift_tail (2 * length us) (2 * length vs) (2 * length vs) (be16s us @ be16s vs) =
      be16s us @ replicate (2 * length vs) 0"
    using shift_full [of "2 * length us" "2 * length vs" "be16s us @ be16s vs" "2 * length vs"] assms(1) by auto
  ultimately show ?thesis using pton6_start [OF assms(2), of "''::'' @ hex_join vs"]
    by (simp only: h option.case)
qed

section \<open>The contract of a printer and its parser\<close>

text \<open>
  What the name functions rely on: an address of the family's size is printed in fewer than
  \<open>maxlen\<close> characters and the text reads back as that address.
\<close>

locale addr_codec =
  fixes asz maxlen :: nat
    and ntop :: "byte list \<Rightarrow> nat \<Rightarrow> errno + string"
    and pton :: "string \<Rightarrow> byte list option"
  assumes prints: "length a = asz \<Longrightarrow> maxlen \<le> sz \<Longrightarrow> \<exists>s. ntop a sz = Inr s \<and> length s < maxlen"
    and reads: "length a = asz \<Longrightarrow> ntop a sz = Inr s \<Longrightarrow> pton s = Some a"
    and parsed_size: "pton s = Some a \<Longrightarrow> length a = asz"
begin

lemma print_parse:
  assumes "length a = asz" and "maxlen \<le> sz"
  shows "\<exists>s. ntop a sz = Inr s \<and> length s < sz \<and> pton s = Some a"
  using prints [OF assms] reads [OF assms(1)] assms(2) by fastforce

lemma print_injective:
  "length a = asz \<Longrightarrow> length b = asz \<Longrightarrow> ntop a sz = Inr s \<Longrightarrow> ntop b sz' = Inr s \<Longrightarrow> a = b"
  using reads [of a sz s] reads [of b sz' s] by simp

text \<open>Printing a parsed text gives a text of the same address, the canonical one.\<close>

lemma canonical:
  assumes "pton s = Some a" and "maxlen \<le> sz"
  shows "\<exists>t. ntop a sz = Inr t \<and> pton t = Some a"
  using print_parse [OF parsed_size [OF assms(1)] assms(2)] by blast

end

interpretation v4: addr_codec 4 INET_ADDRSTRLEN inet_ntop4 inet_pton4
proof unfold_locales
  fix a :: "byte list" and s sz
  show "INET_ADDRSTRLEN \<le> sz \<Longrightarrow> \<exists>s. inet_ntop4 a sz = Inr s \<and> length s < INET_ADDRSTRLEN"
    using dotted_length [of a] by (simp add: inet_ntop4_def Let_def INET_ADDRSTRLEN_def)
  show "inet_ntop4 a sz = Inr s \<Longrightarrow> inet_pton4 s = Some a" if "length a = 4"
    using dotted_pton4 [OF that] by (auto simp: inet_ntop4_def Let_def split: if_splits)
  show "inet_pton4 s = Some a \<Longrightarrow> length a = 4" by (rule inet_pton4_length)
qed

interpretation v6: addr_codec 16 INET6_ADDRSTRLEN inet_ntop6 inet_pton6
proof unfold_locales
  fix a :: "byte list" and s sz
  show "\<exists>s. inet_ntop6 a sz = Inr s \<and> length s < INET6_ADDRSTRLEN"
    if "length a = 16" "INET6_ADDRSTRLEN \<le> sz"
    using inet_ntop6_eq [OF that(1), of sz] ntop6_text_length [of a] that(2) by simp
  show "inet_ntop6 a sz = Inr s \<Longrightarrow> inet_pton6 s = Some a" if "length a = 16"
    using inet_ntop6_eq [OF that, of sz] inet6_text_parses [OF that] by (simp split: if_splits)
  show "inet_pton6 s = Some a \<Longrightarrow> length a = 16" by (rule inet_pton6_length)
qed

section \<open>Properties\<close>

text \<open>
  C5: every IPv6 address that \<open>inet_ntop6\<close> prints into a buffer of \<open>INET6_ADDRSTRLEN\<close> bytes or
  more fits it, and \<open>inet_pton6\<close> reads the text back as the same sixteen bytes, with the
  zero run compressed, an embedded IPv4 quad, or neither.
\<close>
theorem inet6_roundtrip:
  assumes "length src = 16" and "INET6_ADDRSTRLEN \<le> sz"
  shows "\<exists>s. inet_ntop6 src sz = Inr s \<and> length s < sz \<and> inet_pton6 s = Some src"
  by (rule v6.print_parse [OF assms])

theorem inet6_roundtrip_witness:
  "\<exists>s. inet_ntop6 [32, 1, 13, 184, 0, 0, 0, 0, 0, 0, 0, 0, 0, 0, 0, 1] 46 = Inr s \<and>
     length s < 46 \<and> inet_pton6 s = Some [32, 1, 13, 184, 0, 0, 0, 0, 0, 0, 0, 0, 0, 0, 0, 1]"
  by (rule inet6_roundtrip) (simp_all add: INET6_ADDRSTRLEN_def)

text \<open>
  The run that \<open>inet_ntop6\<close> compresses is a run of zero words, of at least two words,
  no run is longer and none of the same length is to its left; where it compresses nothing,
  no two adjacent words are zero.
\<close>
lemma best_run_leftmost_longest:
  "case best_run ws of
     None \<Rightarrow> \<forall>b l. zero_run ws b l \<longrightarrow> l < 2
   | Some (b, l) \<Rightarrow> zero_run ws b l \<and> 2 \<le> l \<and>
       (\<forall>b' l'. zero_run ws b' l' \<longrightarrow> l' < l \<or> l' = l \<and> b \<le> b')"
  by (rule best_run_spec)

lemma best_run_leftmost_longest_witness:
  "zero_run [1, 0, 0, 5, 0, 0, 7, 8] 4 2 \<and> best_run [1, 0, 0, 5, 0, 0, 7, 8] = Some (1, 2) \<and>
     (2 < (2 :: nat) \<or> (2 :: nat) = 2 \<and> 1 \<le> (4 :: nat))"
proof -
  have z: "zero_run [1, 0, 0, 5, 0, 0, 7, 8] 4 2" by (auto simp: zero_run_def less_Suc_eq numeral_eq_Suc)
  have b: "best_run [1, 0, 0, 5, 0, 0, 7, 8] = Some (1, 2)" by (simp add: best_run_def better_run_def)
  show ?thesis using best_run_leftmost_longest [of "[1, 0, 0, 5, 0, 0, 7, 8]"] z b by auto
qed

text \<open>
  What \<open>inet_pton6\<close> accepts is always sixteen bytes: the output pointer never passes the
  end of \<open>tmp\<close>, on any text, and only a complete address is copied out.
\<close>
lemma inet_pton6_bounds:
  assumes "inet_pton6 s = Some bs"
  shows "length bs = 16"
  by (rule inet_pton6_length [OF assms])

lemma inet_pton6_bounds_witness:
  "inet_pton6 (hex_join [1, 2, 3, 4, 5, 6, 7, 8]) = Some (be16s [1, 2, 3, 4, 5, 6, 7, 8]) \<and>
   length (be16s [1, 2, 3, 4, 5, 6, 7, 8]) = 16"
proof -
  have "inet_pton6 (hex_join [1, 2, 3, 4, 5, 6, 7, 8]) = Some (be16s [1, 2, 3, 4, 5, 6, 7, 8])"
    by (rule pton6_plain) simp_all
  with inet_pton6_bounds [OF this] show ?thesis by simp
qed

text \<open>
  C12: \<open>inet_pton6\<close> accepts a complete address of eight groups followed by one more colon, and a
  \<open>::\<close> between the groups of a complete address makes it replace every group to the right of
  the \<open>::\<close> with zeros instead of refusing the text.
\<close>
lemma inet_pton6_overaccepts:
  assumes "length us + length vs = 8" and "us \<noteq> []" and "vs \<noteq> []"
    and "\<forall>w \<in> set (us @ vs). w \<le> 0xffff"
  shows "inet_pton6 (hexc (us @ vs)) = Some (be16s (us @ vs)) \<and>
    inet_pton6 (hex_join us @ ''::'' @ hex_join vs) = Some (be16s us @ replicate (2 * length vs) 0)"
  using pton6_trailing_colon [of "us @ vs"] pton6_full_run [OF assms] assms by simp

lemma inet_pton6_overaccepts_witness:
  "inet_pton6 (hexc ([1, 2, 3, 4] @ [5, 6, 7, 8])) = Some (be16s ([1, 2, 3, 4] @ [5, 6, 7, 8])) \<and>
   inet_pton6 (hex_join [1, 2, 3, 4] @ ''::'' @ hex_join [5, 6, 7, 8]) =
     Some (be16s [1, 2, 3, 4] @ replicate (2 * length [5, 6, 7, 8 :: nat]) 0)"
  by (rule inet_pton6_overaccepts) simp_all

end
