(* ===== verification/Timeval.thy ===== *)
theory Timeval
  imports Prelude
begin

text \<open>
  Times: \<open>struct timeval\<close>, its order, and \<open>lib/tv_sub.c\<close> (copied in \<open>ping/\<close> and \<open>traceroute/\<close>).
\<close>

text \<open>\<open>struct timeval\<close>, and \<open>out -= in\<close> with one borrow.\<close>

datatype timeval = Timeval (tv_sec: int) (tv_usec: int)

definition tv_sub :: "timeval \<Rightarrow> timeval \<Rightarrow> timeval" where
  "tv_sub t1 t2 =
     (let us = tv_usec t1 - tv_usec t2
      in if us < 0 then Timeval (tv_sec t1 - 1 - tv_sec t2) (us + 1000000)
         else Timeval (tv_sec t1 - tv_sec t2) us)"

definition tv_norm :: "timeval \<Rightarrow> bool" where
  "tv_norm t \<longleftrightarrow> 0 \<le> tv_usec t \<and> tv_usec t < 1000000"

definition usecs :: "timeval \<Rightarrow> int" where
  "usecs t = tv_sec t * 1000000 + tv_usec t"

lemma tv_sub_usecs: "usecs (tv_sub a b) = usecs a - usecs b"
  by (auto simp: tv_sub_def usecs_def Let_def left_diff_distrib)

lemma tv_sub_norm: "tv_norm a \<Longrightarrow> tv_norm b \<Longrightarrow> tv_norm (tv_sub a b)"
  by (auto simp: tv_sub_def tv_norm_def Let_def)

text \<open>Normal times are ordered like their microseconds.\<close>

instantiation timeval :: linorder
begin

definition less_eq_timeval :: "timeval \<Rightarrow> timeval \<Rightarrow> bool" where
  "less_eq_timeval a b \<longleftrightarrow> tv_sec a < tv_sec b \<or> tv_sec a = tv_sec b \<and> tv_usec a \<le> tv_usec b"

definition less_timeval :: "timeval \<Rightarrow> timeval \<Rightarrow> bool" where
  "less_timeval a b \<longleftrightarrow> tv_sec a < tv_sec b \<or> tv_sec a = tv_sec b \<and> tv_usec a < tv_usec b"

instance
  by standard (auto simp: less_eq_timeval_def less_timeval_def intro: timeval.expand)

end

lemma tv_le_usecs: "tv_norm a \<Longrightarrow> tv_norm b \<Longrightarrow> a \<le> b \<longleftrightarrow> usecs a \<le> usecs b"
  by (auto simp: less_eq_timeval_def tv_norm_def usecs_def)

lemma tv_sub_nonneg: "tv_norm a \<Longrightarrow> tv_norm b \<Longrightarrow> b \<le> a \<Longrightarrow> 0 \<le> tv_sec (tv_sub a b)"
  by (auto simp: less_eq_timeval_def tv_norm_def tv_sub_def Let_def)

end
