(* ===== verification/Rtt.thy ===== *)
theory Rtt
  imports Timeval Complex_Main
begin

text \<open>
  The retransmission timer of \<open>lib/rtt.c\<close> (\<open>lib/unprtt.h\<close>).  A \<open>float\<close> is the real number it
  denotes; the roundings of the C implementation are parameters, \<open>rf\<close> to \<open>float\<close> and \<open>rd\<close> to
  \<open>double\<close>.
\<close>

section \<open>Operations\<close>

record rtt_info =
  rtt_rtt :: real
  rtt_srtt :: real
  rtt_rttvar :: real
  rtt_rto :: real
  rtt_nrexmt :: int
  rtt_base :: u32

definition RTT_RXTMIN :: real where "RTT_RXTMIN = 2"
definition RTT_RXTMAX :: real where "RTT_RXTMAX = 60"
definition RTT_MAXNREXMT :: int where "RTT_MAXNREXMT = 3"

lemmas rtt_consts = RTT_RXTMIN_def RTT_RXTMAX_def RTT_MAXNREXMT_def

definition RTT_RTOCALC :: "(real \<Rightarrow> real) \<Rightarrow> rtt_info \<Rightarrow> real" where
  "RTT_RTOCALC rd p = rd (rtt_srtt p + rd (4 * rtt_rttvar p))"

definition rtt_minmax :: "real \<Rightarrow> real" where
  "rtt_minmax rto =
     (if rto < RTT_RXTMIN then RTT_RXTMIN else if rto > RTT_RXTMAX then RTT_RXTMAX else rto)"

definition rtt_init :: "(real \<Rightarrow> real) \<Rightarrow> (real \<Rightarrow> real) \<Rightarrow> timeval \<Rightarrow> rtt_info \<Rightarrow> rtt_info" where
  "rtt_init rf rd tv p =
     (let p1 = p\<lparr>rtt_base := of_int (tv_sec tv), rtt_rtt := 0, rtt_srtt := 0, rtt_rttvar := rf (3 / 4)\<rparr>
      in p1\<lparr>rtt_rto := rtt_minmax (rf (RTT_RTOCALC rd p1))\<rparr>)"

definition rtt_ts :: "timeval \<Rightarrow> rtt_info \<Rightarrow> u32" where
  "rtt_ts tv p = of_int ((tv_sec tv - uint (rtt_base p)) * 1000 + tv_usec tv div 1000)"

definition rtt_newpack :: "rtt_info \<Rightarrow> rtt_info" where
  "rtt_newpack p = p\<lparr>rtt_nrexmt := 0\<rparr>"

text \<open>Round to the nearest integer: \<open>(int) (rto + 0.5)\<close>, of a nonnegative value.\<close>

definition rtt_start :: "(real \<Rightarrow> real) \<Rightarrow> rtt_info \<Rightarrow> int" where
  "rtt_start rd p = \<lfloor>rd (rtt_rto p + 1 / 2)\<rfloor>"

definition rtt_stop :: "(real \<Rightarrow> real) \<Rightarrow> (real \<Rightarrow> real) \<Rightarrow> u32 \<Rightarrow> rtt_info \<Rightarrow> rtt_info" where
  "rtt_stop rf rd ms p =
     (let p1 = p\<lparr>rtt_rtt := rf (rd (real (unat ms) / 1000))\<rparr>;
          delta = rf (rtt_rtt p1 - rtt_srtt p1);
          p2 = p1\<lparr>rtt_srtt := rf (rd (rtt_srtt p1 + rd (delta / 8)))\<rparr>;
          delta' = (if delta < 0 then - delta else delta);
          p3 = p2\<lparr>rtt_rttvar := rf (rd (rtt_rttvar p2 + rd (rd (delta' - rtt_rttvar p2) / 4)))\<rparr>
      in p3\<lparr>rtt_rto := rtt_minmax (rf (RTT_RTOCALC rd p3))\<rparr>)"

text \<open>Double the timeout and count; -1 when it is time to give up.\<close>

definition rtt_timeout :: "(real \<Rightarrow> real) \<Rightarrow> rtt_info \<Rightarrow> int \<times> rtt_info" where
  "rtt_timeout rf p =
     (let p1 = p\<lparr>rtt_rto := rf (rtt_rto p * 2), rtt_nrexmt := rtt_nrexmt p + 1\<rparr>
      in (if rtt_nrexmt p1 > RTT_MAXNREXMT then -1 else 0, p1))"

section \<open>Timestamps\<close>

text \<open>Milliseconds since the epoch.\<close>

definition ms_of :: "timeval \<Rightarrow> int" where
  "ms_of tv = tv_sec tv * 1000 + tv_usec tv div 1000"

lemma rtt_ts_ms: "rtt_ts tv p = of_int (ms_of tv) - of_int (uint (rtt_base p) * 1000)"
  unfolding rtt_ts_def ms_of_def by (simp add: left_diff_distrib)

text \<open>The base cancels, and so does the wrap-around of the 32-bit counter.\<close>

lemma rtt_ts_diff: "rtt_ts t2 p - rtt_ts t1 p = of_int (ms_of t2 - ms_of t1)"
  by (simp add: rtt_ts_ms)

lemma uint_of_int_u32: "0 \<le> d \<Longrightarrow> d < 2 ^ 32 \<Longrightarrow> uint (of_int d :: u32) = d"
  by (simp add: unsigned_of_int take_bit_int_eq_self)

lemma rtt_ts_elapsed:
  assumes "0 \<le> ms_of t2 - ms_of t1" and "ms_of t2 - ms_of t1 < 2 ^ 32"
  shows "uint (rtt_ts t2 p - rtt_ts t1 p) = ms_of t2 - ms_of t1"
  unfolding rtt_ts_diff using assms by (rule uint_of_int_u32)

section \<open>The timeout\<close>

lemma rtt_minmax_bounds: "RTT_RXTMIN \<le> rtt_minmax x \<and> rtt_minmax x \<le> RTT_RXTMAX"
  by (simp add: rtt_minmax_def rtt_consts)

text \<open>
  What the callers can do to a timer.  \<open>timer k p\<close>: a timer that has timed out \<open>k\<close> times since
  it was last set by \<open>rtt_init\<close> or \<open>rtt_stop\<close>.
\<close>

inductive timer :: "(real \<Rightarrow> real) \<Rightarrow> (real \<Rightarrow> real) \<Rightarrow> nat \<Rightarrow> rtt_info \<Rightarrow> bool" for rf rd where
  init: "timer rf rd 0 (rtt_init rf rd tv p)"
| stop: "timer rf rd k p \<Longrightarrow> timer rf rd 0 (rtt_stop rf rd ms p)"
| newpack: "timer rf rd k p \<Longrightarrow> timer rf rd k (rtt_newpack p)"
| timeout: "timer rf rd k p \<Longrightarrow> timer rf rd (Suc k) (snd (rtt_timeout rf p))"

text \<open>
  What is used of the rounding to \<open>float\<close>: the result is a \<open>float\<close>, which rounds to itself; 2 and
  60 are \<open>float\<close>s, and so is the double of a \<open>float\<close> that is not too large.
\<close>

definition float_rounding :: "(real \<Rightarrow> real) \<Rightarrow> bool" where
  "float_rounding rf \<longleftrightarrow> (\<forall>x. rf (rf x) = rf x) \<and> rf 2 = 2 \<and> rf 60 = 60 \<and>
     (\<forall>x. rf x = x \<and> \<bar>x\<bar> \<le> 2 ^ 100 \<longrightarrow> rf (x * 2) = x * 2)"

lemma rtt_minmax_float: "float_rounding rf \<Longrightarrow> rf (rtt_minmax (rf x)) = rtt_minmax (rf x)"
  by (auto simp: rtt_minmax_def rtt_consts float_rounding_def)

lemma timer_rto:
  assumes "timer rf rd k p" and "float_rounding rf" and "k \<le> 64"
  shows "\<exists>x. RTT_RXTMIN \<le> x \<and> x \<le> RTT_RXTMAX \<and> rtt_rto p = x * 2 ^ k \<and> rf (rtt_rto p) = rtt_rto p"
  using assms(1,3)
proof induction
  case (init tv p)
  show ?case using rtt_minmax_bounds rtt_minmax_float [OF assms(2)]
    by (intro exI [of _ "rtt_rto (rtt_init rf rd tv p)"]) (simp add: rtt_init_def Let_def)
next
  case (stop k p ms)
  show ?case using rtt_minmax_bounds rtt_minmax_float [OF assms(2)]
    by (intro exI [of _ "rtt_rto (rtt_stop rf rd ms p)"]) (simp add: rtt_stop_def Let_def)
next
  case (newpack k p)
  then show ?case by (simp add: rtt_newpack_def)
next
  case (timeout k p)
  then obtain x where x: "RTT_RXTMIN \<le> x" "x \<le> RTT_RXTMAX" "rtt_rto p = x * 2 ^ k" "rf (rtt_rto p) = rtt_rto p"
    by auto
  have "x * 2 ^ k \<le> 60 * 2 ^ 64" using x(1,2) timeout.prems
    by (intro mult_mono power_increasing) (auto simp: rtt_consts)
  then have "\<bar>rtt_rto p\<bar> \<le> 2 ^ 100" using x(1,3) by (simp add: rtt_consts)
  then have d: "rf (rtt_rto p * 2) = rtt_rto p * 2" using assms(2) x(4) by (simp add: float_rounding_def)
  show ?case using x d by (intro exI [of _ x]) (simp add: rtt_timeout_def Let_def)
qed

section \<open>The estimators\<close>

text \<open>With exact arithmetic: the smoothed value moves an eighth of the way to the measurement.\<close>

lemma srtt_step:
  "rtt_srtt (rtt_stop id id ms p) = rtt_srtt p + (real (unat ms) / 1000 - rtt_srtt p) / 8"
  by (simp add: rtt_stop_def Let_def)

lemma rttvar_step:
  "rtt_rttvar (rtt_stop id id ms p) = (3 * rtt_rttvar p + \<bar>real (unat ms) / 1000 - rtt_srtt p\<bar>) / 4"
  by (simp add: rtt_stop_def Let_def abs_if field_simps)

lemma srtt_between:
  "min (rtt_srtt p) (real (unat ms) / 1000) \<le> rtt_srtt (rtt_stop id id ms p) \<and>
   rtt_srtt (rtt_stop id id ms p) \<le> max (rtt_srtt p) (real (unat ms) / 1000)"
  unfolding srtt_step by (auto simp: min_def max_def field_simps)

lemma srtt_converges:
  "rtt_srtt ((rtt_stop id id ms ^^ n) p) =
     real (unat ms) / 1000 + (7 / 8) ^ n * (rtt_srtt p - real (unat ms) / 1000)"
proof (induction n)
  case (Suc n)
  let ?q = "(rtt_stop id id ms ^^ n) p" and ?r = "real (unat ms) / 1000"
  have "rtt_srtt ((rtt_stop id id ms ^^ Suc n) p) = rtt_srtt ?q + (?r - rtt_srtt ?q) / 8"
    by (simp only: funpow.simps(2) o_apply srtt_step)
  also have "\<dots> = ?r + (7 / 8) * (rtt_srtt ?q - ?r)" by (simp add: field_simps)
  also have "rtt_srtt ?q - ?r = (7 / 8) ^ n * (rtt_srtt p - ?r)" unfolding Suc.IH by simp
  finally show ?case by simp
qed simp

definition rtt_zero :: rtt_info where
  "rtt_zero = \<lparr>rtt_rtt = 0, rtt_srtt = 0, rtt_rttvar = 0, rtt_rto = 0, rtt_nrexmt = 0, rtt_base = 0\<rparr>"

section \<open>Properties\<close>

text \<open>
  Timestamps survive the wrap of their 32-bit counter: the difference of two readings is the
  number of milliseconds between them, whatever the base and although either reading may have
  wrapped, as long as less than \<open>2^32\<close> milliseconds have passed.
\<close>
lemma rtt_timestamp_difference:
  assumes "0 \<le> ms_of t2 - ms_of t1" and "ms_of t2 - ms_of t1 < 2 ^ 32"
  shows "uint (rtt_ts t2 p - rtt_ts t1 p) = ms_of t2 - ms_of t1"
  by (rule rtt_ts_elapsed [OF assms])

lemma rtt_timestamp_difference_witness:
  "uint (rtt_ts (Timeval 5000001 250000) rtt_zero - rtt_ts (Timeval 4999999 999999) rtt_zero) = 1251"
  using rtt_timestamp_difference [of "(Timeval 5000001 250000)" "(Timeval 4999999 999999)" rtt_zero]
  by (simp add: ms_of_def)

text \<open>
  C38: the timeout after \<open>k\<close> timeouts in a row is a value between \<open>RTT_RXTMIN\<close> and \<open>RTT_RXTMAX\<close>
  doubled \<open>k\<close> times: the limits are applied when the timer is set and not when it is doubled,
  so a timer at \<open>RTT_RXTMAX\<close> exceeds it at the first timeout.
\<close>
theorem rtt_rto_bounds:
  assumes "timer rf rd k p" and "float_rounding rf" and "k \<le> 64"
  shows "RTT_RXTMIN * 2 ^ k \<le> rtt_rto p \<and> rtt_rto p \<le> RTT_RXTMAX * 2 ^ k \<and>
    (rtt_rto p = RTT_RXTMAX \<longrightarrow> rtt_rto (snd (rtt_timeout rf p)) = 2 * RTT_RXTMAX)"
proof -
  obtain x where x: "RTT_RXTMIN \<le> x" "x \<le> RTT_RXTMAX" "rtt_rto p = x * 2 ^ k"
    using timer_rto [OF assms] by blast
  have "rf (60 * 2) = 60 * 2" using assms(2) unfolding float_rounding_def by force
  with x show ?thesis by (simp add: rtt_timeout_def Let_def rtt_consts)
qed

theorem rtt_rto_bounds_witness:
  "rtt_rto (snd (rtt_timeout id (rtt_stop id id 400000 (rtt_init id id (Timeval 0 0) rtt_zero)))) = 2 * RTT_RXTMAX"
proof -
  let ?p = "rtt_stop id id 400000 (rtt_init id id (Timeval 0 0) rtt_zero)"
  have t: "timer id id 0 ?p" by (rule timer.stop [OF timer.init])
  have f: "float_rounding id" by (simp add: float_rounding_def)
  have "rtt_rto ?p = RTT_RXTMAX"
    by (simp add: rtt_stop_def rtt_init_def Let_def RTT_RTOCALC_def rtt_minmax_def rtt_consts)
  with rtt_rto_bounds [OF t f] show ?thesis by simp
qed

text \<open>
  The smoothed round-trip time is a running average: it always lies between its old value
  and the measurement, and when the measured time stays the same its distance from it shrinks
  by an eighth per packet (in exact arithmetic).
\<close>
lemma rtt_srtt_average:
  "min (rtt_srtt p) (real (unat ms) / 1000) \<le> rtt_srtt (rtt_stop id id ms p) \<and>
   rtt_srtt (rtt_stop id id ms p) \<le> max (rtt_srtt p) (real (unat ms) / 1000) \<and>
   rtt_srtt ((rtt_stop id id ms ^^ n) p) - real (unat ms) / 1000 =
     (7 / 8) ^ n * (rtt_srtt p - real (unat ms) / 1000)"
  using srtt_between [of p ms] by (simp only: srtt_converges) simp

end
