(* ===== verification/Stdio.thy ===== *)
theory Stdio
  imports Line_Reader
begin

text \<open>
  What the programs use of standard I/O: \<open>fgets\<close> on a stream whose remaining bytes are a list,
  and C strings inside a buffer.
\<close>

text \<open>\<open>strlen\<close>, \<open>fputs\<close> and \<open>printf("%s")\<close> see a buffer up to its first NUL.\<close>

definition c_str :: "byte list \<Rightarrow> byte list" where
  "c_str bs = takeWhile (\<lambda>b. b \<noteq> 0) bs"

text \<open>\<open>fgets_split n bs\<close>: up to and including the first newline, at most \<open>n\<close> bytes.\<close>

fun fgets_split :: "nat \<Rightarrow> byte list \<Rightarrow> byte list \<times> byte list" where
  "fgets_split 0 bs = ([], bs)"
| "fgets_split (Suc n) [] = ([], [])"
| "fgets_split (Suc n) (b # bs) =
     (if b = 10 then ([b], bs) else (let (l, r) = fgets_split n bs in (b # l, r)))"

text \<open>\<open>Fgets(ptr, n, fp)\<close> for \<open>n\<close> at least 2; \<open>None\<close> is \<open>NULL\<close>.\<close>

definition Fgets :: "nat \<Rightarrow> byte list \<Rightarrow> (byte list \<times> byte list) option" where
  "Fgets n bs = (if bs = [] then None else Some (fgets_split (n - 1) bs))"

lemma fgets_split_step:
  "fgets_split n (b # bs) =
     (if n = 0 then ([], b # bs) else if b = 10 then ([b], bs)
      else (let (l, r) = fgets_split (n - 1) bs in (b # l, r)))"
  by (cases n) auto

lemma fgets_split_append: "fgets_split n bs = (l, r) \<Longrightarrow> bs = l @ r"
  by (induction n bs arbitrary: l r rule: fgets_split.induct) (auto split: if_splits prod.splits)

lemma fgets_split_length: "length (fst (fgets_split n bs)) \<le> n"
  by (induction n bs rule: fgets_split.induct) (auto split: prod.splits)

lemma Fgets_Some:
  assumes "Fgets n bs = Some (l, r)" and "2 \<le> n"
  shows "bs = l @ r" and "l \<noteq> []" and "length l < n" and "length r < length bs"
proof -
  from assms have ne: "bs \<noteq> []" and s: "fgets_split (n - 1) bs = (l, r)"
    by (auto simp: Fgets_def split: if_splits)
  show a: "bs = l @ r" by (rule fgets_split_append [OF s])
  show "length l < n" using fgets_split_length [of "n - 1" bs] s assms(2) by simp
  obtain m b bs' where "n - 1 = Suc m" "bs = b # bs'" using assms(2) ne by (cases "n - 1"; cases bs) auto
  with s show l: "l \<noteq> []" by (auto split: if_splits prod.splits)
  show "length r < length bs" using a l by simp
qed

lemma Fgets_Nil [simp]: "Fgets n [] = None"
  by (simp add: Fgets_def)

lemma Fgets_None [simp]: "Fgets n bs = None \<longleftrightarrow> bs = []"
  by (simp add: Fgets_def)

text \<open>All the lines of a stream, cut as \<open>fgets\<close> cuts them.\<close>

function fgets_lines :: "nat \<Rightarrow> byte list \<Rightarrow> byte list list" where
  "fgets_lines n bs =
     (if n < 2 then []
      else case Fgets n bs of None \<Rightarrow> [] | Some (l, r) \<Rightarrow> l # fgets_lines n r)"
  by pat_completeness auto
termination
  by (relation "measure (length \<circ> snd)") (auto dest: Fgets_Some(4))

declare fgets_lines.simps [simp del]

lemma fgets_lines_Nil [simp]: "fgets_lines n [] = []"
  by (simp add: fgets_lines.simps)

lemma fgets_lines_step: "2 \<le> n \<Longrightarrow> Fgets n bs = Some (l, r) \<Longrightarrow> fgets_lines n bs = l # fgets_lines n r"
  by (simp add: fgets_lines.simps [of n bs])

lemma concat_fgets_lines: "2 \<le> n \<Longrightarrow> concat (fgets_lines n bs) = bs"
proof (induction n bs rule: fgets_lines.induct)
  case (1 n bs)
  show ?case
  proof (cases "Fgets n bs")
    case (Some p)
    then obtain l r where p: "Fgets n bs = Some (l, r)" by (cases p) auto
    have "concat (fgets_lines n r) = r" using 1 p by simp
    then show ?thesis using Fgets_Some(1) [OF p 1(2)] fgets_lines_step [OF 1(2) p] by simp
  qed simp
qed

end
