(* ===== verification/Dg_Send_Recv.thy ===== *)
theory Dg_Send_Recv
  imports Rtt Stdio
begin

text \<open>
  \<open>rtt/dg_send_recv.c\<close>: one request and its reply over UDP, with a sequence number, a timestamp
  that the server echoes, and retransmission on the timer of \<open>lib/rtt.c\<close>.
\<close>

section \<open>State and events\<close>

text \<open>
  The static variables of the file (the fields of \<open>sendhdr\<close> one by one), \<open>tick\<close> for the number
  of calls of \<open>gettimeofday\<close> so far and \<open>sentlog\<close> for the datagrams handed to the kernel.
\<close>

record dg_state =
  rttinfo :: rtt_info
  rttinit :: bool
  send_seq :: u32
  send_ts :: u32
  tick :: nat
  sentlog :: "(u32 \<times> u32 \<times> byte list) list"

text \<open>
  What ends a wait in \<open>recvmsg\<close>: the alarm (\<open>siglongjmp\<close>), a datagram with a full header
  (sequence number, timestamp, payload), one shorter than the header, or an error.
\<close>

datatype dg_event = Alarm | Dgram u32 u32 "byte list" | Runt | RecvErr

text \<open>
  The surroundings of the code: the roundings, the clock by number of call, and whether the
  \<open>n\<close>-th \<open>sendmsg\<close> fails.
\<close>

record dg_env =
  rf :: "real \<Rightarrow> real"
  rd :: "real \<Rightarrow> real"
  clk :: "nat \<Rightarrow> timeval"
  serr :: "nat \<Rightarrow> bool"

section \<open>Operations\<close>

text \<open>From \<open>sendagain\<close> to \<open>alarm\<close>.\<close>

definition dg_emit :: "dg_env \<Rightarrow> byte list \<Rightarrow> dg_state \<Rightarrow> dg_state run" where
  "dg_emit e outbuff st =
     (let ts = rtt_ts (clk e (tick st)) (rttinfo st);
          st1 = st\<lparr>send_ts := ts, tick := tick st + 1\<rparr>
      in if serr e (length (sentlog st)) then Fatal ''sendmsg error''
         else Ret (st1\<lparr>sentlog := sentlog st @ [(send_seq st, ts, outbuff)]\<rparr>))"

text \<open>
  The receive loop and the branch of \<open>sigsetjmp\<close>.  The header and the payload are scattered into
  two buffers, so a payload longer than \<open>inbytes\<close> is cut.
\<close>

fun dg_wait ::
  "dg_env \<Rightarrow> byte list \<Rightarrow> nat \<Rightarrow> dg_event list \<Rightarrow> dg_state \<Rightarrow>
    ((errno + byte list) \<times> dg_event list \<times> dg_state) run" where
  "dg_wait e outbuff inbytes [] st = Blocked"
| "dg_wait e outbuff inbytes (Alarm # es) st =
     (let (r, p) = rtt_timeout (rf e) (rttinfo st); st1 = st\<lparr>rttinfo := p\<rparr>
      in if r < 0 then Ret (Inl ETIMEDOUT, es, st1\<lparr>rttinit := False\<rparr>)
         else run_bind (dg_emit e outbuff st1) (dg_wait e outbuff inbytes es))"
| "dg_wait e outbuff inbytes (Dgram s t bs # es) st =
     (if s \<noteq> send_seq st then dg_wait e outbuff inbytes es st
      else Ret (Inr (take inbytes bs), es,
        st\<lparr>rttinfo := rtt_stop (rf e) (rd e) (rtt_ts (clk e (tick st)) (rttinfo st) - t) (rttinfo st),
          tick := tick st + 1\<rparr>))"
| "dg_wait e outbuff inbytes (Runt # es) st = dg_wait e outbuff inbytes es st"
| "dg_wait e outbuff inbytes (RecvErr # es) st = Fatal ''recvmsg error''"

definition dg_open :: "dg_env \<Rightarrow> dg_state \<Rightarrow> dg_state" where
  "dg_open e st =
     (let st1 = (if rttinit st then st
            else st\<lparr>rttinfo := rtt_init (rf e) (rd e) (clk e (tick st)) (rttinfo st), rttinit := True,
              tick := tick st + 1\<rparr>)
      in st1\<lparr>send_seq := send_seq st1 + 1, rttinfo := rtt_newpack (rttinfo st1)\<rparr>)"

definition dg_send_recv ::
  "dg_env \<Rightarrow> byte list \<Rightarrow> nat \<Rightarrow> dg_event list \<Rightarrow> dg_state \<Rightarrow>
    ((errno + byte list) \<times> dg_event list \<times> dg_state) run" where
  "dg_send_recv e outbuff inbytes es st =
     run_bind (dg_emit e outbuff (dg_open e st)) (dg_wait e outbuff inbytes es)"

definition Dg_send_recv ::
  "dg_env \<Rightarrow> byte list \<Rightarrow> nat \<Rightarrow> dg_event list \<Rightarrow> dg_state \<Rightarrow>
    (byte list \<times> dg_event list \<times> dg_state) run" where
  "Dg_send_recv e outbuff inbytes es st =
     run_bind (dg_send_recv e outbuff inbytes es st) (\<lambda>(r, es', st').
       case r of Inl _ \<Rightarrow> Fatal ''dg_send_recv error'' | Inr bs \<Rightarrow> Ret (bs, es', st'))"

text \<open>
  \<open>dg_cli\<close> of \<open>rtt/dg_cli.c\<close>: one exchange per line of \<open>inp\<close>.  What is printed, and the state
  at the end of input.
\<close>

function dg_cli :: "dg_env \<Rightarrow> byte list \<Rightarrow> dg_event list \<Rightarrow> dg_state \<Rightarrow> (byte list \<times> dg_state) run" where
  "dg_cli e inp es st =
     (case Fgets MAXLINE inp of
        None \<Rightarrow> Ret ([], st)
      | Some (l, rest) \<Rightarrow>
          run_bind (Dg_send_recv e (c_str l) MAXLINE es st) (\<lambda>(bs, es', st').
            run_bind (dg_cli e rest es' st') (\<lambda>(out, st''). Ret (c_str bs @ out, st''))))"
  by pat_completeness auto
termination
  by (relation "measure (\<lambda>(e, inp, es, st). length inp)") (auto dest: Fgets_Some(4) simp: MAXLINE_def)

declare dg_cli.simps [simp del]

section \<open>One exchange\<close>

text \<open>The specification reads the event list once: what comes before the first matching reply.\<close>

definition stray :: "u32 \<Rightarrow> dg_event \<Rightarrow> bool" where
  "stray q ev = (case ev of Dgram s t bs \<Rightarrow> s \<noteq> q | _ \<Rightarrow> True)"

definition alarms :: "dg_event list \<Rightarrow> nat" where
  "alarms es = length (filter (\<lambda>ev. ev = Alarm) es)"

definition reply_of :: "u32 \<Rightarrow> dg_event list \<Rightarrow> byte list option" where
  "reply_of q es = (case dropWhile (stray q) es of Dgram s t bs # _ \<Rightarrow> Some bs | _ \<Rightarrow> None)"

definition alarms_before :: "u32 \<Rightarrow> dg_event list \<Rightarrow> nat" where
  "alarms_before q es = alarms (takeWhile (stray q) es)"

text \<open>The outcome, and the number of datagrams sent in the exchange.\<close>

definition dg_expected :: "u32 \<Rightarrow> nat \<Rightarrow> dg_event list \<Rightarrow> ((errno + byte list) \<times> nat) run" where
  "dg_expected q inbytes es =
     (let a = alarms_before q es
      in if 4 \<le> a then Ret (Inl ETIMEDOUT, 4)
         else case reply_of q es of None \<Rightarrow> Blocked | Some bs \<Rightarrow> Ret (Inr (take inbytes bs), a + 1))"

lemma stray_simps [simp]:
  "stray q Alarm" "stray q Runt" "stray q RecvErr" "stray q (Dgram s t bs) \<longleftrightarrow> s \<noteq> q"
  by (simp_all add: stray_def)

lemma alarms_before_simps [simp]:
  "alarms_before q [] = 0"
  "alarms_before q (Alarm # es) = Suc (alarms_before q es)"
  "alarms_before q (Runt # es) = alarms_before q es"
  "s \<noteq> q \<Longrightarrow> alarms_before q (Dgram s t bs # es) = alarms_before q es"
  "alarms_before q (Dgram q t bs # es) = 0"
  by (simp_all add: alarms_before_def alarms_def)

lemma reply_of_simps [simp]:
  "reply_of q [] = None"
  "reply_of q (Alarm # es) = reply_of q es"
  "reply_of q (Runt # es) = reply_of q es"
  "s \<noteq> q \<Longrightarrow> reply_of q (Dgram s t bs # es) = reply_of q es"
  "reply_of q (Dgram q t bs # es) = Some bs"
  by (simp_all add: reply_of_def)

text \<open>The log of an exchange without the timestamps.\<close>

definition sent_pairs :: "dg_state \<Rightarrow> (u32 \<times> byte list) list" where
  "sent_pairs st = map (\<lambda>(s, t, bs). (s, bs)) (sentlog st)"

definition outcome :: "((errno + byte list) \<times> dg_event list \<times> dg_state) run \<Rightarrow> ((errno + byte list) \<times> (u32 \<times> byte list) list) run" where
  "outcome m = run_bind m (\<lambda>(r, _, st). Ret (r, sent_pairs st))"

lemma outcome_simps [simp]:
  "outcome Blocked = Blocked" "outcome (Ret (r, es, st)) = Ret (r, sent_pairs st)"
  by (simp_all add: outcome_def)

lemma timeout_simps [simp]:
  "fst (rtt_timeout f p) < 0 \<longleftrightarrow> rtt_nrexmt p \<ge> 3"
  "rtt_nrexmt (snd (rtt_timeout f p)) = rtt_nrexmt p + 1"
  "rtt_base (snd (rtt_timeout f p)) = rtt_base p"
  by (auto simp: rtt_timeout_def Let_def RTT_MAXNREXMT_def)

lemma timer_fields [simp]:
  "rtt_nrexmt (rtt_newpack p) = 0" "rtt_base (rtt_newpack p) = rtt_base p"
  "rtt_base (rtt_init f g tv p) = of_int (tv_sec tv)"
  "rtt_base (rtt_stop f g ms p) = rtt_base p"
  by (simp_all add: rtt_newpack_def rtt_init_def rtt_stop_def Let_def)

lemma dg_emit_Ret:
  assumes "\<not> serr e (length (sentlog st))"
  obtains st' where "dg_emit e out st = Ret st'" and "rttinfo st' = rttinfo st" and "rttinit st' = rttinit st"
    and "send_seq st' = send_seq st" and "tick st' = tick st + 1"
    and "sentlog st' = sentlog st @ [(send_seq st, rtt_ts (clk e (tick st)) (rttinfo st), out)]"
  using assms by (simp add: dg_emit_def Let_def)

lemma dg_wait_Alarm:
  "dg_wait e out n (Alarm # es) st =
     (if rtt_nrexmt (rttinfo st) \<ge> 3
      then Ret (Inl ETIMEDOUT, es, st\<lparr>rttinfo := snd (rtt_timeout (rf e) (rttinfo st)), rttinit := False\<rparr>)
      else run_bind (dg_emit e out (st\<lparr>rttinfo := snd (rtt_timeout (rf e) (rttinfo st))\<rparr>)) (dg_wait e out n es))"
  by (simp add: case_prod_beta Let_def)

lemma dg_wait_outcome:
  assumes "\<And>k. \<not> serr e k" and "RecvErr \<notin> set es" and "rtt_nrexmt (rttinfo st) = int k" and "k \<le> 3"
  shows "outcome (dg_wait e out n es st) =
    (let a = alarms_before (send_seq st) es; log = (\<lambda>m. sent_pairs st @ replicate m (send_seq st, out))
     in if 4 \<le> a + k then Ret (Inl ETIMEDOUT, log (3 - k))
        else case reply_of (send_seq st) es of None \<Rightarrow> Blocked | Some bs \<Rightarrow> Ret (Inr (take n bs), log a))"
  using assms(2-4)
proof (induction es arbitrary: st k)
  case (Cons ev es)
  show ?case
  proof (cases ev)
    case Alarm
    show ?thesis
    proof (cases "k = 3")
      case True
      then show ?thesis using Cons.prems Alarm by (simp add: dg_wait_Alarm sent_pairs_def del: dg_wait.simps(2))
    next
      case False
      let ?st = "st\<lparr>rttinfo := snd (rtt_timeout (rf e) (rttinfo st))\<rparr>"
      from dg_emit_Ret [of e ?st out] assms(1) obtain st1 where em: "dg_emit e out ?st = Ret st1"
        and s: "rttinfo st1 = rttinfo ?st" "send_seq st1 = send_seq st"
        "sentlog st1 = sentlog st @ [(send_seq st, rtt_ts (clk e (tick st)) (rttinfo ?st), out)]"
        by auto
      have p: "sent_pairs st1 = sent_pairs st @ [(send_seq st, out)]" using s(3) by (simp add: sent_pairs_def)
      have k: "rtt_nrexmt (rttinfo st1) = int (Suc k)" "Suc k \<le> 3" using s(1) Cons.prems(2,3) False by auto
      have e: "[x] @ replicate m x = replicate (Suc m) x" for x :: "u32 \<times> byte list" and m by simp
      have d: "replicate (3 - k) x = x # replicate (2 - k) x" for x :: "u32 \<times> byte list"
        using False Cons.prems(3) by (simp add: Suc_diff_le flip: replicate_Suc)
      have *: "dg_wait e out n (Alarm # es) st = dg_wait e out n es st1"
        using Cons.prems(2,3) False em by (simp add: dg_wait_Alarm del: dg_wait.simps(2))
      show ?thesis unfolding Alarm *
        using Cons.IH [OF _ k] Cons.prems(1) d unfolding p s(2)
        by (auto simp: Let_def split: option.splits)
    qed
  next
    case (Dgram s t bs)
    then show ?thesis using Cons by (cases "s = send_seq st") (auto simp: sent_pairs_def Let_def)
  next
    case Runt
    then show ?thesis using Cons by (simp cong del: if_weak_cong)
  next
    case RecvErr
    then show ?thesis using Cons.prems by simp
  qed
qed simp


lemma dg_open_simps [simp]:
  "send_seq (dg_open e st) = send_seq st + 1" "sentlog (dg_open e st) = sentlog st"
  "rtt_nrexmt (rttinfo (dg_open e st)) = 0" "sent_pairs (dg_open e st) = sent_pairs st"
  by (simp_all add: dg_open_def Let_def rtt_newpack_def sent_pairs_def)

text \<open>The datagrams of an exchange: all of them with the new number and the caller's bytes.\<close>

lemma dg_send_recv_outcome:
  assumes "\<And>k. \<not> serr e k" and "RecvErr \<notin> set es"
  shows "outcome (dg_send_recv e out n es st) =
    run_bind (dg_expected (send_seq st + 1) n es) (\<lambda>(r, m).
      Ret (r, sent_pairs st @ replicate m (send_seq st + 1, out)))"
proof -
  obtain st1 where em: "dg_emit e out (dg_open e st) = Ret st1"
    and s: "rttinfo st1 = rttinfo (dg_open e st)" "send_seq st1 = send_seq (dg_open e st)"
    "sent_pairs st1 = sent_pairs st @ [(send_seq st + 1, out)]"
    by (rule dg_emit_Ret [of e "dg_open e st" out, OF assms(1)]) (auto simp: sent_pairs_def)
  have k: "rtt_nrexmt (rttinfo st1) = int 0" by (simp add: s(1))
  show ?thesis
    using dg_wait_outcome [of e es st1 0 out n, OF assms k] em
    unfolding dg_send_recv_def s dg_expected_def
    by (auto simp: Let_def replicate_app_Cons_same eval_nat_numeral split: option.splits)
qed

section \<open>Many exchanges\<close>

lemma dg_emit_Ret_conv:
  assumes "dg_emit e out st = Ret st'"
  shows "rttinfo st' = rttinfo st" "send_seq st' = send_seq st"
    "sentlog st' = sentlog st @ [(send_seq st, rtt_ts (clk e (tick st)) (rttinfo st), out)]"
  using assms by (auto simp: dg_emit_def Let_def split: if_splits)

definition logs :: "u32 \<Rightarrow> byte list \<Rightarrow> dg_state \<Rightarrow> dg_state \<Rightarrow> bool" where
  "logs q out st st' \<longleftrightarrow> send_seq st' = q \<and>
     (\<exists>new. sentlog st' = sentlog st @ new \<and> (\<forall>(s, t, b) \<in> set new. s = q \<and> b = out))"

lemma logs_refl: "logs (send_seq st) out st st"
  by (simp add: logs_def)

lemma logs_trans: "logs q out st st1 \<Longrightarrow> logs q out st1 st2 \<Longrightarrow> logs q out st st2"
  unfolding logs_def by fastforce

lemma logs_emit: "dg_emit e out st = Ret st' \<Longrightarrow> logs (send_seq st) out st st'"
  by (simp add: logs_def dg_emit_Ret_conv)

lemma logs_weaken: "logs q out st1 st' \<Longrightarrow> sentlog st1 = sentlog st \<Longrightarrow> logs q out st st'"
  by (simp add: logs_def)

text \<open>A wait that succeeds has found a datagram with the number of the request.\<close>

lemma dg_wait_Inr:
  assumes "dg_wait e out n es st = Ret (Inr bs, es', st')"
  shows "(\<exists>t b. Dgram (send_seq st) t b \<in> set es \<and> bs = take n b) \<and> set es' \<subseteq> set es \<and>
    logs (send_seq st) out st st'"
  using assms
proof (induction es arbitrary: st)
  case (Cons ev es)
  show ?case
  proof (cases ev)
    case Alarm
    let ?st = "st\<lparr>rttinfo := snd (rtt_timeout (rf e) (rttinfo st))\<rparr>"
    from Cons.prems obtain st1 where em: "dg_emit e out ?st = Ret st1"
      and w: "dg_wait e out n es st1 = Ret (Inr bs, es', st')"
      unfolding Alarm by (auto simp: dg_wait_Alarm run_bind_Ret_conv simp del: dg_wait.simps(2) split: if_splits)
    have q: "send_seq st1 = send_seq st" using dg_emit_Ret_conv(2) [OF em] by simp
    have l: "logs (send_seq st) out st st1" using logs_emit [OF em] by (simp add: logs_weaken)
    show ?thesis using Cons.IH [OF w] logs_trans [OF l] unfolding q by auto
  next
    case (Dgram s t b)
    then show ?thesis using Cons.prems Cons.IH [of st]
      by (cases "s = send_seq st") (auto simp: logs_def)
  next
    case Runt
    then show ?thesis using Cons by auto
  next
    case RecvErr
    then show ?thesis using Cons.prems by simp
  qed
qed simp

lemma Dg_send_recv_Ret:
  assumes "Dg_send_recv e out n es st = Ret (bs, es', st')"
  shows "(\<exists>t b. Dgram (send_seq st + 1) t b \<in> set es \<and> bs = take n b) \<and> set es' \<subseteq> set es \<and>
    logs (send_seq st + 1) out st st'"
proof -
  from assms obtain r es2 st2 where r: "dg_send_recv e out n es st = Ret (r, es2, st2)"
    and c: "(case r of Inl _ \<Rightarrow> Fatal ''dg_send_recv error'' | Inr bs \<Rightarrow> Ret (bs, es2, st2)) = Ret (bs, es', st')"
    by (auto simp: Dg_send_recv_def run_bind_Ret_conv)
  from c have "r = Inr bs" "es2 = es'" "st2 = st'" by (cases r; simp)+
  with r have "dg_send_recv e out n es st = Ret (Inr bs, es', st')" by simp
  then obtain st1 where em: "dg_emit e out (dg_open e st) = Ret st1"
    and w: "dg_wait e out n es st1 = Ret (Inr bs, es', st')"
    by (auto simp: dg_send_recv_def run_bind_Ret_conv)
  have q: "send_seq st1 = send_seq st + 1" using dg_emit_Ret_conv(2) [OF em] by simp
  have l: "logs (send_seq st + 1) out st st1" using logs_emit [OF em] by (simp add: logs_weaken)
  show ?thesis using dg_wait_Inr [OF w] logs_trans [OF l] unfolding q by auto
qed

lemma c_str_c_str [simp]: "c_str (c_str bs) = c_str bs"
  unfolding c_str_def by (rule takeWhile_idem)

lemma c_str_length: "length (c_str bs) \<le> length bs"
  unfolding c_str_def by (rule length_takeWhile_le)

text \<open>
  The \<open>i\<close>-th request has number \<open>q + i\<close> and the bytes \<open>ls ! i\<close>: of the datagrams sent, and, of
  the datagrams that arrive, of those with the number of a request.
\<close>

definition numbered :: "u32 \<Rightarrow> byte list list \<Rightarrow> (u32 \<times> u32 \<times> byte list) list \<Rightarrow> bool" where
  "numbered q ls ds \<longleftrightarrow> (\<forall>(s, t, b) \<in> set ds. \<exists>i < length ls. s = q + of_nat i \<and> b = ls ! i)"

definition no_forgery :: "u32 \<Rightarrow> byte list list \<Rightarrow> dg_event list \<Rightarrow> bool" where
  "no_forgery q ls es \<longleftrightarrow>
     (\<forall>s t b i. Dgram s t b \<in> set es \<longrightarrow> i < length ls \<longrightarrow> s = q + of_nat i \<longrightarrow> b = ls ! i)"

lemma numbered_Nil [simp]: "numbered q ls []"
  by (simp add: numbered_def)

lemma numbered_Cons:
  assumes "\<forall>(s, t, b) \<in> set new. s = q \<and> b = l" and "numbered (q + 1) ls ds"
  shows "numbered q (l # ls) (new @ ds)"
  unfolding numbered_def
proof clarify
  fix s t b
  assume m: "(s, t, b) \<in> set (new @ ds)"
  show "\<exists>i < length (l # ls). s = q + of_nat i \<and> b = (l # ls) ! i"
  proof (cases "(s, t, b) \<in> set new")
    case True
    then show ?thesis using assms(1) by (intro exI [of _ 0]) auto
  next
    case False
    then obtain i where "i < length ls" "s = q + 1 + of_nat i" "b = ls ! i"
      using m assms(2) unfolding numbered_def by auto
    then show ?thesis by (intro exI [of _ "Suc i"]) (simp add: add.assoc)
  qed
qed

lemma no_forgery_tl: "no_forgery q (l # ls) es \<Longrightarrow> set es' \<subseteq> set es \<Longrightarrow> no_forgery (q + 1) ls es'"
  unfolding no_forgery_def by (force simp: add.assoc)

lemma no_forgery_hd: "no_forgery q (l # ls) es \<Longrightarrow> Dgram q t b \<in> set es \<Longrightarrow> b = l"
  unfolding no_forgery_def by force

lemma dg_cli_Ret:
  assumes "dg_cli e inp es st = Ret (out, st')"
  shows "(\<exists>new. sentlog st' = sentlog st @ new \<and>
      numbered (send_seq st + 1) (map c_str (fgets_lines MAXLINE inp)) new) \<and>
    (no_forgery (send_seq st + 1) (map c_str (fgets_lines MAXLINE inp)) es \<longrightarrow>
      out = concat (map c_str (fgets_lines MAXLINE inp)))"
  using assms
proof (induction e inp es st arbitrary: out st' rule: dg_cli.induct)
  case (1 e inp es st)
  have M: "2 \<le> MAXLINE" by (simp add: MAXLINE_def)
  show ?case
  proof (cases "Fgets MAXLINE inp")
    case None
    then show ?thesis using 1(2) by (simp add: dg_cli.simps)
  next
    case (Some p)
    then obtain l rest where g: "Fgets MAXLINE inp = Some (l, rest)" by (cases p) auto
    from 1(2) obtain bs es1 st1 out1 where x: "Dg_send_recv e (c_str l) MAXLINE es st = Ret (bs, es1, st1)"
      and r: "dg_cli e rest es1 st1 = Ret (out1, st')" and o: "out = c_str bs @ out1"
      by (auto simp: dg_cli.simps [of e inp] g run_bind_Ret_conv)
    note D = Dg_send_recv_Ret [OF x]
    have IH: "(\<exists>new. sentlog st' = sentlog st1 @ new \<and>
          numbered (send_seq st1 + 1) (map c_str (fgets_lines MAXLINE rest)) new) \<and>
        (no_forgery (send_seq st1 + 1) (map c_str (fgets_lines MAXLINE rest)) es1 \<longrightarrow>
          out1 = concat (map c_str (fgets_lines MAXLINE rest)))"
      by (rule 1(1) [OF g refl r])
    have ls: "fgets_lines MAXLINE inp = l # fgets_lines MAXLINE rest" by (rule fgets_lines_step [OF M g])
    have q: "send_seq st1 = send_seq st + 1" using D by (simp add: logs_def)
    obtain new1 where n1: "sentlog st1 = sentlog st @ new1"
      "\<forall>(s, t, b) \<in> set new1. s = send_seq st + 1 \<and> b = c_str l"
      using D unfolding logs_def by blast
    obtain new2 where n2: "sentlog st' = sentlog st1 @ new2"
      "numbered (send_seq st + 1 + 1) (map c_str (fgets_lines MAXLINE rest)) new2"
      using IH unfolding q by blast
    have len: "length (c_str l) \<le> MAXLINE" using c_str_length [of l] Fgets_Some(3) [OF g M] by simp
    show ?thesis unfolding ls list.map concat.simps
    proof (intro conjI impI)
      show "\<exists>new. sentlog st' = sentlog st @ new \<and>
          numbered (send_seq st + 1) (c_str l # map c_str (fgets_lines MAXLINE rest)) new"
        using n1 n2 by (intro exI [of _ "new1 @ new2"]) (simp add: numbered_Cons)
      assume nf: "no_forgery (send_seq st + 1) (c_str l # map c_str (fgets_lines MAXLINE rest)) es"
      obtain t b where t: "Dgram (send_seq st + 1) t b \<in> set es" "bs = take MAXLINE b" using D by blast
      have "c_str bs = c_str l" using no_forgery_hd [OF nf t(1)] t(2) len by simp
      moreover have "out1 = concat (map c_str (fgets_lines MAXLINE rest))"
        using IH no_forgery_tl [OF nf] D unfolding q by blast
      ultimately show "out = c_str l @ concat (map c_str (fgets_lines MAXLINE rest))" using o by simp
    qed
  qed
qed

text \<open>With fewer than \<open>2^32\<close> requests the numbers do not repeat.\<close>

lemma numbered_no_forgery:
  assumes "numbered q ls ds" and "length ls \<le> 2 ^ 32"
    and "\<And>s t b. Dgram s t b \<in> set es \<Longrightarrow> (s, t, b) \<in> set ds"
  shows "no_forgery q ls es"
  unfolding no_forgery_def
proof (intro allI impI)
  fix s t b i
  assume d: "Dgram s t b \<in> set es" and i: "i < length ls" and s: "s = q + of_nat i"
  obtain j where j: "j < length ls" "s = q + of_nat j" "b = ls ! j"
    using assms(1) assms(3) [OF d] unfolding numbered_def by blast
  have "(of_nat i :: u32) = of_nat j" using s j(2) by simp
  then have "i = j" using i j(1) assms(2)
    by (simp add: of_nat_eq_iff take_bit_nat_eq_self_iff word_of_nat_eq_iff)
      (simp add: take_bit_nat_eq_self)
  then show "b = ls ! i" using j(3) by simp
qed

lemma reply_or_all_alarms: "RecvErr \<notin> set es \<Longrightarrow> reply_of q es = None \<Longrightarrow> alarms_before q es = alarms es"
proof (induction es)
  case (Cons ev es)
  show ?case
  proof (cases ev)
    case (Dgram s t bs)
    then show ?thesis using Cons by (cases "s = q") (auto simp: alarms_def)
  qed (use Cons in \<open>auto simp: alarms_def\<close>)
qed (simp add: alarms_def)

lemma dg_wait_Inl: "dg_wait e out n es st = Ret (Inl x, es', st') \<Longrightarrow> \<not> rttinit st'"
proof (induction es arbitrary: st)
  case (Cons ev es)
  then show ?case
    by (cases ev) (auto simp: dg_wait_Alarm run_bind_Ret_conv simp del: dg_wait.simps(2) split: if_splits)
qed simp

lemma sent_pairs_length: "length (sent_pairs st) = length (sentlog st)"
  by (simp add: sent_pairs_def)

lemma dg_expected_Ret:
  assumes "RecvErr \<notin> set es" and "4 \<le> alarms es"
  obtains r m where "dg_expected q n es = Ret (r, m)" and "m \<le> 4"
proof (cases "4 \<le> alarms_before q es")
  case True
  then show ?thesis using that by (simp add: dg_expected_def)
next
  case False
  then obtain bs where "reply_of q es = Some bs"
    using reply_or_all_alarms [OF assms(1), of q] assms(2) by (cases "reply_of q es") auto
  then show ?thesis using that False by (simp add: dg_expected_def)
qed

section \<open>Properties\<close>

text \<open>
  C12: the outcome of an exchange is decided by what arrives before the first datagram with the
  number of the request: after four timeouts the call gives up, otherwise it returns that
  datagram's payload, cut to the caller's buffer; one copy of the request is sent at the start
  and one for each of the first three timeouts, all with the same new number.
\<close>
theorem dg_exchange_outcome:
  assumes "\<And>k. \<not> serr e k" and "RecvErr \<notin> set es"
  shows "outcome (dg_send_recv e out n es st) =
    run_bind (dg_expected (send_seq st + 1) n es) (\<lambda>(r, m).
      Ret (r, sent_pairs st @ replicate m (send_seq st + 1, out)))"
  by (rule dg_send_recv_outcome [OF assms])

definition dg_demo_env :: dg_env where
  "dg_demo_env = \<lparr>rf = id, rd = id, clk = (\<lambda>i. Timeval 0 0), serr = (\<lambda>_. False)\<rparr>"

definition dg_demo :: dg_state where
  "dg_demo = \<lparr>rttinfo = \<lparr>rtt_rtt = 0, rtt_srtt = 0, rtt_rttvar = 0, rtt_rto = 0, rtt_nrexmt = 0, rtt_base = 0\<rparr>,
     rttinit = False, send_seq = 0, send_ts = 0, tick = 0, sentlog = []\<rparr>"

theorem dg_exchange_outcome_witness:
  "outcome (dg_send_recv dg_demo_env [104] 1 [Alarm, Dgram 0 0 [7], Runt, Dgram 1 0 [8, 9], Alarm] dg_demo) =
     Ret (Inr [8], [(1, [104]), (1, [104])])"
  using dg_exchange_outcome [of dg_demo_env "[Alarm, Dgram 0 0 [7], Runt, Dgram 1 0 [8, 9], Alarm]" "[104]" 1 dg_demo]
  by (simp add: dg_demo_env_def dg_demo_def dg_expected_def Let_def sent_pairs_def)

text \<open>
  An exchange ends after four timeouts at the latest, whatever the network delivers between
  them, with at most four datagrams sent; giving up makes the next exchange start with a fresh
  timer.
\<close>
lemma dg_exchange_terminates:
  assumes "\<And>k. \<not> serr e k" and "RecvErr \<notin> set es" and "4 \<le> alarms es"
  shows "\<exists>r es' st'. dg_send_recv e out n es st = Ret (r, es', st') \<and>
    length (sentlog st') \<le> length (sentlog st) + 4 \<and> (r = Inl ETIMEDOUT \<longrightarrow> \<not> rttinit st')"
proof -
  obtain r m where x: "dg_expected (send_seq st + 1) n es = Ret (r, m)" "m \<le> 4"
    by (rule dg_expected_Ret [OF assms(2,3)])
  from dg_send_recv_outcome [of e es out n st, OF assms(1,2)] x obtain es' st' where
    d: "dg_send_recv e out n es st = Ret (r, es', st')"
    and l: "sent_pairs st' = sent_pairs st @ replicate m (send_seq st + 1, out)"
    by (cases "dg_send_recv e out n es st") (auto simp: outcome_def)
  have "length (sentlog st') \<le> length (sentlog st) + 4"
    using arg_cong [OF l, of length] x(2) by (simp add: sent_pairs_length)
  moreover have "r = Inl ETIMEDOUT \<longrightarrow> \<not> rttinit st'"
    using d by (auto simp: dg_send_recv_def run_bind_Ret_conv dest: dg_wait_Inl)
  ultimately show ?thesis using d by blast
qed

lemma dg_exchange_terminates_witness:
  "\<exists>r es' st'. dg_send_recv dg_demo_env [104] 1 [Alarm, Dgram 0 0 [7], Alarm, Runt, Alarm, Alarm] dg_demo = Ret (r, es', st') \<and>
    length (sentlog st') \<le> 4"
  using dg_exchange_terminates [of dg_demo_env "[Alarm, Dgram 0 0 [7], Alarm, Runt, Alarm, Alarm]" "[104]" 1 dg_demo]
  by (auto simp: dg_demo_env_def alarms_def dg_demo_def)

text \<open>
  C1: the client prints exactly what it reads, line by line, over a network that may lose, delay,
  duplicate and reorder datagrams, with a server that sends each request back: if every datagram
  that arrives is a copy of one that was sent, and fewer than \<open>2^32\<close> lines are read, then a run
  that ends has printed every line in order, each once.
\<close>
theorem dg_cli_reliable:
  assumes "dg_cli e inp es st = Ret (out, st')" and "sentlog st = []"
    and "length (fgets_lines MAXLINE inp) \<le> 2 ^ 32"
    and "\<And>s t b. Dgram s t b \<in> set es \<Longrightarrow> (s, t, b) \<in> set (sentlog st')"
  shows "out = concat (map c_str (fgets_lines MAXLINE inp))"
proof -
  note D = dg_cli_Ret [OF assms(1)]
  then have "numbered (send_seq st + 1) (map c_str (fgets_lines MAXLINE inp)) (sentlog st')"
    using assms(2) by auto
  then have "no_forgery (send_seq st + 1) (map c_str (fgets_lines MAXLINE inp)) es"
    by (rule numbered_no_forgery) (use assms(3,4) in auto)
  with D show ?thesis by blast
qed

definition dg_demo_events :: "dg_event list" where
  "dg_demo_events = [Alarm, Dgram 1 0 [104, 10], Dgram 1 0 [104, 10], Dgram 2 0 [105, 10]]"

lemma dg_demo_run:
  obtains out st' where "dg_cli dg_demo_env [104, 10, 105, 10] dg_demo_events dg_demo = Ret (out, st')"
    and "sentlog st' = [(1, 0, [104, 10]), (1, 0, [104, 10]), (2, 0, [105, 10])]"
  by (simp add: dg_cli.simps [of _ "[104, 10, 105, 10]"] dg_cli.simps [of _ "[105, 10]"]
      dg_cli.simps [of _ "[]"] Fgets_def fgets_split_step c_str_def MAXLINE_def Dg_send_recv_def
      dg_send_recv_def dg_open_def dg_emit_def dg_demo_def dg_demo_env_def dg_demo_events_def Let_def dg_wait_Alarm
      rtt_ts_def del: dg_wait.simps(2))

theorem dg_cli_reliable_witness:
  "\<exists>st'. dg_cli dg_demo_env [104, 10, 105, 10] dg_demo_events dg_demo = Ret ([104, 10, 105, 10], st')"
proof (rule dg_demo_run)
  fix out st'
  assume r: "dg_cli dg_demo_env [104, 10, 105, 10] dg_demo_events dg_demo = Ret (out, st')"
    and l: "sentlog st' = [(1, 0, [104, 10]), (1, 0, [104, 10]), (2, 0, [105, 10])]"
  have ls: "fgets_lines MAXLINE [104, 10, 105, 10] = [[104, 10], [105, 10 :: byte]]"
    by (simp add: fgets_lines.simps Fgets_def fgets_split_step MAXLINE_def)
  have "out = concat (map c_str (fgets_lines MAXLINE [104, 10, 105, 10]))"
    by (rule dg_cli_reliable [OF r]) (auto simp: dg_demo_def ls l dg_demo_events_def)
  with r show ?thesis by (simp add: ls c_str_def)
qed

end
