(* ===== verification/Sockaddr.thy ===== *)
theory Sockaddr
  imports Inet6
begin

text \<open>
  Socket addresses and the functions of \<open>lib/\<close> that work on any address family:
  \<open>sock_ntop.c\<close>, \<open>sock_ntop_host.c\<close>, \<open>sock_cmp_addr.c\<close>, \<open>sock_cmp_port.c\<close>, \<open>sock_get_port.c\<close>,
  \<open>sock_set_port.c\<close>, \<open>sock_set_addr.c\<close>, \<open>sock_set_wild.c\<close>, \<open>sock_bind_wild.c\<close>,
  \<open>family_to_level.c\<close> and \<open>sockfd_to_family.c\<close>, in the configuration of \<open>config.h\<close> (IPv6, Unix
  domain and data-link addresses).
\<close>

section \<open>Byte order\<close>

text \<open>
  A port field holds the 16-bit number the CPU reads from it; on the little-endian hosts the code
  is configured for, \<open>ntohs\<close> and \<open>htons\<close> swap its bytes.  \<open>htons\<close> first cuts its \<open>int\<close> argument.
\<close>

definition ntohs :: "u16 \<Rightarrow> u16" where
  "ntohs w = push_bit 8 w OR drop_bit 8 w"

definition htons :: "int \<Rightarrow> u16" where
  "htons i = ntohs (of_int i)"

lemma bit_u16_high: "16 \<le> n \<Longrightarrow> \<not> bit (w :: u16) n"
  by (auto dest: bit_imp_le_length)

lemma ntohs_ntohs [simp]: "ntohs (ntohs w) = w"
proof (rule bit_word_eqI)
  fix n :: nat
  assume n: "n < LENGTH(16)"
  have e: "8 + (n - 8) = n" if "8 \<le> n" using that by simp
  show "bit (ntohs (ntohs w)) n = bit w n"
    using n by (cases "n < 8")
      (auto simp: ntohs_def bit_or_iff bit_push_bit_iff bit_drop_bit_eq bit_u16_high e)
qed

lemma ntohs_inject [simp]: "ntohs v = ntohs w \<longleftrightarrow> v = w"
  by (metis ntohs_ntohs)

lemma ntohs_0 [simp]: "ntohs 0 = 0"
  by (simp add: ntohs_def)

lemma ntohs_eq_0 [simp]: "ntohs w = 0 \<longleftrightarrow> w = 0"
  using ntohs_inject [of w 0] by (simp del: ntohs_inject)

section \<open>Addresses\<close>

text \<open>
  The generic \<open>struct sockaddr\<close> with the fields the modelled code reads, one constructor per family:
  port and address, path, or name length, name and index.  The flow information and the scope of an IPv6 address are
  left out.
\<close>

datatype sockaddr = SaIn u16 "byte list" | SaIn6 u16 "byte list" | SaUn string
  | SaDl nat string nat | SaOther int

definition AF_UNIX :: int where "AF_UNIX = 1"
definition AF_LINK :: int where "AF_LINK = 18"

fun sa_family :: "sockaddr \<Rightarrow> int" where
  "sa_family (SaIn p a) = AF_INET"
| "sa_family (SaIn6 p a) = AF_INET6"
| "sa_family (SaUn path) = AF_UNIX"
| "sa_family (SaDl n name i) = AF_LINK"
| "sa_family (SaOther f) = f"

text \<open>The addresses have their size, and the last constructor is for the remaining families.\<close>

fun sa_ok :: "sockaddr \<Rightarrow> bool" where
  "sa_ok (SaIn p a) \<longleftrightarrow> length a = 4"
| "sa_ok (SaIn6 p a) \<longleftrightarrow> length a = 16"
| "sa_ok (SaUn path) \<longleftrightarrow> True"
| "sa_ok (SaDl n name i) \<longleftrightarrow> True"
| "sa_ok (SaOther f) \<longleftrightarrow> f \<notin> {AF_INET, AF_INET6, AF_UNIX, AF_LINK}"

lemmas af_consts = AF_INET_def AF_INET6_def AF_UNIX_def AF_LINK_def

section \<open>Ports and addresses\<close>

text \<open>The port in network byte order, -1 for a family without ports.\<close>

fun sock_get_port :: "sockaddr \<Rightarrow> int" where
  "sock_get_port (SaIn p a) = uint p"
| "sock_get_port (SaIn6 p a) = uint p"
| "sock_get_port _ = -1"

fun sock_set_port :: "sockaddr \<Rightarrow> int \<Rightarrow> sockaddr" where
  "sock_set_port (SaIn p a) port = SaIn (of_int port) a"
| "sock_set_port (SaIn6 p a) port = SaIn6 (of_int port) a"
| "sock_set_port sa port = sa"

text \<open>\<open>memcpy\<close> of the size of the family's address.\<close>

fun sock_set_addr :: "sockaddr \<Rightarrow> byte list \<Rightarrow> sockaddr" where
  "sock_set_addr (SaIn p a) addr = SaIn p (take 4 addr)"
| "sock_set_addr (SaIn6 p a) addr = SaIn6 p (take 16 addr)"
| "sock_set_addr sa addr = sa"

definition in6addr_any :: "byte list" where
  "in6addr_any = replicate 16 0"

definition sock_set_wild :: "sockaddr \<Rightarrow> sockaddr" where
  "sock_set_wild sa =
     (case sa of
        SaIn p a \<Rightarrow> sock_set_addr sa (replicate 4 0)
      | SaIn6 p a \<Rightarrow> sock_set_addr sa in6addr_any
      | _ \<Rightarrow> sa)"

text \<open>
  \<open>memcmp\<close> and \<open>strcmp\<close> as the sign of the difference at the first position that differs; a
  string ends with its NUL.
\<close>

fun memcmp :: "byte list \<Rightarrow> byte list \<Rightarrow> int" where
  "memcmp (a # as) (b # bs) = (if a = b then memcmp as bs else if a < b then -1 else 1)"
| "memcmp _ _ = 0"

definition strcmp :: "string \<Rightarrow> string \<Rightarrow> int" where
  "strcmp s t = memcmp (map of_char s @ [0]) (map of_char t @ [0])"

definition sock_cmp_addr :: "sockaddr \<Rightarrow> sockaddr \<Rightarrow> int" where
  "sock_cmp_addr sa1 sa2 =
     (if sa_family sa1 \<noteq> sa_family sa2 then -1
      else case (sa1, sa2) of
          (SaIn _ a, SaIn _ b) \<Rightarrow> memcmp a b
        | (SaIn6 _ a, SaIn6 _ b) \<Rightarrow> memcmp a b
        | (SaUn p, SaUn q) \<Rightarrow> strcmp p q
        | _ \<Rightarrow> -1)"

definition sock_cmp_port :: "sockaddr \<Rightarrow> sockaddr \<Rightarrow> int" where
  "sock_cmp_port sa1 sa2 =
     (if sa_family sa1 \<noteq> sa_family sa2 then -1
      else case (sa1, sa2) of
          (SaIn p _, SaIn q _) \<Rightarrow> if p = q then 1 else 0
        | (SaIn6 p _, SaIn6 q _) \<Rightarrow> if p = q then 1 else 0
        | _ \<Rightarrow> -1)"

section \<open>Families and descriptors\<close>

definition IPPROTO_IP :: int where "IPPROTO_IP = 0"
definition IPPROTO_IPV6 :: int where "IPPROTO_IPV6 = 41"

definition family_to_level :: "int \<Rightarrow> int" where
  "family_to_level family =
     (if family = AF_INET then IPPROTO_IP else if family = AF_INET6 then IPPROTO_IPV6 else -1)"

definition Family_to_level :: "int \<Rightarrow> int run" where
  "Family_to_level family =
     (let rc = family_to_level family in if rc < 0 then Fatal ''family_to_level error'' else Ret rc)"

text \<open>\<open>gsn\<close>: what \<open>getsockname\<close> stores, \<open>None\<close> when it fails.\<close>

definition sockfd_to_family :: "sockaddr option \<Rightarrow> int" where
  "sockfd_to_family gsn = (case gsn of None \<Rightarrow> -1 | Some ss \<Rightarrow> sa_family ss)"

definition Sockfd_to_family :: "sockaddr option \<Rightarrow> int run" where
  "Sockfd_to_family gsn =
     (let rc = sockfd_to_family gsn in if rc < 0 then Fatal ''sockfd_to_family error'' else Ret rc)"

text \<open>
  \<open>bind_ok\<close> tells whether \<open>bind\<close> succeeds on an address, \<open>gsn\<close> is the port field
  \<open>getsockname\<close> stores after it.
\<close>

definition sock_bind_wild :: "(sockaddr \<Rightarrow> bool) \<Rightarrow> u16 option \<Rightarrow> int \<Rightarrow> int" where
  "sock_bind_wild bind_ok gsn family =
     (let bound = (\<lambda>sa. if \<not> bind_ok sa then -1 else case gsn of None \<Rightarrow> -1 | Some p \<Rightarrow> uint p)
      in if family = AF_INET then bound (SaIn (htons 0) [0, 0, 0, 0])
         else if family = AF_INET6 then bound (SaIn6 (htons 0) in6addr_any)
         else -1)"

definition Sock_bind_wild :: "(sockaddr \<Rightarrow> bool) \<Rightarrow> u16 option \<Rightarrow> int \<Rightarrow> int run" where
  "Sock_bind_wild bind_ok gsn family =
     (let port = sock_bind_wild bind_ok gsn family
      in if port < 0 then Fatal ''sock_bind_wild error'' else Ret port)"

section \<open>Presentation\<close>

text \<open>\<open>"%d"\<close>, and \<open>"%*s"\<close>: the string, padded on the left to at least \<open>n\<close> characters.\<close>

definition fmt_d :: "int \<Rightarrow> string" where
  "fmt_d i = (if i < 0 then ''-'' @ fmt_u (nat (- i)) else fmt_u (nat i))"

definition fmt_pad :: "nat \<Rightarrow> string \<Rightarrow> string" where
  "fmt_pad n s = replicate (n - length s) (CHR '' '') @ s"

definition STRSZ :: nat where "STRSZ = 128"
definition PORTSZ :: nat where "PORTSZ = 8"

definition un_text :: "string \<Rightarrow> string" where
  "un_text path = (if path = [] then ''(no pathname bound)'' else snprintf_cut STRSZ path)"

definition unknown_text :: "string \<Rightarrow> sockaddr \<Rightarrow> nat \<Rightarrow> string" where
  "unknown_text who sa salen =
     snprintf_cut STRSZ (who @ '': unknown AF_xxx: '' @ fmt_d (sa_family sa) @ '', len '' @ fmt_u salen)"

text \<open>\<open>None\<close> is \<open>NULL\<close>.  The port, in a buffer of its own, is appended with \<open>strcat\<close>.\<close>

definition sock_ntop :: "sockaddr \<Rightarrow> nat \<Rightarrow> string option" where
  "sock_ntop sa salen =
     (case sa of
        SaIn p a \<Rightarrow>
          (case inet_ntop AF_INET a STRSZ of
             Inl e \<Rightarrow> None
           | Inr str \<Rightarrow>
               Some (if ntohs p \<noteq> 0 then str @ snprintf_cut PORTSZ ('':'' @ fmt_u (unat (ntohs p))) else str))
      | SaIn6 p a \<Rightarrow>
          (case inet_ntop AF_INET6 a (STRSZ - 1) of
             Inl e \<Rightarrow> None
           | Inr str \<Rightarrow>
               Some (if ntohs p \<noteq> 0 then ''['' @ str @ snprintf_cut PORTSZ ('']:'' @ fmt_u (unat (ntohs p)))
                     else str))
      | SaUn path \<Rightarrow> Some (un_text path)
      | SaDl n name i \<Rightarrow>
          Some (if n > 0 then snprintf_cut STRSZ (fmt_pad n name @ '' (index '' @ fmt_u i @ '')'')
                else snprintf_cut STRSZ (''AF_LINK, index='' @ fmt_u i))
      | SaOther f \<Rightarrow> Some (unknown_text ''sock_ntop'' sa salen))"

definition Sock_ntop :: "sockaddr \<Rightarrow> nat \<Rightarrow> string run" where
  "Sock_ntop sa salen =
     (case sock_ntop sa salen of None \<Rightarrow> Fatal ''sock_ntop error'' | Some s \<Rightarrow> Ret s)"

definition sock_ntop_host :: "sockaddr \<Rightarrow> nat \<Rightarrow> string option" where
  "sock_ntop_host sa salen =
     (case sa of
        SaIn p a \<Rightarrow>
          (case inet_ntop AF_INET a STRSZ of Inl e \<Rightarrow> None | Inr str \<Rightarrow> Some str)
      | SaIn6 p a \<Rightarrow>
          (case inet_ntop AF_INET6 a STRSZ of Inl e \<Rightarrow> None | Inr str \<Rightarrow> Some str)
      | SaUn path \<Rightarrow> Some (un_text path)
      | SaDl n name i \<Rightarrow>
          Some (if n > 0 then snprintf_cut STRSZ (fmt_pad n name)
                else snprintf_cut STRSZ (''AF_LINK, index='' @ fmt_u i))
      | SaOther f \<Rightarrow> Some (unknown_text ''sock_ntop_host'' sa salen))"

definition Sock_ntop_host :: "sockaddr \<Rightarrow> nat \<Rightarrow> string run" where
  "Sock_ntop_host sa salen =
     (case sock_ntop_host sa salen of None \<Rightarrow> Fatal ''sock_ntop_host error'' | Some s \<Rightarrow> Ret s)"

section \<open>Comparing and setting\<close>

lemma memcmp_0: "length as = length bs \<Longrightarrow> memcmp as bs = 0 \<longleftrightarrow> as = bs"
  by (induction as bs rule: memcmp.induct) auto

lemma sa_family_cases:
  assumes "sa_ok sa"
  shows "(sa_family sa = AF_INET \<longleftrightarrow> (\<exists>p a. sa = SaIn p a)) \<and> (sa_family sa = AF_INET6 \<longleftrightarrow> (\<exists>p a. sa = SaIn6 p a))"
  using assms by (cases sa) (auto simp: af_consts)

text \<open>An Internet socket address is determined by its family, its address and its port.\<close>

definition inet_sa :: "sockaddr \<Rightarrow> bool" where
  "inet_sa sa \<longleftrightarrow> sa_ok sa \<and> sa_family sa \<in> {AF_INET, AF_INET6}"

lemma inet_sa_cases:
  assumes "inet_sa sa"
  obtains p a where "sa = SaIn p a" "length a = 4" | p a where "sa = SaIn6 p a" "length a = 16"
  using assms by (cases sa) (auto simp: inet_sa_def af_consts)

lemma sock_cmp_eq:
  assumes "inet_sa sa1" and "inet_sa sa2"
  shows "sock_cmp_addr sa1 sa2 = 0 \<and> sock_cmp_port sa1 sa2 = 1 \<longleftrightarrow> sa1 = sa2"
  by (rule inet_sa_cases [OF assms(1)]; rule inet_sa_cases [OF assms(2)])
    (auto simp: sock_cmp_addr_def sock_cmp_port_def memcmp_0 af_consts)

section \<open>The text of an address\<close>

definition plain :: "string \<Rightarrow> bool" where
  "plain s \<longleftrightarrow> (\<forall>c \<in> set s. c \<notin> {CHR ''['', CHR '']'', CHR '':''})"

definition no_brackets :: "string \<Rightarrow> bool" where
  "no_brackets s \<longleftrightarrow> (\<forall>c \<in> set s. c \<notin> {CHR ''['', CHR '']''})"

lemma plain_simps [simp]: "plain (s @ t) \<longleftrightarrow> plain s \<and> plain t" "plain []" "plain ''.''"
  by (auto simp: plain_def)

lemma no_brackets_simps [simp]:
  "no_brackets (s @ t) \<longleftrightarrow> no_brackets s \<and> no_brackets t" "no_brackets []"
  "no_brackets (c # s) \<longleftrightarrow> c \<notin> {CHR ''['', CHR '']''} \<and> no_brackets s"
  by (auto simp: no_brackets_def)

lemma plain_no_brackets: "plain s \<Longrightarrow> no_brackets s"
  by (auto simp: plain_def no_brackets_def)

lemma digit_chars: "d < 10 \<Longrightarrow> dec_digits ! d \<notin> {CHR ''['', CHR '']'', CHR '':''}"
  using less_10_cases [of d] by (auto simp: dec_digits_def)

lemma xdigit_chars: "d < 16 \<Longrightarrow> xdigits_l ! d \<notin> {CHR ''['', CHR '']'', CHR '':''}"
  using less_16_cases [of d] by (auto simp: xdigits_l_def)

lemma digits_in:
  assumes "2 \<le> b" and "\<And>d. d < b \<Longrightarrow> tab ! d \<notin> X"
  shows "\<forall>c \<in> set (map ((!) tab) (digits_of b n)). c \<notin> X"
  using digits_of_less [OF assms(1), of _ n] assms(2) by fastforce

lemma fmt_u_plain [simp]: "plain (fmt_u n)"
  unfolding plain_def fmt_u_def dec_text_def by (rule digits_in) (simp, erule digit_chars)

lemma fmt_x_plain [simp]: "plain (fmt_x n)"
  unfolding plain_def fmt_x_def hex_text_def by (rule digits_in) (simp, erule xdigit_chars)

lemma plain_dot [simp]: "plain (CHR ''.'' # s) \<longleftrightarrow> plain s"
  by (simp add: plain_def)

lemma dotted_plain [simp]: "plain (dotted a)"
  by (simp add: dotted_def)

lemma hexc_no_brackets [simp]: "no_brackets (hexc ws)"
  by (induction ws) (simp_all add: plain_no_brackets)

lemma hex_join_no_brackets [simp]: "no_brackets (hex_join ws)"
  by (simp add: hex_join_def plain_no_brackets)

lemma ntop6_text_no_brackets [simp]: "no_brackets (ntop6_text a)"
  by (simp add: ntop6_text_def Let_def plain_no_brackets split: option.splits)

text \<open>What is printed, with the buffers large enough for every address and port.\<close>

definition port_text :: "u16 \<Rightarrow> string" where
  "port_text p = fmt_u (unat (ntohs p))"

lemma port_text_length: "length (port_text p) \<le> 5"
proof -
  have "unat (ntohs p) < 2 ^ LENGTH(16)" by (rule unsigned_less)
  then have "unat (ntohs p) < 10 ^ Suc 4" by simp
  then show ?thesis unfolding port_text_def using fmt_u_length by fastforce
qed

lemma fmt_u_inject:
  assumes "fmt_u m = fmt_u n"
  shows "m = n"
proof -
  have "inj_on ((!) dec_digits) {..<10}"
  proof (rule inj_onI)
    fix i j :: nat
    assume i: "i \<in> {..<10}" and j: "j \<in> {..<10}" and e: "dec_digits ! i = dec_digits ! j"
    have "strchr dec_digits (dec_digits ! i) = Some i" using i by simp
    moreover have "strchr dec_digits (dec_digits ! j) = Some j" using j by simp
    ultimately
    show "i = j" unfolding e by simp
  qed
  moreover have "set (digits_of 10 k) \<subseteq> {..<10}" for k using digits_of_less [of 10 _ k] by (simp add: subset_iff)
  moreover have "map ((!) dec_digits) (digits_of 10 m) = map ((!) dec_digits) (digits_of 10 n)"
    using assms by (simp add: fmt_u_def dec_text_def)
  ultimately have "digits_of 10 m = digits_of 10 n"
    by (intro map_inj_on [of "(!) dec_digits"]) (auto elim!: inj_on_subset)
  then have "digits_val 10 0 (digits_of 10 m) = digits_val 10 0 (digits_of 10 n)" by simp
  then show ?thesis by (simp only: digits_of_val)
qed

lemma port_text_inject: "port_text p = port_text q \<Longrightarrow> p = q"
  unfolding port_text_def by (drule fmt_u_inject, drule unsigned_word_eqI) simp

lemma sock_ntop_v4:
  assumes "length a = 4"
  shows "sock_ntop (SaIn p a) n = Some (dotted a @ (if p = 0 then [] else CHR '':'' # port_text p))"
  using dotted_length [of a] port_text_length [of p]
  by (simp add: sock_ntop_def inet_ntop_def inet_ntop4_def Let_def STRSZ_def PORTSZ_def snprintf_cut_def
      af_consts flip: port_text_def)

lemma sock_ntop_v6:
  assumes "length a = 16"
  shows "sock_ntop (SaIn6 p a) n =
    Some (if p = 0 then ntop6_text a else CHR ''['' # ntop6_text a @ CHR '']'' # CHR '':'' # port_text p)"
  using ntop6_text_length [of a] port_text_length [of p] inet_ntop6_eq [OF assms]
  by (simp add: sock_ntop_def inet_ntop_def Let_def STRSZ_def PORTSZ_def snprintf_cut_def
      af_consts INET6_ADDRSTRLEN_def flip: port_text_def)

lemma takeWhile_plain: "plain s \<Longrightarrow> takeWhile (\<lambda>c. c \<noteq> CHR '':'') (s @ CHR '':'' # t) = s"
  unfolding plain_def by (subst takeWhile_append2) auto

lemma takeWhile_no_brackets: "no_brackets s \<Longrightarrow> takeWhile (\<lambda>c. c \<noteq> CHR '']'') (s @ CHR '']'' # t) = s"
  unfolding no_brackets_def by (subst takeWhile_append2) auto

lemma takeWhile_plain_all: "plain s \<Longrightarrow> takeWhile (\<lambda>c. c \<noteq> CHR '':'') s = s"
  unfolding plain_def by (simp add: takeWhile_eq_all_conv)

lemma dotted_inject: "length a = 4 \<Longrightarrow> length b = 4 \<Longrightarrow> dotted a = dotted b \<longleftrightarrow> a = b"
  by (metis dotted_pton4 option.inject)

lemma ntop6_text_inject: "length a = 16 \<Longrightarrow> length b = 16 \<Longrightarrow> ntop6_text a = ntop6_text b \<longleftrightarrow> a = b"
  by (metis inet6_text_parses option.inject)

lemma ntop6_text_bracket: "ntop6_text a \<noteq> CHR ''['' # s"
proof
  assume "ntop6_text a = CHR ''['' # s"
  with ntop6_text_no_brackets [of a] show False unfolding no_brackets_def by simp
qed

lemma v4_text_host:
  "takeWhile (\<lambda>c. c \<noteq> CHR '':'') (dotted a @ (if p = 0 then [] else CHR '':'' # port_text p)) = dotted a"
  by (simp add: takeWhile_plain takeWhile_plain_all)

lemma v4_text_inject:
  assumes "length a = 4" and "length b = 4"
    and "dotted a @ (if p = 0 then [] else CHR '':'' # port_text p) =
      dotted b @ (if q = 0 then [] else CHR '':'' # port_text q)"
  shows "p = q \<and> a = b"
proof -
  have "dotted a = dotted b" using v4_text_host [of a p] v4_text_host [of b q] unfolding assms(3) by (rule trans [OF sym])
  then have "a = b" using dotted_inject [OF assms(1,2)] by blast
  with assms(3) show ?thesis by (auto split: if_splits dest: port_text_inject)
qed

lemma v6_text_host:
  "takeWhile (\<lambda>c. c \<noteq> CHR '']'') (ntop6_text a @ CHR '']'' # CHR '':'' # port_text p) = ntop6_text a"
  by (rule takeWhile_no_brackets [OF ntop6_text_no_brackets])

lemma v6_text_inject:
  assumes "length a = 16" and "length b = 16"
    and "ntop6_text a @ CHR '']'' # CHR '':'' # port_text p = ntop6_text b @ CHR '']'' # CHR '':'' # port_text q"
  shows "p = q \<and> a = b"
proof -
  have "ntop6_text a = ntop6_text b"
    using v6_text_host [of a p] v6_text_host [of b q] unfolding assms(3) by (rule trans [OF sym])
  then have "a = b" using ntop6_text_inject [OF assms(1,2)] by blast
  with assms(3) show ?thesis by (auto dest: port_text_inject)
qed

lemma sock_ntop_fits:
  assumes "inet_sa sa"
  shows "\<exists>s. sock_ntop sa n = Some s \<and> length s < STRSZ"
proof (rule inet_sa_cases [OF assms])
  fix p a assume a: "sa = SaIn p a" "length a = 4"
  show ?thesis using dotted_length [of a] port_text_length [of p]
    unfolding a(1) sock_ntop_v4 [OF a(2)] by (auto simp: STRSZ_def)
next
  fix p a assume a: "sa = SaIn6 p a" "length a = 16"
  show ?thesis using ntop6_text_length [of a] port_text_length [of p]
    unfolding a(1) sock_ntop_v6 [OF a(2)] by (auto simp: STRSZ_def INET6_ADDRSTRLEN_def)
qed

lemma sock_ntop_inject4:
  assumes "length a = 4" and "length b = 4" and "sock_ntop (SaIn p a) n = sock_ntop (SaIn q b) m"
  shows "p = q \<and> a = b"
  using assms(3) unfolding sock_ntop_v4 [OF assms(1)] sock_ntop_v4 [OF assms(2)] option.inject
  by (rule v4_text_inject [OF assms(1,2)])

lemma sock_ntop_inject6:
  assumes "length a = 16" and "length b = 16" and "sock_ntop (SaIn6 p a) n = sock_ntop (SaIn6 q b) m"
  shows "p = q \<and> a = b"
  using assms(3) ntop6_text_bracket [of a] ntop6_text_bracket [of b] v6_text_inject [OF assms(1,2), of p q]
  unfolding sock_ntop_v6 [OF assms(1)] sock_ntop_v6 [OF assms(2)]
  by (cases "p = 0"; cases "q = 0") (auto simp: ntop6_text_inject assms(1,2) dest: sym)

lemma sock_ntop_inject:
  assumes "inet_sa sa1" and "inet_sa sa2" and "sa_family sa1 = sa_family sa2" and "sock_ntop sa1 n = sock_ntop sa2 m"
  shows "sa1 = sa2"
proof (rule inet_sa_cases [OF assms(1)]; rule inet_sa_cases [OF assms(2)])
qed (use assms(3,4) sock_ntop_inject4 sock_ntop_inject6 in \<open>auto simp: af_consts\<close>)

section \<open>Properties\<close>

text \<open>
  C39: \<open>sock_ntop\<close> never fails on an IPv4 or IPv6 socket address, its text fits the 128-byte
  buffer, and it loses nothing: two addresses of a family with the same text have the same
  address and the same port.
\<close>
theorem sock_ntop_faithful:
  assumes "inet_sa sa1" and "inet_sa sa2" and "sa_family sa1 = sa_family sa2"
  shows "(\<exists>s. sock_ntop sa1 n = Some s \<and> length s < STRSZ) \<and> (sock_ntop sa1 n = sock_ntop sa2 n \<longleftrightarrow> sa1 = sa2)"
  using sock_ntop_fits [OF assms(1)] sock_ntop_inject [OF assms] by blast

theorem sock_ntop_faithful_witness:
  "sock_ntop (SaIn (htons 80) [10, 0, 0, 1]) 16 \<noteq> sock_ntop (SaIn (htons 8080) [10, 0, 0, 1]) 16"
proof -
  have i: "inet_sa (SaIn p [10, 0, 0, 1])" for p by (simp add: inet_sa_def)
  show ?thesis using sock_ntop_faithful [OF i i, of "htons 80" "htons 8080" 16] by (simp add: htons_def)
qed

end
