(* ===== verification/Packet.thy ===== *)
theory Packet
  imports Sockaddr
begin

text \<open>
  Received packets as the programs of \<open>icmpd/\<close>, \<open>traceroute/\<close> and \<open>ping/\<close> read them: a datagram
  lands at the start of a larger buffer, which keeps its old bytes behind it, and the headers are
  read at offsets from the buffer.
\<close>

section \<open>Buffers\<close>

text \<open>\<open>recvfrom(fd, buf, sizeof buf)\<close> stores at most the size of the buffer.\<close>

definition store :: "byte list \<Rightarrow> byte list \<Rightarrow> byte list" where
  "store buf bs = take (length buf) bs @ drop (length bs) buf"

definition stored :: "byte list \<Rightarrow> byte list \<Rightarrow> nat" where
  "stored buf bs = min (length buf) (length bs)"

definition byte_at :: "byte list \<Rightarrow> nat \<Rightarrow> byte" where
  "byte_at buf i = (if i < length buf then buf ! i else 0)"

definition u8_at :: "byte list \<Rightarrow> nat \<Rightarrow> nat" where
  "u8_at buf i = unat (byte_at buf i)"

text \<open>A 16-bit field, as the little-endian CPU reads it.\<close>

definition u16_at :: "byte list \<Rightarrow> nat \<Rightarrow> u16" where
  "u16_at buf i = ucast (byte_at buf i) OR push_bit 8 (ucast (byte_at buf (i + 1)))"

lemma store_length [simp]: "length (store buf bs) = length buf"
  by (simp add: store_def)

lemma byte_at_store: "i < stored buf bs \<Longrightarrow> byte_at (store buf bs) i = bs ! i"
  by (auto simp: byte_at_def store_def stored_def nth_append)

lemma byte_at_mid: "byte_at (xs @ ys @ zs) (length xs + k) = (if k < length ys then byte_at ys k else byte_at zs (k - length ys))"
  by (auto simp: byte_at_def nth_append)

text \<open>Two buffers with the same first \<open>n\<close> bytes.\<close>

definition same_upto :: "nat \<Rightarrow> byte list \<Rightarrow> byte list \<Rightarrow> bool" where
  "same_upto n b1 b2 \<longleftrightarrow> (\<forall>i < n. byte_at b1 i = byte_at b2 i)"

lemma same_upto_u8: "same_upto n b1 b2 \<Longrightarrow> i < n \<Longrightarrow> u8_at b1 i = u8_at b2 i"
  by (simp add: same_upto_def u8_at_def)

lemma same_upto_u16: "same_upto n b1 b2 \<Longrightarrow> i + 1 < n \<Longrightarrow> u16_at b1 i = u16_at b2 i"
  by (simp add: same_upto_def u16_at_def)

lemma same_upto_sym: "same_upto n b1 b2 \<Longrightarrow> same_upto n b2 b1"
  by (simp add: same_upto_def)

lemma same_upto_store:
  "length bs \<le> length buf \<Longrightarrow> same_upto (length bs) (store buf bs) bs"
  by (auto simp: same_upto_def byte_at_def store_def nth_append)

lemma u8_at_less: "u8_at buf i < 256"
  by (simp add: u8_at_def unat_byte_less)

section \<open>Headers\<close>

text \<open>Offsets of the fields of \<open>struct ip\<close>, \<open>struct icmp\<close>, \<open>struct udphdr\<close>, \<open>struct ip6_hdr\<close>.\<close>

definition ip_hl :: "byte list \<Rightarrow> nat \<Rightarrow> nat" where
  "ip_hl buf p = u8_at buf p mod 16"

definition ip_p :: "byte list \<Rightarrow> nat \<Rightarrow> nat" where
  "ip_p buf p = u8_at buf (p + 9)"

definition ip_dst :: "byte list \<Rightarrow> nat \<Rightarrow> byte list" where
  "ip_dst buf p = map (byte_at buf) [p + 16 ..< p + 20]"

definition icmp_type :: "byte list \<Rightarrow> nat \<Rightarrow> nat" where
  "icmp_type buf p = u8_at buf p"

definition icmp_code :: "byte list \<Rightarrow> nat \<Rightarrow> nat" where
  "icmp_code buf p = u8_at buf (p + 1)"

definition uh_sport :: "byte list \<Rightarrow> nat \<Rightarrow> u16" where
  "uh_sport buf p = u16_at buf p"

definition uh_dport :: "byte list \<Rightarrow> nat \<Rightarrow> u16" where
  "uh_dport buf p = u16_at buf (p + 2)"

definition ip6_nxt :: "byte list \<Rightarrow> nat \<Rightarrow> nat" where
  "ip6_nxt buf p = u8_at buf (p + 6)"

definition ip6_dst :: "byte list \<Rightarrow> nat \<Rightarrow> byte list" where
  "ip6_dst buf p = map (byte_at buf) [p + 24 ..< p + 40]"

lemmas header_defs = ip_hl_def ip_p_def icmp_type_def icmp_code_def uh_sport_def uh_dport_def ip6_nxt_def

lemma ip_hl_le: "4 * ip_hl buf p \<le> 60"
  using mod_less_divisor [of 16 "u8_at buf p"] by (simp add: ip_hl_def)

definition IPPROTO_UDP :: nat where "IPPROTO_UDP = 17"
definition ICMP_UNREACH :: nat where "ICMP_UNREACH = 3"
definition ICMP_SOURCEQUENCH :: nat where "ICMP_SOURCEQUENCH = 4"
definition ICMP_TIMXCEED :: nat where "ICMP_TIMXCEED = 11"
definition ICMP_TIMXCEED_INTRANS :: nat where "ICMP_TIMXCEED_INTRANS = 0"
definition ICMP_UNREACH_PORT :: nat where "ICMP_UNREACH_PORT = 3"
definition ICMP_UNREACH_NEEDFRAG :: nat where "ICMP_UNREACH_NEEDFRAG = 4"
definition ICMP6_DST_UNREACH :: nat where "ICMP6_DST_UNREACH = 1"
definition ICMP6_PACKET_TOO_BIG :: nat where "ICMP6_PACKET_TOO_BIG = 2"
definition ICMP6_TIME_EXCEEDED :: nat where "ICMP6_TIME_EXCEEDED = 3"
definition ICMP6_TIME_EXCEED_TRANSIT :: nat where "ICMP6_TIME_EXCEED_TRANSIT = 0"
definition ICMP6_DST_UNREACH_NOPORT :: nat where "ICMP6_DST_UNREACH_NOPORT = 4"

lemmas icmp_consts = IPPROTO_UDP_def ICMP_UNREACH_def ICMP_SOURCEQUENCH_def ICMP_TIMXCEED_def
  ICMP_TIMXCEED_INTRANS_def ICMP_UNREACH_PORT_def ICMP_UNREACH_NEEDFRAG_def ICMP6_DST_UNREACH_def
  ICMP6_PACKET_TOO_BIG_def ICMP6_TIME_EXCEEDED_def ICMP6_TIME_EXCEED_TRANSIT_def ICMP6_DST_UNREACH_NOPORT_def

end
