(* ===== verification/Traceroute.thy ===== *)
theory Traceroute
  imports Packet Timeval
begin

text \<open>
  \<open>traceroute/\<close>: UDP probes with a growing TTL, and the ICMP messages that quote them
  (\<open>traceloop.c\<close>, \<open>recv_v4.c\<close>, \<open>recv_v6.c\<close>, \<open>icmpcode_v4.c\<close>, \<open>icmpcode_v6.c\<close>, \<open>sig_alrm.c\<close>).
\<close>

section \<open>State and events\<close>

definition BUFSIZE :: nat where "BUFSIZE = 1500"

text \<open>What interrupts or ends a \<open>recvfrom\<close>: SIGALRM, an error, a datagram with its source.\<close>

datatype tr_event = TrAlarm | TrErr errno | TrDgram sockaddr "byte list"

text \<open>
  The globals: the receive buffer, the flag of the signal handler, the source of the last
  datagram and of the last one printed, and the time the last answer came; \<open>tclock\<close> counts the calls of \<open>gettimeofday\<close> and
  \<open>probes\<close> records the TTL, destination and sequence number of each datagram sent.
\<close>

record trace =
  recvbuf :: "byte list"
  gotalarm :: bool
  sarecv :: sockaddr
  salast :: sockaddr
  tvrecv :: timeval
  tclock :: nat
  probes :: "(nat \<times> sockaddr \<times> nat) list"

text \<open>
  The command line and the surroundings: \<open>uninit\<close> is the value of an uninitialised variable,
  \<open>now\<close> the clock by number of call, \<open>send_ok\<close> whether the datagram with a number is sent.
\<close>

record trace_cfg =
  is_v6 :: bool
  sasend :: sockaddr
  tr_pid :: nat
  tr_dport :: nat
  max_ttl :: nat
  nprobes :: nat
  uninit :: int
  now :: "nat \<Rightarrow> timeval"
  send_ok :: "nat \<Rightarrow> bool"

definition tr_sport :: "trace_cfg \<Rightarrow> nat" where
  "tr_sport c = (tr_pid c AND 0xffff) OR 0x8000"

section \<open>Receiving\<close>

text \<open>The UDP header at \<open>udp\<close> is that of probe \<open>seq\<close>.\<close>

definition our_ports :: "trace_cfg \<Rightarrow> nat \<Rightarrow> byte list \<Rightarrow> nat \<Rightarrow> bool" where
  "our_ports c seq buf udp \<longleftrightarrow>
     uh_sport buf udp = htons (int (tr_sport c)) \<and> uh_dport buf udp = htons (int (tr_dport c + seq))"

text \<open>
  The body of the loop of \<open>recv_v4\<close> on a datagram of \<open>n\<close> bytes in the buffer: the value it
  leaves the loop with, \<open>None\<close> to go on.  \<open>icmplen\<close> is an \<open>int\<close> and may be negative.
\<close>

definition answer_v4 :: "trace_cfg \<Rightarrow> nat \<Rightarrow> nat \<Rightarrow> byte list \<Rightarrow> int option" where
  "answer_v4 c seq n buf =
     (let hlen1 = 4 * ip_hl buf 0; icmplen = int n - int hlen1; typ = icmp_type buf hlen1; code = icmp_code buf hlen1
      in if icmplen < 8 then None
         else if typ = ICMP_TIMXCEED \<and> code = ICMP_TIMXCEED_INTRANS then
           (if icmplen < 8 + 20 then None
            else let hip = hlen1 + 8; hlen2 = 4 * ip_hl buf hip
              in if icmplen < 8 + int hlen2 + 4 then None
                 else if ip_p buf hip = IPPROTO_UDP \<and> our_ports c seq buf (hlen1 + 8 + hlen2) then Some (-2)
                 else None)
         else if typ = ICMP_UNREACH then
           (if icmplen < 8 + 20 then None
            else let hip = hlen1 + 8; hlen2 = 4 * ip_hl buf hip
              in if icmplen < 8 + int hlen2 + 4 then None
                 else if ip_p buf hip = IPPROTO_UDP \<and> our_ports c seq buf (hlen1 + 8 + hlen2)
                   then Some (if code = ICMP_UNREACH_PORT then -1 else int code)
                 else None)
         else None)"

text \<open>
  \<open>recv_v6\<close>: after \<open>ICMP6_TIME_EXCEEDED\<close> the \<open>break\<close> is outside the \<open>if\<close>, so that the loop ends
  with \<open>ret\<close> unassigned when the message does not quote the probe.
\<close>

definition answer_v6 :: "trace_cfg \<Rightarrow> nat \<Rightarrow> nat \<Rightarrow> byte list \<Rightarrow> int option" where
  "answer_v6 c seq n buf =
     (let typ = icmp_type buf 0; code = icmp_code buf 0; hip6 = 8; hlen2 = 40
      in if n < 8 then None
         else if typ = ICMP6_TIME_EXCEEDED \<and> code = ICMP6_TIME_EXCEED_TRANSIT then
           (if n < 8 + 40 + 4 then None
            else Some (if ip6_nxt buf hip6 = IPPROTO_UDP \<and> our_ports c seq buf (8 + hlen2) then -2 else uninit c))
         else if typ = ICMP6_DST_UNREACH then
           (if n < 8 + 40 + 4 then None
            else if ip6_nxt buf hip6 = IPPROTO_UDP \<and> our_ports c seq buf (8 + hlen2)
              then Some (if code = ICMP6_DST_UNREACH_NOPORT then -1 else int code)
            else None)
         else None)"

text \<open>
  The loop, the same in both functions.  Each turn tests the flag first.  The last step stops the
  alarm and reads the clock.
\<close>

fun recv_loop ::
  "trace_cfg \<Rightarrow> (nat \<Rightarrow> byte list \<Rightarrow> int option) \<Rightarrow> tr_event list \<Rightarrow> trace \<Rightarrow> (int \<times> tr_event list \<times> trace) run" where
  "recv_loop c answer [] t = (if gotalarm t then Ret (-3, [], t) else Blocked)"
| "recv_loop c answer (ev # es) t =
     (if gotalarm t then Ret (-3, ev # es, t)
      else case ev of
          TrAlarm \<Rightarrow> recv_loop c answer es (t\<lparr>gotalarm := True\<rparr>)
        | TrErr e \<Rightarrow> if e = EINTR then recv_loop c answer es t else Fatal ''recvfrom error''
        | TrDgram src bs \<Rightarrow>
            (let t1 = t\<lparr>recvbuf := store (recvbuf t) bs, sarecv := src\<rparr>
             in case answer (stored (recvbuf t) bs) (recvbuf t1) of
                  None \<Rightarrow> recv_loop c answer es t1
                | Some ret \<Rightarrow> Ret (ret, es, t1\<lparr>tvrecv := now c (tclock t1), tclock := tclock t1 + 1\<rparr>)))"

definition recv_v4 :: "trace_cfg \<Rightarrow> nat \<Rightarrow> tr_event list \<Rightarrow> trace \<Rightarrow> (int \<times> tr_event list \<times> trace) run" where
  "recv_v4 c seq es t = recv_loop c (answer_v4 c seq) es (t\<lparr>gotalarm := False\<rparr>)"

definition recv_v6 :: "trace_cfg \<Rightarrow> nat \<Rightarrow> tr_event list \<Rightarrow> trace \<Rightarrow> (int \<times> tr_event list \<times> trace) run" where
  "recv_v6 c seq es t = recv_loop c (answer_v6 c seq) es (t\<lparr>gotalarm := False\<rparr>)"

text \<open>The handler; \<open>traceloop\<close> also calls it once itself.\<close>

definition sig_alrm :: "trace \<Rightarrow> trace" where
  "sig_alrm t = t\<lparr>gotalarm := True\<rparr>"

section \<open>The texts of the codes\<close>

definition icmpcode_v4 :: "int \<Rightarrow> string" where
  "icmpcode_v4 code =
     (let names = [''network unreachable'', ''host unreachable'', ''protocol unreachable'',
        ''port unreachable'', ''fragmentation required but DF bit set'', ''source route failed'',
        ''destination network unknown'', ''destination host unknown'', ''source host isolated (obsolete)'',
        ''destination network administratively prohibited'', ''destination host administratively prohibited'',
        ''network unreachable for TOS'', ''host unreachable for TOS'',
        ''communication administratively prohibited by filtering'', ''host recedence violation'',
        ''precedence cutoff in effect'']
      in if 0 \<le> code \<and> code \<le> 15 then names ! nat code else ''[unknown code '' @ fmt_d code @ '']'')"

definition icmpcode_v6 :: "int \<Rightarrow> string" where
  "icmpcode_v6 code =
     (if code = 0 then ''no route to host'' else if code = 1 then ''administratively prohibited''
      else if code = 2 then ''not a neighbor'' else if code = 3 then ''address unreachable''
      else if code = 4 then ''port unreachable'' else ''[unknown code '' @ fmt_d code @ '']'')"

section \<open>The probes\<close>

text \<open>What is printed for a probe: the address when it is a new one, the time and the code.\<close>

datatype reply = Star | Reply "sockaddr option" timeval int

definition reply_note :: "trace_cfg \<Rightarrow> int \<Rightarrow> string option" where
  "reply_note c code =
     (if code = -1 then None
      else if code \<ge> 0 then Some (if is_v6 c then icmpcode_v6 code else icmpcode_v4 code)
      else None)"

definition probe_dest :: "trace_cfg \<Rightarrow> nat \<Rightarrow> sockaddr" where
  "probe_dest c seq = sock_set_port (sasend c) (uint (htons (int (tr_dport c + seq))))"

definition tr_probe ::
  "trace_cfg \<Rightarrow> nat \<Rightarrow> nat \<Rightarrow> tr_event list \<Rightarrow> trace \<Rightarrow> (reply \<times> tr_event list \<times> trace) run" where
  "tr_probe c ttl seq es t =
     (let sent = now c (tclock t);
          t1 = t\<lparr>tclock := tclock t + 1, probes := probes t @ [(ttl, probe_dest c seq, seq)]\<rparr>
      in if \<not> send_ok c seq then Fatal ''sendto error''
         else run_bind ((if is_v6 c then recv_v6 else recv_v4) c seq es t1) (\<lambda>(code, es', t2).
           if code = -3 then Ret (Star, es', t2)
           else let fresh = (sock_cmp_addr (sarecv t2) (salast t2) \<noteq> 0)
             in Ret (Reply (if fresh then Some (sarecv t2) else None) (tv_sub (tvrecv t2) sent) code, es',
                  if fresh then t2\<lparr>salast := sarecv t2\<rparr> else t2)))"

definition arrival :: "reply \<Rightarrow> bool" where
  "arrival r = (case r of Star \<Rightarrow> False | Reply a v code \<Rightarrow> code = -1)"

text \<open>The probes of one TTL; \<open>fin\<close> is the variable \<open>done\<close>.\<close>

fun tr_row ::
  "trace_cfg \<Rightarrow> nat \<Rightarrow> nat \<Rightarrow> nat \<Rightarrow> nat \<Rightarrow> tr_event list \<Rightarrow> trace \<Rightarrow>
    (reply list \<times> nat \<times> nat \<times> tr_event list \<times> trace) run" where
  "tr_row c ttl 0 seq fin es t = Ret ([], seq, fin, es, t)"
| "tr_row c ttl (Suc m) seq fin es t =
     run_bind (tr_probe c ttl (seq + 1) es t) (\<lambda>(r, es', t').
       run_bind (tr_row c ttl m (seq + 1) (if arrival r then fin + 1 else fin) es' t') (\<lambda>(rs, k).
         Ret (r # rs, k)))"

text \<open>The outer loop, with \<open>m\<close> values of the TTL left.\<close>

fun tr_rows ::
  "trace_cfg \<Rightarrow> nat \<Rightarrow> nat \<Rightarrow> nat \<Rightarrow> nat \<Rightarrow> tr_event list \<Rightarrow> trace \<Rightarrow>
    (reply list list \<times> tr_event list \<times> trace) run" where
  "tr_rows c ttl 0 seq fin es t = Ret ([], es, t)"
| "tr_rows c ttl (Suc m) seq fin es t =
     (if fin \<noteq> 0 then Ret ([], es, t)
      else run_bind (tr_row c ttl (nprobes c) seq fin es (t\<lparr>salast := SaOther 0\<rparr>)) (\<lambda>(rs, seq', fin', es', t').
        run_bind (tr_rows c (ttl + 1) m seq' fin' es' t') (\<lambda>(rows, k). Ret (rs # rows, k))))"

definition traceloop :: "trace_cfg \<Rightarrow> tr_event list \<Rightarrow> trace \<Rightarrow> (reply list list \<times> tr_event list \<times> trace) run" where
  "traceloop c es t = tr_rows c 1 (max_ttl c) 0 0 es (sig_alrm t)"

section \<open>Only the datagram is read\<close>

lemma our_ports_same:
  "same_upto n b1 b2 \<Longrightarrow> udp + 4 \<le> n \<Longrightarrow> our_ports c seq b1 udp = our_ports c seq b2 udp"
  by (simp add: our_ports_def uh_sport_def uh_dport_def same_upto_u16 [of n b1 b2])

lemma answer_v4_same:
  assumes "same_upto n b1 b2"
  shows "answer_v4 c seq n b1 = answer_v4 c seq n b2"
proof (cases "n = 0")
  case True
  then show ?thesis by (simp add: answer_v4_def Let_def)
next
  case False
  then have h1: "ip_hl b1 0 = ip_hl b2 0" using same_upto_u8 [OF assms] by (simp add: ip_hl_def)
  define h where "h = 4 * ip_hl b2 0"
  show ?thesis
  proof (cases "int n - int h < 8")
    case True
    then show ?thesis by (simp add: answer_v4_def Let_def h1 h_def [symmetric])
  next
    case False
    then have hn: "h + 8 \<le> n" by linarith
    have tc: "icmp_type b1 h = icmp_type b2 h" "icmp_code b1 h = icmp_code b2 h"
      using hn same_upto_u8 [OF assms] by (simp_all add: icmp_type_def icmp_code_def)
    show ?thesis
    proof (cases "int n - int h < 28")
      case True
      then show ?thesis by (simp add: answer_v4_def Let_def h1 h_def [symmetric] tc)
    next
      case False
      then have hn2: "h + 28 \<le> n" by linarith
      have h2: "ip_hl b1 (h + 8) = ip_hl b2 (h + 8)" "ip_p b1 (h + 8) = ip_p b2 (h + 8)"
        using hn2 same_upto_u8 [OF assms] by (simp_all add: ip_hl_def ip_p_def)
      have "our_ports c seq b1 (h + 8 + 4 * ip_hl b2 (h + 8)) = our_ports c seq b2 (h + 8 + 4 * ip_hl b2 (h + 8))"
        if "\<not> int n - int h < 8 + int (4 * ip_hl b2 (h + 8)) + 4"
        using our_ports_same [OF assms] that by simp
      then show ?thesis unfolding answer_v4_def Let_def h1 h_def [symmetric] tc h2 by simp
    qed
  qed
qed

lemma answer_v6_same:
  assumes "same_upto n b1 b2"
  shows "answer_v6 c seq n b1 = answer_v6 c seq n b2"
proof (cases "n < 8")
  case True
  then show ?thesis by (simp add: answer_v6_def Let_def)
next
  case False
  then have tc: "icmp_type b1 0 = icmp_type b2 0" "icmp_code b1 0 = icmp_code b2 0"
    using same_upto_u8 [OF assms] by (simp_all add: icmp_type_def icmp_code_def)
  show ?thesis
  proof (cases "n < 52")
    case True
    then show ?thesis by (simp add: answer_v6_def Let_def tc)
  next
    case False
    then have "ip6_nxt b1 8 = ip6_nxt b2 8" "our_ports c seq b1 48 = our_ports c seq b2 48"
      using same_upto_u8 [OF assms] our_ports_same [OF assms] by (simp_all add: ip6_nxt_def)
    then show ?thesis by (simp add: answer_v6_def Let_def tc)
  qed
qed

section \<open>The wait\<close>

text \<open>Events that do not end it; \<open>ans\<close> judges a datagram by its own bytes.\<close>

definition tr_skip :: "(byte list \<Rightarrow> int option) \<Rightarrow> tr_event \<Rightarrow> bool" where
  "tr_skip ans ev =
     (case ev of TrAlarm \<Rightarrow> False | TrErr e \<Rightarrow> e = EINTR | TrDgram src bs \<Rightarrow> ans bs = None)"

definition wait_result :: "(byte list \<Rightarrow> int option) \<Rightarrow> tr_event list \<Rightarrow> int run" where
  "wait_result ans es =
     (case dropWhile (tr_skip ans) es of
        [] \<Rightarrow> Blocked
      | TrAlarm # _ \<Rightarrow> Ret (-3)
      | TrErr e # _ \<Rightarrow> Fatal ''recvfrom error''
      | TrDgram src bs # _ \<Rightarrow> Ret (the (ans bs)))"

lemma recv_loop_result:
  assumes "\<And>buf bs. length buf = BUFSIZE \<Longrightarrow> length bs \<le> BUFSIZE \<Longrightarrow> answer (length bs) (store buf bs) = ans bs"
    and "\<forall>src bs. TrDgram src bs \<in> set es \<longrightarrow> length bs \<le> BUFSIZE"
    and "length (recvbuf t) = BUFSIZE" and "\<not> gotalarm t"
  shows "run_bind (recv_loop c answer es t) (\<lambda>(code, _, _). Ret code) = wait_result ans es"
  using assms(2-4)
proof (induction es arbitrary: t)
  case (Cons ev es)
  show ?case
  proof (cases ev)
    case TrAlarm
    then show ?thesis using Cons.prems(3) by (cases es) (simp_all add: wait_result_def tr_skip_def)
  next
    case (TrErr e)
    then show ?thesis using Cons by (simp add: wait_result_def tr_skip_def)
  next
    case (TrDgram src bs)
    have l: "length bs \<le> BUFSIZE" using Cons.prems(1) TrDgram by simp
    have st: "stored (recvbuf t) bs = length bs" using l Cons.prems(2) by (simp add: stored_def)
    have a: "answer (length bs) (store (recvbuf t) bs) = ans bs" using assms(1) Cons.prems(2) l by simp
    show ?thesis
    proof (cases "ans bs")
      case None
      then show ?thesis using Cons.IH [of "t\<lparr>recvbuf := store (recvbuf t) bs, sarecv := src\<rparr>"] Cons.prems a
        by (simp add: TrDgram st Let_def wait_result_def tr_skip_def)
    next
      case (Some r)
      then show ?thesis using Cons.prems(3) a by (simp add: TrDgram st Let_def wait_result_def tr_skip_def)
    qed
  qed
qed (simp add: wait_result_def)

section \<open>The rows\<close>

lemma recv_loop_probes: "recv_loop c answer es t = Ret (code, es', t') \<Longrightarrow> probes t' = probes t"
  by (induction es arbitrary: t)
    (auto simp: Let_def split: if_splits tr_event.splits option.splits)

lemma tr_probe_log:
  "tr_probe c ttl seq es t = Ret (r, es', t') \<Longrightarrow> probes t' = probes t @ [(ttl, probe_dest c seq, seq)]"
  by (auto simp: tr_probe_def Let_def run_bind_Ret_conv recv_v4_def recv_v6_def split: if_splits dest!: recv_loop_probes)

text \<open>The log of probes \<open>seq + 1\<close> to \<open>seq + m\<close> with one TTL.\<close>

definition row_log :: "trace_cfg \<Rightarrow> nat \<Rightarrow> nat \<Rightarrow> nat \<Rightarrow> (nat \<times> sockaddr \<times> nat) list" where
  "row_log c ttl seq m = map (\<lambda>k. (ttl, probe_dest c k, k)) [seq + 1 ..< seq + 1 + m]"

lemma row_log_Suc: "row_log c ttl seq (Suc m) = (ttl, probe_dest c (seq + 1), seq + 1) # row_log c ttl (seq + 1) m"
  unfolding row_log_def by (subst upt_conv_Cons) simp_all

lemma tr_row_Ret:
  "tr_row c ttl m seq fin es t = Ret (rs, seq', fin', es', t') \<Longrightarrow>
     length rs = m \<and> seq' = seq + m \<and> fin' = fin + length (filter arrival rs) \<and>
     probes t' = probes t @ row_log c ttl seq m"
proof (induction m arbitrary: rs seq fin es t)
  case (Suc m)
  then obtain r es1 t1 rs1 where p: "tr_probe c ttl (seq + 1) es t = Ret (r, es1, t1)"
    and q: "tr_row c ttl m (seq + 1) (if arrival r then fin + 1 else fin) es1 t1 = Ret (rs1, seq', fin', es', t')"
    and rs: "rs = r # rs1"
    by (auto simp: run_bind_Ret_conv)
  from Suc.IH [OF q] tr_probe_log [OF p] rs show ?case by (auto simp: row_log_Suc)
qed (simp add: row_log_def)

definition arrived :: "reply list \<Rightarrow> bool" where
  "arrived rs \<longleftrightarrow> (\<exists>r \<in> set rs. arrival r)"

lemma arrived_filter: "arrived rs \<longleftrightarrow> length (filter arrival rs) \<noteq> 0"
  by (auto simp: arrived_def filter_empty_conv)

text \<open>The log of \<open>k\<close> rows from TTL \<open>ttl\<close> on.\<close>

fun rows_log :: "trace_cfg \<Rightarrow> nat \<Rightarrow> nat \<Rightarrow> nat \<Rightarrow> (nat \<times> sockaddr \<times> nat) list" where
  "rows_log c ttl seq 0 = []"
| "rows_log c ttl seq (Suc k) = row_log c ttl seq (nprobes c) @ rows_log c (ttl + 1) (seq + nprobes c) k"

lemma tr_rows_Ret:
  "tr_rows c ttl m seq fin es t = Ret (rows, es', t') \<Longrightarrow>
     length rows \<le> m \<and> (\<forall>rs \<in> set rows. length rs = nprobes c) \<and> (\<forall>rs \<in> set (butlast rows). \<not> arrived rs) \<and>
     (fin \<noteq> 0 \<longrightarrow> rows = []) \<and> (fin = 0 \<and> length rows < m \<longrightarrow> rows \<noteq> [] \<and> arrived (last rows)) \<and>
     probes t' = probes t @ rows_log c ttl seq (length rows)"
proof (induction m arbitrary: rows ttl seq fin es t)
  case (Suc m)
  show ?case
  proof (cases "fin = 0")
    case False
    then show ?thesis using Suc.prems by simp
  next
    case True
    with Suc.prems obtain rs seq1 fin1 es1 t1 rows1
      where p: "tr_row c ttl (nprobes c) seq fin es (t\<lparr>salast := SaOther 0\<rparr>) = Ret (rs, seq1, fin1, es1, t1)"
      and q: "tr_rows c (ttl + 1) m seq1 fin1 es1 t1 = Ret (rows1, es', t')" and rows: "rows = rs # rows1"
      by (auto simp: run_bind_Ret_conv)
    note R = tr_row_Ret [OF p]
    note Q = Suc.IH [OF q]
    have a: "arrived rs \<longleftrightarrow> fin1 \<noteq> 0" using R True by (simp add: arrived_filter)
    show ?thesis unfolding rows using R Q a True
      by (cases "rows1 = []") auto
  qed
qed simp

section \<open>Properties\<close>

text \<open>
  What \<open>recv_v4\<close> and \<open>recv_v6\<close> return is decided by the datagrams alone: by the first one
  that answers, if it comes before the alarm (-3 otherwise), whatever an earlier and longer
  datagram has left in the receive buffer; every length check is made before the bytes it covers
  are read.
\<close>
lemma recv_first_answer:
  assumes "length (recvbuf t) = BUFSIZE" and "\<forall>src bs. TrDgram src bs \<in> set es \<longrightarrow> length bs \<le> BUFSIZE"
  shows "run_bind (recv_v4 c seq es t) (\<lambda>(code, _, _). Ret code) = wait_result (\<lambda>bs. answer_v4 c seq (length bs) bs) es \<and>
    run_bind (recv_v6 c seq es t) (\<lambda>(code, _, _). Ret code) = wait_result (\<lambda>bs. answer_v6 c seq (length bs) bs) es"
  unfolding recv_v4_def recv_v6_def using assms
  by (auto intro!: recv_loop_result answer_v4_same answer_v6_same same_upto_store)

definition tr_demo_cfg :: trace_cfg where
  "tr_demo_cfg = \<lparr>is_v6 = False, sasend = SaIn 0 [10, 0, 0, 9], tr_pid = 1, tr_dport = 33434, max_ttl = 3, nprobes = 1,
     uninit = 77, now = (\<lambda>i. Timeval (int i) 0), send_ok = (\<lambda>_. True)\<rparr>"

definition tr_demo :: trace where
  "tr_demo = \<lparr>recvbuf = replicate BUFSIZE 255, gotalarm = False, sarecv = SaOther 0, salast = SaOther 0,
     tvrecv = Timeval 0 0, tclock = 0, probes = []\<rparr>"

text \<open>An ICMPv4 message of a type and code that quotes a datagram from port 32769 to \<open>port\<close>.\<close>

definition tr_demo_pkt :: "byte \<Rightarrow> byte \<Rightarrow> byte list \<Rightarrow> byte list" where
  "tr_demo_pkt typ code port =
     [0x45, 0, 0, 0, 0, 0, 0, 0, 0, 1, 0, 0, 0, 0, 0, 0, 0, 0, 0, 0, typ, code, 0, 0, 0, 0, 0, 0,
      0x45, 0, 0, 0, 0, 0, 0, 0, 0, 17, 0, 0, 0, 0, 0, 0, 0, 0, 0, 0, 0x80, 0x01] @ port"

lemma tr_demo_ports:
  "htons (int (tr_sport tr_demo_cfg)) = 0x0180" "htons (int (tr_dport tr_demo_cfg + 1)) = 0x9b82"
  "htons (int (tr_dport tr_demo_cfg + 2)) = 0x9c82"
  by (simp_all add: htons_def ntohs_def tr_sport_def tr_demo_cfg_def)

lemmas tr_demo_eval = answer_v4_def Let_def tr_demo_pkt_def header_defs u8_at_def u16_at_def byte_at_def
  icmp_consts our_ports_def

lemma tr_demo_answers:
  "answer_v4 tr_demo_cfg 1 (length (tr_demo_pkt 11 0 [0x82, 0x9b])) (tr_demo_pkt 11 0 [0x82, 0x9b]) = Some (-2)"
  "answer_v4 tr_demo_cfg 2 (length (tr_demo_pkt 3 3 [0x82, 0x9c])) (tr_demo_pkt 3 3 [0x82, 0x9c]) = Some (-1)"
  "answer_v4 tr_demo_cfg 1 (length (tr_demo_pkt 3 3 [0x82, 0x9c])) (tr_demo_pkt 3 3 [0x82, 0x9c]) = None"
  unfolding tr_demo_eval tr_demo_ports by simp_all

lemma recv_first_answer_witness:
  "run_bind (recv_v4 tr_demo_cfg 1 [TrDgram (SaOther 0) (tr_demo_pkt 3 3 [0x82, 0x9c]),
     TrDgram (SaOther 0) (tr_demo_pkt 11 0 [0x82, 0x9b])] tr_demo) (\<lambda>(code, _, _). Ret code) = Ret (-2)"
  using recv_first_answer [of tr_demo "[TrDgram (SaOther 0) (tr_demo_pkt 3 3 [0x82, 0x9c]),
     TrDgram (SaOther 0) (tr_demo_pkt 11 0 [0x82, 0x9b])]" tr_demo_cfg 1] tr_demo_answers
  by (simp add: tr_demo_def wait_result_def tr_skip_def tr_demo_pkt_def BUFSIZE_def)

lemma recv_loop_hit:
  assumes "length (recvbuf t) = BUFSIZE" and "length bs \<le> BUFSIZE" and "\<not> gotalarm t"
    and "answer (length bs) (store (recvbuf t) bs) = Some r"
  shows "recv_loop c answer (TrDgram src bs # es) t =
    Ret (r, es, t\<lparr>recvbuf := store (recvbuf t) bs, sarecv := src, tvrecv := now c (tclock t), tclock := tclock t + 1\<rparr>)"
  using assms by (simp add: stored_def Let_def)

lemma recv_v4_hit:
  assumes "length (recvbuf t) = BUFSIZE" and "length bs \<le> BUFSIZE" and "answer_v4 c seq (length bs) bs = Some r"
  shows "recv_v4 c seq (TrDgram src bs # es) t =
    Ret (r, es, t\<lparr>gotalarm := False, recvbuf := store (recvbuf t) bs, sarecv := src, tvrecv := now c (tclock t), tclock := tclock t + 1\<rparr>)"
  unfolding recv_v4_def using assms answer_v4_same [OF same_upto_store, of bs "recvbuf t" c seq]
  by (subst recv_loop_hit [of _ _ _ r]) simp_all

lemma recv_v6_hit:
  assumes "length (recvbuf t) = BUFSIZE" and "length bs \<le> BUFSIZE" and "answer_v6 c seq (length bs) bs = Some r"
  shows "recv_v6 c seq (TrDgram src bs # es) t =
    Ret (r, es, t\<lparr>gotalarm := False, recvbuf := store (recvbuf t) bs, sarecv := src, tvrecv := now c (tclock t), tclock := tclock t + 1\<rparr>)"
  unfolding recv_v6_def using assms answer_v6_same [OF same_upto_store, of bs "recvbuf t" c seq]
  by (subst recv_loop_hit [of _ _ _ r]) simp_all

text \<open>
  C29: a run of \<open>traceloop\<close> that ends has sent \<open>nprobes\<close> probes for each TTL from 1 on, numbered
  consecutively and each to the port of its number; it has stopped after the first TTL at which
  a probe was answered by the destination, and otherwise after \<open>max_ttl\<close>.
\<close>
theorem traceroute_rows:
  assumes "traceloop c es t = Ret (rows, es', t')"
  shows "length rows \<le> max_ttl c \<and> (\<forall>rs \<in> set rows. length rs = nprobes c) \<and>
    (\<forall>rs \<in> set (butlast rows). \<not> arrived rs) \<and>
    (length rows < max_ttl c \<longrightarrow> rows \<noteq> [] \<and> arrived (last rows)) \<and>
    probes t' = probes t @ rows_log c 1 0 (length rows)"
  using tr_rows_Ret [OF assms [unfolded traceloop_def]] by (simp add: sig_alrm_def)

definition tr_demo_events :: "tr_event list" where
  "tr_demo_events = [TrDgram (SaIn 0 [10, 0, 0, 1]) (tr_demo_pkt 11 0 [0x82, 0x9b]),
     TrDgram (SaIn 0 [10, 0, 0, 9]) (tr_demo_pkt 3 3 [0x82, 0x9c])]"

lemma tr_demo_cfg_simps:
  "max_ttl tr_demo_cfg = Suc (Suc (Suc 0))" "nprobes tr_demo_cfg = Suc 0" "\<not> is_v6 tr_demo_cfg" "send_ok tr_demo_cfg n"
  by (simp_all add: tr_demo_cfg_def)

lemma tr_demo_len: "length (tr_demo_pkt typ code [a, b]) \<le> BUFSIZE"
  by (simp add: tr_demo_pkt_def BUFSIZE_def)

lemma tr_demo_run:
  obtains rows es' t' where "traceloop tr_demo_cfg tr_demo_events tr_demo = Ret (rows, es', t')" and "length rows = 2"
  by (simp add: traceloop_def tr_demo_cfg_simps tr_demo_events_def tr_probe_def Let_def tr_demo_len tr_demo_def
      recv_v4_hit tr_demo_answers [simplified numeral_2_eq_2 One_nat_def] sig_alrm_def arrival_def
      sock_cmp_addr_def af_consts)

theorem traceroute_rows_witness:
  "\<exists>rows es' t'. traceloop tr_demo_cfg tr_demo_events tr_demo = Ret (rows, es', t') \<and> length rows = 2 \<and>
     arrived (last rows) \<and> probes t' = rows_log tr_demo_cfg 1 0 2"
proof (rule tr_demo_run)
  fix rows es' t'
  assume r: "traceloop tr_demo_cfg tr_demo_events tr_demo = Ret (rows, es', t')" and l: "length rows = 2"
  show ?thesis using traceroute_rows [OF r] r l by (auto simp: tr_demo_cfg_simps tr_demo_def)
qed

text \<open>
  C31: \<open>recv_v6\<close> takes any ICMPv6 time-exceeded message of 52 bytes for an answer: one that quotes
  another program's datagram ends the wait with the value of an uninitialised variable, where
  \<open>recv_v4\<close> goes on waiting.
\<close>
lemma recv_v6_foreign_message:
  assumes "52 \<le> length bs" and "length bs \<le> BUFSIZE" and "length (recvbuf t) = BUFSIZE"
    and "icmp_type bs 0 = ICMP6_TIME_EXCEEDED" and "icmp_code bs 0 = ICMP6_TIME_EXCEED_TRANSIT"
    and "\<not> our_ports c seq bs 48"
  shows "\<exists>t'. recv_v6 c seq (TrDgram src bs # es) t = Ret (uninit c, es, t')"
proof -
  have "answer_v6 c seq (length bs) bs = Some (uninit c)"
    using assms by (simp add: answer_v6_def Let_def)
  then show ?thesis by (subst recv_v6_hit [OF assms(3,2)]) auto
qed

lemma recv_v6_foreign_message_witness:
  "\<exists>t'. recv_v6 tr_demo_cfg 1 [TrDgram (SaOther 0) (3 # 0 # replicate 50 0)] tr_demo = Ret (77, [], t')"
proof -
  have "u16_at (3 # 0 # replicate 50 0) 48 = 0" by (simp add: u16_at_def byte_at_def)
  then have "\<not> our_ports tr_demo_cfg 1 (3 # 0 # replicate 50 0) 48"
    unfolding our_ports_def tr_demo_ports uh_sport_def by simp
  then have "\<exists>t'. recv_v6 tr_demo_cfg 1 [TrDgram (SaOther 0) (3 # 0 # replicate 50 0)] tr_demo = Ret (uninit tr_demo_cfg, [], t')"
    by (intro recv_v6_foreign_message) (simp_all add: tr_demo_def BUFSIZE_def header_defs u8_at_def byte_at_def icmp_consts)
  then show ?thesis by (simp add: tr_demo_cfg_def)
qed

end
