(* ===== verification/Icmpd.thy ===== *)
theory Icmpd
  imports Packet Client_Table
begin

text \<open>
  The ICMP daemon of \<open>icmpd/\<close> (\<open>icmpd.c\<close>, \<open>readable_listen.c\<close>, \<open>readable_conn.c\<close>,
  \<open>readable_v4.c\<close>, \<open>readable_v6.c\<close>): clients hand it their UDP sockets over a Unix-domain
  connection (\<open>lib/read_fd.c\<close>), and it passes the ICMP errors about their ports on to them.
\<close>

section \<open>State\<close>

definition FD_SETSIZE :: nat where "FD_SETSIZE = 1024"

record ic_client =
  connfd :: int
  family :: int
  lport :: int

text \<open>The record written to a client; types and codes are 8-bit values.\<close>

record icmpd_err =
  icmpd_errno :: errno
  icmpd_type :: byte
  icmpd_code :: byte
  icmpd_len :: nat
  icmpd_dest :: sockaddr

text \<open>What the daemon does to descriptors other than the ones it waits on.\<close>

datatype ic_act = AnswerByte int char | PassError int icmpd_err | CloseFd int

text \<open>The globals of \<open>icmpd.h\<close>, and the log of actions.\<close>

record icmpd =
  client :: "ic_client list"
  fd4 :: int
  fd6 :: int
  listenfd :: int
  maxi :: int
  maxfd :: int
  nready :: int
  allset :: "int set"
  acts :: "ic_act list"

definition set_client :: "nat \<Rightarrow> (ic_client \<Rightarrow> ic_client) \<Rightarrow> icmpd \<Rightarrow> icmpd" where
  "set_client i f s = s\<lparr>client := (client s)[i := f (client s ! i)]\<rparr>"

definition do_act :: "ic_act \<Rightarrow> icmpd \<Rightarrow> icmpd" where
  "do_act a s = s\<lparr>acts := acts s @ [a]\<rparr>"

text \<open>\<open>return(--nready)\<close>.\<close>

definition dec_ready :: "icmpd \<Rightarrow> int \<times> icmpd" where
  "dec_ready s = (nready s - 1, s\<lparr>nready := nready s - 1\<rparr>)"

section \<open>Receiving a descriptor\<close>

text \<open>
  The outcome of \<open>recvmsg\<close>: an error, end of file, or data with a control message or without one;
  the flags tell whether its level and type are the expected ones.
\<close>

datatype rmsg = RmErr errno | RmEof | RmData nat "(bool \<times> bool \<times> int) option"

definition read_fd :: "rmsg \<Rightarrow> int \<Rightarrow> (int \<times> int) run" where
  "read_fd msg recvfd =
     (case msg of
        RmErr e \<Rightarrow> Ret (-1, recvfd)
      | RmEof \<Rightarrow> Ret (0, recvfd)
      | RmData n None \<Rightarrow> Ret (int n, -1)
      | RmData n (Some (level_ok, type_ok, fd)) \<Rightarrow>
          if \<not> level_ok then Fatal ''control level != SOL_SOCKET''
          else if \<not> type_ok then Fatal ''control type != SCM_RIGHTS''
          else Ret (int n, fd))"

definition Read_fd :: "rmsg \<Rightarrow> int \<Rightarrow> (int \<times> int) run" where
  "Read_fd msg recvfd = run_bind (read_fd msg recvfd) (\<lambda>(n, fd).
     if n < 0 then Fatal ''read_fd error'' else Ret (n, fd))"

text \<open>
  What the system calls of one turn of the daemon find: the set and count that \<open>select\<close> reports,
  the new connection (\<open>None\<close>: \<open>accept\<close> fails), the two datagrams and the old contents of the
  buffer, and for every slot the message, the name of the descriptor passed, whether \<open>bind\<close>
  succeeds on it and the port it then has.  \<open>write_ok\<close>: the client still reads.
\<close>

record ic_conn =
  ic_msg :: rmsg
  ic_name :: "sockaddr option"
  ic_bind :: bool
  ic_port :: "u16 option"

record ic_in =
  rset :: "int set"
  new_conn :: "int option"
  pkt4 :: "byte list"
  pkt6 :: "byte list"
  junk :: "byte list"
  conns :: "nat \<Rightarrow> ic_conn"
  write_ok :: "int \<Rightarrow> bool"

definition ic_Write :: "ic_in \<Rightarrow> int \<Rightarrow> ic_act \<Rightarrow> icmpd \<Rightarrow> icmpd run" where
  "ic_Write x fd a s = (if write_ok x fd then Ret (do_act a s) else Fatal ''write error'')"

section \<open>Operations\<close>

text \<open>The loop over \<open>client[FD_SETSIZE]\<close> for the first free slot; \<open>m\<close> slots are left.\<close>

fun free_client :: "nat \<Rightarrow> nat \<Rightarrow> ic_client list \<Rightarrow> nat option" where
  "free_client i 0 cs = None"
| "free_client i (Suc m) cs = (if connfd (cs ! i) < 0 then Some i else free_client (Suc i) m cs)"

definition readable_listen :: "ic_in \<Rightarrow> icmpd \<Rightarrow> (int \<times> icmpd) run" where
  "readable_listen x s =
     (case new_conn x of
        None \<Rightarrow> Fatal ''accept error''
      | Some fd \<Rightarrow>
          (case free_client 0 (length (client s)) (client s) of
             None \<Rightarrow> Ret (dec_ready (do_act (CloseFd fd) s))
           | Some i \<Rightarrow>
               (let s1 = set_client i (\<lambda>c. c\<lparr>connfd := fd\<rparr>) s;
                    s2 = s1\<lparr>allset := insert fd (allset s1), maxfd := max fd (maxfd s1), maxi := max (int i) (maxi s1)\<rparr>
                in Ret (dec_ready s2))))"

text \<open>The labels \<open>clientdone\<close> and \<open>clienterr\<close>.\<close>

definition client_done :: "nat \<Rightarrow> int \<Rightarrow> int \<Rightarrow> icmpd \<Rightarrow> (int \<times> icmpd) run" where
  "client_done i unixfd recvfd s =
     (let s1 = do_act (CloseFd unixfd) s;
          s2 = (if recvfd \<ge> 0 then do_act (CloseFd recvfd) s1 else s1);
          s3 = s2\<lparr>allset := allset s2 - {unixfd}\<rparr>
      in Ret (dec_ready (set_client i (\<lambda>c. c\<lparr>connfd := -1\<rparr>) s3)))"

definition client_err :: "ic_in \<Rightarrow> nat \<Rightarrow> int \<Rightarrow> int \<Rightarrow> icmpd \<Rightarrow> (int \<times> icmpd) run" where
  "client_err x i unixfd recvfd s =
     run_bind (ic_Write x unixfd (AnswerByte unixfd (CHR ''0'')) s) (client_done i unixfd recvfd)"

definition readable_conn :: "ic_in \<Rightarrow> nat \<Rightarrow> icmpd \<Rightarrow> (int \<times> icmpd) run" where
  "readable_conn x i s =
     (let unixfd = connfd (client s ! i); k = conns x i
      in run_bind (Read_fd (ic_msg k) (-1)) (\<lambda>(n, recvfd).
        if n = 0 then client_done i unixfd recvfd s
        else if recvfd < 0 then client_err x i unixfd recvfd s
        else case ic_name k of
            None \<Rightarrow> client_err x i unixfd recvfd s
          | Some ss \<Rightarrow>
              (let s1 = set_client i (\<lambda>c. c\<lparr>family := sa_family ss, lport := sock_get_port ss\<rparr>) s;
                   ok = (\<lambda>s2. run_bind (ic_Write x unixfd (AnswerByte unixfd (CHR ''1'')) s2) (\<lambda>s3.
                     Ret (dec_ready (do_act (CloseFd recvfd) s3))))
               in if sock_get_port ss = 0 then
                    (let port = sock_bind_wild (\<lambda>_. ic_bind k) (ic_port k) (sa_family ss);
                         s2 = set_client i (\<lambda>c. c\<lparr>lport := port\<rparr>) s1
                     in if port \<le> 0 then client_err x i unixfd recvfd s2 else ok s2)
                  else ok s1)))"

text \<open>The errors are written to every client with the family and port, in slot order.\<close>

fun pass_errors :: "ic_in \<Rightarrow> int \<Rightarrow> u16 \<Rightarrow> icmpd_err \<Rightarrow> nat \<Rightarrow> nat \<Rightarrow> icmpd \<Rightarrow> icmpd run" where
  "pass_errors x fam sport err i 0 s = Ret s"
| "pass_errors x fam sport err i (Suc m) s =
     (let c = client s ! i
      in if connfd c \<ge> 0 \<and> family c = fam \<and> lport c = uint sport
         then run_bind (ic_Write x (connfd c) (PassError (connfd c) err) s) (pass_errors x fam sport err (Suc i) m)
         else pass_errors x fam sport err (Suc i) m s)"

definition errno_v4 :: "nat \<Rightarrow> nat \<Rightarrow> errno" where
  "errno_v4 typ code =
     (if typ = ICMP_UNREACH then
        (if code = ICMP_UNREACH_PORT then ECONNREFUSED
         else if code = ICMP_UNREACH_NEEDFRAG then EMSGSIZE else EHOSTUNREACH)
      else EHOSTUNREACH)"

definition readable_v4 :: "ic_in \<Rightarrow> icmpd \<Rightarrow> (int \<times> icmpd) run" where
  "readable_v4 x s =
     (let buf = store (junk x) (pkt4 x); n = stored (junk x) (pkt4 x);
          hlen1 = 4 * ip_hl buf 0; icmplen = int n - int hlen1;
          typ = icmp_type buf hlen1; code = icmp_code buf hlen1
      in if icmplen < 8 then Fatal ''icmplen < 8''
         else if typ = ICMP_UNREACH \<or> typ = ICMP_TIMXCEED \<or> typ = ICMP_SOURCEQUENCH then
           (if icmplen < 8 + 20 + 8 then Fatal ''icmplen < 8 + 20 + 8''
            else let hip = hlen1 + 8; hlen2 = 4 * ip_hl buf hip
              in if ip_p buf hip = IPPROTO_UDP then
                   (let udp = hlen1 + 8 + hlen2;
                        err = \<lparr>icmpd_errno = errno_v4 typ code, icmpd_type = of_nat typ, icmpd_code = of_nat code,
                          icmpd_len = 16, icmpd_dest = SaIn (uh_dport buf udp) (ip_dst buf hip)\<rparr>
                    in run_bind (pass_errors x AF_INET (uh_sport buf udp) err 0 (nat (maxi s + 1)) s) (\<lambda>s1. Ret (dec_ready s1)))
                 else Ret (dec_ready s))
         else Ret (dec_ready s))"

definition errno_v6 :: "nat \<Rightarrow> nat \<Rightarrow> errno" where
  "errno_v6 typ code =
     (if typ = ICMP6_PACKET_TOO_BIG then EMSGSIZE
      else if typ = ICMP6_DST_UNREACH \<and> code = ICMP6_DST_UNREACH_NOPORT then ECONNREFUSED
      else EHOSTUNREACH)"

definition readable_v6 :: "ic_in \<Rightarrow> icmpd \<Rightarrow> (int \<times> icmpd) run" where
  "readable_v6 x s =
     (let buf = store (junk x) (pkt6 x); n = stored (junk x) (pkt6 x);
          typ = icmp_type buf 0; code = icmp_code buf 0
      in if n < 8 then Fatal ''icmp6len < 8''
         else if typ = ICMP6_DST_UNREACH \<or> typ = ICMP6_PACKET_TOO_BIG \<or> typ = ICMP6_TIME_EXCEEDED then
           (if n < 8 + 8 then Fatal ''icmp6len < 8 + 8''
            else let hip6 = 8; hlen2 = 40
              in if ip6_nxt buf hip6 = IPPROTO_UDP then
                   (let udp = 8 + hlen2;
                        err = \<lparr>icmpd_errno = errno_v6 typ code, icmpd_type = of_nat typ, icmpd_code = of_nat code,
                          icmpd_len = 28, icmpd_dest = SaIn6 (uh_dport buf udp) (ip6_dst buf hip6)\<rparr>
                    in run_bind (pass_errors x AF_INET6 (uh_sport buf udp) err 0 (nat (maxi s + 1)) s) (\<lambda>s1. Ret (dec_ready s1)))
                 else Ret (dec_ready s))
         else Ret (dec_ready s))"

text \<open>The initialisation, and one turn of the loop; the clients are visited in slot order.\<close>

definition icmpd_init :: "int \<Rightarrow> int \<Rightarrow> int \<Rightarrow> icmpd" where
  "icmpd_init f4 f6 l =
     \<lparr>client = replicate FD_SETSIZE \<lparr>connfd = -1, family = 0, lport = 0\<rparr>, fd4 = f4, fd6 = f6, listenfd = l,
      maxi = -1, maxfd = max (max f4 f6) l, nready = 0, allset = {f4, f6, l}, acts = []\<rparr>"

fun serve_conns :: "ic_in \<Rightarrow> nat \<Rightarrow> nat \<Rightarrow> icmpd \<Rightarrow> icmpd run" where
  "serve_conns x i 0 s = Ret s"
| "serve_conns x i (Suc m) s =
     (let sockfd = connfd (client s ! i)
      in if sockfd < 0 then serve_conns x (Suc i) m s
         else if sockfd \<in> rset x then
           run_bind (readable_conn x i s) (\<lambda>(r, s1). if r \<le> 0 then Ret s1 else serve_conns x (Suc i) m s1)
         else serve_conns x (Suc i) m s)"

text \<open>\<open>if (FD_ISSET(fd, &rset)) if (handler() <= 0) continue;\<close>, with the rest of the turn.\<close>

definition turn_part :: "bool \<Rightarrow> (icmpd \<Rightarrow> (int \<times> icmpd) run) \<Rightarrow> (icmpd \<Rightarrow> icmpd run) \<Rightarrow> icmpd \<Rightarrow> icmpd run" where
  "turn_part ready handler rest s =
     (if ready then run_bind (handler s) (\<lambda>(r, s1). if r \<le> 0 then Ret s1 else rest s1) else rest s)"

definition icmpd_turn :: "ic_in \<Rightarrow> icmpd \<Rightarrow> icmpd run" where
  "icmpd_turn x s =
     turn_part (listenfd s \<in> rset x) (readable_listen x)
       (turn_part (fd4 s \<in> rset x) (readable_v4 x)
         (turn_part (fd6 s \<in> rset x) (readable_v6 x)
           (\<lambda>s1. serve_conns x 0 (nat (maxi s1 + 1)) s1))) s"

text \<open>
  The program: at each turn \<open>select\<close> reports a nonempty part of the set and its size, and \<open>accept\<close>
  gives a descriptor that is not open.
\<close>

inductive icmpd_run :: "int \<Rightarrow> int \<Rightarrow> int \<Rightarrow> icmpd \<Rightarrow> bool" for f4 f6 l where
  start: "icmpd_run f4 f6 l (icmpd_init f4 f6 l)"
| turn: "icmpd_run f4 f6 l s \<Longrightarrow> rset x \<subseteq> allset s \<Longrightarrow> rset x \<noteq> {} \<Longrightarrow>
    (\<forall>fd. new_conn x = Some fd \<longrightarrow> 0 \<le> fd \<and> fd \<notin> allset s) \<Longrightarrow>
    icmpd_turn x (s\<lparr>nready := int (card (rset x))\<rparr>) = Ret s' \<Longrightarrow> icmpd_run f4 f6 l s'"

section \<open>The table of clients\<close>

definition ic_fds :: "icmpd \<Rightarrow> int list" where
  "ic_fds s = map connfd (client s)"

definition ic_put :: "int \<Rightarrow> icmpd \<Rightarrow> (nat \<times> icmpd) option" where
  "ic_put fd s = map_option (\<lambda>i. (i, set_client i (\<lambda>c. c\<lparr>connfd := fd\<rparr>) s)) (free_client 0 (length (client s)) (client s))"

lemma ic_fds_set_client:
  "ic_fds (set_client i (\<lambda>c. c\<lparr>connfd := fd\<rparr>) s) = (ic_fds s)[i := fd]"
  "ic_fds (set_client i (\<lambda>c. c\<lparr>family := f, lport := p\<rparr>) s) = ic_fds s"
  "ic_fds (set_client i (\<lambda>c. c\<lparr>lport := p\<rparr>) s) = ic_fds s"
  by (simp_all add: ic_fds_def set_client_def map_update list_update_same_conv)
    (cases "i < length (client s)"; simp add: list_update_same_conv list_update_beyond)+

lemma free_client_Some:
  "free_client i m cs = Some k \<Longrightarrow> i \<le> k \<and> k < i + m \<and> connfd (cs ! k) < 0 \<and> (\<forall>j. i \<le> j \<and> j < k \<longrightarrow> 0 \<le> connfd (cs ! j))"
proof (induction m arbitrary: i)
  case (Suc m)
  show ?case
  proof (cases "connfd (cs ! i) < 0")
    case False
    with Suc.prems have "free_client (Suc i) m cs = Some k" by simp
    note IH = Suc.IH [OF this]
    have "0 \<le> connfd (cs ! j)" if "i \<le> j" "j < k" for j
      using IH False that by (cases "j = i") auto
    then show ?thesis using IH by auto
  qed (use Suc.prems in auto)
qed simp

lemma free_client_None: "free_client i m cs = None \<Longrightarrow> i \<le> j \<Longrightarrow> j < i + m \<Longrightarrow> 0 \<le> connfd (cs ! j)"
proof (induction m arbitrary: i)
  case (Suc m)
  then show ?case using Suc.IH [of "Suc i"]
    by (cases "j = i") (auto split: if_splits)
qed simp

interpretation ic_tab: slot_table 0 ic_fds ic_put "\<lambda>i. set_client i (\<lambda>c. c\<lparr>connfd := -1\<rparr>)"
proof unfold_locales
  fix fd s i s'
  assume "ic_put fd s = Some (i, s')"
  then have f: "free_client 0 (length (client s)) (client s) = Some i" and s': "s' = set_client i (\<lambda>c. c\<lparr>connfd := fd\<rparr>) s"
    by (auto simp: ic_put_def)
  from free_client_Some [OF f] show "0 \<le> i \<and> i < length (ic_fds s) \<and> ic_fds s ! i < 0 \<and> ic_fds s' = (ic_fds s)[i := fd] \<and>
      (\<forall>j. 0 \<le> j \<and> j < i \<longrightarrow> 0 \<le> ic_fds s ! j)"
    unfolding s' ic_fds_set_client by (auto simp: ic_fds_def)
next
  fix fd s j
  assume "ic_put fd s = None" "j < length (ic_fds s)"
  then show "0 \<le> ic_fds s ! j" using free_client_None [of 0 _ "client s" j] by (auto simp: ic_put_def ic_fds_def)
next
  fix i s
  show "ic_fds (set_client i (\<lambda>c. c\<lparr>connfd := - 1\<rparr>) s) = (ic_fds s)[i := - 1]" by (rule ic_fds_set_client)
qed

section \<open>The invariant\<close>

definition ic_live :: "icmpd \<Rightarrow> int set" where
  "ic_live s = {fd \<in> set (ic_fds s). 0 \<le> fd}"

lemma ic_tab_live: "ic_tab.live s = ic_live s" and ic_tab_once: "ic_tab.once s = uniq_fds (ic_fds s)"
  by (simp_all add: ic_tab.live_def ic_tab.once_def ic_live_def)

text \<open>
  \<open>base\<close> is the set of the daemon's own three descriptors: the set given to \<open>select\<close> consists of
  them and of the connections in the table, each in one slot; the two maxima are upper bounds.
\<close>

definition ic_inv :: "int set \<Rightarrow> nat \<Rightarrow> icmpd \<Rightarrow> bool" where
  "ic_inv base sz s \<longleftrightarrow>
     {fd4 s, fd6 s, listenfd s} = base \<and> length (client s) = sz \<and> uniq_fds (ic_fds s) \<and>
     allset s = base \<union> ic_live s \<and> base \<inter> ic_live s = {} \<and> (\<forall>fd \<in> allset s. fd \<le> maxfd s) \<and>
     -1 \<le> maxi s \<and> maxi s < int sz \<and> (\<forall>j < sz. maxi s < int j \<longrightarrow> ic_fds s ! j < 0)"

text \<open>Two states that differ in registrations, actions and the count of ready descriptors only.\<close>

definition same_table :: "icmpd \<Rightarrow> icmpd \<Rightarrow> bool" where
  "same_table s s' \<longleftrightarrow> ic_fds s' = ic_fds s \<and> allset s' = allset s \<and> maxi s' = maxi s \<and> maxfd s' = maxfd s \<and>
     fd4 s' = fd4 s \<and> fd6 s' = fd6 s \<and> listenfd s' = listenfd s"

lemma same_table_refl [simp]: "same_table s s"
  by (simp add: same_table_def)

lemma same_table_trans: "same_table s t \<Longrightarrow> same_table t u \<Longrightarrow> same_table s u"
  by (simp add: same_table_def)

lemma ic_fds_length: "length (ic_fds s) = length (client s)"
  by (simp add: ic_fds_def)

lemma same_table_inv: "same_table s s' \<Longrightarrow> ic_inv base sz s \<Longrightarrow> ic_inv base sz s'"
  unfolding ic_inv_def same_table_def ic_live_def by (metis ic_fds_length)

lemma set_client_fields [simp]:
  "allset (set_client i f s) = allset s" "maxi (set_client i f s) = maxi s" "maxfd (set_client i f s) = maxfd s"
  "fd4 (set_client i f s) = fd4 s" "fd6 (set_client i f s) = fd6 s" "listenfd (set_client i f s) = listenfd s"
  "acts (set_client i f s) = acts s" "nready (set_client i f s) = nready s"
  "length (client (set_client i f s)) = length (client s)"
  by (simp_all add: set_client_def)

lemma do_act_fields [simp]:
  "client (do_act a s) = client s" "allset (do_act a s) = allset s" "maxi (do_act a s) = maxi s"
  "maxfd (do_act a s) = maxfd s" "fd4 (do_act a s) = fd4 s" "fd6 (do_act a s) = fd6 s"
  "listenfd (do_act a s) = listenfd s" "nready (do_act a s) = nready s" "acts (do_act a s) = acts s @ [a]"
  by (simp_all add: do_act_def)

lemma ic_fds_frame [simp]: "ic_fds (do_act a s) = ic_fds s" "ic_fds (s\<lparr>nready := n\<rparr>) = ic_fds s"
  by (simp_all add: ic_fds_def)

lemma same_table_simps [simp]:
  "same_table s (do_act a t) \<longleftrightarrow> same_table s t" "same_table (do_act a s) t \<longleftrightarrow> same_table s t"
  "same_table s (t\<lparr>nready := n\<rparr>) \<longleftrightarrow> same_table s t"
  "same_table s (set_client i (\<lambda>c. c\<lparr>family := f, lport := p\<rparr>) t) \<longleftrightarrow> same_table s t"
  "same_table s (set_client i (\<lambda>c. c\<lparr>lport := p\<rparr>) t) \<longleftrightarrow> same_table s t"
  by (simp_all add: same_table_def ic_fds_set_client)

lemma ic_Write_Ret: "ic_Write x fd a s = Ret s' \<Longrightarrow> s' = do_act a s"
  by (auto simp: ic_Write_def split: if_splits)

lemma pass_errors_table: "pass_errors x fam sport err i m s = Ret s' \<Longrightarrow> same_table s s'"
proof (induction m arbitrary: i s)
  case (Suc m)
  then show ?case
    by (fastforce simp: Let_def run_bind_Ret_conv split: if_splits dest!: ic_Write_Ret)
qed simp

lemma readable_v4_table: "readable_v4 x s = Ret (r, s') \<Longrightarrow> same_table s s'"
  by (auto simp: readable_v4_def Let_def run_bind_Ret_conv dec_ready_def split: if_splits
      dest!: pass_errors_table intro: same_table_trans)

lemma readable_v6_table: "readable_v6 x s = Ret (r, s') \<Longrightarrow> same_table s s'"
  by (auto simp: readable_v6_def Let_def run_bind_Ret_conv dec_ready_def split: if_splits
      dest!: pass_errors_table intro: same_table_trans)

text \<open>A new connection goes into a free slot, or is closed again when there is none.\<close>

lemma readable_listen_inv:
  assumes "ic_inv base sz s" and "readable_listen x s = Ret (r, s')"
    and "\<And>fd. new_conn x = Some fd \<Longrightarrow> 0 \<le> fd \<and> fd \<notin> allset s"
  shows "ic_inv base sz s'"
proof -
  obtain fd where fd: "new_conn x = Some fd" using assms(2) by (auto simp: readable_listen_def split: option.splits)
  show ?thesis
  proof (cases "free_client 0 (length (client s)) (client s)")
    case None
    then have "s' = snd (dec_ready (do_act (CloseFd fd) s))"
      using assms(2) fd by (auto simp: readable_listen_def dec_ready_def)
    then have "same_table s s'" by (simp add: dec_ready_def)
    then show ?thesis using assms(1) by (rule same_table_inv)
  next
    case (Some i)
    let ?t = "set_client i (\<lambda>c. c\<lparr>connfd := fd\<rparr>) s"
    have put: "ic_put fd s = Some (i, ?t)" using Some by (simp add: ic_put_def)
    note P = ic_tab.put_Some [OF put]
    have fdn: "0 \<le> fd" "fd \<notin> allset s" using assms(3) [OF fd] by auto
    have lv: "ic_live ?t = insert fd (ic_live s)" using ic_tab.put_live [OF put fdn(1)] by (simp add: ic_tab_live)
    have c: "client s' = client ?t" and s'0: "allset s' = insert fd (allset s)" "maxfd s' = max fd (maxfd s)"
      "maxi s' = max (int i) (maxi s)" "fd4 s' = fd4 s" "fd6 s' = fd6 s" "listenfd s' = listenfd s"
      using assms(2) fd Some by (auto simp: readable_listen_def dec_ready_def Let_def)
    have f: "ic_fds s' = ic_fds ?t" using c by (simp add: ic_fds_def)
    have s': "ic_fds s' = (ic_fds s)[i := fd]" "length (client s') = length (client s)" "ic_live s' = insert fd (ic_live s)"
      using lv f c by (simp_all add: ic_fds_set_client ic_live_def)
    have notin: "fd \<notin> set (ic_fds s)" using assms(1) fdn unfolding ic_inv_def ic_live_def by blast
    have u: "uniq_fds ((ic_fds s)[i := fd])"
      using assms(1) notin unfolding ic_inv_def by (blast intro: uniq_fds_update)
    have "ic_fds s' ! j < 0" if "j < sz" "maxi s' < int j" for j
      using assms(1) that s'0(3) unfolding s'(1) ic_inv_def by (cases "j = i") auto
    moreover have "int i < int sz" using P assms(1) by (simp add: ic_inv_def ic_fds_length)
    moreover have "{fd4 s, fd6 s, listenfd s} = base" "length (client s) = sz" "allset s = base \<union> ic_live s"
      "base \<inter> ic_live s = {}" "\<forall>g \<in> allset s. g \<le> maxfd s" "-1 \<le> maxi s" "maxi s < int sz"
      using assms(1) unfolding ic_inv_def by blast+
    moreover from this have "base \<inter> insert fd (ic_live s) = {}" using fdn(2) by blast
    ultimately show ?thesis unfolding ic_inv_def using u s' s'0 by (auto simp: le_max_iff_disj)
  qed
qed

lemma client_done_inv:
  assumes "ic_inv base sz s" and "i < sz" and "0 \<le> ic_fds s ! i"
    and "client_done i (ic_fds s ! i) recvfd s = Ret (r, s')"
  shows "ic_inv base sz s'"
proof -
  let ?fd = "ic_fds s ! i"
  have i: "i < length (ic_fds s)" using assms(1,2) by (simp add: ic_inv_def ic_fds_length)
  have u: "uniq_fds (ic_fds s)" using assms(1) by (simp add: ic_inv_def)
  have d: "(ic_fds s)[i := -1] = drop_fds [?fd] (ic_fds s)"
    using drop_fds_Cons [OF u i assms(3), of "[]"] by simp
  have "client s' = client (set_client i (\<lambda>c. c\<lparr>connfd := -1\<rparr>) s)"
    using assms(4) by (auto simp: client_done_def Let_def dec_ready_def set_client_def)
  then have f: "ic_fds s' = (ic_fds s)[i := -1]" "length (client s') = length (client s)"
    using ic_fds_set_client(1) [of i "-1" s] by (simp_all add: ic_fds_def)
  have s': "allset s' = allset s - {?fd}" "maxfd s' = maxfd s"
      "maxi s' = maxi s" "fd4 s' = fd4 s" "fd6 s' = fd6 s" "listenfd s' = listenfd s"
    using assms(4) by (auto simp: client_done_def Let_def dec_ready_def split: if_splits)
  have lv: "ic_live s' = ic_live s - {?fd}" unfolding ic_live_def f d drop_fds_live by simp
  have "?fd \<in> ic_live s" using i assms(3) by (simp add: ic_live_def)
  moreover have "uniq_fds (ic_fds s')" unfolding f d by (rule uniq_fds_drop_fds [OF u])
  moreover have "\<forall>j < sz. maxi s < int j \<longrightarrow> ic_fds s' ! j < 0"
    using assms(1) i unfolding f ic_inv_def by (metis less_minus_one_simps(1) nth_list_update)
  ultimately show ?thesis using assms(1) lv s' f(2) unfolding ic_inv_def by auto
qed

lemma client_err_inv:
  assumes "ic_inv base sz s" and "i < sz" and "0 \<le> ic_fds s ! i"
    and "client_err x i (ic_fds s ! i) recvfd s = Ret (r, s')"
  shows "ic_inv base sz s'"
proof -
  obtain s1 where w: "ic_Write x (ic_fds s ! i) (AnswerByte (ic_fds s ! i) (CHR ''0'')) s = Ret s1"
    and d: "client_done i (ic_fds s ! i) recvfd s1 = Ret (r, s')"
    using assms(4) by (auto simp: client_err_def run_bind_Ret_conv)
  from ic_Write_Ret [OF w] have t: "same_table s s1" and f: "ic_fds s1 = ic_fds s" by simp_all
  show ?thesis using client_done_inv [of base sz s1 i, OF same_table_inv [OF t assms(1)] assms(2)] assms(3) d
    by (simp add: f)
qed

lemma readable_conn_inv:
  assumes "ic_inv base sz s" and "i < sz" and "0 \<le> ic_fds s ! i" and "readable_conn x i s = Ret (r, s')"
  shows "ic_inv base sz s'"
proof -
  have fd: "connfd (client s ! i) = ic_fds s ! i" using assms(1,2) by (simp add: ic_inv_def ic_fds_def)
  define reg where "reg ss = set_client i (\<lambda>c. c\<lparr>family := sa_family ss, lport := sock_get_port ss\<rparr>) s" for ss
  define prt where "prt p t = set_client i (\<lambda>c. c\<lparr>lport := p\<rparr>) t" for p t
  have T: "same_table s (reg ss)" "same_table s (prt p (reg ss))" for ss p by (simp_all add: reg_def prt_def)
  have E: "ic_inv base sz s'" if t: "same_table s t" and e: "client_err x i (ic_fds s ! i) recvfd t = Ret (r, s')" for t recvfd
    using client_err_inv [OF same_table_inv [OF t assms(1)] assms(2), of x recvfd] assms(3) t e by (simp add: same_table_def)
  have O: "ic_inv base sz s'" if t: "same_table s t"
    and e: "run_bind (ic_Write x fd a t) (\<lambda>s3. Ret (dec_ready (do_act b s3))) = Ret (r, s')" for t fd a b
  proof (rule same_table_inv [OF _ assms(1)])
    show "same_table s s'" using t e by (auto simp: run_bind_Ret_conv dec_ready_def dest!: ic_Write_Ret)
  qed
  from assms(4) obtain n recvfd where "Read_fd (ic_msg (conns x i)) (-1) = Ret (n, recvfd)"
    by (auto simp: readable_conn_def Let_def run_bind_Ret_conv)
  with assms(4) show ?thesis
    unfolding readable_conn_def Let_def fd reg_def [symmetric] prt_def [symmetric]
    by (auto split: if_splits option.splits dest: E [OF same_table_refl] E [OF T(1)] E [OF T(2)] O [OF T(1)] O [OF T(2)]
        client_done_inv [OF assms(1-3)])
qed

lemma serve_conns_inv:
  "ic_inv base sz s \<Longrightarrow> i + m \<le> sz \<Longrightarrow> serve_conns x i m s = Ret s' \<Longrightarrow> ic_inv base sz s'"
proof (induction m arbitrary: i s)
  case (Suc m)
  have i: "i < sz" using Suc.prems(2) by simp
  have fd: "connfd (client s ! i) = ic_fds s ! i" using Suc.prems(1) i by (simp add: ic_inv_def ic_fds_def)
  show ?case
  proof (cases "0 \<le> ic_fds s ! i \<and> ic_fds s ! i \<in> rset x")
    case True
    with Suc.prems(3) fd obtain r s1 where c: "readable_conn x i s = Ret (r, s1)"
      and s': "(if r \<le> 0 then Ret s1 else serve_conns x (Suc i) m s1) = Ret s'"
      by (auto simp: run_bind_Ret_conv)
    have "ic_inv base sz s1" using readable_conn_inv [OF Suc.prems(1) i _ c] True by simp
    then show ?thesis using s' Suc.IH [of s1 "Suc i"] Suc.prems(2) by (auto split: if_splits)
  next
    case False
    then have "serve_conns x (Suc i) m s = Ret s'" using Suc.prems(3) fd by (auto simp: Let_def split: if_splits)
    then show ?thesis using Suc.IH [of s "Suc i"] Suc.prems(1,2) by simp
  qed
qed simp

lemma turn_part_Ret:
  assumes "turn_part c h rest s = Ret s'"
  shows "(\<not> c \<and> rest s = Ret s') \<or> (\<exists>r s1. c \<and> h s = Ret (r, s1) \<and> (r \<le> 0 \<and> s' = s1 \<or> 0 < r \<and> rest s1 = Ret s'))"
  using assms by (auto simp: turn_part_def run_bind_Ret_conv split: if_splits)

lemma icmpd_turn_inv:
  assumes "ic_inv base sz s" and "icmpd_turn x s = Ret s'"
    and "\<And>fd. new_conn x = Some fd \<Longrightarrow> 0 \<le> fd \<and> fd \<notin> allset s"
  shows "ic_inv base sz s'"
proof -
  have serve: "ic_inv base sz t'" if "ic_inv base sz t" "serve_conns x 0 (nat (maxi t + 1)) t = Ret t'" for t t'
  proof (rule serve_conns_inv [OF that(1) _ that(2)])
    have "maxi t < int sz" using that(1) unfolding ic_inv_def by blast
    then show "0 + nat (maxi t + 1) \<le> sz" by simp
  qed
  have v6: "ic_inv base sz t'" if i: "ic_inv base sz t"
    and "turn_part c (readable_v6 x) (\<lambda>s1. serve_conns x 0 (nat (maxi s1 + 1)) s1) t = Ret t'" for c t t'
    using turn_part_Ret [OF that(2)] serve i same_table_inv [OF readable_v6_table i] by blast
  have v4: "ic_inv base sz t'" if i: "ic_inv base sz t"
    and "turn_part c (readable_v4 x) (turn_part d (readable_v6 x) (\<lambda>s1. serve_conns x 0 (nat (maxi s1 + 1)) s1)) t = Ret t'"
    for c d t t'
    using turn_part_Ret [OF that(2)] v6 i same_table_inv [OF readable_v4_table i] by blast
  show ?thesis
    using turn_part_Ret [OF assms(2) [unfolded icmpd_turn_def]] v4 assms(1)
      readable_listen_inv [OF assms(1) _ assms(3)] by blast
qed

lemma icmpd_init_inv:
  assumes "0 \<le> f4" and "0 \<le> f6" and "0 \<le> l"
  shows "ic_inv {f4, f6, l} FD_SETSIZE (icmpd_init f4 f6 l)"
  using assms by (auto simp: ic_inv_def icmpd_init_def ic_fds_def ic_live_def uniq_fds_def)

lemma icmpd_run_inv:
  assumes "icmpd_run f4 f6 l s" and "0 \<le> f4" and "0 \<le> f6" and "0 \<le> l"
  shows "ic_inv {f4, f6, l} FD_SETSIZE s"
  using assms(1)
proof induction
  case start
  show ?case by (rule icmpd_init_inv [OF assms(2-4)])
next
  case (turn s x s')
  let ?t = "s\<lparr>nready := int (card (rset x))\<rparr>"
  have "same_table s ?t" by simp
  then have "ic_inv {f4, f6, l} FD_SETSIZE ?t" using turn.IH by (rule same_table_inv)
  then show ?case
  proof (rule icmpd_turn_inv [OF _ turn.hyps(5)])
    show "0 \<le> fd \<and> fd \<notin> allset ?t" if "new_conn x = Some fd" for fd using turn.hyps(4) that by simp
  qed
qed

section \<open>Who gets an error\<close>

definition registered :: "int \<Rightarrow> u16 \<Rightarrow> ic_client \<Rightarrow> bool" where
  "registered fam sport c \<longleftrightarrow> connfd c \<ge> 0 \<and> family c = fam \<and> lport c = uint sport"

lemma pass_errors_acts:
  assumes "\<And>fd. write_ok x fd"
  shows "i + m \<le> length (client s) \<Longrightarrow> pass_errors x fam sport err i m s =
    Ret (s\<lparr>acts := acts s @ map (\<lambda>c. PassError (connfd c) err) (filter (registered fam sport) (take m (drop i (client s))))\<rparr>)"
proof (induction m arbitrary: i s)
  case (Suc m)
  have d: "take (Suc m) (drop i (client s)) = client s ! i # take m (drop (Suc i) (client s))"
    using Suc.prems by (simp add: take_Suc_conv_app_nth flip: Cons_nth_drop_Suc)
  let ?s = "do_act (PassError (connfd (client s ! i)) err) s"
  have "Suc i + m \<le> length (client s)" "Suc i + m \<le> length (client ?s)" using Suc.prems by simp_all
  note IH = Suc.IH [OF this(1)] Suc.IH [OF this(2)]
  show ?case unfolding d using IH assms
    by (simp add: Let_def registered_def ic_Write_def do_act_def)
qed simp

text \<open>The entries above \<open>maxi\<close> are free, so the whole table is searched.\<close>

lemma registered_take:
  assumes "ic_inv base sz s"
  shows "filter (registered fam sport) (take (nat (maxi s + 1)) (client s)) = filter (registered fam sport) (client s)"
proof -
  let ?n = "nat (maxi s + 1)"
  have "\<not> registered fam sport c" if c: "c \<in> set (drop ?n (client s))" for c
  proof -
    obtain j where j: "?n + j < length (client s)" "c = client s ! (?n + j)"
      using c by (auto simp: in_set_conv_nth less_diff_conv add.commute)
    have "ic_fds s ! (?n + j) < 0" using assms j(1) unfolding ic_inv_def by auto
    then show ?thesis using j by (simp add: registered_def ic_fds_def)
  qed
  then have "filter (registered fam sport) (drop ?n (client s)) = []" by (simp add: filter_empty_conv)
  then show ?thesis by (metis append.right_neutral append_take_drop_id filter_append)
qed

text \<open>The offsets of the quoted IP and UDP headers, and the error record made from the message.\<close>

definition hip_v4 :: "byte list \<Rightarrow> nat" where
  "hip_v4 pkt = 4 * ip_hl pkt 0 + 8"

definition udp_v4 :: "byte list \<Rightarrow> nat" where
  "udp_v4 pkt = hip_v4 pkt + 4 * ip_hl pkt (hip_v4 pkt)"

definition quotes_udp_v4 :: "byte list \<Rightarrow> bool" where
  "quotes_udp_v4 pkt \<longleftrightarrow> icmp_type pkt (4 * ip_hl pkt 0) \<in> {ICMP_UNREACH, ICMP_TIMXCEED, ICMP_SOURCEQUENCH} \<and>
     hip_v4 pkt + 28 \<le> length pkt \<and> udp_v4 pkt + 4 \<le> length pkt \<and> ip_p pkt (hip_v4 pkt) = IPPROTO_UDP"

definition error_v4 :: "byte list \<Rightarrow> icmpd_err" where
  "error_v4 pkt =
     (let h = 4 * ip_hl pkt 0
      in \<lparr>icmpd_errno = errno_v4 (icmp_type pkt h) (icmp_code pkt h), icmpd_type = of_nat (icmp_type pkt h),
        icmpd_code = of_nat (icmp_code pkt h), icmpd_len = 16,
        icmpd_dest = SaIn (uh_dport pkt (udp_v4 pkt)) (ip_dst pkt (hip_v4 pkt))\<rparr>)"

lemma ip_dst_same: "same_upto n b1 b2 \<Longrightarrow> p + 20 \<le> n \<Longrightarrow> ip_dst b1 p = ip_dst b2 p"
  by (simp add: ip_dst_def same_upto_def)

lemma readable_v4_quoted:
  assumes "quotes_udp_v4 (pkt4 x)" and "length (pkt4 x) \<le> length (junk x)"
  shows "readable_v4 x s =
    run_bind (pass_errors x AF_INET (uh_sport (pkt4 x) (udp_v4 (pkt4 x))) (error_v4 (pkt4 x)) 0 (nat (maxi s + 1)) s)
      (\<lambda>s1. Ret (dec_ready s1))"
proof -
  let ?p = "pkt4 x" and ?b = "store (junk x) (pkt4 x)"
  note S = same_upto_store [OF assms(2)]
  have l: "hip_v4 ?p + 28 \<le> length ?p" "udp_v4 ?p + 4 \<le> length ?p" using assms(1) by (simp_all add: quotes_udp_v4_def)
  have "0 < length ?p" using l by linarith
  then have h: "ip_hl ?b 0 = ip_hl ?p 0" using same_upto_u8 [OF S] by (simp add: ip_hl_def)
  have f: "icmp_type ?b (4 * ip_hl ?p 0) = icmp_type ?p (4 * ip_hl ?p 0)"
    "icmp_code ?b (4 * ip_hl ?p 0) = icmp_code ?p (4 * ip_hl ?p 0)"
    "ip_hl ?b (hip_v4 ?p) = ip_hl ?p (hip_v4 ?p)" "ip_p ?b (hip_v4 ?p) = ip_p ?p (hip_v4 ?p)"
    "ip_dst ?b (hip_v4 ?p) = ip_dst ?p (hip_v4 ?p)"
    using same_upto_u8 [OF S] ip_dst_same [OF S] l by (simp_all add: header_defs hip_v4_def)
  have g: "uh_sport ?b (udp_v4 ?p) = uh_sport ?p (udp_v4 ?p)" "uh_dport ?b (udp_v4 ?p) = uh_dport ?p (udp_v4 ?p)"
    using same_upto_u16 [OF S] l by (simp_all add: uh_sport_def uh_dport_def)
  have n: "stored (junk x) ?p = length ?p" using assms(2) by (simp add: stored_def)
  have e: "4 * ip_hl ?p 0 + 8 = hip_v4 ?p" "hip_v4 ?p + 4 * ip_hl ?p (hip_v4 ?p) = udp_v4 ?p"
    by (simp_all add: udp_v4_def hip_v4_def)
  have i: "\<not> int (length ?p) - int (4 * ip_hl ?p 0) < 8" "\<not> int (length ?p) - int (4 * ip_hl ?p 0) < 8 + 20 + 8"
    using l(1) by (simp_all add: hip_v4_def)
  have q: "icmp_type ?p (4 * ip_hl ?p 0) = ICMP_UNREACH \<or> icmp_type ?p (4 * ip_hl ?p 0) = ICMP_TIMXCEED \<or>
      icmp_type ?p (4 * ip_hl ?p 0) = ICMP_SOURCEQUENCH" "ip_p ?p (hip_v4 ?p) = IPPROTO_UDP"
    using assms(1) by (auto simp: quotes_udp_v4_def)
  show ?thesis
    unfolding readable_v4_def Let_def h f(1,2) n e(1) f(3) e(2) f(4,5) g error_v4_def
    using i q by simp
qed

lemma readable_v4_result:
  assumes "ic_inv base sz s" and "quotes_udp_v4 (pkt4 x)" and "length (pkt4 x) \<le> length (junk x)"
    and "\<And>fd. write_ok x fd"
  shows "readable_v4 x s = Ret (nready s - 1, s\<lparr>acts := acts s @
    map (\<lambda>c. PassError (connfd c) (error_v4 (pkt4 x)))
      (filter (registered AF_INET (uh_sport (pkt4 x) (udp_v4 (pkt4 x)))) (client s)), nready := nready s - 1\<rparr>)"
proof -
  have "0 + nat (maxi s + 1) \<le> length (client s)" using assms(1) unfolding ic_inv_def by auto
  then show ?thesis unfolding readable_v4_quoted [OF assms(2,3)]
    using pass_errors_acts [OF assms(4), where i = 0] registered_take [OF assms(1)]
    by (simp add: dec_ready_def)
qed

text \<open>What \<open>readable_v6\<close> makes of the buffer \<open>b\<close>, with the quoted headers at 8 and 48.\<close>

definition error_v6 :: "byte list \<Rightarrow> icmpd_err" where
  "error_v6 b =
     \<lparr>icmpd_errno = errno_v6 (icmp_type b 0) (icmp_code b 0), icmpd_type = of_nat (icmp_type b 0),
      icmpd_code = of_nat (icmp_code b 0), icmpd_len = 28, icmpd_dest = SaIn6 (uh_dport b 48) (ip6_dst b 8)\<rparr>"

lemma readable_v6_quoted:
  assumes "16 \<le> stored (junk x) (pkt6 x)" and "ip6_nxt (store (junk x) (pkt6 x)) 8 = IPPROTO_UDP"
    and "icmp_type (store (junk x) (pkt6 x)) 0 \<in> {ICMP6_DST_UNREACH, ICMP6_PACKET_TOO_BIG, ICMP6_TIME_EXCEEDED}"
  shows "readable_v6 x s =
    run_bind (pass_errors x AF_INET6 (uh_sport (store (junk x) (pkt6 x)) 48) (error_v6 (store (junk x) (pkt6 x))) 0 (nat (maxi s + 1)) s)
      (\<lambda>s1. Ret (dec_ready s1))"
  unfolding readable_v6_def Let_def error_v6_def using assms by auto

text \<open>A slot that is freed and taken again keeps its registration.\<close>

lemma client_done_slot:
  assumes "client_done i ufd rfd s = Ret (r, s')"
  shows "client s' = (client s)[i := (client s ! i)\<lparr>connfd := -1\<rparr>]"
  using assms by (auto simp: client_done_def Let_def dec_ready_def set_client_def)

lemma readable_listen_slot:
  assumes "readable_listen x s = Ret (r, s')" and "new_conn x = Some fd" and "i < length (client s)"
    and "connfd (client s ! i) < 0" and "\<forall>j < i. 0 \<le> connfd (client s ! j)"
  shows "client s' = (client s)[i := (client s ! i)\<lparr>connfd := fd\<rparr>]"
proof -
  have "free_client 0 (length (client s)) (client s) = Some i"
  proof (cases "free_client 0 (length (client s)) (client s)")
    case None
    then show ?thesis using free_client_None [OF None, of i] assms(3,4) by simp
  next
    case (Some k)
    from free_client_Some [OF Some] assms(4,5) have "k = i" by (metis le0 linorder_neqE_nat not_less)
    with Some show ?thesis by simp
  qed
  with assms(1,2) show ?thesis by (auto simp: readable_listen_def dec_ready_def Let_def set_client_def)
qed

lemma u16_at_bytes: "byte_at buf i = ucast (p :: u16) \<Longrightarrow> byte_at buf (i + 1) = ucast (drop_bit 8 p) \<Longrightarrow> u16_at buf i = p"
proof -
  have e: "8 + (n - 8) = n" if "8 \<le> n" for n :: nat using that by simp
  have "ucast (ucast p :: byte) OR push_bit 8 (ucast (ucast (drop_bit 8 p) :: byte)) = p"
    by (rule bit_word_eqI) (auto simp: bit_or_iff bit_push_bit_iff bit_ucast_iff bit_drop_bit_eq e dest: bit_u16_high)
  then show "byte_at buf i = ucast p \<Longrightarrow> byte_at buf (i + 1) = ucast (drop_bit 8 p) \<Longrightarrow> u16_at buf i = p"
    by (simp add: u16_at_def)
qed

section \<open>Properties\<close>

text \<open>
  C28: at every turn of the daemon the set given to \<open>select\<close> consists of its own three descriptors
  and of the connections in the client table, no connection is in two slots or shares a number
  with the three, and \<open>maxfd\<close> and \<open>maxi\<close> bound the descriptors and the slots in use; this holds
  whatever the clients and the network send.
\<close>
theorem icmpd_reachable_inv:
  assumes "icmpd_run f4 f6 l s" and "0 \<le> f4" and "0 \<le> f6" and "0 \<le> l"
  shows "ic_inv {f4, f6, l} FD_SETSIZE s"
  by (rule icmpd_run_inv [OF assms])

text \<open>
  An ICMPv4 error that quotes the header of a UDP datagram is passed to every client that has
  registered the source port of that datagram for IPv4, once and in slot order, and to nobody
  else; the record carries the destination of the datagram and depends on the message only.
\<close>
lemma readable_v4_delivers:
  assumes "ic_inv base sz s" and "quotes_udp_v4 (pkt4 x)" and "length (pkt4 x) \<le> length (junk x)"
    and "\<And>fd. write_ok x fd"
  shows "readable_v4 x s = Ret (nready s - 1, s\<lparr>acts := acts s @
    map (\<lambda>c. PassError (connfd c) (error_v4 (pkt4 x)))
      (filter (registered AF_INET (uh_sport (pkt4 x) (udp_v4 (pkt4 x)))) (client s)), nready := nready s - 1\<rparr>)"
  by (rule readable_v4_result [OF assms])

definition ic_demo_in :: "rmsg \<Rightarrow> byte list \<Rightarrow> byte list \<Rightarrow> ic_in" where
  "ic_demo_in msg p4 p6 = \<lparr>rset = {}, new_conn = Some 7, pkt4 = p4, pkt6 = p6, junk = replicate MAXLINE 0,
     conns = (\<lambda>_. \<lparr>ic_msg = msg, ic_name = Some (SaIn 0x3930 [10, 0, 0, 1]), ic_bind = True, ic_port = None\<rparr>),
     write_ok = (\<lambda>_. True)\<rparr>"

text \<open>A port unreachable message about a datagram from port 12345 to port 53 of 10.0.0.2.\<close>

definition ic_demo_pkt :: "byte list" where
  "ic_demo_pkt = [0x45, 0, 0, 0, 0, 0, 0, 0, 0, 1, 0, 0, 0, 0, 0, 0, 0, 0, 0, 0, 3, 3, 0, 0, 0, 0, 0, 0,
     0x45, 0, 0, 0, 0, 0, 0, 0, 0, 17, 0, 0, 0, 0, 0, 0, 10, 0, 0, 2, 0x30, 0x39, 0, 53, 0, 0, 0, 0]"

text \<open>One client, on descriptor 7, that has registered port 12345.\<close>

definition ic_demo :: icmpd where
  "ic_demo = (icmpd_init 3 4 5)\<lparr>client := \<lparr>connfd = 7, family = AF_INET, lport = 0x3930\<rparr> #
     replicate (FD_SETSIZE - 1) \<lparr>connfd = -1, family = 0, lport = 0\<rparr>, maxi := 0, maxfd := 7, allset := {3, 4, 5, 7}, nready := 1\<rparr>"

lemma replicate_fds: "FD_SETSIZE = Suc (FD_SETSIZE - 1)"
  by (simp add: FD_SETSIZE_def)

lemma uniq_fds_one: "uniq_fds (fd # replicate n (-1))"
  unfolding uniq_fds_def
proof (intro allI impI, elim conjE)
  fix i j
  assume "i < length (fd # replicate n (-1))" "j < length (fd # replicate n (-1))"
    "0 \<le> (fd # replicate n (-1)) ! i" "(fd # replicate n (-1)) ! i = (fd # replicate n (-1)) ! j"
  then show "i = j" by (cases i; cases j) auto
qed

lemma ic_demo_inv: "ic_inv {3, 4, 5} FD_SETSIZE ic_demo"
proof -
  have f: "ic_fds ic_demo = 7 # replicate (FD_SETSIZE - 1) (-1)" by (simp add: ic_demo_def ic_fds_def)
  have l: "ic_live ic_demo = {7}" by (auto simp: ic_live_def f)
  have "ic_fds ic_demo ! j < 0" if "j < FD_SETSIZE" "0 < j" for j
    using that unfolding f by (cases j) auto
  then show ?thesis using uniq_fds_one [of 7 "FD_SETSIZE - 1"] replicate_fds
    unfolding ic_inv_def l f by (auto simp: ic_demo_def icmpd_init_def)
qed

lemma ic_demo_quotes: "quotes_udp_v4 ic_demo_pkt" "uh_sport ic_demo_pkt (udp_v4 ic_demo_pkt) = 0x3930"
  by (simp_all add: quotes_udp_v4_def hip_v4_def udp_v4_def ic_demo_pkt_def header_defs u8_at_def u16_at_def
      byte_at_def icmp_consts)

theorem icmpd_reachable_inv_witness:
  "ic_inv {3, 4, 5} FD_SETSIZE (icmpd_init 3 4 5)"
  by (rule icmpd_reachable_inv [OF icmpd_run.start]) simp_all

lemma readable_v4_delivers_witness:
  "\<exists>s'. readable_v4 (ic_demo_in RmEof ic_demo_pkt []) ic_demo = Ret (0, s') \<and>
     acts s' = [PassError 7 (error_v4 ic_demo_pkt)]"
proof -
  let ?x = "ic_demo_in RmEof ic_demo_pkt []"
  have p: "pkt4 ?x = ic_demo_pkt" "length ic_demo_pkt \<le> length (junk ?x)"
    by (simp_all add: ic_demo_in_def ic_demo_pkt_def MAXLINE_def)
  have r: "filter (registered AF_INET 0x3930) (client ic_demo) = [\<lparr>connfd = 7, family = AF_INET, lport = 0x3930\<rparr>]"
    by (simp add: ic_demo_def registered_def)
  show ?thesis
    using readable_v4_delivers [OF ic_demo_inv, of ?x] p ic_demo_quotes r
    by (simp add: ic_demo_in_def) (simp add: ic_demo_def icmpd_init_def)
qed

text \<open>
  A client that has registered nothing can be told of the errors of another one: the slot of
  a client that has gone keeps its family and port, and the next connection that gets the slot
  receives the ICMP errors for that port.
\<close>
lemma icmpd_stale_registration:
  assumes "ic_inv base sz s" and "i < sz" and "registered AF_INET (uh_sport (pkt4 y) (udp_v4 (pkt4 y))) (client s ! i)"
    and "\<forall>j < i. 0 \<le> connfd (client s ! j)" and "client_done i (connfd (client s ! i)) (-1) s = Ret (r1, s1)"
    and "readable_listen x s1 = Ret (r2, s2)" and "new_conn x = Some fd" and "0 \<le> fd" and "fd \<notin> allset s1"
    and "quotes_udp_v4 (pkt4 y)" and "length (pkt4 y) \<le> length (junk y)" and "\<And>fd. write_ok y fd"
  shows "\<exists>r3 s3. readable_v4 y s2 = Ret (r3, s3) \<and> PassError fd (error_v4 (pkt4 y)) \<in> set (acts s3)"
proof -
  have fds: "connfd (client s ! i) = ic_fds s ! i" "i < length (client s)" using assms(1,2) by (simp_all add: ic_inv_def ic_fds_def)
  have live: "0 \<le> ic_fds s ! i" using assms(3) fds(1) by (simp add: registered_def)
  have inv1: "ic_inv base sz s1"
    by (rule client_done_inv [OF assms(1,2) live]) (use assms(5) fds(1) in simp)
  have inv2: "ic_inv base sz s2" by (rule readable_listen_inv [OF inv1 assms(6)]) (use assms(7-9) in auto)
  note c1 = client_done_slot [OF assms(5)]
  have "client s2 = (client s1)[i := (client s1 ! i)\<lparr>connfd := fd\<rparr>]"
    by (rule readable_listen_slot [OF assms(6,7)]) (use c1 fds(2) assms(4) in \<open>auto simp: nth_list_update\<close>)
  then have "client s2 ! i = (client s ! i)\<lparr>connfd := fd\<rparr>" "client s2 ! i \<in> set (client s2)"
    using c1 fds(2) by (simp_all add: set_update_memI)
  moreover from this have "registered AF_INET (uh_sport (pkt4 y) (udp_v4 (pkt4 y))) (client s2 ! i)"
    using assms(3,8) by (simp add: registered_def)
  ultimately show ?thesis
    by (subst readable_v4_result [OF inv2 assms(10,11,12)]) (force intro!: image_eqI [of _ _ "client s2 ! i"])
qed

lemma icmpd_stale_registration_witness:
  "\<exists>s1 s2 s3 r1 r2 r3. client_done 0 7 (-1) ic_demo = Ret (r1, s1) \<and>
     readable_listen (ic_demo_in RmEof [] []) s1 = Ret (r2, s2) \<and>
     readable_v4 (ic_demo_in RmEof ic_demo_pkt []) s2 = Ret (r3, s3) \<and> PassError 7 (error_v4 ic_demo_pkt) \<in> set (acts s3)"
proof -
  let ?x = "ic_demo_in RmEof [] []" and ?y = "ic_demo_in RmEof ic_demo_pkt []"
  obtain r1 s1 where d: "client_done 0 7 (-1) ic_demo = Ret (r1, s1)" and a: "7 \<notin> allset s1"
    by (simp add: client_done_def Let_def dec_ready_def)
  obtain r2 s2 where l: "readable_listen ?x s1 = Ret (r2, s2)"
    by (cases "free_client 0 (length (client s1)) (client s1)")
      (auto simp: readable_listen_def ic_demo_in_def dec_ready_def Let_def)
  have y: "pkt4 ?y = ic_demo_pkt" "length (pkt4 ?y) \<le> length (junk ?y)" "\<And>fd. write_ok ?y fd"
    by (simp_all add: ic_demo_in_def ic_demo_pkt_def MAXLINE_def)
  have "\<exists>r3 s3. readable_v4 ?y s2 = Ret (r3, s3) \<and> PassError 7 (error_v4 (pkt4 ?y)) \<in> set (acts s3)"
    by (rule icmpd_stale_registration [OF ic_demo_inv, where i = 0 and x = ?x])
      (use d l a y ic_demo_quotes in \<open>auto simp: ic_demo_def registered_def ic_demo_in_def FD_SETSIZE_def\<close>)
  with d l show ?thesis unfolding y(1) by blast
qed

text \<open>
  C40: \<open>readable_v6\<close> checks for 16 bytes and reads 52: whatever port a client has registered for
  IPv6, some old contents of the buffer make it the addressee of an error message that is too
  short to hold a port.
\<close>
lemma readable_v6_uninitialised:
  assumes "ic_inv base sz s" and "length (pkt6 x) = 16"
    and "icmp_type (pkt6 x) 0 = ICMP6_DST_UNREACH" and "ip6_nxt (pkt6 x) 8 = IPPROTO_UDP"
    and "registered AF_INET6 p c" and "c \<in> set (client s)" and "\<And>fd. write_ok x fd"
  shows "\<exists>j. length j = MAXLINE \<and> (\<exists>r s' err. readable_v6 (x\<lparr>junk := j\<rparr>) s = Ret (r, s') \<and>
    PassError (connfd c) err \<in> set (acts s'))"
proof -
  define j :: "byte list" where "j = replicate 48 0 @ [ucast p, ucast (drop_bit 8 p)] @ replicate (MAXLINE - 50) 0"
  let ?b = "store j (pkt6 x)"
  have j: "length j = MAXLINE" by (simp add: j_def MAXLINE_def)
  have S: "same_upto 16 ?b (pkt6 x)" using same_upto_store [of "pkt6 x" j] assms(2) j by (simp add: MAXLINE_def)
  have f: "icmp_type ?b 0 = ICMP6_DST_UNREACH" "ip6_nxt ?b 8 = IPPROTO_UDP" "stored j (pkt6 x) = 16"
    using same_upto_u8 [OF S] assms(2-4) j by (simp_all add: icmp_type_def ip6_nxt_def stored_def MAXLINE_def)
  have "byte_at ?b 48 = ucast p" "byte_at ?b (48 + 1) = ucast (drop_bit 8 p)"
    using assms(2) by (simp_all add: byte_at_def store_def nth_append j_def MAXLINE_def)
  then have sp: "uh_sport ?b 48 = p" unfolding uh_sport_def by (rule u16_at_bytes)
  have n: "0 + nat (maxi s + 1) \<le> length (client s)" using assms(1) unfolding ic_inv_def by auto
  have "c \<in> set (filter (registered AF_INET6 p) (take (nat (maxi s + 1)) (client s)))"
    unfolding registered_take [OF assms(1)] using assms(5,6) by simp
  then have m: "PassError (connfd c) err \<in> (\<lambda>c. PassError (connfd c) err) ` {c \<in> set (take (nat (maxi s + 1)) (client s)). registered AF_INET6 p c}" for err
    by auto
  have w: "write_ok (x\<lparr>junk := j\<rparr>) fd" for fd using assms(7) by simp
  have "readable_v6 (x\<lparr>junk := j\<rparr>) s =
      run_bind (pass_errors (x\<lparr>junk := j\<rparr>) AF_INET6 p (error_v6 ?b) 0 (nat (maxi s + 1)) s) (\<lambda>s1. Ret (dec_ready s1))"
    using readable_v6_quoted [of "x\<lparr>junk := j\<rparr>" s] f sp by simp
  then show ?thesis using j m [of "error_v6 ?b"] pass_errors_acts [where i = 0, OF w n]
    by (intro exI [of _ j]) (auto simp: dec_ready_def)
qed

lemma readable_v6_uninitialised_witness:
  "\<exists>j r s' err. readable_v6 ((ic_demo_in RmEof [] ([1, 4, 0, 0, 0, 0, 0, 0, 0, 0, 0, 0, 0, 0, 17, 0]))\<lparr>junk := j\<rparr>)
     (ic_demo\<lparr>client := (client ic_demo)[0 := \<lparr>connfd = 7, family = AF_INET6, lport = 0x3930\<rparr>]\<rparr>) = Ret (r, s') \<and>
     PassError 7 err \<in> set (acts s')"
proof -
  let ?s = "ic_demo\<lparr>client := (client ic_demo)[0 := \<lparr>connfd = 7, family = AF_INET6, lport = 0x3930\<rparr>]\<rparr>"
  let ?x = "ic_demo_in RmEof [] ([1, 4, 0, 0, 0, 0, 0, 0, 0, 0, 0, 0, 0, 0, 17, 0])"
  have "ic_fds ?s = ic_fds ic_demo" by (simp add: ic_fds_def ic_demo_def)
  then have "same_table ic_demo ?s" by (simp add: same_table_def)
  then have i: "ic_inv {3, 4, 5} FD_SETSIZE ?s" using ic_demo_inv by (rule same_table_inv)
  show ?thesis
    using readable_v6_uninitialised [OF i, where x = ?x and p = "0x3930" and
      c = "\<lparr>connfd = 7, family = AF_INET6, lport = 0x3930\<rparr>"]
    by (auto simp: ic_demo_in_def icmp_type_def ip6_nxt_def u8_at_def byte_at_def icmp_consts registered_def ic_demo_def)
qed

end
