(* ===== verification/Checksum.thy ===== *)
theory Checksum
  imports Packet
begin

text \<open>
  The Internet checksum: \<open>in_cksum\<close> of \<open>libfree/in_cksum.c\<close> and of \<open>ping/bsdping.c\<close>.
\<close>

section \<open>The routine\<close>

text \<open>The 16-bit word the little-endian CPU reads from two bytes.\<close>

definition le16 :: "byte \<Rightarrow> byte \<Rightarrow> u16" where
  "le16 a b = ucast a OR push_bit 8 (ucast b)"

text \<open>The two loops, with the odd byte at the end as the low half of a word.\<close>

fun cksum_loop :: "byte list \<Rightarrow> u32 \<Rightarrow> u32" where
  "cksum_loop (a # b # bs) acc = cksum_loop bs (acc + ucast (le16 a b))"
| "cksum_loop [a] acc = acc + ucast (le16 a 0)"
| "cksum_loop [] acc = acc"

definition in_cksum :: "byte list \<Rightarrow> u16" where
  "in_cksum bs =
     (let acc = cksum_loop bs 0;
          acc1 = drop_bit 16 acc + (acc AND 0xffff);
          acc2 = acc1 + drop_bit 16 acc1
      in ucast (NOT acc2))"

text \<open>The copy in \<open>bsdping.c\<close> accumulates in an \<open>int\<close>: the shifts are arithmetic.\<close>

definition bsd_in_cksum :: "byte list \<Rightarrow> u16" where
  "bsd_in_cksum bs =
     (let acc = cksum_loop bs 0;
          acc1 = signed_drop_bit 16 acc + (acc AND 0xffff);
          acc2 = acc1 + signed_drop_bit 16 acc1
      in ucast (NOT acc2))"

section \<open>One's complement sums\<close>

text \<open>The same sum in unbounded arithmetic, and the fold of the carries.\<close>

fun wsum :: "byte list \<Rightarrow> nat" where
  "wsum (a # b # bs) = unat a + 256 * unat b + wsum bs"
| "wsum [a] = unat a"
| "wsum [] = 0"

definition fold16 :: "nat \<Rightarrow> nat" where
  "fold16 s = (let s1 = s div 65536 + s mod 65536 in s1 div 65536 + s1 mod 65536)"

lemma unat_u16_less: "unat (w :: u16) < 65536"
  using unsigned_less [of w] by simp

lemma unat_ucast_wider:
  "unat (ucast (a :: byte) :: u16) = unat a" "unat (ucast (w :: u16) :: u32) = unat w"
  using unat_byte_less [of a] unat_u16_less [of w] by (simp_all add: unsigned_ucast_eq take_bit_nat_eq_self_iff)

lemma unat_le16: "unat (le16 a b) = unat a + 256 * unat b"
proof -
  have "le16 a b = ucast a + push_bit 8 (ucast b)" unfolding le16_def
    by (rule disjunctive_add [symmetric]) (auto simp: bit_ucast_iff bit_push_bit_iff dest: bit_byte_high)
  then show ?thesis using unat_byte_less [of a] unat_byte_less [of b]
    by (simp add: unat_word_ariths push_bit_eq_mult unat_ucast_wider)
qed

lemma wsum_bound: "wsum bs \<le> 65535 * ((length bs + 1) div 2)"
proof (induction bs rule: wsum.induct)
  case (1 a b bs)
  have "unat a \<le> 255" "unat b \<le> 255" by (rule unat_byte_le)+
  then have "unat a + 256 * unat b \<le> 65535" by linarith
  moreover have "(length (a # b # bs) + 1) div 2 = Suc ((length bs + 1) div 2)" by simp
  ultimately show ?case using 1 by simp
next
  case (2 a)
  have "unat a \<le> 255" by (rule unat_byte_le)
  then have "unat a \<le> 65535" by linarith
  then show ?case by simp
qed simp

lemma cksum_loop_wsum: "unat acc + wsum bs < 2 ^ 32 \<Longrightarrow> unat (cksum_loop bs acc) = unat acc + wsum bs"
proof (induction bs acc rule: cksum_loop.induct)
  case (1 a b bs acc)
  have u: "unat (ucast (le16 a b) :: u32) = unat a + 256 * unat b"
    by (simp add: unat_ucast_wider unat_le16)
  then have "unat (acc + ucast (le16 a b)) = unat acc + (unat a + 256 * unat b)"
    using 1(2) by (simp add: unat_word_ariths)
  with 1 show ?case by simp
next
  case (2 a acc)
  have u: "unat (ucast (le16 a 0) :: u32) = unat a"
    by (simp add: unat_ucast_wider unat_le16)
  then show ?case using 2 by (simp add: unat_word_ariths)
qed simp

text \<open>Any length an IP packet can have keeps the 32-bit sum from wrapping.\<close>

lemma cksum_loop_0:
  assumes "length bs < 2 ^ 17"
  shows "unat (cksum_loop bs 0) = wsum bs" and "wsum bs < 2 ^ 32"
proof -
  have "(length bs + 1) div 2 \<le> 2 ^ 16" using assms by simp
  then have "65535 * ((length bs + 1) div 2) \<le> 65535 * 2 ^ 16" by (rule mult_le_mono2)
  also have "65535 * 2 ^ 16 < (2 ^ 32 :: nat)" by simp
  finally show b: "wsum bs < 2 ^ 32" using wsum_bound [of bs] by linarith
  then show "unat (cksum_loop bs 0) = wsum bs" using cksum_loop_wsum [of 0 bs] by simp
qed

lemma fold_step_le: "(s :: nat) < 2 ^ 32 \<Longrightarrow> s div 65536 + s mod 65536 \<le> 131070"
proof -
  assume "s < 2 ^ 32"
  then have "s div 65536 \<le> 65535" by simp
  then show ?thesis using mod_less_divisor [of 65536 s] by linarith
qed

lemma fold_step_0: "(s :: nat) div 65536 + s mod 65536 = 0 \<longleftrightarrow> s = 0"
  using div_mult_mod_eq [of s 65536] by auto

lemma fold16_bound:
  assumes "s < 2 ^ 32"
  shows "fold16 s \<le> 65535" and "fold16 s mod 65535 = s mod 65535" and "fold16 s = 0 \<longleftrightarrow> s = 0"
proof -
  define s1 where "s1 = s div 65536 + s mod 65536"
  have s1: "s1 \<le> 131070" unfolding s1_def by (rule fold_step_le [OF assms])
  have f: "fold16 s = s1 div 65536 + s1 mod 65536" by (simp add: fold16_def s1_def Let_def)
  show "fold16 s \<le> 65535"
  proof (cases "s1 < 65536")
    case True
    then show ?thesis by (simp add: f)
  next
    case False
    then have "s1 div 65536 = 1" "s1 mod 65536 = s1 - 65536" using s1 by (simp_all add: div_nat_eqI mod_if)
    then show ?thesis using s1 by (simp add: f)
  qed
  have c: "(x div 65536 + x mod 65536) mod 65535 = x mod 65535" for x :: nat
  proof -
    have "x = 65535 * (x div 65536) + (x div 65536 + x mod 65536)" using div_mult_mod_eq [of x 65536] by linarith
    then have "x mod 65535 = (65535 * (x div 65536) + (x div 65536 + x mod 65536)) mod 65535" by (rule arg_cong)
    then show ?thesis by (simp only: mod_mult_self4)
  qed
  show "fold16 s mod 65535 = s mod 65535" unfolding f c by (simp add: s1_def c)
  show "fold16 s = 0 \<longleftrightarrow> s = 0"
    unfolding f fold_step_0 unfolding s1_def by (rule fold_step_0)
qed

lemma unat_and_mask16: "unat (w AND 0xffff :: u32) = unat w mod 65536"
proof -
  have "(0xffff :: u32) = mask 16" by (simp add: mask_eq_exp_minus_1)
  then have "w AND 0xffff = take_bit 16 w" by (simp add: take_bit_eq_mask)
  then have "w AND 0xffff = w mod 65536" by (simp add: take_bit_eq_mod)
  then show ?thesis by (simp add: unat_mod_distrib)
qed

lemma unat_drop16: "unat (drop_bit 16 w :: u32) = unat w div 65536"
  by (simp add: drop_bit_eq_div unat_div_distrib)

lemma ucast_not16: "(ucast (NOT (w :: u32)) :: u16) = NOT (ucast w)"
  by (rule bit_word_eqI) (simp add: bit_ucast_iff bit_not_iff)

lemma unat_not16: "unat (NOT (w :: u16)) = 65535 - unat w"
proof -
  have "NOT w = -1 - w" by (simp add: not_eq_complement)
  moreover have "unat (-1 :: u16) = 65535" by (simp add: unsigned_minus_1_eq_mask mask_eq_exp_minus_1)
  ultimately show ?thesis using unat_sub [of w "-1"] by (simp add: word_order.extremum)
qed

lemma in_cksum_fold:
  assumes "length bs < 2 ^ 17"
  shows "unat (in_cksum bs) = 65535 - fold16 (wsum bs)"
proof -
  define s where "s = cksum_loop bs 0"
  have us: "unat s = wsum bs" and sb: "wsum bs < 2 ^ 32" using cksum_loop_0 [OF assms] by (simp_all add: s_def)
  define s1 where "s1 = drop_bit 16 s + (s AND 0xffff)"
  have "unat s div 65536 + unat s mod 65536 < 2 ^ 32"
    using sb us mod_less_divisor [of 65536 "unat s"] by (simp add: us)
  then have u1: "unat s1 = unat s div 65536 + unat s mod 65536"
    unfolding s1_def by (simp add: unat_word_ariths unat_drop16 unat_and_mask16)
  define s2 where "s2 = s1 + drop_bit 16 s1"
  have l1: "unat s1 \<le> 131070" unfolding u1 us by (rule fold_step_le [OF sb])
  have "unat s1 div 65536 \<le> 1" using l1 by simp
  then have u2: "unat s2 = unat s1 + unat s1 div 65536"
    unfolding s2_def using l1 by (simp add: unat_word_ariths unat_drop16)
  have m: "unat s2 mod 65536 = fold16 (wsum bs)"
  proof -
    have "fold16 (wsum bs) = unat s1 div 65536 + unat s1 mod 65536" by (simp add: fold16_def u1 us Let_def)
    moreover have "unat s2 mod 65536 = (unat s1 div 65536 + unat s1 mod 65536) mod 65536" by (simp add: u2 mod_simps add.commute)
    moreover have "fold16 (wsum bs) < 65536" using fold16_bound(1) [OF sb] by simp
    ultimately show ?thesis by simp
  qed
  have "unat (ucast (NOT s2) :: u16) = 65535 - unat s2 mod 65536"
    by (simp add: ucast_not16 unat_not16 unsigned_ucast_eq take_bit_eq_mod)
  then show ?thesis by (simp add: in_cksum_def s_def [symmetric] s1_def [symmetric] s2_def [symmetric] m Let_def)
qed

section \<open>Verifying a checksum\<close>

text \<open>The two bytes of a stored 16-bit word.\<close>

definition le_bytes :: "u16 \<Rightarrow> byte list" where
  "le_bytes w = [ucast w, ucast (drop_bit 8 w)]"

lemma le16_le_bytes: "le16 (ucast w) (ucast (drop_bit 8 (w :: u16))) = w"
proof (rule bit_word_eqI)
  fix n assume "n < LENGTH(16)"
  moreover have "8 + (n - 8) = n" if "8 \<le> n" using that by simp
  ultimately show "bit (le16 (ucast w) (ucast (drop_bit 8 w))) n = bit w n"
    by (cases "n < 8") (auto simp: le16_def bit_or_iff bit_push_bit_iff bit_ucast_iff bit_drop_bit_eq dest: bit_u16_high)
qed

lemma le_bytes_length [simp]: "length (le_bytes x) = 2"
  by (simp add: le_bytes_def)

lemma u16_at_le_bytes:
  assumes "length as = i"
  shows "u16_at (as @ le_bytes x @ bs) i = x"
proof -
  have "u16_at (as @ le_bytes x @ bs) i = le16 (ucast x) (ucast (drop_bit 8 x))"
    using assms by (simp add: u16_at_def le16_def byte_at_def nth_append le_bytes_def)
  then show ?thesis by (simp add: le16_le_bytes)
qed

lemma wsum_le_bytes: "wsum (le_bytes w @ bs) = unat w + wsum bs"
  using unat_le16 [of "ucast w" "ucast (drop_bit 8 w)"] by (simp add: le_bytes_def le16_le_bytes)

lemma wsum_append: "even (length as) \<Longrightarrow> wsum (as @ bs) = wsum as + wsum bs"
  by (induction as rule: wsum.induct) simp_all

text \<open>A packet verifies when its sum is a multiple of 65535, and not zero.\<close>

lemma in_cksum_0:
  assumes "length bs < 2 ^ 17"
  shows "in_cksum bs = 0 \<longleftrightarrow> wsum bs \<noteq> 0 \<and> wsum bs mod 65535 = 0"
proof -
  have sb: "wsum bs < 2 ^ 32" by (rule cksum_loop_0(2) [OF assms])
  note F = fold16_bound [OF sb]
  have "in_cksum bs = 0 \<longleftrightarrow> unat (in_cksum bs) = 0" by (simp add: unat_eq_zero)
  also have "\<dots> \<longleftrightarrow> fold16 (wsum bs) = 65535" using in_cksum_fold [OF assms] F(1) by auto
  also have "\<dots> \<longleftrightarrow> fold16 (wsum bs) \<noteq> 0 \<and> fold16 (wsum bs) mod 65535 = 0"
    using F(1) by (auto dest: dvd_imp_le simp: mod_eq_0_iff_dvd)
  finally show ?thesis using F(2,3) by simp
qed

lemma in_cksum_insert:
  assumes "even (length as)" and "length as + length bs + 2 < 2 ^ 17"
    and "ck = in_cksum (as @ le_bytes 0 @ bs)"
  shows "in_cksum (as @ le_bytes ck @ bs) = 0"
proof -
  define s where "s = wsum as + wsum bs"
  have w: "wsum (as @ le_bytes c @ bs) = s + unat c" for c
    by (simp add: wsum_append [OF assms(1)] wsum_le_bytes s_def)
  have len: "length (as @ le_bytes c @ bs) < 2 ^ 17" for c using assms(2) by (simp add: le_bytes_def)
  have sb: "s < 2 ^ 32" using cksum_loop_0(2) [OF len, of 0] by (simp add: w)
  note F = fold16_bound [OF sb]
  have ck: "unat ck = 65535 - fold16 s" using in_cksum_fold [OF len, of 0] assms(3) by (simp add: w)
  have "s + unat ck \<noteq> 0" using ck F(3) by (cases "s = 0") auto
  moreover have "(s + unat ck) mod 65535 = 0"
  proof -
    have "(s + unat ck) mod 65535 = (fold16 s mod 65535 + unat ck) mod 65535" by (simp add: F(2) mod_simps)
    also have "\<dots> = (fold16 s + unat ck) mod 65535" by (simp add: mod_simps)
    also have "fold16 s + unat ck = 65535" using ck F(1) by simp
    finally show ?thesis by simp
  qed
  ultimately show ?thesis using in_cksum_0 [OF len, of ck] by (simp add: w)
qed

text \<open>A change of one word goes unnoticed only between the two zeros of one's complement.\<close>

lemma u16_cong:
  assumes "unat (v :: u16) mod 65535 = unat w mod 65535"
  shows "v = w \<or> v = 0 \<and> w = 0xffff \<or> v = 0xffff \<and> w = 0"
proof -
  have m: "unat x mod 65535 = (if unat x = 65535 then 0 else unat x)" for x :: u16
    using unat_u16_less [of x] by simp
  have f: "x = 0xffff" if "unat x = 65535" for x :: u16
    using that by (intro unsigned_word_eqI) simp
  have "unat v = unat w \<or> unat v = 65535 \<and> unat w = 0 \<or> unat v = 0 \<and> unat w = 65535"
    using assms unfolding m by (auto split: if_splits)
  then show ?thesis using f by (auto simp: unat_eq_zero dest: unsigned_word_eqI)
qed

lemma mod_add_cancel_nat:
  assumes "(s + a) mod m = (s + b) mod (m :: nat)"
  shows "a mod m = b mod m"
proof (cases "a \<le> b")
  case True
  then show ?thesis using assms mod_eq_dvd_iff_nat [of "s + a" "s + b" m] mod_eq_dvd_iff_nat [of a b m] by simp
next
  case False
  then show ?thesis using assms mod_eq_dvd_iff_nat [of "s + b" "s + a" m] mod_eq_dvd_iff_nat [of b a m] by simp
qed

lemma in_cksum_change:
  assumes "even (length as)" and "length as + length bs + 2 < 2 ^ 17"
    and "in_cksum (as @ le_bytes v @ bs) = 0" and "in_cksum (as @ le_bytes w @ bs) = 0"
  shows "v = w \<or> v = 0 \<and> w = 0xffff \<or> v = 0xffff \<and> w = 0"
proof (rule u16_cong)
  define s where "s = wsum as + wsum bs"
  have ws: "wsum (as @ le_bytes c @ bs) = s + unat c" for c
    by (simp add: wsum_append [OF assms(1)] wsum_le_bytes s_def)
  have len: "length (as @ le_bytes c @ bs) < 2 ^ 17" for c using assms(2) by (simp add: le_bytes_def)
  have "(s + unat v) mod 65535 = (s + unat w) mod 65535"
    using in_cksum_0 [OF len, of v] in_cksum_0 [OF len, of w] assms(3,4) by (simp add: ws)
  then show "unat v mod 65535 = unat w mod 65535" by (rule mod_add_cancel_nat)
qed

section \<open>The copy of BSD ping\<close>

lemma signed_drop16:
  assumes "unat (w :: u32) < 2 ^ 31"
  shows "signed_drop_bit 16 w = drop_bit 16 w"
proof (rule bit_word_eqI)
  fix n assume n: "n < LENGTH(32)"
  have "\<not> bit (unat w) 31" using assms by (simp add: bit_iff_odd)
  then have "\<not> bit w 31" by (simp add: bit_unsigned_iff)
  moreover have "\<not> bit w (16 + n)" if "16 \<le> n" using that by (auto dest: bit_imp_le_length)
  ultimately show "bit (signed_drop_bit 16 w) n = bit (drop_bit 16 w) n"
    using n by (cases "16 \<le> n") (simp_all add: bit_signed_drop_bit_iff bit_drop_bit_eq)
qed

lemma wsum_small:
  assumes "length bs \<le> 65536"
  shows "wsum bs < 2 ^ 31"
proof -
  have "(length bs + 1) div 2 \<le> 32768" using assms by simp
  then have "65535 * ((length bs + 1) div 2) \<le> 65535 * 32768" by (rule mult_le_mono2)
  with wsum_bound [of bs] have "wsum bs \<le> 65535 * 32768" by (rule le_trans)
  then show ?thesis by simp
qed

lemma bsd_in_cksum_eq:
  assumes "length bs \<le> 65536"
  shows "bsd_in_cksum bs = in_cksum bs"
proof -
  define s where "s = cksum_loop bs 0"
  define s1 where "s1 = drop_bit 16 s + (s AND 0xffff)"
  have us: "unat s = wsum bs" and sb: "wsum bs < 2 ^ 32" using assms cksum_loop_0 [of bs] by (simp_all add: s_def)
  have "unat s < 2 ^ 31" using wsum_small [OF assms] by (simp add: us)
  moreover have "unat s1 < 2 ^ 31"
    unfolding s1_def using fold_step_le [OF sb] by (simp add: unat_word_ariths unat_drop16 unat_and_mask16 us)
  ultimately show ?thesis
    by (simp add: bsd_in_cksum_def in_cksum_def Let_def signed_drop16 flip: s_def s1_def)
qed

text \<open>A longer message whose sum has the sign bit set: the arithmetic shift brings in ones.\<close>

lemma wsum_replicate_255: "wsum (replicate (2 * n) 255) = n * 65535"
  by (induction n) simp_all

lemma bsd_in_cksum_differs:
  "bsd_in_cksum (replicate 65538 255) = 1 \<and> in_cksum (replicate 65538 255) = 0"
proof -
  have "length (replicate (2 * 32769) (255 :: byte)) < 2 ^ 17" by simp
  from cksum_loop_0(1) [OF this] have "unat (cksum_loop (replicate (2 * 32769) 255) 0) = 2147516415"
    by (simp only: wsum_replicate_255)
  then have u: "unat (cksum_loop (replicate 65538 255) 0) = 2147516415" by simp
  have s: "cksum_loop (replicate 65538 255) 0 = 2147516415"
    unfolding word_unat_eq_iff u by simp
  show ?thesis unfolding bsd_in_cksum_def in_cksum_def s Let_def by simp
qed

section \<open>Properties\<close>

text \<open>
  C33: the checksum of a packet with its checksum field zeroed, stored in the field, makes the
  packet verify (\<open>in_cksum\<close> of the whole is 0), for every position of the field on a 16-bit
  boundary and every length of an IP packet, odd ones included; no other value of the field
  does, except for the second representation of zero.
\<close>
theorem in_cksum_integrity:
  assumes "even (length as)" and "length as + length bs + 2 < 2 ^ 17" and "ck = in_cksum (as @ le_bytes 0 @ bs)"
  shows "in_cksum (as @ le_bytes ck @ bs) = 0 \<and>
    (\<forall>v. in_cksum (as @ le_bytes v @ bs) = 0 \<longrightarrow> v = ck \<or> v = 0 \<and> ck = 0xffff \<or> v = 0xffff \<and> ck = 0)"
  using in_cksum_insert [OF assms] in_cksum_change [OF assms(1,2)] by blast

theorem in_cksum_integrity_witness:
  "in_cksum ([0x45, 0] @ le_bytes (in_cksum ([0x45, 0] @ le_bytes 0 @ [1, 2, 3])) @ [1, 2, 3]) = 0"
  using in_cksum_integrity [of "[0x45, 0]" "[1, 2, 3]" "in_cksum ([0x45, 0] @ le_bytes 0 @ [1, 2, 3])"] by simp

text \<open>
  C40: the copy of the routine in \<open>bsdping.c\<close>, which sums in a signed \<open>int\<close>, computes the same
  checksum for every message of at most 65536 bytes, and so for every IP packet; but not for all longer ones: on
  65538 bytes of ones the sum passes \<open>2 ^ 31\<close>, and where the other routine gives 0 the copy gives 1 (with an \<open>int\<close>
  that wraps around; C leaves the overflow undefined).
\<close>
theorem bsd_in_cksum_same:
  "(length bs \<le> 65536 \<longrightarrow> bsd_in_cksum bs = in_cksum bs) \<and>
   bsd_in_cksum (replicate 65538 255) = 1 \<and> in_cksum (replicate 65538 255) = 0"
  using bsd_in_cksum_eq [of bs] bsd_in_cksum_differs by blast

theorem bsd_in_cksum_same_witness: "bsd_in_cksum (replicate 1000 255) = in_cksum (replicate 1000 255)"
  using bsd_in_cksum_same [of "replicate 1000 255"] by simp

end
