(* ===== verification/Ping.thy ===== *)
theory Ping
  imports Checksum Timeval
begin

text \<open>
  \<open>ping/\<close>: \<open>send_v4.c\<close>, \<open>send_v6.c\<close>, \<open>proc_v4.c\<close>, \<open>proc_v6.c\<close>, \<open>readloop.c\<close> and \<open>sig_alrm.c\<close>.
  A request carries the time it was sent; the reply brings it back.
\<close>

section \<open>Integers in memory\<close>

text \<open>A signed integer of \<open>n\<close> bytes, lowest byte first.\<close>

fun enc_le :: "nat \<Rightarrow> int \<Rightarrow> byte list" where
  "enc_le 0 i = []"
| "enc_le (Suc n) i = of_int i # enc_le n (i div 256)"

fun dec_u :: "byte list \<Rightarrow> int" where
  "dec_u [] = 0"
| "dec_u (b # bs) = uint b + 256 * dec_u bs"

definition dec_s :: "byte list \<Rightarrow> int" where
  "dec_s bs = (let u = dec_u bs; m = 256 ^ length bs in if 2 * u \<ge> m then u - m else u)"

text \<open>\<open>struct timeval\<close> with \<open>w\<close> bytes per field: 4 where \<open>long\<close> has 32 bits, 8 where it has 64.\<close>

definition tv_bytes :: "nat \<Rightarrow> timeval \<Rightarrow> byte list" where
  "tv_bytes w t = enc_le w (tv_sec t) @ enc_le w (tv_usec t)"

definition tv_at :: "nat \<Rightarrow> byte list \<Rightarrow> nat \<Rightarrow> timeval" where
  "tv_at w buf p = Timeval (dec_s (map (byte_at buf) [p ..< p + w])) (dec_s (map (byte_at buf) [p + w ..< p + w + w]))"

text \<open>\<open>memcpy(buf + off, bs, sizeof bs)\<close>.\<close>

definition put_at :: "nat \<Rightarrow> byte list \<Rightarrow> byte list \<Rightarrow> byte list" where
  "put_at off bs buf = take off buf @ bs @ drop (off + length bs) buf"

section \<open>State\<close>

definition PING_BUFSIZE :: nat where "PING_BUFSIZE = 1500"
definition ICMP_ECHO :: byte where "ICMP_ECHO = 8"
definition ICMP_ECHOREPLY :: nat where "ICMP_ECHOREPLY = 0"
definition ICMP6_ECHO_REQUEST :: byte where "ICMP6_ECHO_REQUEST = 128"
definition ICMP6_ECHO_REPLY :: nat where "ICMP6_ECHO_REPLY = 129"
definition IPPROTO_ICMP :: nat where "IPPROTO_ICMP = 1"

lemmas ping_consts = PING_BUFSIZE_def ICMP_ECHO_def ICMP_ECHOREPLY_def ICMP6_ECHO_REQUEST_def ICMP6_ECHO_REPLY_def
  IPPROTO_ICMP_def

text \<open>The globals of \<open>ping.h\<close>; \<open>out\<close> collects the packets handed to \<open>sendto\<close>.\<close>

record ping =
  sendbuf :: "byte list"
  datalen :: nat
  nsent :: nat
  pid :: int
  verbose :: bool
  out :: "byte list list"

text \<open>What is printed: a reply with its length, source, sequence number, hop count and time; or any other message.\<close>

datatype ping_line = PReply int sockaddr u16 "int option" timeval | POther int sockaddr nat nat

section \<open>Sending\<close>

definition send_v4 :: "nat \<Rightarrow> timeval \<Rightarrow> ping \<Rightarrow> ping" where
  "send_v4 w now p =
     (let b1 = put_at 0 [ICMP_ECHO, 0] (sendbuf p);
          b2 = put_at 4 (le_bytes (of_int (pid p))) b1;
          b3 = put_at 6 (le_bytes (of_nat (nsent p))) b2;
          b4 = put_at 8 (replicate (datalen p) 0xa5) b3;
          b5 = put_at 8 (tv_bytes w now) b4;
          len = 8 + datalen p;
          b6 = put_at 2 (le_bytes 0) b5;
          b7 = put_at 2 (le_bytes (in_cksum (take len b6))) b6
      in p\<lparr>sendbuf := b7, nsent := nsent p + 1, out := out p @ [take len b7]\<rparr>)"

text \<open>The kernel stores the checksum of an ICMPv6 message.\<close>

definition send_v6 :: "nat \<Rightarrow> timeval \<Rightarrow> ping \<Rightarrow> ping" where
  "send_v6 w now p =
     (let b1 = put_at 0 [ICMP6_ECHO_REQUEST, 0] (sendbuf p);
          b2 = put_at 4 (le_bytes (of_int (pid p))) b1;
          b3 = put_at 6 (le_bytes (of_nat (nsent p))) b2;
          b4 = put_at 8 (replicate (datalen p) 0xa5) b3;
          b5 = put_at 8 (tv_bytes w now) b4;
          len = 8 + datalen p
      in p\<lparr>sendbuf := b5, nsent := nsent p + 1, out := out p @ [take len b5]\<rparr>)"

section \<open>Receiving\<close>

text \<open>\<open>len\<close> bytes have been received into the buffer \<open>ptr\<close>; \<open>None\<close> when nothing is printed.\<close>

definition proc_v4 :: "nat \<Rightarrow> ping \<Rightarrow> byte list \<Rightarrow> nat \<Rightarrow> sockaddr \<Rightarrow> timeval \<Rightarrow> ping_line option" where
  "proc_v4 w p ptr len src tvrecv =
     (let hlen1 = 4 * ip_hl ptr 0; icmplen = int len - int hlen1
      in if ip_p ptr 0 \<noteq> IPPROTO_ICMP then None
         else if icmplen < 8 then None
         else if icmp_type ptr hlen1 = ICMP_ECHOREPLY then
           (if uint (u16_at ptr (hlen1 + 4)) \<noteq> pid p then None
            else if icmplen < 16 then None
            else Some (PReply icmplen src (u16_at ptr (hlen1 + 6)) (Some (int (u8_at ptr 8)))
              (tv_sub tvrecv (tv_at w ptr (hlen1 + 8)))))
         else if verbose p then Some (POther icmplen src (icmp_type ptr hlen1) (icmp_code ptr hlen1))
         else None)"

text \<open>
  The ancillary data as a list of level, type and value; -1 from \<open>IPV6_HOPLIMIT\<close> data prints as
  missing too.
\<close>

definition IPV6_HOPLIMIT :: int where "IPV6_HOPLIMIT = 52"

definition hop_limit :: "(int \<times> int \<times> int) list \<Rightarrow> int" where
  "hop_limit cmsgs =
     (case filter (\<lambda>(l, t, v). l = IPPROTO_IPV6 \<and> t = IPV6_HOPLIMIT) cmsgs of [] \<Rightarrow> -1 | (l, t, v) # _ \<Rightarrow> v)"

definition proc_v6 ::
  "nat \<Rightarrow> ping \<Rightarrow> byte list \<Rightarrow> nat \<Rightarrow> sockaddr \<Rightarrow> (int \<times> int \<times> int) list \<Rightarrow> timeval \<Rightarrow> ping_line option" where
  "proc_v6 w p ptr len src cmsgs tvrecv =
     (if len < 8 then None
      else if icmp_type ptr 0 = ICMP6_ECHO_REPLY then
        (if uint (u16_at ptr 4) \<noteq> pid p then None
         else if len < 16 then None
         else let hlim = hop_limit cmsgs
           in Some (PReply (int len) src (u16_at ptr 6) (if hlim = -1 then None else Some hlim)
             (tv_sub tvrecv (tv_at w ptr 8))))
      else if verbose p then Some (POther (int len) src (icmp_type ptr 0) (icmp_code ptr 0))
      else None)"

section \<open>The loop\<close>

text \<open>
  What \<open>recvmsg\<close> meets: the alarm, which runs the handler and interrupts the call, another
  error, or a datagram with its source and ancillary data.
\<close>

datatype ping_event = PAlarm | PErr errno | PDgram sockaddr "byte list" "(int \<times> int \<times> int) list"

record ping_env =
  is6 :: bool
  tvw :: nat
  time :: "nat \<Rightarrow> timeval"

definition fsend :: "ping_env \<Rightarrow> timeval \<Rightarrow> ping \<Rightarrow> ping" where
  "fsend e now p = (if is6 e then send_v6 (tvw e) now p else send_v4 (tvw e) now p)"

text \<open>
  \<open>sig_alrm\<close> sends a packet and sets the next alarm; \<open>k\<close> counts the readings of the clock.  The
  result is what has been printed when the events run out, the program does not end by itself.
\<close>

fun readloop_from ::
  "ping_env \<Rightarrow> nat \<Rightarrow> byte list \<Rightarrow> ping_event list \<Rightarrow> ping \<Rightarrow> (ping_line list \<times> ping) run" where
  "readloop_from e k buf [] p = Ret ([], p)"
| "readloop_from e k buf (ev # evs) p =
     (case ev of
        PAlarm \<Rightarrow> readloop_from e (k + 1) buf evs (fsend e (time e k) p)
      | PErr er \<Rightarrow> if er = EINTR then readloop_from e k buf evs p else Fatal ''recvmsg error''
      | PDgram src bs cmsgs \<Rightarrow>
          (let buf1 = store buf bs; n = stored buf bs;
               line = (if is6 e then proc_v6 (tvw e) p buf1 n src cmsgs (time e k)
                 else proc_v4 (tvw e) p buf1 n src (time e k))
           in run_bind (readloop_from e (k + 1) buf1 evs p) (\<lambda>(lines, p').
             Ret ((case line of None \<Rightarrow> lines | Some l \<Rightarrow> l # lines), p'))))"

definition readloop :: "ping_env \<Rightarrow> byte list \<Rightarrow> ping_event list \<Rightarrow> ping \<Rightarrow> (ping_line list \<times> ping) run" where
  "readloop e buf evs p = readloop_from e 1 buf evs (fsend e (time e 0) p)"

section \<open>Times in a packet\<close>

lemma enc_le_length [simp]: "length (enc_le n i) = n"
  by (induction n i rule: enc_le.induct) simp_all

lemma dec_u_enc_le: "dec_u (enc_le n i) = i mod 256 ^ n"
proof (induction n i rule: enc_le.induct)
  case (2 n i)
  have "uint (of_int i :: byte) = i mod 256" by (simp add: unsigned_of_int take_bit_eq_mod)
  then show ?case using 2 by (simp add: zmod_zmult2_eq [of "256 ^ n" i 256])
qed simp

definition fits :: "nat \<Rightarrow> int \<Rightarrow> bool" where
  "fits w i \<longleftrightarrow> - (256 ^ w) \<le> 2 * i \<and> 2 * i < 256 ^ w"

lemma dec_s_enc_le:
  assumes "fits w i"
  shows "dec_s (enc_le w i) = i"
proof (cases "0 \<le> i")
  case True
  then show ?thesis using assms by (simp add: dec_s_def dec_u_enc_le fits_def Let_def)
next
  case False
  then have "i mod 256 ^ w = i + 256 ^ w" using assms
    by (intro int_mod_pos_eq [symmetric, of _ _ "-1" , THEN sym] ) (auto simp: fits_def)
  then show ?thesis using assms False by (simp add: dec_s_def dec_u_enc_le fits_def Let_def)
qed

definition tv_fits :: "nat \<Rightarrow> timeval \<Rightarrow> bool" where
  "tv_fits w t \<longleftrightarrow> fits w (tv_sec t) \<and> fits w (tv_usec t)"

lemma bytes_of_append:
  assumes "length as = p" and "length bs = n"
  shows "map (byte_at (as @ bs @ cs)) [p ..< p + n] = bs"
  using assms by (intro nth_equalityI) (simp_all add: byte_at_def nth_append)

lemma tv_bytes_length [simp]: "length (tv_bytes w t) = 2 * w"
  by (simp add: tv_bytes_def)

lemma tv_at_bytes:
  assumes "tv_fits w t" and "length as = p"
  shows "tv_at w (as @ tv_bytes w t @ cs) p = t"
proof -
  have "map (byte_at (as @ tv_bytes w t @ cs)) [p ..< p + w] = enc_le w (tv_sec t)"
    using bytes_of_append [of as p "enc_le w (tv_sec t)" w "enc_le w (tv_usec t) @ cs"] assms(2)
    by (simp add: tv_bytes_def)
  moreover have "map (byte_at (as @ tv_bytes w t @ cs)) [p + w ..< p + w + w] = enc_le w (tv_usec t)"
    using bytes_of_append [of "as @ enc_le w (tv_sec t)" "p + w" "enc_le w (tv_usec t)" w cs] assms(2)
    by (simp add: tv_bytes_def)
  ultimately show ?thesis using assms(1) by (simp add: tv_at_def tv_fits_def dec_s_enc_le)
qed

text \<open>The first bytes of a buffer decide what is read from them.\<close>

lemma tv_at_same: "same_upto n b1 b2 \<Longrightarrow> p + 2 * w \<le> n \<Longrightarrow> tv_at w b1 p = tv_at w b2 p"
proof -
  assume s: "same_upto n b1 b2" and p: "p + 2 * w \<le> n"
  have m: "map (byte_at b1) [i ..< j] = map (byte_at b2) [i ..< j]" if "j \<le> n" for i j
    using s that by (auto simp: same_upto_def)
  have "p + w \<le> n" "p + w + w \<le> n" using p by linarith+
  then show ?thesis unfolding tv_at_def by (simp only: m)
qed

section \<open>The packet of \<open>send_v4\<close>\<close>

lemma put_at_append:
  "length as = off \<Longrightarrow> length bs = length cs \<Longrightarrow> put_at off bs (as @ cs @ ds) = as @ bs @ ds"
  by (simp add: put_at_def)

definition echo_packet :: "nat \<Rightarrow> timeval \<Rightarrow> ping \<Rightarrow> u16 \<Rightarrow> byte list" where
  "echo_packet w now p ck = [ICMP_ECHO, 0] @ le_bytes ck @ le_bytes (of_int (pid p)) @ le_bytes (of_nat (nsent p)) @
     tv_bytes w now @ replicate (datalen p - 2 * w) 0xa5"

lemma split_at:
  assumes "n \<le> length xs"
  obtains ys zs where "xs = ys @ zs" and "length ys = n"
  using assms that [of "take n xs" "drop n xs"] by simp

lemma drop_8_more: "drop (8 + n) (a # b # c # d # e # f # g # h # xs) = drop n xs"
  by (simp add: eval_nat_numeral)

lemma send_v4_packet:
  assumes "2 * w \<le> datalen p" and "8 + datalen p \<le> length (sendbuf p)"
  shows "\<exists>b. send_v4 w now p = p\<lparr>sendbuf := b, nsent := nsent p + 1,
    out := out p @ [echo_packet w now p (in_cksum (echo_packet w now p 0))]\<rparr>"
proof -
  let ?d = "datalen p"
  obtain h d r where s: "sendbuf p = h @ d @ r" and lh: "length h = 8" and ld: "length d = ?d"
    using assms(2) split_at [of 8 "sendbuf p"] split_at [of ?d "drop 8 (sendbuf p)"] by (metis add_leD1 diff_add_inverse diff_le_mono length_drop append_eq_conv_conj)
  obtain x0 x1 x2 x3 x4 x5 x6 x7 where h: "h = [x0, x1] @ [x2, x3] @ [x4, x5] @ [x6, x7]"
    using lh by (auto simp: length_Suc_conv eval_nat_numeral)
  have rep: "replicate ?d (0xa5 :: byte) = replicate (2 * w) 0xa5 @ replicate (?d - 2 * w) 0xa5"
    using assms(1) by (simp flip: replicate_add)
  define b5 where "b5 = [ICMP_ECHO, 0, x2, x3] @ le_bytes (of_int (pid p)) @ le_bytes (of_nat (nsent p)) @
    tv_bytes w now @ replicate (?d - 2 * w) 0xa5 @ r"
  have b5: "put_at 8 (tv_bytes w now) (put_at 8 (replicate ?d 0xa5) (put_at 6 (le_bytes (of_nat (nsent p)))
      (put_at 4 (le_bytes (of_int (pid p))) (put_at 0 [ICMP_ECHO, 0] (sendbuf p))))) = b5"
    unfolding s h rep b5_def using ld assms(1) by (simp add: put_at_def le_bytes_def drop_8_more)
  have ck: "put_at 2 (le_bytes c) b5 = echo_packet w now p c @ r" for c
    by (simp add: put_at_def b5_def echo_packet_def le_bytes_def)
  have ck2: "put_at 2 (le_bytes c) (echo_packet w now p c' @ r) = echo_packet w now p c @ r" for c c'
    by (simp add: put_at_def echo_packet_def le_bytes_def)
  have len: "length (echo_packet w now p c) = 8 + ?d" for c using assms(1) by (simp add: echo_packet_def)
  have tk: "take (8 + ?d) (echo_packet w now p c @ r) = echo_packet w now p c" for c by (simp add: len)
  show ?thesis unfolding send_v4_def Let_def b5 ck tk ck2 by blast
qed

section \<open>The reply\<close>

lemma byte_at_append: "byte_at (as @ bs) (length as + i) = byte_at bs i" "i < length as \<Longrightarrow> byte_at (as @ bs) i = as ! i"
  by (simp_all add: byte_at_def nth_append)

text \<open>
  An IP packet with an echo reply: any header with its length in \<open>ip_hl\<close> and the ICMP protocol,
  and the request with another type and checksum.
\<close>

definition ip_header :: "byte list \<Rightarrow> bool" where
  "ip_header h \<longleftrightarrow> 20 \<le> length h \<and> length h = 4 * (unat (h ! 0) mod 16) \<and> h ! 9 = of_nat IPPROTO_ICMP"

definition echo_reply :: "byte list \<Rightarrow> u16 \<Rightarrow> byte list \<Rightarrow> byte list" where
  "echo_reply h ck req = h @ [0, 0] @ le_bytes ck @ drop 4 req"

lemma echo_reply_packet:
  "echo_reply h ck (echo_packet w now p ck') = h @ [0, 0] @ le_bytes ck @ le_bytes (of_int (pid p)) @
     le_bytes (of_nat (nsent p)) @ tv_bytes w now @ replicate (datalen p - 2 * w) 0xa5"
  by (simp add: echo_reply_def echo_packet_def le_bytes_def)

lemma reply_fields:
  assumes "ip_header h" and "tv_fits w now"
    and r_def: "r = h @ [0, 0] @ le_bytes ck @ le_bytes x @ le_bytes y @ tv_bytes w now @ rest"
  shows "4 * ip_hl r 0 = length h" and "ip_p r 0 = IPPROTO_ICMP" and "icmp_type r (length h) = ICMP_ECHOREPLY"
    and "u16_at r (length h + 4) = x" and "u16_at r (length h + 6) = y" and "u8_at r 8 = unat (h ! 8)"
    and "tv_at w r (length h + 8) = now"
proof -
  have h: "20 \<le> length h" "length h = 4 * (unat (h ! 0) mod 16)" "h ! 9 = 1"
    using assms(1) by (simp_all add: ip_header_def IPPROTO_ICMP_def)
  have l: "byte_at r i = h ! i" if "i < length h" for i using that by (simp add: r_def byte_at_append)
  show "4 * ip_hl r 0 = length h" "ip_p r 0 = IPPROTO_ICMP" "u8_at r 8 = unat (h ! 8)"
    using h by (simp_all add: ip_hl_def ip_p_def u8_at_def l IPPROTO_ICMP_def)
  show "icmp_type r (length h) = ICMP_ECHOREPLY"
    by (simp add: icmp_type_def u8_at_def byte_at_def r_def nth_append ICMP_ECHOREPLY_def)
  show "u16_at r (length h + 4) = x"
    using u16_at_le_bytes [of "h @ [0, 0] @ le_bytes ck" "length h + 4" x] by (simp add: r_def)
  show "u16_at r (length h + 6) = y"
    using u16_at_le_bytes [of "h @ [0, 0] @ le_bytes ck @ le_bytes x" "length h + 6" y] by (simp add: r_def)
  show "tv_at w r (length h + 8) = now"
    using tv_at_bytes [OF assms(2), of "h @ [0, 0] @ le_bytes ck @ le_bytes x @ le_bytes y" "length h + 8" rest]
    by (simp add: r_def)
qed

text \<open>\<open>proc_v4\<close> reads nothing behind a datagram that is at least as long as the reply it expects.\<close>

lemma proc_v4_same:
  assumes "same_upto n b1 b2" and "4 * ip_hl b2 0 + 8 + 2 * w \<le> n" and "20 \<le> n"
  shows "proc_v4 w p b1 n src tv = proc_v4 w p b2 n src tv"
proof -
  note u8 = same_upto_u8 [OF assms(1)] and u16 = same_upto_u16 [OF assms(1)]
  have h: "ip_hl b1 0 = ip_hl b2 0" using u8 [of 0] assms(3) by (simp add: ip_hl_def)
  let ?h = "4 * ip_hl b2 0"
  show ?thesis
  proof (cases "int n - int ?h < 8")
    case True
    then show ?thesis using u8 [of 9] assms(3) by (simp add: proc_v4_def Let_def h ip_p_def)
  next
    case False
    have "ip_p b1 0 = ip_p b2 0" "u8_at b1 8 = u8_at b2 8" using u8 [of 9] u8 [of 8] assms(3) by (simp_all add: ip_p_def)
    moreover have "icmp_type b1 ?h = icmp_type b2 ?h" "icmp_code b1 ?h = icmp_code b2 ?h" "u16_at b1 (?h + 4) = u16_at b2 (?h + 4)"
      "u16_at b1 (?h + 6) = u16_at b2 (?h + 6)"
      using False u8 [of ?h] u8 [of "?h + 1"] u16 [of "?h + 4"] u16 [of "?h + 6"] by (simp_all add: header_defs)
    moreover have "tv_at w b1 (?h + 8) = tv_at w b2 (?h + 8)" by (rule tv_at_same [OF assms(1)]) (use assms(2) in simp)
    ultimately show ?thesis unfolding proc_v4_def Let_def h by (simp only:)
  qed
qed

lemma echo_packet_verifies:
  assumes "2 * w \<le> datalen p" and "datalen p \<le> 65535"
  shows "in_cksum (echo_packet w now p (in_cksum (echo_packet w now p 0))) = 0"
proof -
  let ?rest = "le_bytes (of_int (pid p)) @ le_bytes (of_nat (nsent p)) @ tv_bytes w now @ replicate (datalen p - 2 * w) 0xa5"
  have e: "echo_packet w now p c = [ICMP_ECHO, 0] @ le_bytes c @ ?rest" for c by (simp add: echo_packet_def)
  show ?thesis unfolding e by (rule in_cksum_insert) (use assms in simp_all)
qed

lemma u16_pid: "0 \<le> i \<Longrightarrow> i < 65536 \<Longrightarrow> uint (of_int i :: u16) = i"
  by (simp add: unsigned_of_int take_bit_int_eq_self)

section \<open>Properties\<close>

text \<open>
  C35: a request of \<open>send_v4\<close> carries a checksum that verifies, and when its echo comes back,
  behind an IP header of any length and whatever the buffer held before, \<open>proc_v4\<close> reports its
  sequence number, the time to live and the time that has passed since it was sent; a \<open>ping\<close>
  with another process id ignores it.
\<close>
theorem ping_v4_roundtrip:
  assumes "2 * w \<le> datalen p" and "8 \<le> datalen p" and "8 + datalen p \<le> length (sendbuf p)" and "datalen p \<le> 65535"
    and "tv_fits w now" and "0 \<le> pid p" and "pid p < 65536" and "ip_header h"
    and "req = last (out (send_v4 w now p))" and "length (echo_reply h ck req) \<le> length buf"
  shows "in_cksum req = 0 \<and>
    proc_v4 w q (store buf (echo_reply h ck req)) (stored buf (echo_reply h ck req)) src tv =
      (if pid q = pid p
       then Some (PReply (int (8 + datalen p)) src (of_nat (nsent p)) (Some (int (unat (h ! 8)))) (tv_sub tv now))
       else None)"
proof -
  obtain b where sv: "send_v4 w now p = p\<lparr>sendbuf := b, nsent := nsent p + 1,
      out := out p @ [echo_packet w now p (in_cksum (echo_packet w now p 0))]\<rparr>"
    using send_v4_packet [OF assms(1,3)] by blast
  have req: "req = echo_packet w now p (in_cksum (echo_packet w now p 0))" using assms(9) sv by simp
  define r where "r = echo_reply h ck req"
  have r: "r = h @ [0, 0] @ le_bytes ck @ le_bytes (of_int (pid p)) @ le_bytes (of_nat (nsent p)) @ tv_bytes w now @
      replicate (datalen p - 2 * w) 0xa5"
    by (simp only: r_def req echo_reply_packet)
  note F = reply_fields [OF assms(8,5) r]
  have len: "length r = length h + 8 + datalen p" using assms(1) by (simp add: r)
  have st: "stored buf r = length r" using assms(10) by (simp add: stored_def r_def)
  have "20 \<le> length h" using assms(8) by (simp add: ip_header_def)
  then have "proc_v4 w q (store buf r) (length r) src tv = proc_v4 w q r (length r) src tv"
    by (intro proc_v4_same same_upto_store) (use assms(1,10) len F(1) in \<open>simp_all add: r_def\<close>)
  also have "\<dots> = (if pid q = pid p
       then Some (PReply (int (8 + datalen p)) src (of_nat (nsent p)) (Some (int (unat (h ! 8)))) (tv_sub tv now))
       else None)"
    unfolding proc_v4_def Let_def F using assms(2,6,7) len by (simp add: u16_pid)
  finally show ?thesis using echo_packet_verifies [OF assms(1,4)] st by (simp add: req r_def)
qed

definition ping_demo :: ping where
  "ping_demo = \<lparr>sendbuf = replicate PING_BUFSIZE 0, datalen = 56, nsent = 3, pid = 4711, verbose = False, out = []\<rparr>"

definition ping_demo_hdr :: "byte list" where
  "ping_demo_hdr = [0x45, 0, 0, 0, 0, 0, 0, 0, 64, 1, 0, 0, 10, 0, 0, 1, 10, 0, 0, 2]"

theorem ping_v4_roundtrip_witness:
  "proc_v4 4 ping_demo (store (replicate PING_BUFSIZE 255) (echo_reply ping_demo_hdr 0 (last (out (send_v4 4 (Timeval 100 999999) ping_demo)))))
     (stored (replicate PING_BUFSIZE 255) (echo_reply ping_demo_hdr 0 (last (out (send_v4 4 (Timeval 100 999999) ping_demo)))))
     (SaIn 0 [10, 0, 0, 1]) (Timeval 101 1999) =
   Some (PReply 64 (SaIn 0 [10, 0, 0, 1]) 3 (Some 64) (Timeval 0 2000))"
proof -
  let ?req = "last (out (send_v4 4 (Timeval 100 999999) ping_demo))"
  have h: "ip_header ping_demo_hdr" by (simp add: ip_header_def ping_demo_hdr_def IPPROTO_ICMP_def)
  have d: "2 * 4 \<le> datalen ping_demo" "8 \<le> datalen ping_demo" "8 + datalen ping_demo \<le> length (sendbuf ping_demo)"
    "datalen ping_demo \<le> 65535" "tv_fits 4 (Timeval 100 999999)" "0 \<le> pid ping_demo" "pid ping_demo < 65536"
    by (simp_all add: ping_demo_def PING_BUFSIZE_def tv_fits_def fits_def)
  obtain b where "send_v4 4 (Timeval 100 999999) ping_demo = ping_demo\<lparr>sendbuf := b, nsent := nsent ping_demo + 1,
      out := out ping_demo @ [echo_packet 4 (Timeval 100 999999) ping_demo (in_cksum (echo_packet 4 (Timeval 100 999999) ping_demo 0))]\<rparr>"
    using send_v4_packet [OF d(1,3)] by blast
  then have "length ?req = 64" by (simp add: echo_packet_def ping_demo_def)
  then have l: "length (echo_reply ping_demo_hdr 0 ?req) \<le> length (replicate PING_BUFSIZE (255 :: byte))"
    by (simp add: echo_reply_def ping_demo_hdr_def PING_BUFSIZE_def)
  show ?thesis
    using ping_v4_roundtrip [OF d h refl l, of ping_demo "SaIn 0 [10, 0, 0, 1]" "Timeval 101 1999"]
    by (simp add: ping_demo_def ping_demo_hdr_def tv_sub_def)
qed

end
