(* ===== verification/Raw_Udp.thy ===== *)
theory Raw_Udp
  imports Checksum
begin

text \<open>
  \<open>udpcksum/\<close>: a UDP datagram built by hand on a raw socket (\<open>udpwrite.c\<close>, \<open>senddnsquery-raw.c\<close>),
  the answer captured from the data link (\<open>udpread.c\<close>, \<open>next_pcap\<close> of \<open>pcap.c\<close>), and the retry
  loop of \<open>udpcksum.c\<close>.
\<close>

section \<open>Building\<close>

definition TTL_OUT :: byte where "TTL_OUT = 64"
definition UDPIPHDR :: nat where "UDPIPHDR = 28"

text \<open>\<open>memcpy(buf + off, bs, sizeof bs)\<close>.\<close>

definition set_at :: "nat \<Rightarrow> byte list \<Rightarrow> byte list \<Rightarrow> byte list" where
  "set_at off bs buf = take off buf @ bs @ drop (off + length bs) buf"

text \<open>The globals: the two addresses with their ports, and the option for no checksum.\<close>

record udp_cfg =
  src_addr :: "byte list"
  src_port :: u16
  dst_addr :: "byte list"
  dst_port :: u16
  zerosum :: bool
  net_order_len :: bool

text \<open>
  \<open>struct udpiphdr\<close> overlays the IP header: nine zero bytes, the protocol, the length of the UDP
  part, the addresses, and the UDP header.  The sum over it is that of the pseudoheader.
\<close>

definition udp_fill :: "udp_cfg \<Rightarrow> nat \<Rightarrow> byte list \<Rightarrow> byte list" where
  "udp_fill c userlen buf =
     (let ui_len = le_bytes (htons (int (8 + userlen)));
          b0 = set_at 0 (replicate UDPIPHDR 0) buf;
          b1 = set_at 10 ui_len b0;
          b2 = set_at 9 [of_nat IPPROTO_UDP] b1;
          b3 = set_at 12 (src_addr c) b2;
          b4 = set_at 16 (dst_addr c) b3;
          b5 = set_at 20 (le_bytes (src_port c)) b4;
          b6 = set_at 22 (le_bytes (dst_port c)) b5
      in set_at 24 ui_len b6)"

definition udp_sum :: "udp_cfg \<Rightarrow> nat \<Rightarrow> byte list \<Rightarrow> byte list" where
  "udp_sum c userlen b =
     (if zerosum c then b
      else let ck = in_cksum (take userlen b)
        in set_at 26 (le_bytes (if ck = 0 then 0xffff else ck)) b)"

definition ip_fill :: "udp_cfg \<Rightarrow> nat \<Rightarrow> byte list \<Rightarrow> byte list" where
  "ip_fill c userlen b =
     (let b1 = set_at 0 [0x45] b; b2 = set_at 1 [0] b1;
          b3 = set_at 2 (le_bytes (if net_order_len c then htons (int userlen) else of_nat userlen)) b2;
          b4 = set_at 4 (le_bytes 0) b3; b5 = set_at 6 (le_bytes 0) b4
      in set_at 8 [TTL_OUT] b5)"

text \<open>The datagram handed to \<open>sendto\<close>: 28 bytes of headers and \<open>userlen\<close> of data.\<close>

definition udp_write :: "udp_cfg \<Rightarrow> byte list \<Rightarrow> nat \<Rightarrow> byte list" where
  "udp_write c buf userlen =
     (let b = udp_fill c userlen buf; len = userlen + UDPIPHDR
      in take len (ip_fill c len (udp_sum c len b)))"

definition be_bytes :: "nat \<Rightarrow> byte list" where
  "be_bytes n = le_bytes (htons (int n))"

text \<open>The query for the address of \<open>a.root-servers.net\<close>.\<close>

definition dns_query :: "byte list" where
  "dns_query = be_bytes 1234 @ be_bytes 0x0100 @ be_bytes 1 @ le_bytes 0 @ le_bytes 0 @ le_bytes 0 @
     [1, 97, 12, 114, 111, 111, 116, 45, 115, 101, 114, 118, 101, 114, 115, 3, 110, 101, 116, 0] @
     be_bytes 1 @ be_bytes 1"

text \<open>\<open>malloc\<close> leaves old bytes in the header, and 100 bytes for the query.\<close>

definition send_dns_query :: "udp_cfg \<Rightarrow> byte list \<Rightarrow> byte list" where
  "send_dns_query c garbage =
     (let buf = set_at UDPIPHDR dns_query (take (UDPIPHDR + 100) garbage);
          nbytes = length dns_query
      in udp_write c buf nbytes)"

section \<open>Reading\<close>

datatype datalink = DLT_NULL | DLT_EN10MB | DLT_SLIP | DLT_PPP | DLT_OTHER int

text \<open>
  \<open>mem\<close> is the memory from the packet on and \<open>len\<close> the captured length, an \<open>int\<close>.  The checks
  compare it with a \<open>size_t\<close>, so that a negative one counts as a very large one.
\<close>

definition size_t :: "int \<Rightarrow> int" where
  "size_t i = i mod 2 ^ 64"

definition udp_check :: "byte list \<Rightarrow> int \<Rightarrow> byte list run" where
  "udp_check mem len =
     (if size_t len < 20 + 8 then Fatal ''len''
      else if u8_at mem 0 div 16 \<noteq> 4 then Fatal ''ip_v''
      else let hlen = 4 * ip_hl mem 0
        in if hlen < 20 then Fatal ''ip_hl''
           else if size_t len < int hlen + 8 then Fatal ''len hlen''
           else if in_cksum (take hlen mem) \<noteq> 0 then Fatal ''ip checksum error''
           else if ip_p mem 0 = IPPROTO_UDP then Ret (set_at 10 (le_bytes 0) mem)
           else Fatal ''not a UDP packet'')"

text \<open>The header of the data link is skipped.\<close>

definition udp_read :: "datalink \<Rightarrow> byte list \<Rightarrow> int \<Rightarrow> byte list run" where
  "udp_read dl mem len =
     (case dl of
        DLT_NULL \<Rightarrow> udp_check (drop 4 mem) (len - 4)
      | DLT_EN10MB \<Rightarrow>
          if ntohs (u16_at mem 12) \<noteq> 0x0800 then Fatal ''Ethernet type not IP''
          else udp_check (drop 14 mem) (len - 14)
      | DLT_SLIP \<Rightarrow> udp_check (drop 24 mem) (len - 24)
      | DLT_PPP \<Rightarrow> udp_check (drop 24 mem) (len - 24)
      | DLT_OTHER n \<Rightarrow> Fatal ''unsupported datalink'')"

section \<open>Retrying\<close>

text \<open>
  What the capture meets: the alarm, a time-out of \<open>pcap_next\<close> without a packet, or a frame of
  some captured length at the start of the memory behind it.  The
  result: whether the answer has a checksum, and the alarms that were set.
\<close>

datatype cap_event = CapAlarm | CapNone | CapFrame "byte list" nat

fun test_udp_wait :: "datalink \<Rightarrow> nat \<Rightarrow> nat \<Rightarrow> nat list \<Rightarrow> cap_event list \<Rightarrow> (bool \<times> nat list) run" where
  "test_udp_wait dl nsent timeout alarms [] = Blocked"
| "test_udp_wait dl nsent timeout alarms (CapNone # evs) = test_udp_wait dl nsent timeout alarms evs"
| "test_udp_wait dl nsent timeout alarms (CapAlarm # evs) =
     (if nsent \<ge> 3 then Fatal ''no response''
      else test_udp_wait dl (nsent + 1) (timeout * 2) (alarms @ [timeout * 2]) evs)"
| "test_udp_wait dl nsent timeout alarms (CapFrame mem caplen # evs) =
     run_bind (udp_read dl mem (int caplen)) (\<lambda>ui. Ret (u16_at ui 26 \<noteq> 0, alarms))"

text \<open>Each entry of \<open>alarms\<close> stands for one query sent.\<close>

definition test_udp :: "datalink \<Rightarrow> cap_event list \<Rightarrow> (bool \<times> nat list) run" where
  "test_udp dl evs = test_udp_wait dl 1 3 [3] evs"

section \<open>The checksum of the datagram\<close>

lemma set_at_append:
  "length as = off \<Longrightarrow> length bs = length cs \<Longrightarrow> set_at off bs (as @ cs @ ds) = as @ bs @ ds"
  by (simp add: set_at_def)

text \<open>The pseudoheader with the UDP header, checksum field \<open>ck\<close>, and data.\<close>

definition pseudo :: "udp_cfg \<Rightarrow> nat \<Rightarrow> byte list" where
  "pseudo c n = replicate 9 0 @ [of_nat IPPROTO_UDP] @ be_bytes (8 + n) @ src_addr c @ dst_addr c"

definition udp_head :: "udp_cfg \<Rightarrow> nat \<Rightarrow> byte list" where
  "udp_head c n = le_bytes (src_port c) @ le_bytes (dst_port c) @ be_bytes (8 + n)"

lemma list_4:
  assumes "length xs = 4"
  obtains a b c d where "xs = [a, b, c, d]"
  using assms by (auto simp: length_Suc_conv eval_nat_numeral)

lemma udp_fill_eq:
  assumes "length (src_addr c) = 4" and "length (dst_addr c) = 4" and "28 \<le> length buf"
  shows "udp_fill c n buf = pseudo c n @ udp_head c n @ le_bytes 0 @ drop 28 buf"
proof -
  obtain s0 s1 s2 s3 where s: "src_addr c = [s0, s1, s2, s3]" by (rule list_4 [OF assms(1)])
  obtain d0 d1 d2 d3 where d: "dst_addr c = [d0, d1, d2, d3]" by (rule list_4 [OF assms(2)])
  have z: "set_at 0 (replicate UDPIPHDR 0) buf = replicate 28 0 @ drop 28 buf"
    by (simp add: set_at_def UDPIPHDR_def)
  have r: "replicate 28 (0 :: byte) = [0,0,0,0,0,0,0,0,0,0,0,0,0,0,0,0,0,0,0,0,0,0,0,0,0,0,0,0]"
    "replicate 9 (0 :: byte) = [0,0,0,0,0,0,0,0,0]"
    by (simp_all add: numeral_eq_Suc)
  show ?thesis
    unfolding udp_fill_def Let_def z
    by (simp add: set_at_def pseudo_def udp_head_def be_bytes_def le_bytes_def s d r)
qed

lemma set_at_drop:
  "off + length bs \<le> k \<Longrightarrow> off + length bs \<le> length buf \<Longrightarrow> drop k (set_at off bs buf) = drop k buf"
  by (simp add: set_at_def)

lemma set_at_length [simp]: "off + length bs \<le> length buf \<Longrightarrow> length (set_at off bs buf) = length buf"
  by (simp add: set_at_def)

lemma ip_fill_drop: "9 \<le> length b \<Longrightarrow> 9 \<le> k \<Longrightarrow> drop k (ip_fill c n b) = drop k b"
  and ip_fill_length: "9 \<le> length b \<Longrightarrow> length (ip_fill c n b) = length b"
  by (simp_all add: ip_fill_def Let_def set_at_drop)

lemma in_cksum_other_zero:
  assumes "even (length as)" and "length as + length bs + 2 < 2 ^ 17" and "in_cksum (as @ le_bytes 0 @ bs) = 0"
  shows "in_cksum (as @ le_bytes 0xffff @ bs) = 0"
proof -
  have w: "wsum (as @ le_bytes c @ bs) = wsum as + wsum bs + unat c" for c
    by (simp add: wsum_append [OF assms(1)] wsum_le_bytes)
  have len: "length (as @ le_bytes c @ bs) < 2 ^ 17" for c using assms(2) by simp
  have "(wsum as + wsum bs) mod 65535 = 0" using in_cksum_0 [OF len, of 0] assms(3) by (simp add: w)
  then have "(wsum as + wsum bs + 65535) mod 65535 = 0" by (simp only: mod_add_self2)
  then show ?thesis using in_cksum_0 [OF len, of "0xffff"] by (simp add: w)
qed

lemma udp_head_length [simp]: "length (udp_head c n) = 6" and be_bytes_length [simp]: "length (be_bytes n) = 2"
  by (simp_all add: udp_head_def be_bytes_def)

text \<open>Behind the IP header: ports, length, a checksum that is never 0, and the data.\<close>

lemma udp_write_sum:
  assumes "length (src_addr c) = 4" and "length (dst_addr c) = 4" and "n + 28 \<le> length buf" and "\<not> zerosum c"
    and "n \<le> 65507"
  obtains ck where "drop 20 (udp_write c buf n) = udp_head c n @ le_bytes ck @ take n (drop 28 buf)"
    and "length (udp_write c buf n) = n + 28" and "ck \<noteq> 0"
    and "in_cksum (pseudo c n @ udp_head c n @ le_bytes ck @ take n (drop 28 buf)) = 0"
proof -
  let ?data = "take n (drop 28 buf)" and ?as = "pseudo c n @ udp_head c n"
  have lp: "length (pseudo c n) = 20" using assms(1,2) by (simp add: pseudo_def)
  define b where "b = ?as @ le_bytes 0 @ drop 28 buf"
  have fill: "udp_fill c n buf = b" using udp_fill_eq [OF assms(1,2)] assms(3) by (simp add: b_def)
  have tk: "take (n + 28) b = ?as @ le_bytes 0 @ ?data" by (simp add: b_def lp)
  define ck0 where "ck0 = in_cksum (?as @ le_bytes 0 @ ?data)"
  define ck where "ck = (if ck0 = 0 then 0xffff else ck0)"
  have "udp_sum c (n + 28) b = set_at 26 (le_bytes ck) b"
    unfolding udp_sum_def Let_def tk using assms(4) by (simp add: ck_def ck0_def)
  moreover have "length ?as = 26" using lp by simp
  ultimately have sm: "udp_sum c (n + 28) b = ?as @ le_bytes ck @ drop 28 buf"
    using set_at_append [of ?as 26 "le_bytes ck" "le_bytes 0" "drop 28 buf"] by (simp add: b_def)
  have len: "length (udp_write c buf n) = n + 28" and dr: "drop 20 (udp_write c buf n) = udp_head c n @ le_bytes ck @ ?data"
    using assms(3) by (simp_all add: udp_write_def Let_def fill sm UDPIPHDR_def ip_fill_length ip_fill_drop drop_take lp)
  have ev: "even (length ?as)" "length ?as + length ?data + 2 < 2 ^ 17" using lp assms(5) by simp_all
  have "in_cksum (?as @ le_bytes ck @ ?data) = 0"
    using in_cksum_insert [OF ev ck0_def] in_cksum_other_zero [OF ev] by (simp add: ck_def ck0_def)
  moreover have "ck \<noteq> 0" by (simp add: ck_def)
  ultimately show ?thesis using that dr len by simp
qed

section \<open>Properties\<close>

text \<open>
  C34: the datagram \<open>udp_write\<close> sends carries the caller's data behind 28 bytes of headers and a
  UDP checksum that a receiver accepts: the sum over the pseudoheader, the UDP header and the
  data verifies, for every data length of a UDP datagram, and the checksum field is never 0,
  which would mean that there is none.
\<close>
theorem udp_write_verifies:
  assumes "length (src_addr c) = 4" and "length (dst_addr c) = 4" and "n + 28 \<le> length buf" and "\<not> zerosum c"
    and "n \<le> 65507"
  shows "length (udp_write c buf n) = n + 28 \<and> drop 28 (udp_write c buf n) = take n (drop 28 buf) \<and>
    in_cksum (pseudo c n @ drop 20 (udp_write c buf n)) = 0 \<and> u16_at (udp_write c buf n) 26 \<noteq> 0"
proof -
  obtain ck where w: "drop 20 (udp_write c buf n) = udp_head c n @ le_bytes ck @ take n (drop 28 buf)"
    and l: "length (udp_write c buf n) = n + 28" and ck: "ck \<noteq> 0"
    and s: "in_cksum (pseudo c n @ udp_head c n @ le_bytes ck @ take n (drop 28 buf)) = 0"
    by (rule udp_write_sum [OF assms])
  have "drop 28 (udp_write c buf n) = drop 8 (drop 20 (udp_write c buf n))" by simp
  then have "drop 28 (udp_write c buf n) = take n (drop 28 buf)" unfolding w by simp
  moreover have "u16_at (udp_write c buf n) 26 = ck"
  proof -
    let ?h = "take 20 (udp_write c buf n) @ udp_head c n"
    have "udp_write c buf n = ?h @ le_bytes ck @ take n (drop 28 buf)"
      using append_take_drop_id [of 20 "udp_write c buf n"] unfolding w by simp
    moreover have "length ?h = 26" using l by simp
    ultimately show ?thesis by (metis u16_at_le_bytes)
  qed
  ultimately show ?thesis using l s ck by (simp add: w)
qed

definition udp_demo :: udp_cfg where
  "udp_demo = \<lparr>src_addr = [10, 0, 0, 1], src_port = htons 40000, dst_addr = [198, 41, 0, 4], dst_port = htons 53,
     zerosum = False, net_order_len = True\<rparr>"

theorem udp_write_verifies_witness:
  "in_cksum (pseudo udp_demo 36 @ drop 20 (udp_write udp_demo (replicate 28 255 @ dns_query @ [0]) 36)) = 0 \<and>
   drop 28 (udp_write udp_demo (replicate 28 255 @ dns_query @ [0]) 36) = dns_query"
proof -
  have "length dns_query = 36" by (simp add: dns_query_def be_bytes_def)
  then show ?thesis using udp_write_verifies [of udp_demo 36 "replicate 28 255 @ dns_query @ [0]"]
    by (simp add: udp_demo_def)
qed

end
