(* ===== verification/Getaddrinfo.thy ===== *)
theory Getaddrinfo
  imports Sockaddr
begin

text \<open>
  \<open>libgai/\<close>: \<open>getaddrinfo\<close> with its helpers \<open>ga_echeck\<close>, \<open>ga_nsearch\<close>, \<open>ga_aistruct\<close>, \<open>ga_port\<close>,
  \<open>ga_clone\<close>, \<open>ga_serv\<close> and \<open>ga_unix\<close>, \<open>freeaddrinfo\<close>, and \<open>getnameinfo\<close> with \<open>gn_ipv46\<close>.  The
  resolver behind \<open>gethostbyname\<close> and \<open>getservbyname\<close> is a parameter.
\<close>

section \<open>Data\<close>

text \<open>
  \<open>struct addrinfo\<close>, linked through \<open>ai_next\<close>: a list here.  \<open>None\<close> is a null pointer.
\<close>

record addrinfo =
  ai_flags :: u32
  ai_family :: int
  ai_socktype :: int
  ai_protocol :: int
  ai_addrlen :: nat
  ai_canonname :: "string option"
  ai_addr :: "sockaddr option"

definition AI_PASSIVE :: u32 where "AI_PASSIVE = 1"
definition AI_CANONNAME :: u32 where "AI_CANONNAME = 2"
definition AI_CLONE :: u32 where "AI_CLONE = 4"

definition AF_UNSPEC :: int where "AF_UNSPEC = 0"
definition SOCK_STREAM :: int where "SOCK_STREAM = 1"
definition SOCK_DGRAM :: int where "SOCK_DGRAM = 2"
definition SOCK_RAW :: int where "SOCK_RAW = 3"

lemmas sock_consts = AF_UNSPEC_def SOCK_STREAM_def SOCK_DGRAM_def SOCK_RAW_def
lemmas ai_flag_consts = AI_PASSIVE_def AI_CANONNAME_def AI_CLONE_def

datatype gai_error = EAI_ADDRFAMILY | EAI_AGAIN | EAI_BADFLAGS | EAI_FAIL | EAI_FAMILY | EAI_MEMORY
  | EAI_NODATA | EAI_NONAME | EAI_SERVICE | EAI_SOCKTYPE | EAI_SYSTEM

text \<open>
  The heap as far as it matters: what the next calls of \<open>calloc\<close>, \<open>malloc\<close> and \<open>strdup\<close> answer
  (they succeed when nothing is said), and the number of live blocks.  Files that
  were unlinked are kept too.
\<close>

record gai =
  answers :: "bool list"
  live :: int
  unlinked :: "string list"

definition calloc :: "gai \<Rightarrow> bool \<times> gai" where
  "calloc g =
     (case answers g of
        [] \<Rightarrow> (True, g\<lparr>live := live g + 1\<rparr>)
      | ok # rest \<Rightarrow> (ok, g\<lparr>answers := rest, live := live g + (if ok then 1 else 0)\<rparr>))"

text \<open>The blocks that belong to an entry.\<close>

definition blocks :: "addrinfo \<Rightarrow> int" where
  "blocks ai = 1 + (if ai_addr ai = None then 0 else 1) + (if ai_canonname ai = None then 0 else 1)"

definition freeaddrinfo :: "addrinfo list \<Rightarrow> gai \<Rightarrow> gai" where
  "freeaddrinfo ais g = fold (\<lambda>ai g. g\<lparr>live := live g - blocks ai\<rparr>) ais g"

section \<open>Checks and searches\<close>

text \<open>\<open>s == NULL || s[0] == 0\<close>, and the first character of a C string.\<close>

definition unnamed :: "string option \<Rightarrow> bool" where
  "unnamed s \<longleftrightarrow> s = None \<or> s = Some []"

definition first :: "string \<Rightarrow> char" where
  "first s = (case s of [] \<Rightarrow> CHR 0x00 | c # _ \<Rightarrow> c)"

definition ga_echeck :: "string option \<Rightarrow> string option \<Rightarrow> u32 \<Rightarrow> int \<Rightarrow> int \<Rightarrow> gai_error option" where
  "ga_echeck hostname servname flags family socktype =
     (if flags AND NOT (AI_PASSIVE OR AI_CANONNAME) \<noteq> 0 then Some EAI_BADFLAGS
      else if unnamed hostname \<and> unnamed servname then Some EAI_NONAME
      else if family = AF_UNSPEC then None
      else if family = AF_INET \<or> family = AF_INET6 then
        (if socktype \<noteq> 0 \<and> socktype \<noteq> SOCK_STREAM \<and> socktype \<noteq> SOCK_DGRAM \<and> socktype \<noteq> SOCK_RAW
         then Some EAI_SOCKTYPE else None)
      else if family = AF_UNIX then
        (if socktype \<noteq> 0 \<and> socktype \<noteq> SOCK_STREAM \<and> socktype \<noteq> SOCK_DGRAM then Some EAI_SOCKTYPE else None)
      else Some EAI_FAMILY)"

definition ga_nsearch :: "string option \<Rightarrow> addrinfo \<Rightarrow> (string \<times> int) list run" where
  "ga_nsearch hostname hints =
     (let pair = (\<lambda>host4 host6.
            if ai_family hints = AF_INET then [(host4, AF_INET)]
            else if ai_family hints = AF_INET6 then [(host6, AF_INET6)]
            else if ai_family hints = AF_UNSPEC then [(host6, AF_INET6), (host4, AF_INET)]
            else []);
          search =
            (if unnamed hostname then
               (if ai_flags hints AND AI_PASSIVE \<noteq> 0 then pair ''0.0.0.0'' ''0::0'' else pair ''localhost'' ''0::1'')
             else pair (the hostname) (the hostname))
      in if length search < 1 \<or> length search > 2 then Fatal (''nsearch = '' @ fmt_u (length search))
         else Ret search)"

section \<open>Entries\<close>

text \<open>What \<open>const void *addr\<close> points to.\<close>

datatype raw_addr = InAddr "byte list" | Path string

fun raw_bytes :: "raw_addr \<Rightarrow> byte list" where
  "raw_bytes (InAddr bs) = bs"
| "raw_bytes (Path s) = map of_char s"

fun raw_path :: "raw_addr \<Rightarrow> string" where
  "raw_path (InAddr bs) = map (\<lambda>b. char_of (unat b)) (takeWhile (\<lambda>b. b \<noteq> 0) bs)"
| "raw_path (Path s) = s"

definition SUN_PATH_LEN :: nat where "SUN_PATH_LEN = 108"

text \<open>The entry is linked before its address is allocated.\<close>

definition add_addr ::
  "sockaddr \<Rightarrow> nat \<Rightarrow> addrinfo \<Rightarrow> addrinfo list \<Rightarrow> gai \<Rightarrow> gai_error option \<times> addrinfo list \<times> gai" where
  "add_addr sa len ai ais g =
     (let (ok, g1) = calloc g
      in if ok then (None, ais @ [ai\<lparr>ai_addr := Some sa, ai_addrlen := len\<rparr>], g1)
         else (Some EAI_MEMORY, ais @ [ai], g1))"

definition ga_aistruct ::
  "addrinfo \<Rightarrow> raw_addr \<Rightarrow> int \<Rightarrow> addrinfo list \<Rightarrow> gai \<Rightarrow> gai_error option \<times> addrinfo list \<times> gai" where
  "ga_aistruct hints addr family ais g =
     (let (ok, g1) = calloc g;
          ai = \<lparr>ai_flags = (if ai_socktype hints = 0 then AI_CLONE else 0), ai_family = family,
            ai_socktype = ai_socktype hints, ai_protocol = ai_protocol hints, ai_addrlen = 0,
            ai_canonname = None, ai_addr = None\<rparr>
      in if \<not> ok then (Some EAI_MEMORY, ais, g1)
         else if family = AF_INET then add_addr (SaIn 0 (take 4 (raw_bytes addr))) 16 ai ais g1
         else if family = AF_INET6 then add_addr (SaIn6 0 (take 16 (raw_bytes addr))) 28 ai ais g1
         else if family = AF_UNIX then
           (if length (raw_path addr) \<ge> SUN_PATH_LEN then (Some EAI_SERVICE, ais @ [ai], g1)
            else case add_addr (SaUn (raw_path addr)) 110 ai ais g1 of
                (None, ais1, g2) \<Rightarrow>
                  (None, ais1, if ai_flags hints AND AI_PASSIVE \<noteq> 0
                    then g2\<lparr>unlinked := unlinked g2 @ [raw_path addr]\<rparr> else g2)
              | r \<Rightarrow> r)
         else (None, ais @ [ai], g1))"

text \<open>
  The clone is linked behind its original at once; \<open>new\<close> is the list of what was linked, and the
  flag tells whether the call succeeded.
\<close>

definition ga_clone :: "addrinfo \<Rightarrow> gai \<Rightarrow> bool \<times> addrinfo list \<times> gai" where
  "ga_clone ai g =
     (let (ok, g1) = calloc g;
          new = ai\<lparr>ai_flags := 0, ai_canonname := None, ai_addr := None\<rparr>
      in if \<not> ok then (False, [], g1)
         else let (ok2, g2) = calloc g1
           in if \<not> ok2 then (False, [new], g2)
              else (True, [new\<lparr>ai_addr := Some (case ai_addr ai of Some sa \<Rightarrow> sa | None \<Rightarrow> SaOther (ai_family ai))\<rparr>], g2))"

definition set_port :: "u16 \<Rightarrow> int \<Rightarrow> addrinfo \<Rightarrow> addrinfo" where
  "set_port port socktype ai =
     (let ai1 = ai\<lparr>ai_socktype := socktype\<rparr>
      in if ai_family ai = AF_INET \<or> ai_family ai = AF_INET6
         then ai1\<lparr>ai_addr := map_option (\<lambda>sa. sock_set_port sa (uint port)) (ai_addr ai1)\<rparr> else ai1)"

definition has_port :: "addrinfo \<Rightarrow> nat" where
  "has_port ai = (if ai_family ai = AF_INET \<or> ai_family ai = AF_INET6 then 1 else 0)"

text \<open>\<open>None\<close> for the result -1; the list is what the caller sees either way.\<close>

fun ga_port :: "addrinfo list \<Rightarrow> u16 \<Rightarrow> int \<Rightarrow> gai \<Rightarrow> nat option \<times> addrinfo list \<times> gai" where
  "ga_port [] port socktype g = (Some 0, [], g)"
| "ga_port (ai # ais) port socktype g =
     (if ai_flags ai AND AI_CLONE \<noteq> 0 \<and> ai_socktype ai \<noteq> 0 then
        (let (ok, new, g1) = ga_clone ai g
         in if \<not> ok then (None, ai # new @ ais, g1)
            else let (n, ais1, g2) = ga_port ais port socktype g1
              in (map_option (\<lambda>n. n + has_port (hd new)) n, ai # set_port port socktype (hd new) # ais1, g2))
      else if ai_flags ai AND AI_CLONE = 0 \<and> ai_socktype ai \<noteq> socktype then
        (let (n, ais1, g2) = ga_port ais port socktype g in (n, ai # ais1, g2))
      else let (n, ais1, g2) = ga_port ais port socktype g
        in (map_option (\<lambda>n. n + has_port ai) n, set_port port socktype ai # ais1, g2))"

section \<open>Services\<close>

definition isdigit :: "char \<Rightarrow> bool" where "isdigit c \<longleftrightarrow> strchr dec_digits c \<noteq> None"
definition isxdigit :: "char \<Rightarrow> bool" where "isxdigit c \<longleftrightarrow> strchr xdigits_l c \<noteq> None \<or> strchr xdigits_u c \<noteq> None"

text \<open>\<open>atoi\<close> on a text that starts with a digit.\<close>

fun atoi_from :: "nat \<Rightarrow> string \<Rightarrow> nat" where
  "atoi_from v [] = v"
| "atoi_from v (c # s) = (case strchr dec_digits c of Some d \<Rightarrow> atoi_from (v * 10 + d) s | None \<Rightarrow> v)"

record hostent =
  h_name :: string
  h_addrtype :: int
  h_addr_list :: "byte list list"

datatype h_errno = HOST_NOT_FOUND | TRY_AGAIN | NO_RECOVERY | NO_DATA | HErr int

text \<open>
  The resolver: \<open>gethostbyname2\<close>, \<open>gethostbyname\<close> under the setting of \<open>RES_USE_INET6\<close>,
  \<open>getservbyname\<close> with a port in network byte order, \<open>gethostbyaddr\<close>, \<open>getservbyport\<close>, \<open>uname\<close>.
\<close>

record resolver =
  gethostbyname2 :: "string \<Rightarrow> int \<Rightarrow> hostent option"
  gethostbyname :: "bool \<Rightarrow> string \<Rightarrow> h_errno + hostent"
  getservbyname :: "string \<Rightarrow> string \<Rightarrow> u16 option"
  gethostbyaddr :: "byte list \<Rightarrow> int \<Rightarrow> string option"
  getservbyport :: "u16 \<Rightarrow> string option \<Rightarrow> string option"
  nodename :: "string option"

text \<open>The ports to try with their socket types, in order.\<close>

definition named_port :: "resolver \<Rightarrow> string \<Rightarrow> string \<Rightarrow> int \<Rightarrow> (u16 \<times> int) list" where
  "named_port r serv proto socktype =
     (case getservbyname r serv proto of Some p \<Rightarrow> [(p, socktype)] | None \<Rightarrow> [])"

definition serv_ports :: "resolver \<Rightarrow> int \<Rightarrow> string \<Rightarrow> (u16 \<times> int) list" where
  "serv_ports r socktype serv =
     (if isdigit (first serv) then
        (let port = htons (int (atoi_from 0 serv))
         in if socktype \<noteq> 0 then [(port, socktype)] else [(port, SOCK_STREAM), (port, SOCK_DGRAM)])
      else
        (if socktype = 0 \<or> socktype = SOCK_STREAM then named_port r serv ''tcp'' SOCK_STREAM else []) @
        (if socktype = 0 \<or> socktype = SOCK_DGRAM then named_port r serv ''udp'' SOCK_DGRAM else []))"

fun ga_ports :: "(u16 \<times> int) list \<Rightarrow> addrinfo list \<Rightarrow> gai \<Rightarrow> nat option \<times> addrinfo list \<times> gai" where
  "ga_ports [] ais g = (Some 0, ais, g)"
| "ga_ports ((port, st) # ps) ais g =
     (case ga_port ais port st g of
        (None, ais1, g1) \<Rightarrow> (None, ais1, g1)
      | (Some n, ais1, g1) \<Rightarrow>
          (let (m, ais2, g2) = ga_ports ps ais1 g1 in (map_option ((+) n) m, ais2, g2)))"

definition ga_serv :: "resolver \<Rightarrow> addrinfo \<Rightarrow> string \<Rightarrow> addrinfo list \<Rightarrow> gai \<Rightarrow> gai_error option \<times> addrinfo list \<times> gai" where
  "ga_serv r hints serv ais g =
     (case ga_ports (serv_ports r (ai_socktype hints) serv) ais g of
        (None, ais1, g1) \<Rightarrow> (Some EAI_MEMORY, ais1, g1)
      | (Some nfound, ais1, g1) \<Rightarrow>
          (if nfound = 0 then (Some (if ai_socktype hints = 0 then EAI_NONAME else EAI_SERVICE), ais1, g1)
           else (None, ais1, g1)))"

section \<open>The Unix domain\<close>

text \<open>An error returns without freeing what was allocated.\<close>

definition ga_unix :: "resolver \<Rightarrow> string \<Rightarrow> addrinfo \<Rightarrow> gai \<Rightarrow> (gai_error + addrinfo list) \<times> gai" where
  "ga_unix r path hints g =
     (if ai_family hints \<noteq> AF_UNSPEC \<and> ai_family hints \<noteq> AF_UNIX then (Inl EAI_ADDRFAMILY, g)
      else
        let (rc, ais, g1, hints1) =
              (if ai_socktype hints = 0 then
                 (let (rc, ais, g1) = ga_aistruct (hints\<lparr>ai_socktype := SOCK_STREAM\<rparr>) (Path path) AF_UNIX [] g
                  in (rc, ais, g1, hints\<lparr>ai_socktype := SOCK_DGRAM\<rparr>))
               else (None, [], g, hints))
        in case rc of
             Some e \<Rightarrow> (Inl e, g1)
           | None \<Rightarrow>
               (case ga_aistruct hints1 (Path path) AF_UNIX ais g1 of
                  (Some e, _, g2) \<Rightarrow> (Inl e, g2)
                | (None, ais2, g2) \<Rightarrow>
                    if ai_flags hints AND AI_CANONNAME = 0 then (Inr ais2, g2)
                    else (case nodename r of
                        None \<Rightarrow> (Inl EAI_SYSTEM, g2)
                      | Some name \<Rightarrow>
                          (let (ok, g3) = calloc g2
                           in if ok then (Inr ((hd ais2)\<lparr>ai_canonname := Some name\<rparr> # tl ais2), g3)
                              else (Inl EAI_MEMORY, g3)))))"

section \<open>getaddrinfo\<close>

text \<open>The two checks for an address in text form: its family and bytes.\<close>

definition literal :: "string \<Rightarrow> (int \<times> byte list) option" where
  "literal host =
     (case (if isdigit (first host) then inet_pton AF_INET host else PtonBad) of
        PtonOk _ a \<Rightarrow> Some (AF_INET, a)
      | _ \<Rightarrow>
        (case (if (isxdigit (first host) \<or> first host = CHR '':'') \<and> strchr host CHR '':'' \<noteq> None
               then inet_pton AF_INET6 host else PtonBad) of
           PtonOk _ a \<Rightarrow> Some (AF_INET6, a)
         | _ \<Rightarrow> None))"

fun eai_of :: "h_errno \<Rightarrow> gai_error" where
  "eai_of HOST_NOT_FOUND = EAI_NONAME"
| "eai_of TRY_AGAIN = EAI_AGAIN"
| "eai_of NO_RECOVERY = EAI_FAIL"
| "eai_of NO_DATA = EAI_NODATA"
| "eai_of (HErr n) = EAI_NONAME"

definition wants_canon :: "string option \<Rightarrow> addrinfo \<Rightarrow> bool" where
  "wants_canon hostname hints \<longleftrightarrow> \<not> unnamed hostname \<and> ai_flags hints AND AI_CANONNAME \<noteq> 0"

fun add_addrs ::
  "addrinfo \<Rightarrow> int \<Rightarrow> byte list list \<Rightarrow> addrinfo list \<Rightarrow> gai \<Rightarrow> gai_error option \<times> addrinfo list \<times> gai" where
  "add_addrs hints family [] ais g = (None, ais, g)"
| "add_addrs hints family (a # as) ais g =
     (case ga_aistruct hints (InAddr a) family ais g of
        (Some e, ais1, g1) \<Rightarrow> (Some e, ais1, g1)
      | (None, ais1, g1) \<Rightarrow> add_addrs hints family as ais1 g1)"

text \<open>The host has been found; the canonical name is kept the first time.\<close>

definition use_host ::
  "string option \<Rightarrow> addrinfo \<Rightarrow> hostent \<Rightarrow> string option \<Rightarrow> addrinfo list \<Rightarrow> gai \<Rightarrow>
     gai_error option \<times> string option \<times> addrinfo list \<times> gai" where
  "use_host hostname hints hp canon ais g =
     (if ai_family hints \<noteq> AF_UNSPEC \<and> ai_family hints \<noteq> h_addrtype hp then (Some EAI_ADDRFAMILY, canon, ais, g)
      else
        let (ok, canon1, g1) =
              (if wants_canon hostname hints \<and> canon = None then
                 (let (ok, g1) = calloc g in (ok, if ok then Some (h_name hp) else None, g1))
               else (True, canon, g))
        in if \<not> ok then (Some EAI_MEMORY, canon1, ais, g1)
           else let (rc, ais1, g2) = add_addrs hints (h_addrtype hp) (h_addr_list hp) ais g1
             in (rc, canon1, ais1, g2))"

text \<open>One turn of the loop over the searches.\<close>

definition search_step ::
  "resolver \<Rightarrow> string option \<Rightarrow> addrinfo \<Rightarrow> nat \<Rightarrow> string \<Rightarrow> int \<Rightarrow> string option \<Rightarrow> addrinfo list \<Rightarrow> gai \<Rightarrow>
     gai_error option \<times> string option \<times> addrinfo list \<times> gai" where
  "search_step r hostname hints nsearch host family canon ais g =
    (case literal host of
       Some (lf, a) \<Rightarrow>
         if ai_family hints \<noteq> AF_UNSPEC \<and> ai_family hints \<noteq> lf then (Some EAI_ADDRFAMILY, canon, ais, g)
         else if family \<noteq> lf then (None, canon, ais, g)
         else let (rc, ais1, g1) = ga_aistruct hints (InAddr a) lf ais g in (rc, canon, ais1, g1)
     | None \<Rightarrow>
         if nsearch = 2 then
           (case gethostbyname2 r host family of
              None \<Rightarrow> (None, canon, ais, g)
            | Some hp \<Rightarrow> use_host hostname hints hp canon ais g)
         else
           (case gethostbyname r (family = AF_INET6) host of
              Inl e \<Rightarrow> (Some (eai_of e), canon, ais, g)
            | Inr hp \<Rightarrow> use_host hostname hints hp canon ais g))"

fun ga_search ::
  "resolver \<Rightarrow> string option \<Rightarrow> addrinfo \<Rightarrow> nat \<Rightarrow> (string \<times> int) list \<Rightarrow> string option \<Rightarrow> addrinfo list \<Rightarrow> gai \<Rightarrow>
     gai_error option \<times> string option \<times> addrinfo list \<times> gai" where
  "ga_search r hostname hints nsearch [] canon ais g = (None, canon, ais, g)"
| "ga_search r hostname hints nsearch ((host, family) # ss) canon ais g =
     (case search_step r hostname hints nsearch host family canon ais g of
        (Some e, canon1, ais1, g1) \<Rightarrow> (Some e, canon1, ais1, g1)
      | (None, canon1, ais1, g1) \<Rightarrow> ga_search r hostname hints nsearch ss canon1 ais1 g1)"

text \<open>
  The part behind the loop.  The canonical name goes to the first entry: the one found, or a copy
  of the name that was searched first.
\<close>

definition ga_finish ::
  "resolver \<Rightarrow> string option \<Rightarrow> string option \<Rightarrow> addrinfo \<Rightarrow> string \<Rightarrow> string option \<Rightarrow> addrinfo list \<Rightarrow> gai \<Rightarrow>
     gai_error option \<times> addrinfo list \<times> gai" where
  "ga_finish r hostname servname hints host0 canon ais g =
     (if ais = [] then (Some EAI_NONAME, ais, g)
      else
        let (ok, ais1, g1) =
              (if wants_canon hostname hints then
                 (case canon of
                    Some c \<Rightarrow> (True, (hd ais)\<lparr>ai_canonname := Some c\<rparr> # tl ais, g)
                  | None \<Rightarrow>
                      (let (ok, g1) = calloc g
                       in (ok, if ok then (hd ais)\<lparr>ai_canonname := Some host0\<rparr> # tl ais else ais, g1)))
               else (True, ais, g))
        in if \<not> ok then (Some EAI_MEMORY, ais1, g1)
           else if \<not> unnamed servname then ga_serv r hints (the servname) ais1 g1
           else (None, ais1, g1))"

definition no_hints :: addrinfo where
  "no_hints = \<lparr>ai_flags = 0, ai_family = AF_UNSPEC, ai_socktype = 0, ai_protocol = 0, ai_addrlen = 0,
     ai_canonname = None, ai_addr = None\<rparr>"

definition unix_name :: "string option \<Rightarrow> string option \<Rightarrow> bool" where
  "unix_name hostname servname \<longleftrightarrow>
     (hostname = Some ''/local'' \<or> hostname = Some ''/unix'') \<and> servname \<noteq> None \<and> first (the servname) = CHR ''/''"

text \<open>
  At the label \<open>bad\<close> the entries are freed, the canonical name that is not yet in an entry is not.
\<close>

definition getaddrinfo ::
  "resolver \<Rightarrow> string option \<Rightarrow> string option \<Rightarrow> addrinfo option \<Rightarrow> gai \<Rightarrow> ((gai_error + addrinfo list) \<times> gai) run" where
  "getaddrinfo r hostname servname hintsp g =
     (let hints = (case hintsp of None \<Rightarrow> no_hints | Some h \<Rightarrow> h) in
      case ga_echeck hostname servname (ai_flags hints) (ai_family hints) (ai_socktype hints) of
        Some e \<Rightarrow> Ret (Inl e, g)
      | None \<Rightarrow>
          if unix_name hostname servname then Ret (ga_unix r (the servname) hints g)
          else run_bind (ga_nsearch hostname hints) (\<lambda>search.
            let (rc, canon, ais, g1) = ga_search r hostname hints (length search) search None [] g;
                (rc2, ais2, g2) =
                  (case rc of
                     Some e \<Rightarrow> (Some e, ais, g1)
                   | None \<Rightarrow> ga_finish r hostname servname hints (fst (hd search)) canon ais g1)
            in Ret (case rc2 of Some e \<Rightarrow> (Inl e, freeaddrinfo ais2 g2) | None \<Rightarrow> (Inr ais2, g2))))"

section \<open>getnameinfo\<close>

definition NI_NOFQDN :: u32 where "NI_NOFQDN = 1"
definition NI_NUMERICHOST :: u32 where "NI_NUMERICHOST = 2"
definition NI_NAMEREQD :: u32 where "NI_NAMEREQD = 4"
definition NI_NUMERICSERV :: u32 where "NI_NUMERICSERV = 8"
definition NI_DGRAM :: u32 where "NI_DGRAM = 16"

lemmas ni_consts = NI_NOFQDN_def NI_NUMERICHOST_def NI_NAMEREQD_def NI_NUMERICSERV_def NI_DGRAM_def

text \<open>The return value and the texts written to \<open>host\<close> and \<open>serv\<close>.\<close>

definition gn_host :: "resolver \<Rightarrow> nat \<Rightarrow> byte list \<Rightarrow> int \<Rightarrow> u32 \<Rightarrow> string option" where
  "gn_host r hostlen addr family flags =
     (let numeric = (case inet_ntop family addr hostlen of Inl e \<Rightarrow> None | Inr s \<Rightarrow> Some s)
      in if flags AND NI_NUMERICHOST \<noteq> 0 then numeric
         else case gethostbyaddr r addr family of
             Some name \<Rightarrow> Some (snprintf_cut hostlen
               (if flags AND NI_NOFQDN \<noteq> 0 then takeWhile (\<lambda>c. c \<noteq> CHR ''.'') name else name))
           | None \<Rightarrow> if flags AND NI_NAMEREQD \<noteq> 0 then None else numeric)"

definition gn_serv :: "resolver \<Rightarrow> nat \<Rightarrow> u16 \<Rightarrow> u32 \<Rightarrow> string" where
  "gn_serv r servlen port flags =
     (let numeric = snprintf_cut servlen (fmt_d (uint (ntohs port)))
      in if flags AND NI_NUMERICSERV \<noteq> 0 then numeric
         else case getservbyport r port (if flags AND NI_DGRAM \<noteq> 0 then Some ''udp'' else None) of
             Some name \<Rightarrow> snprintf_cut servlen name
           | None \<Rightarrow> numeric)"

definition gn_ipv46 ::
  "resolver \<Rightarrow> nat \<Rightarrow> nat \<Rightarrow> byte list \<Rightarrow> int \<Rightarrow> u16 \<Rightarrow> u32 \<Rightarrow> int \<times> string option \<times> string option" where
  "gn_ipv46 r hostlen servlen addr family port flags =
     (let host = gn_host r hostlen addr family flags
      in if hostlen > 0 \<and> host = None then (1, None, None)
         else (0, if hostlen > 0 then host else None,
           if servlen > 0 then Some (gn_serv r servlen port flags) else None))"

definition getnameinfo ::
  "resolver \<Rightarrow> sockaddr \<Rightarrow> nat \<Rightarrow> nat \<Rightarrow> u32 \<Rightarrow> int \<times> string option \<times> string option" where
  "getnameinfo r sa hostlen servlen flags =
     (case sa of
        SaIn port a \<Rightarrow> gn_ipv46 r hostlen servlen a AF_INET port flags
      | SaIn6 port a \<Rightarrow> gn_ipv46 r hostlen servlen a AF_INET6 port flags
      | SaUn path \<Rightarrow> (0, if hostlen > 0 then Some (snprintf_cut hostlen ''/local'') else None,
          if servlen > 0 then Some (snprintf_cut servlen path) else None)
      | _ \<Rightarrow> (1, None, None))"

section \<open>Memory\<close>

text \<open>The blocks of a list of entries; freeing it gives them back.\<close>

definition owned :: "addrinfo list \<Rightarrow> int" where
  "owned ais = sum_list (map blocks ais)"

lemma owned_simps [simp]:
  "owned [] = 0" "owned (ai # ais) = blocks ai + owned ais" "owned (ais @ ais') = owned ais + owned ais'"
  by (simp_all add: owned_def)

lemma live_freeaddrinfo [simp]: "live (freeaddrinfo ais g) = live g - owned ais"
  unfolding freeaddrinfo_def by (induction ais arbitrary: g) simp_all

lemma calloc_live: "calloc g = (ok, g') \<Longrightarrow> live g' = live g + (if ok then 1 else 0)"
  by (auto simp: calloc_def split: list.splits if_splits)

text \<open>Blocks that are live without belonging to an entry of the list.\<close>

definition others :: "addrinfo list \<Rightarrow> gai \<Rightarrow> int" where
  "others ais g = live g - owned ais"

lemma add_addr_others:
  assumes "add_addr sa len ai ais g = (rc, ais', g')" and "ai_addr ai = None"
  shows "others ais' g' = others ais g - blocks ai"
  using assms by (auto simp: add_addr_def others_def blocks_def Let_def dest!: calloc_live split: prod.splits if_splits)

lemma ga_aistruct_others:
  assumes "ga_aistruct hints addr family ais g = (rc, ais', g')"
  shows "others ais' g' = others ais g"
proof -
  obtain ok g1 where c: "calloc g = (ok, g1)" by fastforce
  define ai where "ai = \<lparr>ai_flags = (if ai_socktype hints = 0 then AI_CLONE else 0), ai_family = family,
    ai_socktype = ai_socktype hints, ai_protocol = ai_protocol hints, ai_addrlen = 0,
    ai_canonname = None, ai_addr = None\<rparr>"
  have n: "ai_addr ai = None" "blocks ai = 1" by (simp_all add: ai_def blocks_def)
  note l = calloc_live [OF c]
  show ?thesis
  proof (cases ok)
    case False
    then show ?thesis using assms l c by (simp add: ga_aistruct_def Let_def others_def)
  next
    case True
    have o1: "others ais g1 - 1 = others ais g" using l True by (simp add: others_def)
    have lone: "others (ais @ [ai]) g1 = others ais g" using o1 n by (simp add: others_def)
    have add: "others a h = others ais g" if "add_addr sa len ai ais g1 = (e, a, h)" for sa len e a h
      using add_addr_others [OF that n(1)] n(2) o1 by simp
    have unlink: "others a (h\<lparr>unlinked := u\<rparr>) = others a h" for a h u by (simp add: others_def)
    show ?thesis using assms True c lone unfolding ga_aistruct_def Let_def ai_def [symmetric]
      by (auto dest: add simp: unlink split: if_splits prod.splits option.splits)
  qed
qed

lemma add_addrs_others:
  "add_addrs hints family as ais g = (rc, ais', g') \<Longrightarrow> others ais' g' = others ais g"
proof (induction as arbitrary: ais g)
  case (Cons a as)
  obtain e ais1 g1 where a: "ga_aistruct hints (InAddr a) family ais g = (e, ais1, g1)" by (rule prod_cases3)
  then have "others ais1 g1 = others ais g" by (rule ga_aistruct_others)
  then show ?case using Cons a by (cases e) auto
qed simp

text \<open>The canonical name is the one block that may live outside the list.\<close>

fun canon_blocks :: "string option \<Rightarrow> int" where
  "canon_blocks None = 0"
| "canon_blocks (Some s) = 1"

lemma use_host_others:
  assumes "use_host hostname hints hp canon ais g = (rc, canon', ais', g')"
  shows "others ais' g' - canon_blocks canon' = others ais g - canon_blocks canon"
    and "canon' \<noteq> canon \<Longrightarrow> wants_canon hostname hints"
  using assms
  by (auto simp: use_host_def Let_def others_def dest!: calloc_live add_addrs_others split: if_splits prod.splits)

lemma search_step_others:
  assumes "search_step r hostname hints n host family canon ais g = (rc, canon', ais', g')"
  shows "others ais' g' - canon_blocks canon' = others ais g - canon_blocks canon \<and>
    (canon' \<noteq> canon \<longrightarrow> wants_canon hostname hints)"
  using assms unfolding search_step_def
  by (auto dest: use_host_others ga_aistruct_others split: option.splits if_splits prod.splits sum.splits)

lemma ga_search_others:
  assumes "ga_search r hostname hints n ss canon ais g = (rc, canon', ais', g')"
  shows "others ais' g' - canon_blocks canon' = others ais g - canon_blocks canon \<and>
    (canon' \<noteq> canon \<longrightarrow> wants_canon hostname hints)"
  using assms
proof (induction r hostname hints n ss canon ais g rule: ga_search.induct)
  case (2 r hostname hints n host family ss canon ais g)
  obtain e canon1 ais1 g1 where s: "search_step r hostname hints n host family canon ais g = (e, canon1, ais1, g1)"
    by (metis prod_cases4)
  note h = search_step_others [OF s]
  show ?case
  proof (cases e)
    case None
    then show ?thesis using 2 s h by fastforce
  next
    case (Some x)
    then show ?thesis using 2(2) s h by simp
  qed
qed simp

lemma ga_clone_others:
  assumes "ga_clone ai g = (ok, new, g')"
  shows "live g' - owned new = live g" and "ok \<Longrightarrow> \<exists>ai'. new = [ai'] \<and> ai_addr ai' \<noteq> None"
  using assms by (auto simp: ga_clone_def Let_def blocks_def dest!: calloc_live split: prod.splits if_splits)

lemma blocks_set_port [simp]: "blocks (set_port port st ai) = blocks ai"
  by (simp add: set_port_def blocks_def Let_def)

lemma ga_port_others: "ga_port ais port st g = (n, ais', g') \<Longrightarrow> others ais' g' = others ais g"
proof (induction ais port st g arbitrary: n ais' g' rule: ga_port.induct)
  case (2 ai ais port st g)
  obtain ok new g1 where c: "ga_clone ai g = (ok, new, g1)" by (rule prod_cases3)
  obtain m1 a1 h1 where p1: "ga_port ais port st g = (m1, a1, h1)" by (rule prod_cases3)
  obtain m2 a2 h2 where p2: "ga_port ais port st g1 = (m2, a2, h2)" by (rule prod_cases3)
  let ?clone = "ai_flags ai AND AI_CLONE \<noteq> 0 \<and> ai_socktype ai \<noteq> 0"
  show ?case
  proof (cases ?clone)
    case True
    show ?thesis
    proof (cases ok)
      case False
      then show ?thesis using 2(4) True c ga_clone_others(1) [OF c] by (auto simp: others_def)
    next
      case okT: True
      obtain ai' where n: "new = [ai']" using ga_clone_others(2) [OF c okT] by blast
      have "others a2 h2 = others ais g1" using 2(1) [OF True c [symmetric] refl] okT p2 by simp
      then show ?thesis using 2(4) True okT c p2 n ga_clone_others(1) [OF c] by (auto simp: others_def)
    qed
  next
    case False
    have "others a1 h1 = others ais g"
      by (cases "ai_flags ai AND AI_CLONE = 0 \<and> ai_socktype ai \<noteq> st") (use 2(2,3) False p1 in blast)+
    then show ?thesis using 2(4) False p1 by (auto simp: others_def split: if_splits)
  qed
qed simp

lemma ga_ports_others: "ga_ports ps ais g = (n, ais', g') \<Longrightarrow> others ais' g' = others ais g"
proof (induction ps ais g arbitrary: n ais' g' rule: ga_ports.induct)
  case (2 port st ps ais g)
  obtain m1 a1 h1 where p1: "ga_port ais port st g = (m1, a1, h1)" by (rule prod_cases3)
  show ?case using 2 p1 ga_port_others [OF p1] by (cases m1) (fastforce simp: Let_def split: prod.splits)+
qed simp

lemma ga_serv_others: "ga_serv r hints serv ais g = (e, ais', g') \<Longrightarrow> others ais' g' = others ais g"
  by (auto simp: ga_serv_def dest: ga_ports_others split: prod.splits option.splits if_splits)

lemma blocks_canon:
  "ai_canonname ai = None \<Longrightarrow> blocks (ai\<lparr>ai_canonname := Some c\<rparr>) = blocks ai + 1"
  by (simp add: blocks_def)

section \<open>Entries before the service is looked up\<close>

text \<open>The size of the structure behind a socket address, and its port; an entry without an address has port 0.\<close>

fun sa_size :: "sockaddr \<Rightarrow> nat" where
  "sa_size (SaIn p a) = 16"
| "sa_size (SaIn6 p a) = 28"
| "sa_size (SaUn path) = 110"
| "sa_size sa = 0"

fun sa_port :: "sockaddr \<Rightarrow> u16" where
  "sa_port (SaIn p a) = p"
| "sa_port (SaIn6 p a) = p"
| "sa_port sa = 0"

definition port_of :: "addrinfo \<Rightarrow> u16" where
  "port_of ai = (case ai_addr ai of None \<Rightarrow> 0 | Some sa \<Rightarrow> sa_port sa)"

text \<open>What an entry has from the hints, and what it has when its address has been stored.\<close>

definition from_hints :: "addrinfo \<Rightarrow> addrinfo \<Rightarrow> bool" where
  "from_hints hints ai \<longleftrightarrow> ai_canonname ai = None \<and> ai_protocol ai = ai_protocol hints \<and>
     ai_socktype ai = ai_socktype hints \<and> ai_flags ai = (if ai_socktype hints = 0 then AI_CLONE else 0) \<and> port_of ai = 0"

definition addressed :: "addrinfo \<Rightarrow> addrinfo \<Rightarrow> bool" where
  "addressed hints ai \<longleftrightarrow>
     (\<exists>sa. ai_addr ai = Some sa \<and> inet_sa sa \<and> sa_family sa = ai_family ai \<and> ai_addrlen ai = sa_size sa) \<and>
     (ai_family hints = AF_UNSPEC \<or> ai_family ai = ai_family hints)"

text \<open>What the resolver promises: IPv4 or IPv6 addresses of the size of their family.\<close>

definition addr_size :: "int \<Rightarrow> nat" where
  "addr_size family = (if family = AF_INET then 4 else 16)"

definition host_ok :: "hostent \<Rightarrow> bool" where
  "host_ok hp \<longleftrightarrow> h_addrtype hp \<in> {AF_INET, AF_INET6} \<and> (\<forall>a \<in> set (h_addr_list hp). length a = addr_size (h_addrtype hp))"

definition resolver_ok :: "resolver \<Rightarrow> bool" where
  "resolver_ok r \<longleftrightarrow> (\<forall>host f hp. gethostbyname2 r host f = Some hp \<longrightarrow> host_ok hp) \<and>
     (\<forall>b host hp. gethostbyname r b host = Inr hp \<longrightarrow> host_ok hp)"

lemma add_addr_from_hints:
  assumes "add_addr sa len ai ais g = (rc, ais', g')" and "from_hints hints ai" and "sa_port sa = 0"
    and "\<forall>ai \<in> set ais. from_hints hints ai"
  shows "\<forall>ai \<in> set ais'. from_hints hints ai"
proof -
  have "from_hints hints (ai\<lparr>ai_addr := Some sa, ai_addrlen := len\<rparr>)"
    using assms(2,3) by (simp add: from_hints_def port_of_def)
  then show ?thesis using assms(1,2,4) by (auto simp: add_addr_def Let_def split: prod.splits if_splits)
qed

lemma ga_aistruct_from_hints:
  assumes "ga_aistruct hints addr family ais g = (rc, ais', g')" and "\<forall>ai \<in> set ais. from_hints hints ai"
  shows "\<forall>ai \<in> set ais'. from_hints hints ai"
proof -
  obtain ok g1 where c: "calloc g = (ok, g1)" by fastforce
  define ai where "ai = \<lparr>ai_flags = (if ai_socktype hints = 0 then AI_CLONE else 0), ai_family = family,
    ai_socktype = ai_socktype hints, ai_protocol = ai_protocol hints, ai_addrlen = 0,
    ai_canonname = None, ai_addr = None\<rparr>"
  have n: "from_hints hints ai" by (simp add: ai_def from_hints_def port_of_def)
  have add: "\<forall>x \<in> set a. from_hints hints x" if "add_addr sa len ai ais g1 = (e, a, h)" "sa_port sa = 0" for sa len e a h
    by (rule add_addr_from_hints [OF that(1) n that(2) assms(2)])
  have lone: "\<forall>x \<in> set (ais @ [ai]). from_hints hints x" using n assms(2) by simp
  show ?thesis
  proof (cases ok)
    case False
    then show ?thesis using assms c by (simp add: ga_aistruct_def Let_def)
  next
    case True
    note eq = assms(1) [unfolded ga_aistruct_def c Let_def prod.case ai_def [symmetric]]
    show ?thesis
    proof (cases "family = AF_UNIX")
      case False
      then show ?thesis using eq True lone add [of "SaIn 0 (take 4 (raw_bytes addr))" 16]
        add [of "SaIn6 0 (take 16 (raw_bytes addr))" 28] by (auto split: if_splits)
    next
      case unix: True
      then have "family \<noteq> AF_INET" "family \<noteq> AF_INET6" by (simp_all add: af_consts)
      then show ?thesis using eq True unix lone add [of "SaUn (raw_path addr)" 110]
        by (cases "add_addr (SaUn (raw_path addr)) 110 ai ais g1 :: gai_error option \<times> addrinfo list \<times> gai")
          (auto split: if_splits option.splits)
    qed
  qed
qed

lemma inet_sa_simps [simp]: "inet_sa (SaIn p a) \<longleftrightarrow> length a = 4" "inet_sa (SaIn6 p a) \<longleftrightarrow> length a = 16"
  by (auto simp: inet_sa_def)

lemma ga_aistruct_addressed:
  assumes "ga_aistruct hints (InAddr a) family ais g = (None, ais', g')" and "\<forall>ai \<in> set ais. addressed hints ai"
    and "family \<in> {AF_INET, AF_INET6}" and "length a = addr_size family"
    and "ai_family hints = AF_UNSPEC \<or> ai_family hints = family"
  shows "\<forall>ai \<in> set ais'. addressed hints ai"
  using assms
  by (auto simp: ga_aistruct_def add_addr_def Let_def addressed_def addr_size_def af_consts split: if_splits prod.splits)

lemma ga_aistruct_grows: "ga_aistruct hints addr family ais g = (None, ais', g') \<Longrightarrow> length ais' = length ais + 1"
  by (auto simp: ga_aistruct_def add_addr_def Let_def split: if_splits prod.splits option.splits)

lemma add_addrs_from_hints:
  "add_addrs hints family as ais g = (rc, ais', g') \<Longrightarrow> \<forall>ai \<in> set ais. from_hints hints ai \<Longrightarrow>
   \<forall>ai \<in> set ais'. from_hints hints ai"
proof (induction as arbitrary: ais g)
  case (Cons a as)
  obtain e ais1 g1 where a: "ga_aistruct hints (InAddr a) family ais g = (e, ais1, g1)" by (rule prod_cases3)
  have "\<forall>ai \<in> set ais1. from_hints hints ai" by (rule ga_aistruct_from_hints [OF a Cons.prems(2)])
  then show ?case using Cons a by (cases e) auto
qed simp

lemma add_addrs_addressed:
  "add_addrs hints family as ais g = (None, ais', g') \<Longrightarrow> \<forall>ai \<in> set ais. addressed hints ai \<Longrightarrow>
   family \<in> {AF_INET, AF_INET6} \<Longrightarrow> \<forall>a \<in> set as. length a = addr_size family \<Longrightarrow>
   ai_family hints = AF_UNSPEC \<or> ai_family hints = family \<Longrightarrow> \<forall>ai \<in> set ais'. addressed hints ai"
proof (induction as arbitrary: ais g)
  case (Cons a as)
  obtain e ais1 g1 where a: "ga_aistruct hints (InAddr a) family ais g = (e, ais1, g1)" by (rule prod_cases3)
  with Cons.prems(1) have e: "e = None" by (cases e) auto
  have "\<forall>ai \<in> set ais1. addressed hints ai"
    using ga_aistruct_addressed [OF a [unfolded e]] Cons.prems by simp
  then show ?case using Cons a e by simp
qed simp

lemma literal_cases: "literal host = Some (lf, a) \<Longrightarrow> lf \<in> {AF_INET, AF_INET6} \<and> length a = addr_size lf"
  by (auto simp: literal_def inet_pton_def addr_size_def af_consts inet_pton4_length inet_pton6_length
    split: if_splits option.splits pton_result.splits)

lemma use_host_from_hints:
  assumes "use_host hostname hints hp canon ais g = (rc, canon', ais', g')" and "\<forall>ai \<in> set ais. from_hints hints ai"
  shows "\<forall>ai \<in> set ais'. from_hints hints ai"
  using assms(1) add_addrs_from_hints [OF _ assms(2)] assms(2)
  by (auto simp: use_host_def Let_def split: if_splits prod.splits)

lemma use_host_addressed:
  assumes "use_host hostname hints hp canon ais g = (None, canon', ais', g')" and "\<forall>ai \<in> set ais. addressed hints ai"
    and "host_ok hp"
  shows "\<forall>ai \<in> set ais'. addressed hints ai"
  using assms(1,3) add_addrs_addressed [OF _ assms(2)]
  by (auto simp: use_host_def Let_def host_ok_def split: if_splits prod.splits)

lemma search_step_from_hints:
  assumes "search_step r hostname hints n host family canon ais g = (rc, canon', ais', g')"
    and "\<forall>ai \<in> set ais. from_hints hints ai"
  shows "\<forall>ai \<in> set ais'. from_hints hints ai"
  using assms unfolding search_step_def
  by (auto dest: use_host_from_hints [OF _ assms(2)] ga_aistruct_from_hints [OF _ assms(2)]
    split: option.splits if_splits prod.splits sum.splits)

lemma search_step_addressed:
  assumes "search_step r hostname hints n host family canon ais g = (None, canon', ais', g')"
    and "\<forall>ai \<in> set ais. addressed hints ai" and "resolver_ok r"
  shows "\<forall>ai \<in> set ais'. addressed hints ai"
proof (cases "literal host")
  case None
  then show ?thesis using assms(1,2) assms(3) [unfolded resolver_ok_def] use_host_addressed [OF _ assms(2)]
    unfolding search_step_def by (auto split: option.splits if_splits sum.splits)
next
  case (Some p)
  obtain lf a where p: "p = (lf, a)" by fastforce
  note l = literal_cases [OF Some [unfolded p]]
  show ?thesis using assms(1,2) Some l p ga_aistruct_addressed [OF _ assms(2), of a lf]
    unfolding search_step_def by (auto split: if_splits prod.splits)
qed

lemma ga_search_from_hints:
  assumes "ga_search r hostname hints n ss canon ais g = (rc, canon', ais', g')"
    and "\<forall>ai \<in> set ais. from_hints hints ai"
  shows "\<forall>ai \<in> set ais'. from_hints hints ai"
  using assms
proof (induction r hostname hints n ss canon ais g rule: ga_search.induct)
  case (2 r hostname hints n host family ss canon ais g)
  obtain e canon1 ais1 g1 where s: "search_step r hostname hints n host family canon ais g = (e, canon1, ais1, g1)"
    by (metis prod_cases4)
  show ?case using 2 s search_step_from_hints [OF s 2(3)] by (cases e) auto
qed simp

lemma ga_search_addressed:
  assumes "ga_search r hostname hints n ss canon ais g = (None, canon', ais', g')"
    and "\<forall>ai \<in> set ais. addressed hints ai" and "resolver_ok r"
  shows "\<forall>ai \<in> set ais'. addressed hints ai"
  using assms
proof (induction r hostname hints n ss canon ais g rule: ga_search.induct)
  case (2 r hostname hints n host family ss canon ais g)
  obtain e canon1 ais1 g1 where s: "search_step r hostname hints n host family canon ais g = (e, canon1, ais1, g1)"
    by (metis prod_cases4)
  with 2(2) have e: "e = None" by (cases e) auto
  show ?case using 2 s search_step_addressed [OF s [unfolded e] 2(3,4)] e by auto
qed simp

section \<open>Entries of the result\<close>

definition result_ok :: "addrinfo \<Rightarrow> addrinfo \<Rightarrow> bool" where
  "result_ok hints ai \<longleftrightarrow> addressed hints ai \<and> ai_protocol ai = ai_protocol hints \<and>
     (ai_socktype hints = 0 \<or> ai_socktype ai = ai_socktype hints)"

lemma inet_sa_set_port [simp]: "inet_sa (sock_set_port sa p) \<longleftrightarrow> inet_sa sa"
  by (cases sa) (simp_all add: inet_sa_def)

lemma sa_family_set_port [simp]: "sa_family (sock_set_port sa p) = sa_family sa"
  by (cases sa) simp_all

lemma sa_size_set_port [simp]: "sa_size (sock_set_port sa p) = sa_size sa"
  by (cases sa) simp_all

lemma set_port_result_ok:
  assumes "result_ok hints ai" and "ai_socktype hints = 0 \<or> st = ai_socktype hints"
  shows "result_ok hints (set_port port st ai)"
  using assms by (auto simp: result_ok_def addressed_def set_port_def Let_def)

lemma ga_clone_result_ok:
  assumes "ga_clone ai g = (True, new, g')" and "result_ok hints ai"
  shows "\<exists>ai'. new = [ai'] \<and> result_ok hints ai'"
  using assms by (auto simp: ga_clone_def Let_def result_ok_def addressed_def split: prod.splits if_splits)

lemma ga_port_result_ok:
  "ga_port ais port st g = (Some n, ais', g') \<Longrightarrow> \<forall>ai \<in> set ais. result_ok hints ai \<Longrightarrow>
   ai_socktype hints = 0 \<or> st = ai_socktype hints \<Longrightarrow> \<forall>ai \<in> set ais'. result_ok hints ai"
proof (induction ais port st g arbitrary: n ais' g' rule: ga_port.induct)
  case (2 ai ais port st g)
  obtain ok new g1 where c: "ga_clone ai g = (ok, new, g1)" by (rule prod_cases3)
  obtain m1 a1 h1 where p1: "ga_port ais port st g = (m1, a1, h1)" by (rule prod_cases3)
  obtain m2 a2 h2 where p2: "ga_port ais port st g1 = (m2, a2, h2)" by (rule prod_cases3)
  let ?clone = "ai_flags ai AND AI_CLONE \<noteq> 0 \<and> ai_socktype ai \<noteq> 0"
  have ai: "result_ok hints ai" and ais: "\<forall>ai \<in> set ais. result_ok hints ai" using 2(5) by simp_all
  show ?case
  proof (cases ?clone)
    case True
    then have okT: ok using 2(4) c by (cases ok) auto
    obtain ai' where n: "new = [ai']" "result_ok hints ai'"
      using ga_clone_result_ok [of ai g new g1 hints] c okT ai by auto
    obtain k where k: "m2 = Some k" using 2(4) True okT c p2 by auto
    have "\<forall>ai \<in> set a2. result_ok hints ai" using 2(1) [OF True c [symmetric] refl] okT p2 k ais 2(6) by simp
    then show ?thesis using 2(4,6) True okT c p2 n ai by (auto simp: set_port_result_ok)
  next
    case False
    obtain k where k: "m1 = Some k" using 2(4) False p1 by (auto split: if_splits)
    have "\<forall>ai \<in> set a1. result_ok hints ai"
      by (cases "ai_flags ai AND AI_CLONE = 0 \<and> ai_socktype ai \<noteq> st") (use 2(2,3) False p1 k ais 2(6) in blast)+
    then show ?thesis using 2(4,6) False p1 ai by (auto simp: set_port_result_ok split: if_splits)
  qed
qed simp

lemma ga_ports_result_ok:
  "ga_ports ps ais g = (Some n, ais', g') \<Longrightarrow> \<forall>ai \<in> set ais. result_ok hints ai \<Longrightarrow>
   \<forall>(port, st) \<in> set ps. ai_socktype hints = 0 \<or> st = ai_socktype hints \<Longrightarrow> \<forall>ai \<in> set ais'. result_ok hints ai"
proof (induction ps arbitrary: ais g n)
  case (Cons p ps)
  obtain port st where p: "p = (port, st)" by fastforce
  obtain m1 a1 h1 where p1: "ga_port ais port st g = (m1, a1, h1)" by (rule prod_cases3)
  obtain m2 a2 h2 where p2: "ga_ports ps a1 h1 = (m2, a2, h2)" by (rule prod_cases3)
  obtain k1 k2 where k: "m1 = Some k1" "m2 = Some k2" "a2 = ais'" "h2 = g'"
    using Cons.prems(1) p p1 p2 by (cases m1) auto
  have "\<forall>ai \<in> set a1. result_ok hints ai"
    using ga_port_result_ok [OF p1 [unfolded k]] Cons.prems(2,3) by (simp add: p)
  then show ?case using Cons.IH [OF p2 [unfolded k]] Cons.prems(3) by simp
qed simp

lemma serv_ports_socktype:
  "(port, st) \<in> set (serv_ports r socktype serv) \<Longrightarrow> socktype = 0 \<or> st = socktype"
proof -
  assume a: "(port, st) \<in> set (serv_ports r socktype serv)"
  have "(port, st) \<in> set (named_port r serv proto t) \<Longrightarrow> st = t" for proto t
    by (auto simp: named_port_def split: option.splits)
  then show ?thesis using a by (auto simp: serv_ports_def Let_def split: if_splits)
qed

lemma ga_serv_result_ok:
  assumes "ga_serv r hints serv ais g = (None, ais', g')" and "\<forall>ai \<in> set ais. result_ok hints ai"
  shows "\<forall>ai \<in> set ais'. result_ok hints ai"
proof -
  obtain n where p: "ga_ports (serv_ports r (ai_socktype hints) serv) ais g = (Some n, ais', g')"
    using assms(1) by (auto simp: ga_serv_def split: prod.splits option.splits if_splits)
  show ?thesis by (rule ga_ports_result_ok [OF p assms(2)]) (use serv_ports_socktype in blast)
qed

lemma ga_port_not_Nil: "ga_port ais port st g = (n, ais', g') \<Longrightarrow> ais \<noteq> [] \<Longrightarrow> ais' \<noteq> []"
  by (cases ais) (auto simp: Let_def split: if_splits prod.splits)

lemma ga_ports_not_Nil: "ga_ports ps ais g = (n, ais', g') \<Longrightarrow> ais \<noteq> [] \<Longrightarrow> ais' \<noteq> []"
proof (induction ps ais g arbitrary: n ais' g' rule: ga_ports.induct)
  case (2 port st ps ais g)
  obtain m1 a1 h1 where p1: "ga_port ais port st g = (m1, a1, h1)" by (rule prod_cases3)
  note n1 = ga_port_not_Nil [OF p1 2(3)]
  show ?case using 2 p1 n1 by (cases m1) (fastforce simp: Let_def split: prod.splits)+
qed simp

section \<open>Ports and canonical names\<close>

text \<open>The port and the socket type of an entry are ones that the service has.\<close>

definition with_service :: "(u16 \<times> int) list \<Rightarrow> addrinfo \<Rightarrow> bool" where
  "with_service ps ai \<longleftrightarrow> (port_of ai, ai_socktype ai) \<in> set ps"

lemma set_port_served:
  assumes "addressed hints ai"
  shows "port_of (set_port port st ai) = port" and "ai_socktype (set_port port st ai) = st"
proof -
  obtain sa where sa: "ai_addr ai = Some sa" "inet_sa sa" "sa_family sa = ai_family ai" using assms by (auto simp: addressed_def)
  show "port_of (set_port port st ai) = port"
    by (rule inet_sa_cases [OF sa(2)]) (use sa in \<open>simp_all add: port_of_def set_port_def\<close>)
  show "ai_socktype (set_port port st ai) = st" by (simp add: set_port_def Let_def)
qed

lemma ga_clone_addressed:
  assumes "ga_clone ai g = (True, new, g')" and "addressed hints ai"
  shows "\<exists>ai'. new = [ai'] \<and> addressed hints ai'"
  using assms by (auto simp: ga_clone_def Let_def addressed_def split: prod.splits if_splits)

text \<open>
  What one pass does to every entry, for any property that holds of an entry with the port of the pass and of those the
  pass leaves alone.
\<close>

lemma ga_port_all:
  "ga_port ais port st g = (Some n, ais', g') \<Longrightarrow> \<forall>ai \<in> set ais. addressed hints ai \<Longrightarrow>
   \<forall>ai. port_of ai = port \<and> ai_socktype ai = st \<longrightarrow> P ai \<Longrightarrow>
   \<forall>ai \<in> set ais. P ai \<or> \<not> (ai_flags ai AND AI_CLONE \<noteq> 0 \<and> ai_socktype ai \<noteq> 0) \<and>
     \<not> (ai_flags ai AND AI_CLONE = 0 \<and> ai_socktype ai \<noteq> st) \<Longrightarrow>
   \<forall>ai \<in> set ais'. P ai"
proof (induction ais port st g arbitrary: n ais' g' rule: ga_port.induct)
  case (2 ai ais port st g)
  obtain ok new g1 where c: "ga_clone ai g = (ok, new, g1)" by (rule prod_cases3)
  obtain m1 a1 h1 where p1: "ga_port ais port st g = (m1, a1, h1)" by (rule prod_cases3)
  obtain m2 a2 h2 where p2: "ga_port ais port st g1 = (m2, a2, h2)" by (rule prod_cases3)
  let ?clone = "ai_flags ai AND AI_CLONE \<noteq> 0 \<and> ai_socktype ai \<noteq> 0"
  have ai: "addressed hints ai" and ais: "\<forall>ai \<in> set ais. addressed hints ai" using 2(5) by simp_all
  have sp: "P (set_port port st x)" if "addressed hints x" for x using 2(6) set_port_served [OF that] by blast
  show ?case
  proof (cases ?clone)
    case True
    then have okT: ok using 2(4) c by (cases ok) auto
    obtain ai' where n: "new = [ai']" "addressed hints ai'" using ga_clone_addressed c okT ai by (metis (full_types))
    obtain k where k: "m2 = Some k" using 2(4) True okT c p2 by auto
    have "P ai" using 2(7) True by simp
    moreover have "\<forall>ai \<in> set a2. P ai" using 2(1) [OF True c [symmetric] refl] okT p2 k ais 2(6,7) by simp
    ultimately show ?thesis using 2(4) True okT c p2 n sp by auto
  next
    case False
    obtain k where k: "m1 = Some k" using 2(4) False p1 by (auto split: if_splits)
    have rest: "\<forall>ai \<in> set ais. P ai \<or> \<not> (ai_flags ai AND AI_CLONE \<noteq> 0 \<and> ai_socktype ai \<noteq> 0) \<and>
        \<not> (ai_flags ai AND AI_CLONE = 0 \<and> ai_socktype ai \<noteq> st)" using 2(7) by simp
    have "\<forall>ai \<in> set a1. P ai"
    proof (cases "ai_flags ai AND AI_CLONE = 0 \<and> ai_socktype ai \<noteq> st")
      case skip: True
      show ?thesis by (rule 2(2) [OF False skip p1 [unfolded k] ais 2(6) rest])
    next
      case take: False
      show ?thesis by (rule 2(3) [OF False take p1 [unfolded k] ais 2(6) rest])
    qed
    then show ?thesis using 2(4,7) False p1 ai sp by (auto split: if_splits)
  qed
qed simp

lemma ga_ports_served:
  "ga_ports ps ais g = (Some n, ais', g') \<Longrightarrow> \<forall>ai \<in> set ais. result_ok hints ai \<and> with_service D ai \<Longrightarrow>
   \<forall>(port, st) \<in> set ps. ai_socktype hints = 0 \<or> st = ai_socktype hints \<Longrightarrow> set D \<union> set ps \<subseteq> set E \<Longrightarrow>
   \<forall>ai \<in> set ais'. with_service E ai"
proof (induction ps arbitrary: ais g n D)
  case Nil
  then show ?case by (auto simp: with_service_def)
next
  case (Cons p ps)
  obtain port st where p: "p = (port, st)" by fastforce
  obtain m1 a1 h1 where p1: "ga_port ais port st g = (m1, a1, h1)" by (rule prod_cases3)
  obtain m2 a2 h2 where p2: "ga_ports ps a1 h1 = (m2, a2, h2)" by (rule prod_cases3)
  obtain k1 k2 where k: "m1 = Some k1" "m2 = Some k2" "a2 = ais'" "h2 = g'"
    using Cons.prems(1) p p1 p2 by (cases m1) auto
  have "\<forall>ai \<in> set a1. result_ok hints ai"
    using ga_port_result_ok [OF p1 [unfolded k]] Cons.prems(2,3) by (simp add: p)
  moreover have "\<forall>ai \<in> set a1. with_service (p # D) ai"
    by (rule ga_port_all [OF p1 [unfolded k], of hints]) (use Cons.prems(2) in \<open>auto simp: with_service_def result_ok_def p\<close>)
  ultimately show ?case using Cons.IH [OF p2 [unfolded k], of "p # D"] Cons.prems(3,4) by auto
qed

lemma ga_serv_served:
  assumes "ga_serv r hints serv ais g = (None, ais', g')" and "\<forall>ai \<in> set ais. result_ok hints ai"
    and "\<forall>ai \<in> set ais. ai_socktype ai = ai_socktype hints \<and> ai_flags ai = (if ai_socktype hints = 0 then AI_CLONE else 0)"
  shows "\<forall>ai \<in> set ais'. with_service (serv_ports r (ai_socktype hints) serv) ai"
proof -
  let ?ps = "serv_ports r (ai_socktype hints) serv"
  obtain n where n: "ga_ports ?ps ais g = (Some n, ais', g')" "n \<noteq> 0"
    using assms(1) by (auto simp: ga_serv_def split: prod.splits option.splits if_splits)
  then obtain p ps where ps: "?ps = p # ps" by (cases ?ps) auto
  obtain port st where p: "p = (port, st)" by fastforce
  have st: "\<forall>(port, st) \<in> set ?ps. ai_socktype hints = 0 \<or> st = ai_socktype hints" using serv_ports_socktype by blast
  obtain m1 a1 h1 where p1: "ga_port ais port st g = (m1, a1, h1)" by (rule prod_cases3)
  obtain m2 a2 h2 where p2: "ga_ports ps a1 h1 = (m2, a2, h2)" by (rule prod_cases3)
  obtain k1 k2 where k: "m1 = Some k1" "m2 = Some k2" "a2 = ais'" "h2 = g'"
    using n(1) ps p p1 p2 by (cases m1) auto
  have s1: "ai_socktype hints = 0 \<or> st = ai_socktype hints" using st by (simp add: ps p)
  have "\<forall>ai \<in> set a1. result_ok hints ai" using ga_port_result_ok [OF p1 [unfolded k] assms(2) s1] .
  moreover have "\<forall>ai \<in> set a1. with_service [p] ai"
    by (rule ga_port_all [OF p1 [unfolded k], of hints])
      (use assms(2,3) s1 in \<open>auto simp: with_service_def result_ok_def p AI_CLONE_def\<close>)
  ultimately show ?thesis using ga_ports_served [OF p2 [unfolded k], of hints "[p]" ?ps] st by (auto simp: ps)
qed

text \<open>Only the first entry has a canonical name.\<close>

fun canon_first :: "bool \<Rightarrow> addrinfo list \<Rightarrow> bool" where
  "canon_first b [] = False"
| "canon_first b (ai # ais) = ((ai_canonname ai \<noteq> None) = b \<and> (\<forall>x \<in> set ais. ai_canonname x = None))"

lemma set_port_canon [simp]: "ai_canonname (set_port port st ai) = ai_canonname ai"
  by (simp add: set_port_def Let_def)

lemma ga_port_no_canon:
  "ga_port ais port st g = (Some n, ais', g') \<Longrightarrow> \<forall>ai \<in> set ais. ai_canonname ai = None \<Longrightarrow> \<forall>ai \<in> set ais'. ai_canonname ai = None"
proof (induction ais port st g arbitrary: n ais' g' rule: ga_port.induct)
  case (2 ai ais port st g)
  obtain ok new g1 where c: "ga_clone ai g = (ok, new, g1)" by (rule prod_cases3)
  have "\<forall>x \<in> set new. ai_canonname x = None" using c by (auto simp: ga_clone_def Let_def split: prod.splits if_splits)
  moreover have "ok \<Longrightarrow> new \<noteq> []" using c by (auto simp: ga_clone_def Let_def split: prod.splits if_splits)
  ultimately have "ok \<Longrightarrow> ai_canonname (hd new) = None" by (cases new) auto
  then show ?case using 2 c by (fastforce split: if_splits prod.splits)
qed simp

lemma ga_port_canon:
  assumes "ga_port ais port st g = (Some n, ais', g')" and "canon_first b ais"
  shows "canon_first b ais'"
proof (cases ais)
  case (Cons ai as)
  obtain ok new g1 where c: "ga_clone ai g = (ok, new, g1)" by (rule prod_cases3)
  have "\<forall>x \<in> set new. ai_canonname x = None" "ok \<Longrightarrow> new \<noteq> []"
    using c by (auto simp: ga_clone_def Let_def split: prod.splits if_splits)
  then have "ok \<Longrightarrow> ai_canonname (hd new) = None" by (cases new) auto
  then show ?thesis using assms c Cons ga_port_no_canon [of as]
    by (auto split: if_splits prod.splits)
qed (use assms in simp)

lemma ga_ports_canon: "ga_ports ps ais g = (Some n, ais', g') \<Longrightarrow> canon_first b ais \<Longrightarrow> canon_first b ais'"
proof (induction ps arbitrary: ais g n)
  case (Cons p ps)
  obtain port st where p: "p = (port, st)" by fastforce
  obtain m1 a1 h1 where p1: "ga_port ais port st g = (m1, a1, h1)" by (rule prod_cases3)
  obtain m2 a2 h2 where p2: "ga_ports ps a1 h1 = (m2, a2, h2)" by (rule prod_cases3)
  obtain k1 k2 where k: "m1 = Some k1" "m2 = Some k2" "a2 = ais'" "h2 = g'"
    using Cons.prems(1) p p1 p2 by (cases m1) auto
  show ?case using Cons.IH [OF p2 [unfolded k]] ga_port_canon [OF p1 [unfolded k(1)] Cons.prems(2)] by blast
qed simp

lemma ga_serv_canon:
  assumes "ga_serv r hints serv ais g = (None, ais', g')" and "canon_first b ais"
  shows "canon_first b ais'"
proof -
  obtain n where "ga_ports (serv_ports r (ai_socktype hints) serv) ais g = (Some n, ais', g')"
    using assms(1) by (auto simp: ga_serv_def split: prod.splits option.splits if_splits)
  then show ?thesis by (rule ga_ports_canon [OF _ assms(2)])
qed

section \<open>The whole call\<close>

lemma ga_finish_others:
  assumes "ga_finish r hostname servname hints host0 canon ais g = (rc, ais', g')"
    and "\<forall>ai \<in> set ais. from_hints hints ai"
  shows "rc = None \<Longrightarrow> wants_canon hostname hints \<or> canon = None \<Longrightarrow> others ais' g' = others ais g - canon_blocks canon"
    and "others ais' g' \<in> {others ais g, others ais g - canon_blocks canon}"
proof -
  have hd: "owned ((hd ais)\<lparr>ai_canonname := Some c\<rparr> # tl ais) = owned ais + 1" if "ais \<noteq> []" for c
    using that assms(2) by (cases ais) (auto simp: from_hints_def blocks_def)
  show "others ais' g' = others ais g - canon_blocks canon"
    if "rc = None" "wants_canon hostname hints \<or> canon = None"
    using assms(1) that hd unfolding ga_finish_def Let_def
    by (cases canon) (auto dest!: ga_serv_others calloc_live simp: others_def split: if_splits prod.splits)
  show "others ais' g' \<in> {others ais g, others ais g - canon_blocks canon}"
    using assms(1) hd unfolding ga_finish_def Let_def
    by (cases canon) (auto dest!: ga_serv_others calloc_live simp: others_def split: if_splits prod.splits)
qed

text \<open>An entry of the internet families, with the service that was asked for.\<close>

definition inet_result :: "resolver \<Rightarrow> string option \<Rightarrow> addrinfo \<Rightarrow> addrinfo \<Rightarrow> bool" where
  "inet_result r servname hints ai \<longleftrightarrow> result_ok hints ai \<and>
     (if unnamed servname then ai_socktype ai = ai_socktype hints \<and> port_of ai = 0
      else with_service (serv_ports r (ai_socktype hints) (the servname)) ai)"

lemma ga_finish_result:
  assumes "ga_finish r hostname servname hints host0 canon ais g = (None, ais', g')"
    and "\<forall>ai \<in> set ais. from_hints hints ai \<and> addressed hints ai"
  shows "canon_first (wants_canon hostname hints) ais' \<and> (\<forall>ai \<in> set ais'. inet_result r servname hints ai)"
proof -
  obtain ai as where ais: "ais = ai # as" using assms(1) by (cases ais) (auto simp: ga_finish_def)
  obtain c g1 where c: "(c \<noteq> None) = wants_canon hostname hints"
    and f: "if unnamed servname then ais' = ai\<lparr>ai_canonname := c\<rparr> # as
      else ga_serv r hints (the servname) (ai\<lparr>ai_canonname := c\<rparr> # as) g1 = (None, ais', g')"
  proof (cases "wants_canon hostname hints")
    case False
    have "ai\<lparr>ai_canonname := None\<rparr> = ai" using assms(2) by (simp add: ais from_hints_def)
    then show ?thesis using assms(1) False that [of None g] by (auto simp: ga_finish_def ais split: if_splits)
  next
    case True
    show ?thesis
    proof (cases canon)
      case None
      then show ?thesis using assms(1) True that [of "Some host0" "snd (calloc g)"]
        by (auto simp: ga_finish_def ais split: if_splits prod.splits)
    next
      case (Some c)
      then show ?thesis using assms(1) True that [of "Some c" g] by (auto simp: ga_finish_def ais split: if_splits)
    qed
  qed
  let ?l = "ai\<lparr>ai_canonname := c\<rparr> # as"
  have r: "\<forall>x \<in> set ?l. result_ok hints x" using assms(2) by (auto simp: ais result_ok_def from_hints_def addressed_def)
  have h: "\<forall>x \<in> set ?l. ai_socktype x = ai_socktype hints \<and> ai_flags x = (if ai_socktype hints = 0 then AI_CLONE else 0)"
    "\<forall>x \<in> set ?l. port_of x = 0" using assms(2) by (auto simp: ais from_hints_def port_of_def)
  have cf: "canon_first (wants_canon hostname hints) ?l" using c assms(2) by (auto simp: ais from_hints_def)
  show ?thesis
  proof (cases "unnamed servname")
    case True
    then have e: "ais' = ?l" using f by simp
    have "inet_result r servname hints x" if "x \<in> set ?l" for x
      unfolding inet_result_def if_P [OF True] using bspec [OF r that] bspec [OF h(1) that] bspec [OF h(2) that] by blast
    then show ?thesis using cf unfolding e by blast
  next
    case False
    then have s: "ga_serv r hints (the servname) ?l g1 = (None, ais', g')" using f by simp
    show ?thesis using ga_serv_canon [OF s cf] ga_serv_result_ok [OF s r] ga_serv_served [OF s r h(1)] False
      by (simp add: inet_result_def)
  qed
qed

text \<open>An entry for a path of the Unix domain.\<close>

definition unix_result :: "string \<Rightarrow> addrinfo \<Rightarrow> addrinfo \<Rightarrow> bool" where
  "unix_result path hints ai \<longleftrightarrow> ai_family ai = AF_UNIX \<and> ai_addr ai = Some (SaUn path) \<and> length path < SUN_PATH_LEN \<and>
     ai_addrlen ai = sa_size (SaUn path) \<and> ai_protocol ai = ai_protocol hints"

text \<open>Without a socket type in the hints there is one for each of the two.\<close>

definition unix_list_ok :: "string \<Rightarrow> addrinfo \<Rightarrow> addrinfo list \<Rightarrow> bool" where
  "unix_list_ok path hints ais \<longleftrightarrow>
     map ai_socktype ais = (if ai_socktype hints = 0 then [SOCK_STREAM, SOCK_DGRAM] else [ai_socktype hints]) \<and>
     (\<forall>ai \<in> set ais. unix_result path hints ai)"

definition wf_gai_result :: "resolver \<Rightarrow> string option \<Rightarrow> string option \<Rightarrow> addrinfo \<Rightarrow> addrinfo list \<Rightarrow> bool" where
  "wf_gai_result r hostname servname hints ais \<longleftrightarrow> canon_first (wants_canon hostname hints) ais \<and>
     (if unix_name hostname servname
      then (ai_family hints = AF_UNSPEC \<or> ai_family hints = AF_UNIX) \<and> unix_list_ok (the servname) hints ais
      else \<forall>ai \<in> set ais. inet_result r servname hints ai)"

text \<open>The entry that \<open>ga_aistruct\<close> makes for a path, and what it has allocated when it fails.\<close>

definition unix_entry :: "addrinfo \<Rightarrow> string \<Rightarrow> addrinfo" where
  "unix_entry hints path = \<lparr>ai_flags = (if ai_socktype hints = 0 then AI_CLONE else 0), ai_family = AF_UNIX,
     ai_socktype = ai_socktype hints, ai_protocol = ai_protocol hints, ai_addrlen = 110, ai_canonname = None,
     ai_addr = Some (SaUn path)\<rparr>"

lemma ga_aistruct_unix:
  assumes "ga_aistruct hints (Path path) AF_UNIX ais g = (rc, ais', g')"
  shows "case rc of
      None \<Rightarrow> ais' = ais @ [unix_entry hints path] \<and> length path < SUN_PATH_LEN \<and> live g' = live g + 2
    | Some e \<Rightarrow> live g' = live g + (if fst (calloc g) then 1 else 0)"
    and "rc = None \<Longrightarrow> fst (calloc g)"
proof -
  obtain ok g1 where c: "calloc g = (ok, g1)" by fastforce
  obtain ok2 g2 where c2: "calloc g1 = (ok2, g2)" by fastforce
  have f: "AF_UNIX \<noteq> AF_INET" "AF_UNIX \<noteq> AF_INET6" by (simp_all add: af_consts)
  show "case rc of
      None \<Rightarrow> ais' = ais @ [unix_entry hints path] \<and> length path < SUN_PATH_LEN \<and> live g' = live g + 2
    | Some e \<Rightarrow> live g' = live g + (if fst (calloc g) then 1 else 0)"
    using assms f calloc_live [OF c] calloc_live [OF c2]
    by (auto simp: ga_aistruct_def add_addr_def Let_def c c2 unix_entry_def split: if_splits)
  show "rc = None \<Longrightarrow> fst (calloc g)" using assms f by (auto simp: ga_aistruct_def Let_def c split: if_splits)
qed

text \<open>The canonical name at the end.\<close>

definition unix_finish :: "resolver \<Rightarrow> addrinfo \<Rightarrow> addrinfo list \<Rightarrow> gai \<Rightarrow> (gai_error + addrinfo list) \<times> gai" where
  "unix_finish r hints ais g =
     (if ai_flags hints AND AI_CANONNAME = 0 then (Inr ais, g)
      else (case nodename r of
          None \<Rightarrow> (Inl EAI_SYSTEM, g)
        | Some name \<Rightarrow>
            (let (ok, g3) = calloc g
             in if ok then (Inr ((hd ais)\<lparr>ai_canonname := Some name\<rparr> # tl ais), g3) else (Inl EAI_MEMORY, g3))))"

lemma ga_unix_split:
  "ga_unix r path hints g =
     (if ai_family hints \<noteq> AF_UNSPEC \<and> ai_family hints \<noteq> AF_UNIX then (Inl EAI_ADDRFAMILY, g)
      else if ai_socktype hints = 0 then
        (case ga_aistruct (hints\<lparr>ai_socktype := SOCK_STREAM\<rparr>) (Path path) AF_UNIX [] g of
           (Some e, _, g1) \<Rightarrow> (Inl e, g1)
         | (None, ais1, g1) \<Rightarrow>
             (case ga_aistruct (hints\<lparr>ai_socktype := SOCK_DGRAM\<rparr>) (Path path) AF_UNIX ais1 g1 of
                (Some e, _, g2) \<Rightarrow> (Inl e, g2)
              | (None, ais2, g2) \<Rightarrow> unix_finish r hints ais2 g2))
      else
        (case ga_aistruct hints (Path path) AF_UNIX [] g of
           (Some e, _, g2) \<Rightarrow> (Inl e, g2)
         | (None, ais2, g2) \<Rightarrow> unix_finish r hints ais2 g2))"
  by (simp add: ga_unix_def unix_finish_def Let_def split: prod.splits option.splits)

lemma unix_list_canon:
  assumes "unix_list_ok path hints ais"
  shows "unix_list_ok path hints ((hd ais)\<lparr>ai_canonname := c\<rparr> # tl ais)" and "ais \<noteq> []"
  using assms by (cases ais; auto simp: unix_list_ok_def unix_result_def split: if_splits)+

lemma unix_finish_result:
  assumes "unix_finish r hints ais g = (res, g')" and "unix_list_ok path hints ais" and "\<forall>ai \<in> set ais. ai_canonname ai = None"
  shows "case res of
      Inr ais' \<Rightarrow> unix_list_ok path hints ais' \<and> canon_first (ai_flags hints AND AI_CANONNAME \<noteq> 0) ais' \<and>
        live g' - owned ais' = live g - owned ais
    | Inl e \<Rightarrow> live g' = live g"
proof -
  obtain ok g3 where c: "calloc g = (ok, g3)" by fastforce
  obtain ai as where ais: "ais = ai # as" using unix_list_canon(2) [OF assms(2)] by (cases ais) auto
  show ?thesis using assms unix_list_canon(1) [OF assms(2)] calloc_live [OF c]
    by (auto simp: unix_finish_def c ais blocks_def split: if_splits option.splits)
qed

lemma ga_unix_result:
  assumes "ga_unix r path hints g = (res, g')"
  shows "case res of
      Inr ais \<Rightarrow> (ai_family hints = AF_UNSPEC \<or> ai_family hints = AF_UNIX) \<and> unix_list_ok path hints ais \<and>
        canon_first (ai_flags hints AND AI_CANONNAME \<noteq> 0) ais \<and> live g' = live g + owned ais
    | Inl e \<Rightarrow> live g \<le> live g' \<and> live g' \<le> live g + 4 \<and> (live g' = live g \<longleftrightarrow> g' = g \<or> \<not> fst (calloc g))"
proof (cases "ai_family hints \<noteq> AF_UNSPEC \<and> ai_family hints \<noteq> AF_UNIX")
  case True
  then show ?thesis using assms by (auto simp: ga_unix_split)
next
  case fam: False
  show ?thesis
  proof (cases "ai_socktype hints = 0")
    case False
    obtain rc ais2 g2 where two: "ga_aistruct hints (Path path) AF_UNIX [] g = (rc, ais2, g2)" by (rule prod_cases3)
    note s = ga_aistruct_unix [OF two]
    show ?thesis
    proof (cases rc)
      case (Some e)
      then have "res = Inl e" "g' = g2" using assms fam False two by (auto simp: ga_unix_split)
      then show ?thesis using s(1) Some by auto
    next
      case None
      then have f: "unix_finish r hints ais2 g2 = (res, g')" using assms fam False two by (auto simp: ga_unix_split)
      have l: "unix_list_ok path hints ais2" "\<forall>ai \<in> set ais2. ai_canonname ai = None" "owned ais2 = 2" "live g2 = live g + 2"
        using s(1) None False by (simp_all add: unix_list_ok_def unix_entry_def unix_result_def blocks_def)
      show ?thesis using unix_finish_result [OF f l(1,2)] l(3,4) s(2) [OF None] fam by (cases res) auto
    qed
  next
    case True
    let ?h1 = "hints\<lparr>ai_socktype := SOCK_STREAM\<rparr>" and ?h2 = "hints\<lparr>ai_socktype := SOCK_DGRAM\<rparr>"
    obtain rc ais1 g1 where one: "ga_aistruct ?h1 (Path path) AF_UNIX [] g = (rc, ais1, g1)" by (rule prod_cases3)
    note s = ga_aistruct_unix [OF one]
    show ?thesis
    proof (cases rc)
      case (Some e)
      then have "res = Inl e" "g' = g1" using assms fam True one by (auto simp: ga_unix_split)
      then show ?thesis using s(1) Some by auto
    next
      case None
      obtain rc2 ais2 g2 where two: "ga_aistruct ?h2 (Path path) AF_UNIX ais1 g1 = (rc2, ais2, g2)" by (rule prod_cases3)
      note s2 = ga_aistruct_unix [OF two]
      show ?thesis
      proof (cases rc2)
        case (Some e)
        then have "res = Inl e" "g' = g2" using assms fam True one None two by (auto simp: ga_unix_split)
        then show ?thesis using s(1) s(2) [OF None] None s2(1) Some by (auto split: if_splits)
      next
        case None2: None
        then have f: "unix_finish r hints ais2 g2 = (res, g')" using assms fam True one None two by (auto simp: ga_unix_split)
        have l: "unix_list_ok path hints ais2" "\<forall>ai \<in> set ais2. ai_canonname ai = None" "owned ais2 = 4" "live g2 = live g + 4"
          using s(1) s2(1) None None2 True
          by (simp_all add: unix_list_ok_def unix_entry_def unix_result_def blocks_def)
        show ?thesis using unix_finish_result [OF f l(1,2)] l(3,4) s(2) [OF None] fam by (cases res) auto
      qed
    qed
  qed
qed

lemma getaddrinfo_inet:
  assumes "getaddrinfo r hostname servname (Some hints) g = Ret (res, g')" and "\<not> unix_name hostname servname"
  obtains (echeck) e where "res = Inl e" and "g' = g"
  | (search) search e canon ais g1 where
      "ga_search r hostname hints (length search) search None [] g = (Some e, canon, ais, g1)"
      and "res = Inl e" and "g' = freeaddrinfo ais g1"
  | (finish) search canon ais g1 rc ais2 g2 where
      "ga_search r hostname hints (length search) search None [] g = (None, canon, ais, g1)"
      and "ga_finish r hostname servname hints (fst (hd search)) canon ais g1 = (rc, ais2, g2)"
      and "(res, g') = (case rc of Some e \<Rightarrow> (Inl e, freeaddrinfo ais2 g2) | None \<Rightarrow> (Inr ais2, g2))"
proof (cases "ga_echeck hostname servname (ai_flags hints) (ai_family hints) (ai_socktype hints)")
  case (Some e)
  then have "res = Inl e" "g' = g" using assms(1) by (simp_all add: getaddrinfo_def)
  then show ?thesis by (rule echeck)
next
  case None
  then obtain search where s: "ga_nsearch hostname hints = Ret search"
    using assms by (cases "ga_nsearch hostname hints") (auto simp: getaddrinfo_def)
  obtain rc canon ais g1 where g1: "ga_search r hostname hints (length search) search None [] g = (rc, canon, ais, g1)"
    by (metis prod_cases4)
  obtain rc2 ais2 g2 where f: "ga_finish r hostname servname hints (fst (hd search)) canon ais g1 = (rc2, ais2, g2)"
    by (rule prod_cases3)
  show ?thesis
  proof (cases rc)
    case None
    then show ?thesis using assms s g1 f finish [OF g1 [unfolded None] f]
      \<open>ga_echeck hostname servname (ai_flags hints) (ai_family hints) (ai_socktype hints) = None\<close>
      by (cases rc2) (simp_all add: getaddrinfo_def)
  next
    case (Some e)
    then show ?thesis using assms s g1 search [OF g1 [unfolded Some]]
      \<open>ga_echeck hostname servname (ai_flags hints) (ai_family hints) (ai_socktype hints) = None\<close>
      by (simp add: getaddrinfo_def)
  qed
qed

lemma getaddrinfo_balance:
  assumes "getaddrinfo r hostname servname (Some hints) g = Ret (res, g')" and "\<not> unix_name hostname servname"
  shows "case res of
      Inr ais \<Rightarrow> live g' = live g + owned ais
    | Inl e \<Rightarrow> live g' = live g \<or> live g' = live g + 1 \<and> wants_canon hostname hints"
  using assms
proof (cases rule: getaddrinfo_inet)
  case (search search e canon ais g1)
  from ga_search_others [OF search(1)] show ?thesis using search(2,3)
    by (cases canon) (auto simp: others_def)
next
  case (finish search canon ais g1 rc ais2 g2)
  have fh: "\<forall>ai \<in> set ais. from_hints hints ai" using ga_search_from_hints [OF finish(1)] by simp
  note s = ga_search_others [OF finish(1)] and f = ga_finish_others [OF finish(2) fh]
  show ?thesis using finish(3) s f by (cases rc; cases canon) (auto simp: others_def)
qed simp

text \<open>Without hints all fields are 0.\<close>

definition hints_of :: "addrinfo option \<Rightarrow> addrinfo" where
  "hints_of hintsp = (case hintsp of None \<Rightarrow> no_hints | Some h \<Rightarrow> h)"

lemma getaddrinfo_hints: "getaddrinfo r hostname servname hintsp g = getaddrinfo r hostname servname (Some (hints_of hintsp)) g"
  by (cases hintsp) (simp_all add: getaddrinfo_def hints_of_def)

lemma getaddrinfo_unix:
  assumes "getaddrinfo r hostname servname (Some hints) g = Ret (res, g')" and "unix_name hostname servname"
  shows "(\<exists>e. res = Inl e) \<and> g' = g \<or> ga_unix r (the servname) hints g = (res, g')"
  using assms by (auto simp: getaddrinfo_def split: option.splits)

lemma getaddrinfo_result:
  assumes "getaddrinfo r hostname servname (Some hints) g = Ret (Inr ais, g')" and "resolver_ok r"
  shows "wf_gai_result r hostname servname hints ais"
proof (cases "unix_name hostname servname")
  case True
  then have "wants_canon hostname hints \<longleftrightarrow> ai_flags hints AND AI_CANONNAME \<noteq> 0"
    by (auto simp: wants_canon_def unix_name_def unnamed_def)
  moreover have "ga_unix r (the servname) hints g = (Inr ais, g')" using getaddrinfo_unix [OF assms(1) True] by simp
  from ga_unix_result [OF this] have "(ai_family hints = AF_UNSPEC \<or> ai_family hints = AF_UNIX) \<and>
      unix_list_ok (the servname) hints ais \<and> canon_first (ai_flags hints AND AI_CANONNAME \<noteq> 0) ais" by simp
  ultimately show ?thesis using True unfolding wf_gai_result_def by simp
next
  case False
  show ?thesis using assms(1) False
  proof (cases rule: getaddrinfo_inet)
    case (finish search canon ais1 g1 rc ais2 g2)
    have "\<forall>ai \<in> set ais1. from_hints hints ai \<and> addressed hints ai"
      using ga_search_from_hints [OF finish(1)] ga_search_addressed [OF finish(1) _ assms(2)] by simp
    moreover have "rc = None" "ais2 = ais" using finish(3) by (cases rc; simp)+
    ultimately show ?thesis using ga_finish_result finish(2) False unfolding wf_gai_result_def by simp
  qed simp_all
qed

lemma getaddrinfo_unix_balance:
  assumes "getaddrinfo r hostname servname (Some hints) g = Ret (res, g')" and "unix_name hostname servname"
  shows "case res of
      Inr ais \<Rightarrow> live g' = live g + owned ais
    | Inl e \<Rightarrow> live g \<le> live g' \<and> live g' \<le> live g + 4 \<and> (live g' = live g \<longleftrightarrow> g' = g \<or> \<not> fst (calloc g))"
  using getaddrinfo_unix [OF assms] ga_unix_result [of r "the servname" hints g res g'] by (cases res) auto

section \<open>Socket types and ports\<close>

definition with_port :: "u16 \<Rightarrow> addrinfo \<Rightarrow> sockaddr option" where
  "with_port port ai = map_option (\<lambda>sa. sock_set_port sa (uint port)) (ai_addr ai)"

definition inet_entry :: "addrinfo \<Rightarrow> bool" where
  "inet_entry ai \<longleftrightarrow> ai_family ai \<in> {AF_INET, AF_INET6} \<and> ai_addr ai \<noteq> None"

definition open_entry :: "addrinfo \<Rightarrow> bool" where
  "open_entry ai \<longleftrightarrow> inet_entry ai \<and> ai_flags ai = AI_CLONE \<and> ai_socktype ai = 0"

lemma clone_flag [simp]: "AI_CLONE \<noteq> 0" "(0 :: u32) AND AI_CLONE = 0"
  by (simp_all add: AI_CLONE_def)

text \<open>The first pass sets the type, the second makes a copy of every entry.\<close>

lemma ga_port_first:
  "\<forall>ai \<in> set ais. open_entry ai \<Longrightarrow> ga_port ais port st g = (Some (length ais), map (set_port port st) ais, g)"
  by (induction ais) (auto simp: open_entry_def inet_entry_def has_port_def)

definition copy_entry :: "addrinfo \<Rightarrow> addrinfo" where
  "copy_entry ai = ai\<lparr>ai_flags := 0, ai_canonname := None\<rparr>"

lemma ga_clone_copy:
  assumes "answers g = []" and "ai_addr ai \<noteq> None"
  shows "ga_clone ai g = (True, [copy_entry ai], g\<lparr>live := live g + 2\<rparr>)"
  using assms by (auto simp: ga_clone_def calloc_def copy_entry_def)

lemma ga_port_second:
  "\<forall>ai \<in> set ais. inet_entry ai \<and> ai_flags ai = AI_CLONE \<and> ai_socktype ai \<noteq> 0 \<Longrightarrow> answers g = [] \<Longrightarrow>
   ga_port ais port st g =
     (Some (length ais), concat (map (\<lambda>ai. [ai, set_port port st (copy_entry ai)]) ais),
      g\<lparr>live := live g + 2 * int (length ais)\<rparr>)"
proof (induction ais arbitrary: g)
  case (Cons ai ais)
  have c: "ga_clone ai g = (True, [copy_entry ai], g\<lparr>live := live g + 2\<rparr>)"
    using Cons.prems by (intro ga_clone_copy) (simp_all add: inet_entry_def)
  have h: "has_port (copy_entry ai) = 1" using Cons.prems by (auto simp: has_port_def inet_entry_def copy_entry_def)
  show ?case using Cons.prems Cons.IH [of "g\<lparr>live := live g + 2\<rparr>"] c h by simp
qed simp

lemma ga_serv_pairs_gen:
  assumes "serv_ports r (ai_socktype hints) serv = [(p, SOCK_STREAM), (q, SOCK_DGRAM)]"
    and "\<forall>ai \<in> set ais. open_entry ai" and "ais \<noteq> []" and "answers g = []"
  shows "ga_serv r hints serv ais g =
    (None, concat (map (\<lambda>ai. [set_port p SOCK_STREAM ai, set_port q SOCK_DGRAM (copy_entry (set_port p SOCK_STREAM ai))]) ais),
     g\<lparr>live := live g + 2 * int (length ais)\<rparr>)"
proof -
  have "\<forall>ai \<in> set (map (set_port p SOCK_STREAM) ais). inet_entry ai \<and> ai_flags ai = AI_CLONE \<and> ai_socktype ai \<noteq> 0"
    using assms(2) by (auto simp: open_entry_def inet_entry_def set_port_def sock_consts)
  from ga_port_second [OF this assms(4)] show ?thesis
    using assms by (simp add: ga_serv_def ga_port_first [OF assms(2)] comp_def)
qed

section \<open>Text and back\<close>

lemma atoi_dec_text: "\<forall>d \<in> set ds. d < 10 \<Longrightarrow> atoi_from v (dec_text ds) = digits_val 10 v ds"
  by (induction ds arbitrary: v) (simp_all add: dec_text_def)

lemma atoi_fmt_u: "atoi_from 0 (fmt_u n) = n"
  unfolding fmt_u_def using atoi_dec_text [of "digits_of 10 n" 0] digits_of_less [of 10 _ n]
  by (simp add: digits_of_val)

lemma first_fmt_u: "isdigit (first (fmt_u n @ s))"
proof -
  obtain d ds where d: "digits_of 10 n = d # ds" by (cases "digits_of 10 n") simp_all
  have "d < 10" using digits_of_less [of 10 d n] d by simp
  then show ?thesis by (simp add: fmt_u_def dec_text_def d first_def isdigit_def)
qed

lemma first_append: "s \<noteq> [] \<Longrightarrow> first (s @ t) = first s"
  by (cases s) (simp_all add: first_def)

lemma first_dotted: "isdigit (first (dotted a))"
  unfolding dotted_def by (rule first_fmt_u)

lemma first_fmt_x: "isxdigit (first (fmt_x n @ s))"
proof -
  obtain d ds where d: "digits_of 16 n = d # ds" by (cases "digits_of 16 n") simp_all
  have "d < 16" using digits_of_less [of 16 d n] d by simp
  then show ?thesis by (simp add: fmt_x_def hex_text_def d first_def isxdigit_def)
qed

lemma first_hex_join: "ws \<noteq> [] \<Longrightarrow> isxdigit (first (hex_join ws @ s))"
proof (cases ws)
  case (Cons w vs)
  then show ?thesis
    by (cases "vs = []") (simp_all add: hex_join_def first_fmt_x)
qed simp

lemma ntop6_text_start:
  assumes "length a = 16"
  shows "isxdigit (first (ntop6_text a)) \<or> first (ntop6_text a) = CHR '':''" and "CHR '':'' \<in> set (ntop6_text a)"
proof -
  have l: "length (words_of a) = 8" by simp
  have colon: "CHR '':'' \<in> set (hex_join (words_of a))"
    using l by (cases "words_of a"; cases "tl (words_of a)") (auto simp: hex_join_def)
  have x: "hex_join (words_of a) @ [] = hex_join (words_of a)" by simp
  have nn: "words_of a \<noteq> []" using l by (cases "words_of a") auto
  show "isxdigit (first (ntop6_text a)) \<or> first (ntop6_text a) = CHR '':''"
    using first_hex_join [OF nn, of "[]"] first_hex_join [of "take _ (words_of a)"]
    by (cases "take (fst (the (best_run (words_of a)))) (words_of a) = []")
      (auto simp: ntop6_text_def Let_def first_def hex_join_def split: option.splits)
  show "CHR '':'' \<in> set (ntop6_text a)" using colon
    by (auto simp: ntop6_text_def Let_def split: option.splits)
qed

lemma literal_dotted:
  assumes "length a = 4"
  shows "literal (dotted a) = Some (AF_INET, a)"
  using first_dotted [of a] dotted_pton4 [OF assms] by (simp add: literal_def inet_pton_def)

lemma pton4_no_colon: "inet_pton4 s = Some b \<Longrightarrow> CHR '':'' \<notin> set s"
proof -
  assume "inet_pton4 s = Some b"
  then obtain c ts where "octet_ok c" "\<forall>t \<in> set ts. octet_ok t" "s = dec_text c @ dot_tail ts"
    by (auto simp: inet_pton4_language)
  then show ?thesis by (auto simp: octet_ok_def dec_text_def dot_tail_def) (metis dec_digit_neq(2))+
qed

lemma literal_ntop6:
  assumes "length a = 16"
  shows "literal (ntop6_text a) = Some (AF_INET6, a)"
proof -
  have "inet_pton4 (ntop6_text a) = None"
    using pton4_no_colon [of "ntop6_text a"] ntop6_text_start(2) [OF assms] by (cases "inet_pton4 (ntop6_text a)") auto
  moreover have "strchr (ntop6_text a) CHR '':'' \<noteq> None"
    using ntop6_text_start(2) [OF assms] by (simp add: strchr_None)
  ultimately show ?thesis using ntop6_text_start(1) [OF assms] inet6_text_parses [OF assms]
    by (simp add: literal_def inet_pton_def af_consts)
qed

text \<open>The text of an address as \<open>getnameinfo\<close> gives it.\<close>

fun addr_text :: "sockaddr \<Rightarrow> string" where
  "addr_text (SaIn p a) = dotted a"
| "addr_text (SaIn6 p a) = ntop6_text a"
| "addr_text sa = []"

fun sa_bytes :: "sockaddr \<Rightarrow> byte list" where
  "sa_bytes (SaIn p a) = a"
| "sa_bytes (SaIn6 p a) = a"
| "sa_bytes sa = []"

definition NI_MAXHOST :: nat where "NI_MAXHOST = 1025"
definition NI_MAXSERV :: nat where "NI_MAXSERV = 32"

lemma fmt_d_port: "fmt_d (uint (ntohs p)) = port_text p"
  using uint_ge_0 [of "ntohs p"] by (simp add: fmt_d_def port_text_def not_less)

lemma gn_serv_numeric:
  "flags AND NI_NUMERICSERV \<noteq> 0 \<Longrightarrow> gn_serv r NI_MAXSERV p flags = port_text p"
  using port_text_length [of p] by (simp add: gn_serv_def fmt_d_port snprintf_cut_def NI_MAXSERV_def Let_def)

lemma inet_ntop_max:
  "length a = 4 \<Longrightarrow> inet_ntop AF_INET a NI_MAXHOST = Inr (dotted a)"
  "length a = 16 \<Longrightarrow> inet_ntop AF_INET6 a NI_MAXHOST = Inr (ntop6_text a)"
  using dotted_length [of a] ntop6_text_length [of a] inet_ntop6_eq [of a NI_MAXHOST]
  by (simp_all add: inet_ntop_def inet_ntop4_def Let_def NI_MAXHOST_def AF_INET_def AF_INET6_def INET6_ADDRSTRLEN_def)

lemma getnameinfo_numeric:
  assumes "inet_sa sa" and "flags AND NI_NUMERICHOST \<noteq> 0" and "flags AND NI_NUMERICSERV \<noteq> 0"
  shows "getnameinfo r sa NI_MAXHOST NI_MAXSERV flags = (0, Some (addr_text sa), Some (port_text (sa_port sa)))"
proof -
  have pos: "NI_MAXHOST > 0" "NI_MAXSERV > 0" by (simp_all add: NI_MAXHOST_def NI_MAXSERV_def)
  have g: "gn_ipv46 r NI_MAXHOST NI_MAXSERV a f p flags = (0, Some t, Some (port_text p))"
    if "inet_ntop f a NI_MAXHOST = Inr t" for a f p t
    using that pos gn_serv_numeric [OF assms(3)] assms(2) by (simp add: gn_ipv46_def gn_host_def)
  show ?thesis
    by (rule inet_sa_cases [OF assms(1)]) (simp_all only: getnameinfo_def sockaddr.case g inet_ntop_max addr_text.simps sa_port.simps)
qed

definition type_hints :: "int \<Rightarrow> addrinfo" where
  "type_hints st = no_hints\<lparr>ai_socktype := st\<rparr>"

text \<open>The one entry that a numeric name gives.\<close>

definition numeric_entry :: "int \<Rightarrow> sockaddr \<Rightarrow> addrinfo" where
  "numeric_entry st sa = \<lparr>ai_flags = 0, ai_family = sa_family sa, ai_socktype = st, ai_protocol = 0,
     ai_addrlen = (if sa_family sa = AF_INET then 16 else 28), ai_canonname = None, ai_addr = Some sa\<rparr>"

lemma ga_aistruct_numeric:
  assumes "inet_sa sa" and "st \<noteq> 0" and "answers g = []"
  shows "ga_aistruct (type_hints st) (InAddr (sa_bytes sa)) (sa_family sa) [] g =
    (None, [numeric_entry st (sock_set_port sa 0)], g\<lparr>live := live g + 2\<rparr>)"
  by (rule inet_sa_cases [OF assms(1)])
    (simp_all add: ga_aistruct_def add_addr_def calloc_def assms(2,3) numeric_entry_def type_hints_def no_hints_def
      AF_INET_def AF_INET6_def)

lemma search_numeric:
  assumes "literal h = Some (sa_family sa, sa_bytes sa)" and "inet_sa sa" and "st \<noteq> 0" and "answers g = []"
  shows "ga_search r (Some h) (type_hints st) 2 [(h, AF_INET6), (h, AF_INET)] None [] g =
    (None, None, [numeric_entry st (sock_set_port sa 0)], g\<lparr>live := live g + 2\<rparr>)"
proof -
  have u: "ai_family (type_hints st) = AF_UNSPEC" by (simp add: type_hints_def no_hints_def)
  have hit: "search_step r (Some h) (type_hints st) 2 h (sa_family sa) None [] g =
      (None, None, [numeric_entry st (sock_set_port sa 0)], g\<lparr>live := live g + 2\<rparr>)"
    by (simp add: search_step_def assms(1) u ga_aistruct_numeric [OF assms(2-4)])
  have miss: "search_step r (Some h) (type_hints st) 2 h f None ais g' = (None, None, ais, g')"
    if "f \<noteq> sa_family sa" for f ais g'
    using that by (simp add: search_step_def assms(1) u)
  have "sa_family sa = AF_INET \<or> sa_family sa = AF_INET6" using assms(2) by (simp add: inet_sa_def)
  moreover have "AF_INET \<noteq> AF_INET6" by (simp add: AF_INET_def AF_INET6_def)
  ultimately show ?thesis using hit miss by auto
qed

lemma getaddrinfo_numeric:
  assumes "literal h = Some (sa_family sa, sa_bytes sa)" and "inet_sa sa" and "h \<noteq> []" and "first h \<noteq> CHR ''/''"
    and "st \<in> {SOCK_STREAM, SOCK_DGRAM, SOCK_RAW}" and "answers g = []"
  shows "getaddrinfo r (Some h) (Some (port_text (sa_port sa))) (Some (type_hints st)) g =
    Ret (Inr [numeric_entry st sa], g\<lparr>live := live g + 2\<rparr>)"
proof -
  let ?s = "port_text (sa_port sa)" and ?e = "numeric_entry st (sock_set_port sa 0)"
  have st: "st \<noteq> 0" using assms(5) by (auto simp: sock_consts)
  have th: "ai_flags (type_hints st) = 0" "ai_family (type_hints st) = AF_UNSPEC" "ai_socktype (type_hints st) = st"
    by (simp_all add: type_hints_def no_hints_def)
  have "?s \<noteq> []" by (simp add: port_text_def)
  then have n: "\<not> unnamed (Some h)" "\<not> unnamed (Some ?s)" using assms(3) by (simp_all add: unnamed_def)
  have echeck: "ga_echeck (Some h) (Some ?s) 0 AF_UNSPEC st = None" using n by (simp add: ga_echeck_def)
  have "h \<noteq> ''/local''" "h \<noteq> ''/unix''" using assms(4) by (auto simp: first_def)
  then have nu: "\<not> unix_name (Some h) (Some ?s)" by (simp add: unix_name_def)
  have search: "ga_nsearch (Some h) (type_hints st) = Ret [(h, AF_INET6), (h, AF_INET)]"
    using n(1) by (simp add: ga_nsearch_def th af_consts AF_UNSPEC_def)
  have ports: "serv_ports r st ?s = [(sa_port sa, st)]"
    using first_fmt_u [of "unat (ntohs (sa_port sa))" "[]"] st
    by (simp add: serv_ports_def port_text_def atoi_fmt_u htons_def)
  have fam: "sa_family sa = AF_INET \<or> sa_family sa = AF_INET6" using assms(2) by (simp add: inet_sa_def)
  have bk: "sock_set_port (sock_set_port sa 0) (uint (sa_port sa)) = sa"
    by (rule inet_sa_cases [OF assms(2)]) simp_all
  have set: "set_port (sa_port sa) st ?e = numeric_entry st sa" and hp: "has_port ?e = 1"
    using fam bk by (auto simp: set_port_def numeric_entry_def has_port_def)
  have serv: "ga_serv r (type_hints st) ?s [?e] g' = (None, [numeric_entry st sa], g')" for g'
    using set hp by (simp add: ga_serv_def th ports numeric_entry_def)
  have "ga_finish r (Some h) (Some ?s) (type_hints st) h None [?e] g' = (None, [numeric_entry st sa], g')" for g'
    using serv n by (simp add: ga_finish_def wants_canon_def th)
  moreover have "length [(h, AF_INET6), (h, AF_INET)] = 2" by simp
  ultimately show ?thesis using search_numeric [OF assms(1,2) st assms(6)]
    by (simp add: getaddrinfo_def th echeck nu search Let_def del: ga_search.simps list.size)
qed

lemma addr_text_ok:
  assumes "inet_sa sa"
  shows "literal (addr_text sa) = Some (sa_family sa, sa_bytes sa)" and "addr_text sa \<noteq> []"
    and "first (addr_text sa) \<noteq> CHR ''/''"
proof -
  have dig: "\<not> isdigit CHR ''/''" "\<not> isxdigit CHR ''/''" "\<not> isdigit CHR 0x00"
    by (simp_all add: isdigit_def isxdigit_def dec_digits_def xdigits_l_def xdigits_u_def)
  show l: "literal (addr_text sa) = Some (sa_family sa, sa_bytes sa)"
    by (rule inet_sa_cases [OF assms]) (simp_all add: literal_dotted literal_ntop6)
  show "addr_text sa \<noteq> []"
  proof
    assume "addr_text sa = []"
    with l show False using dig by (simp add: literal_def first_def isdigit_def isxdigit_def)
  qed
  show "first (addr_text sa) \<noteq> CHR ''/''"
  proof (rule inet_sa_cases [OF assms])
    fix p a assume "sa = SaIn p a" "length a = 4"
    then show ?thesis using first_dotted [of a] dig by auto
  next
    fix p a assume "sa = SaIn6 p a" "length a = 16"
    then show ?thesis using ntop6_text_start(1) [of a] dig by auto
  qed
qed

section \<open>Properties\<close>

text \<open>
  C16: an IPv4 or IPv6 socket address survives its way through the names: \<open>getnameinfo\<close> with
  numeric host and service prints it into buffers of the maximal sizes, and \<open>getaddrinfo\<close> of
  these two texts, for any socket type and whatever the resolver would say, returns one entry,
  with exactly this address and port, its family and that type.  The scope of an IPv6 address is not part of the
  model; no text that the code makes has it.
\<close>
theorem gai_name_roundtrip:
  assumes "inet_sa sa" and "flags AND NI_NUMERICHOST \<noteq> 0" and "flags AND NI_NUMERICSERV \<noteq> 0"
    and "st \<in> {SOCK_STREAM, SOCK_DGRAM, SOCK_RAW}" and "answers g = []"
  shows "\<exists>h s ai g'. getnameinfo r sa NI_MAXHOST NI_MAXSERV flags = (0, Some h, Some s) \<and>
    getaddrinfo r' (Some h) (Some s) (Some (type_hints st)) g = Ret (Inr [ai], g') \<and>
    ai_addr ai = Some sa \<and> ai_family ai = sa_family sa \<and> ai_socktype ai = st"
proof -
  have "getaddrinfo r' (Some (addr_text sa)) (Some (port_text (sa_port sa))) (Some (type_hints st)) g =
      Ret (Inr [numeric_entry st sa], g\<lparr>live := live g + 2\<rparr>)"
    by (rule getaddrinfo_numeric [OF addr_text_ok(1) [OF assms(1)] assms(1) addr_text_ok(2,3) [OF assms(1)] assms(4,5)])
  then show ?thesis using getnameinfo_numeric [OF assms(1-3), of r] by (simp add: numeric_entry_def)
qed

definition no_resolver :: resolver where
  "no_resolver = \<lparr>gethostbyname2 = (\<lambda>h f. None), gethostbyname = (\<lambda>b h. Inl HOST_NOT_FOUND),
     getservbyname = (\<lambda>s p. None), gethostbyaddr = (\<lambda>a f. None), getservbyport = (\<lambda>p s. None), nodename = None\<rparr>"

definition fresh_heap :: gai where
  "fresh_heap = \<lparr>answers = [], live = 0, unlinked = []\<rparr>"

theorem gai_name_roundtrip_witness:
  "\<exists>h s ai g'. getnameinfo no_resolver (SaIn (htons 80) [10, 0, 0, 1]) NI_MAXHOST NI_MAXSERV (NI_NUMERICHOST OR NI_NUMERICSERV) =
      (0, Some h, Some s) \<and>
    getaddrinfo no_resolver (Some h) (Some s) (Some (type_hints SOCK_STREAM)) fresh_heap = Ret (Inr [ai], g') \<and>
    ai_addr ai = Some (SaIn (htons 80) [10, 0, 0, 1])"
  using gai_name_roundtrip [of "SaIn (htons 80) [10, 0, 0, 1]" "NI_NUMERICHOST OR NI_NUMERICSERV" SOCK_STREAM fresh_heap
      no_resolver no_resolver]
  by (simp add: ni_consts fresh_heap_def) blast

text \<open>
  C14: every list \<open>getaddrinfo\<close> returns is well formed.  For an internet name each entry has an IPv4 or IPv6 address, stored
  in a structure of the size the entry gives, of the family of the entry and of the hints, the protocol of the
  hints, and a socket type and port that the service has (the hints' type and port 0 when no service was asked
  for).  For \<open>/local\<close> with a path there is one entry for the hints' type, or one for each of stream and datagram, with
  that path, which fits its structure.  The list is not empty, and its first entry alone has the canonical
  name, if that was asked for.  This holds for every resolver that answers with addresses of the internet families.
\<close>
theorem getaddrinfo_wf:
  assumes "getaddrinfo r hostname servname hintsp g = Ret (Inr ais, g')" and "resolver_ok r"
  shows "wf_gai_result r hostname servname (hints_of hintsp) ais"
  using getaddrinfo_result [OF assms(1) [unfolded getaddrinfo_hints [of r hostname servname hintsp]] assms(2)] .

definition two_hosts :: resolver where
  "two_hosts = no_resolver\<lparr>gethostbyname2 := (\<lambda>h f. if f = AF_INET
       then Some \<lparr>h_name = ''solaris.example'', h_addrtype = AF_INET, h_addr_list = [[10, 0, 0, 1], [10, 0, 1, 1]]\<rparr>
       else None),
     getservbyname := (\<lambda>s p. if s = ''daytime'' then Some (htons 13) else None)\<rparr>"

lemma two_hosts_ok: "resolver_ok two_hosts"
  by (auto simp: resolver_ok_def two_hosts_def no_resolver_def host_ok_def addr_size_def)

definition demo_result :: "(gai_error + addrinfo list) \<times> gai" where
  "demo_result = (Inr
     [\<lparr>ai_flags = AI_CLONE, ai_family = AF_INET, ai_socktype = SOCK_STREAM, ai_protocol = 0, ai_addrlen = 16,
         ai_canonname = None, ai_addr = Some (SaIn (htons 13) [10, 0, 0, 1])\<rparr>,
      \<lparr>ai_flags = 0, ai_family = AF_INET, ai_socktype = SOCK_DGRAM, ai_protocol = 0, ai_addrlen = 16,
         ai_canonname = None, ai_addr = Some (SaIn (htons 13) [10, 0, 0, 1])\<rparr>,
      \<lparr>ai_flags = AI_CLONE, ai_family = AF_INET, ai_socktype = SOCK_STREAM, ai_protocol = 0, ai_addrlen = 16,
         ai_canonname = None, ai_addr = Some (SaIn (htons 13) [10, 0, 1, 1])\<rparr>,
      \<lparr>ai_flags = 0, ai_family = AF_INET, ai_socktype = SOCK_DGRAM, ai_protocol = 0, ai_addrlen = 16,
         ai_canonname = None, ai_addr = Some (SaIn (htons 13) [10, 0, 1, 1])\<rparr>], fresh_heap\<lparr>live := 8\<rparr>)"

lemma demo_literal: "literal ''sol'' = None"
  by (simp add: literal_def first_def isdigit_def isxdigit_def dec_digits_def xdigits_l_def xdigits_u_def)

lemma demo_run: "getaddrinfo two_hosts (Some ''sol'') (Some ''daytime'') (Some no_hints) fresh_heap = Ret demo_result"
  by (simp add: getaddrinfo_def ga_echeck_def unnamed_def no_hints_def unix_name_def ga_nsearch_def search_step_def
      demo_literal two_hosts_def no_resolver_def use_host_def wants_canon_def ga_aistruct_def add_addr_def calloc_def
      fresh_heap_def ga_finish_def ga_serv_def serv_ports_def named_port_def first_def isdigit_def dec_digits_def
      set_port_def has_port_def ga_clone_def demo_result_def ai_flag_consts af_consts sock_consts)

theorem getaddrinfo_wf_witness:
  "wf_gai_result two_hosts (Some ''sol'') (Some ''daytime'') no_hints (case fst demo_result of Inr ais \<Rightarrow> ais | Inl e \<Rightarrow> [])"
proof -
  have "getaddrinfo two_hosts (Some ''sol'') (Some ''daytime'') (Some no_hints) fresh_heap =
      Ret (Inr (case fst demo_result of Inr ais \<Rightarrow> ais | Inl e \<Rightarrow> []), snd demo_result)"
    using demo_run by (simp add: demo_result_def)
  from getaddrinfo_wf [OF this two_hosts_ok] show ?thesis by (simp add: hints_of_def)
qed


text \<open>
  A second entry whose clone cannot be allocated: both entries and the one clone are freed.
\<close>

lemma clone_fails_run:
  "getaddrinfo two_hosts (Some ''sol'') (Some ''daytime'') (Some no_hints)
     (fresh_heap\<lparr>answers := [True, True, True, True, True, True, True, False]\<rparr>) = Ret (Inl EAI_MEMORY, fresh_heap)"
  by (simp add: getaddrinfo_def ga_echeck_def unnamed_def no_hints_def unix_name_def ga_nsearch_def search_step_def
      demo_literal two_hosts_def no_resolver_def use_host_def wants_canon_def ga_aistruct_def add_addr_def calloc_def
      fresh_heap_def ga_finish_def ga_serv_def serv_ports_def named_port_def first_def isdigit_def dec_digits_def
      set_port_def has_port_def ga_clone_def ai_flag_consts af_consts sock_consts freeaddrinfo_def blocks_def)


text \<open>
  The canonical name is lost when the name was looked up and the service is unknown; and for a Unix domain
  name the first of two entries is lost when the second cannot be allocated.
\<close>

lemma canon_leaks:
  "getaddrinfo two_hosts (Some ''sol'') (Some ''x'') (Some (no_hints\<lparr>ai_flags := AI_CANONNAME\<rparr>))
     (fresh_heap\<lparr>answers := [True, False]\<rparr>) = Ret (Inl EAI_MEMORY, fresh_heap\<lparr>live := 1\<rparr>)"
  by (simp add: getaddrinfo_def ga_echeck_def unnamed_def no_hints_def unix_name_def ga_nsearch_def search_step_def
      demo_literal two_hosts_def no_resolver_def use_host_def wants_canon_def ga_aistruct_def calloc_def
      fresh_heap_def ai_flag_consts af_consts sock_consts freeaddrinfo_def)

lemma ga_unix_leaks:
  "getaddrinfo no_resolver (Some ''/local'') (Some ''/tmp/s'') (Some no_hints)
     (fresh_heap\<lparr>answers := [True, True, False]\<rparr>) = Ret (Inl EAI_MEMORY, fresh_heap\<lparr>live := 2\<rparr>)"
  by (simp add: getaddrinfo_def ga_echeck_def unnamed_def no_hints_def unix_name_def ga_unix_def ga_aistruct_def
      add_addr_def calloc_def fresh_heap_def ai_flag_consts af_consts sock_consts first_def SUN_PATH_LEN_def)

text \<open>
  For a host and a service that both \<open>tcp\<close> and \<open>udp\<close> know, without a socket type in the hints, \<open>ga_serv\<close> turns
  every address into two neighbours, a stream entry with the TCP port and a datagram entry with
  the UDP port, in the order of the addresses and with nothing else in the list.
\<close>
lemma ga_serv_pairs:
  assumes "serv_ports r (ai_socktype hints) serv = [(p, SOCK_STREAM), (q, SOCK_DGRAM)]"
    and "\<forall>ai \<in> set ais. open_entry ai" and "ais \<noteq> []" and "answers g = []"
  shows "\<exists>ais' g'. ga_serv r hints serv ais g = (None, ais', g') \<and>
    map (\<lambda>ai. (ai_addr ai, ai_socktype ai)) ais' =
      concat (map (\<lambda>ai. [(with_port p ai, SOCK_STREAM), (with_port q ai, SOCK_DGRAM)]) ais)"
proof -
  have s: "ai_addr (set_port p t ai) = with_port p ai" "ai_socktype (set_port p t ai) = t" if "open_entry ai" for p t ai
    using that by (auto simp: set_port_def with_port_def open_entry_def inet_entry_def)
  have c: "ai_addr (set_port q u (copy_entry (set_port p t ai))) = with_port q ai"
    "ai_socktype (set_port q u (copy_entry (set_port p t ai))) = u" if "open_entry ai" for p t q u ai
  proof -
    obtain sa where "ai_addr ai = Some sa" "ai_family ai = AF_INET \<or> ai_family ai = AF_INET6"
      using \<open>open_entry ai\<close> by (auto simp: open_entry_def inet_entry_def)
    then show "ai_addr (set_port q u (copy_entry (set_port p t ai))) = with_port q ai"
      "ai_socktype (set_port q u (copy_entry (set_port p t ai))) = u"
      by (cases sa; auto simp: set_port_def with_port_def copy_entry_def)+
  qed
  show ?thesis unfolding ga_serv_pairs_gen [OF assms]
    by (intro exI conjI, rule refl) (use assms(2) in \<open>simp add: map_concat comp_def s c cong: map_cong\<close>)
qed

lemma ga_serv_pairs_witness:
  "\<exists>ais' g'. ga_serv no_resolver no_hints ''13''
      [\<lparr>ai_flags = AI_CLONE, ai_family = AF_INET, ai_socktype = 0, ai_protocol = 0, ai_addrlen = 16,
         ai_canonname = None, ai_addr = Some (SaIn 0 [10, 0, 0, 1])\<rparr>] fresh_heap = (None, ais', g') \<and>
    map (\<lambda>ai. (ai_addr ai, ai_socktype ai)) ais' =
      [(Some (SaIn (htons 13) [10, 0, 0, 1]), SOCK_STREAM), (Some (SaIn (htons 13) [10, 0, 0, 1]), SOCK_DGRAM)]"
proof -
  have d: "isdigit (first ''13'')" "atoi_from 0 ''13'' = 13"
    by (simp_all add: first_def isdigit_def dec_digits_def)
  have "serv_ports no_resolver (ai_socktype no_hints) ''13'' = [(htons 13, SOCK_STREAM), (htons 13, SOCK_DGRAM)]"
    by (simp add: serv_ports_def d no_hints_def Let_def del: atoi_from.simps)
  from ga_serv_pairs [OF this, of "[\<lparr>ai_flags = AI_CLONE, ai_family = AF_INET, ai_socktype = 0, ai_protocol = 0,
      ai_addrlen = 16, ai_canonname = None, ai_addr = Some (SaIn 0 [10, 0, 0, 1])\<rparr>]" fresh_heap]
  show ?thesis by (simp add: open_entry_def inet_entry_def with_port_def fresh_heap_def)
qed

text \<open>
  \<open>getaddrinfo\<close> always returns to its caller, with a list or an error code, except for
  hints of the Unix domain with a host that is not \<open>/local\<close> or \<open>/unix\<close> with a path: these pass the checks,
  give no search at all, and \<open>ga_nsearch\<close> ends the program of the caller.
\<close>
lemma getaddrinfo_exits:
  "(\<exists>res g'. getaddrinfo r hostname servname (Some hints) g = Ret (res, g')) \<longleftrightarrow>
     \<not> (ai_family hints = AF_UNIX \<and> \<not> unix_name hostname servname \<and>
        ga_echeck hostname servname (ai_flags hints) AF_UNIX (ai_socktype hints) = None)"
proof (cases "ga_echeck hostname servname (ai_flags hints) (ai_family hints) (ai_socktype hints) = None")
  case False
  then show ?thesis by (auto simp: getaddrinfo_def)
next
  case True
  then have "ai_family hints \<in> {AF_UNSPEC, AF_INET, AF_INET6, AF_UNIX}"
    by (auto simp: ga_echeck_def split: if_splits)
  then have "(\<exists>search. ga_nsearch hostname hints = Ret search) \<longleftrightarrow> ai_family hints \<noteq> AF_UNIX"
    by (auto simp: ga_nsearch_def Let_def sock_consts af_consts)
  then show ?thesis using True
    by (cases "ga_nsearch hostname hints"; cases "unix_name hostname servname")
      (auto simp: getaddrinfo_def Let_def split: prod.splits intro: surj_pair)
qed

end
