(* ===== verification/Ring.thy ===== *)
theory Ring
  imports Prelude
begin

text \<open>
  Arrays used as circular queues: the entries from an index on, in order, and what storing
  behind them and taking the first one do.
\<close>

definition ring_list :: "'a list \<Rightarrow> nat \<Rightarrow> nat \<Rightarrow> 'a list" where
  "ring_list xs i k = map (\<lambda>j. xs ! ((i + j) mod length xs)) [0 ..< k]"

text \<open>\<open>if (++i >= n) i = 0\<close>\<close>

definition ring_next :: "nat \<Rightarrow> nat \<Rightarrow> nat" where
  "ring_next n i = (if i + 1 \<ge> n then 0 else i + 1)"

lemma ring_next_mod: "i < n \<Longrightarrow> ring_next n i = (i + 1) mod n"
  by (auto simp: ring_next_def mod_if)

lemma ring_next_less: "i < n \<Longrightarrow> ring_next n i < n"
  by (simp add: ring_next_def)

lemma ring_list_length [simp]: "length (ring_list xs i k) = k"
  by (simp add: ring_list_def)

lemma ring_list_0 [simp]: "ring_list xs i 0 = []"
  by (simp add: ring_list_def)

text \<open>Slots at different distances below the size are different.\<close>

lemma ring_slots: "j < n \<Longrightarrow> k < n \<Longrightarrow> (i + j) mod n = (i + k) mod n \<Longrightarrow> j = (k :: nat)"
proof (induction j k rule: linorder_wlog)
  case (le j k)
  then have "n dvd k - j" using mod_eq_dvd_iff_nat [of "i + j" "i + k" n] by simp
  then show ?case using le by (metis diff_is_0_eq dvd_imp_le le_antisym less_imp_diff_less not_less zero_less_iff_neq_zero)
qed simp

lemma ring_put:
  assumes "k < length xs" and "p = (i + k) mod length xs"
  shows "ring_list (xs[p := x]) i (k + 1) = ring_list xs i k @ [x]"
proof -
  have "xs[p := x] ! ((i + j) mod length xs) = xs ! ((i + j) mod length xs)" if "j < k" for j
    using ring_slots [of j "length xs" k i] that assms by (metis less_trans nat_neq_iff nth_list_update_neq)
  moreover have "xs[p := x] ! ((i + k) mod length xs) = x" using assms
    by (metis gr_implies_not_zero length_0_conv length_greater_0_conv mod_less_divisor nth_list_update_eq)
  ultimately show ?thesis by (simp add: ring_list_def)
qed

lemma ring_get:
  assumes "0 < k" and "i < length xs"
  shows "ring_list xs i k = xs ! i # ring_list xs (ring_next (length xs) i) (k - 1)"
proof -
  obtain m where k: "k = Suc m" using assms(1) by (cases k) simp_all
  have "[0 ..< Suc m] = 0 # map Suc [0 ..< m]" by (simp add: upt_conv_Cons map_Suc_upt del: upt_Suc)
  then have "ring_list xs i (Suc m) = xs ! (i mod length xs) # map (\<lambda>j. xs ! ((i + Suc j) mod length xs)) [0 ..< m]"
    unfolding ring_list_def by simp
  also have "(\<lambda>j. xs ! ((i + Suc j) mod length xs)) = (\<lambda>j. xs ! ((ring_next (length xs) i + j) mod length xs))"
    using assms(2) by (simp add: ring_next_mod fun_eq_iff mod_simps)
  finally show ?thesis using assms(2) by (simp add: k ring_list_def)
qed

text \<open>The index behind the last entry moves with the entry.\<close>

lemma ring_put_index: "p = (i + k) mod n \<Longrightarrow> 0 < n \<Longrightarrow> ring_next n p = (i + (k + 1)) mod n"
  using ring_next_mod [of p n] by (simp add: mod_simps)

lemma ring_get_index: "i < n \<Longrightarrow> 0 < k \<Longrightarrow> (ring_next n i + (k - 1)) mod n = (i + k) mod n"
proof -
  assume a: "i < n" "0 < k"
  then obtain m where "k = Suc m" by (cases k) simp_all
  then show ?thesis using a by (simp add: ring_next_mod mod_simps)
qed

end
