(* ===== verification/Sigio_Echo.thy ===== *)
theory Sigio_Echo
  imports Ring Packet
begin

text \<open>
  \<open>sigio/dgecho01.c\<close>: the UDP echo server with signal-driven I/O.  The handler of \<open>SIGIO\<close> reads
  datagrams into a circular queue, the main loop takes them out and sends them back; the signal is
  blocked only while the main loop looks at the counter of the queue.
\<close>

section \<open>State\<close>

definition QSIZE :: nat where "QSIZE = 8"
definition MAXDG :: nat where "MAXDG = 4096"

record DG =
  dg_data :: "byte list"
  dg_len :: nat
  dg_sa :: sockaddr

text \<open>
  The static variables; \<open>arrived\<close> and \<open>replied\<close> record what \<open>recvfrom\<close> has delivered (cut to \<open>MAXDG\<close>
  bytes) and what has been given to \<open>Sendto\<close>.
\<close>

record sigio =
  dg :: "DG list"
  cntread :: "nat list"
  iget :: nat
  iput :: nat
  nqueue :: nat
  arrived :: "(sockaddr \<times> byte list) list"
  replied :: "(sockaddr \<times> byte list) list"

text \<open>The buffers come from \<open>malloc\<close> with any contents.\<close>

definition dg_init :: "DG list \<Rightarrow> sigio" where
  "dg_init bufs = \<lparr>dg = bufs, cntread = replicate (QSIZE + 1) 0, iget = 0, iput = 0, nqueue = 0, arrived = [], replied = []\<rparr>"

section \<open>The handler\<close>

text \<open>\<open>ds\<close> are the datagrams \<open>recvfrom\<close> returns before it fails with \<open>e\<close>.\<close>

fun sig_io_loop :: "(sockaddr \<times> byte list) list \<Rightarrow> errno \<Rightarrow> nat \<Rightarrow> sigio \<Rightarrow> sigio run" where
  "sig_io_loop [] e nread s =
     (if nqueue s \<ge> QSIZE then Fatal ''receive overflow''
      else if e = EWOULDBLOCK then Ret (s\<lparr>cntread := (cntread s)[nread := cntread s ! nread + 1]\<rparr>)
      else Fatal ''recvfrom error'')"
| "sig_io_loop ((sa, d) # ds) e nread s =
     (if nqueue s \<ge> QSIZE then Fatal ''receive overflow''
      else let p = dg s ! iput s;
               p1 = p\<lparr>dg_data := store (dg_data p) d, dg_len := stored (dg_data p) d, dg_sa := sa\<rparr>
        in sig_io_loop ds e (nread + 1)
             (s\<lparr>dg := (dg s)[iput s := p1], nqueue := nqueue s + 1, iput := ring_next QSIZE (iput s),
                arrived := arrived s @ [(sa, take MAXDG d)]\<rparr>))"

definition sig_io :: "(sockaddr \<times> byte list) list \<Rightarrow> errno \<Rightarrow> sigio \<Rightarrow> sigio run" where
  "sig_io ds e s = sig_io_loop ds e 0 s"

section \<open>The main loop\<close>

text \<open>
  Where the loop stands: at the test of \<open>nqueue\<close> with the signal blocked (and in \<open>sigsuspend\<close>, when
  the queue is empty), before \<open>Sendto\<close>, before the increment of \<open>iget\<close>, before the signal is blocked again, and before
  the decrement of \<open>nqueue\<close>.
\<close>

datatype dg_pc = AtTest | AtSend | AtAdvance | AtBlock | AtDec

definition payload :: "DG \<Rightarrow> sockaddr \<times> byte list" where
  "payload p = (dg_sa p, take (dg_len p) (dg_data p))"

fun dg_step :: "dg_pc \<Rightarrow> sigio \<Rightarrow> (dg_pc \<times> sigio) option" where
  "dg_step AtTest s = (if nqueue s = 0 then None else Some (AtSend, s))"
| "dg_step AtSend s = Some (AtAdvance, s\<lparr>replied := replied s @ [payload (dg s ! iget s)]\<rparr>)"
| "dg_step AtAdvance s = Some (AtBlock, s\<lparr>iget := ring_next QSIZE (iget s)\<rparr>)"
| "dg_step AtBlock s = Some (AtDec, s)"
| "dg_step AtDec s = Some (AtTest, s\<lparr>nqueue := nqueue s - 1\<rparr>)"

definition sigio_enabled :: "dg_pc \<Rightarrow> sigio \<Rightarrow> bool" where
  "sigio_enabled pc s \<longleftrightarrow> pc \<in> {AtSend, AtAdvance, AtBlock} \<or> pc = AtTest \<and> nqueue s = 0"

text \<open>The handler runs to its end between two steps of the loop; the program ends where it gives no state.\<close>

inductive sigio_step :: "dg_pc \<times> sigio \<Rightarrow> dg_pc \<times> sigio \<Rightarrow> bool" where
  loop: "dg_step pc s = Some (pc', s') \<Longrightarrow> sigio_step (pc, s) (pc', s')"
| signal: "sigio_enabled pc s \<Longrightarrow> sig_io ds e s = Ret s' \<Longrightarrow> sigio_step (pc, s) (pc, s')"

inductive sigio_reachable :: "DG list \<Rightarrow> dg_pc \<times> sigio \<Rightarrow> bool" for bufs where
  start: "sigio_reachable bufs (AtTest, dg_init bufs)"
| step: "sigio_reachable bufs c \<Longrightarrow> sigio_step c c' \<Longrightarrow> sigio_reachable bufs c'"

inductive_cases sigio_stepE: "sigio_step (pc, s) c'"

section \<open>The invariant\<close>

text \<open>
  An entry is still counted when its datagram has been sent and \<open>iget\<close> has moved on (\<open>gone\<close>), and it is still in
  the ring when it has only been sent (\<open>sent_only\<close>).
\<close>

fun gone :: "dg_pc \<Rightarrow> nat" where
  "gone AtBlock = 1" | "gone AtDec = 1" | "gone _ = 0"

fun sent_only :: "dg_pc \<Rightarrow> nat" where
  "sent_only AtAdvance = 1" | "sent_only _ = 0"

fun must_have :: "dg_pc \<Rightarrow> nat" where
  "must_have AtTest = 0" | "must_have _ = 1"

definition waiting :: "dg_pc \<Rightarrow> sigio \<Rightarrow> (sockaddr \<times> byte list) list" where
  "waiting pc s = map payload (ring_list (dg s) (iget s) (nqueue s - gone pc))"

definition ring_ok :: "dg_pc \<Rightarrow> sigio \<Rightarrow> bool" where
  "ring_ok pc s \<longleftrightarrow> length (dg s) = QSIZE \<and> (\<forall>p \<in> set (dg s). length (dg_data p) = MAXDG) \<and>
     iget s < QSIZE \<and> must_have pc \<le> nqueue s \<and> nqueue s \<le> QSIZE \<and>
     iput s = (iget s + (nqueue s - gone pc)) mod QSIZE \<and>
     arrived s = replied s @ drop (sent_only pc) (waiting pc s)"

definition sigio_inv :: "dg_pc \<times> sigio \<Rightarrow> bool" where
  "sigio_inv c \<longleftrightarrow> ring_ok (fst c) (snd c) \<and> nqueue (snd c) < QSIZE"

lemma stored_payload:
  assumes "length (dg_data p) = MAXDG"
  shows "payload (p\<lparr>dg_data := store (dg_data p) d, dg_len := stored (dg_data p) d, dg_sa := sa\<rparr>) = (sa, take MAXDG d)"
  using assms by (auto simp: payload_def store_def stored_def min_def)

lemma handler_put:
  assumes "ring_ok pc s" and "nqueue s < QSIZE" and "sent_only pc \<le> nqueue s - gone pc"
    and p: "p = (dg s ! iput s)\<lparr>dg_data := store (dg_data (dg s ! iput s)) d,
      dg_len := stored (dg_data (dg s ! iput s)) d, dg_sa := sa\<rparr>"
  shows "ring_ok pc (s\<lparr>dg := (dg s)[iput s := p], nqueue := nqueue s + 1, iput := ring_next QSIZE (iput s),
    arrived := arrived s @ [(sa, take MAXDG d)]\<rparr>)"
proof -
  let ?k = "nqueue s - gone pc"
  note inv = assms(1) [unfolded ring_ok_def]
  have len: "length (dg s) = QSIZE" and iput: "iput s = (iget s + ?k) mod QSIZE" and q: "0 < QSIZE"
    using inv by (auto simp: QSIZE_def)
  have g: "gone pc \<le> must_have pc" by (cases pc) simp_all
  then have k1: "nqueue s + 1 - gone pc = ?k + 1" using inv by linarith
  have ip: "iput s < QSIZE" using iput q by simp
  have old: "length (dg_data (dg s ! iput s)) = MAXDG" using inv ip len nth_mem by metis
  have ring: "ring_list ((dg s)[iput s := p]) (iget s) (?k + 1) = ring_list (dg s) (iget s) ?k @ [p]"
    by (rule ring_put) (use assms(2) iput len in auto)
  have pl: "payload p = (sa, take MAXDG d)" using stored_payload [OF old] p by simp
  have data: "\<forall>x \<in> set ((dg s)[iput s := p]). length (dg_data x) = MAXDG"
    using inv old by (auto simp: p dest!: set_update_subset_insert [THEN subsetD])
  have w: "waiting pc (s\<lparr>dg := (dg s)[iput s := p], nqueue := nqueue s + 1, iput := ring_next QSIZE (iput s),
      arrived := arrived s @ [(sa, take MAXDG d)]\<rparr>) = waiting pc s @ [(sa, take MAXDG d)]"
    using ring k1 pl by (simp add: waiting_def)
  have len_w: "length (waiting pc s) = ?k" by (simp add: waiting_def)
  show ?thesis unfolding ring_ok_def w using inv data len assms(2,3) k1 ring_put_index [OF iput q] len_w
    by (simp add: drop_append)
qed

lemma sig_io_loop_ring:
  "sig_io_loop ds e n s = Ret s' \<Longrightarrow> ring_ok pc s \<Longrightarrow> ring_ok pc s' \<and> nqueue s' < QSIZE \<and>
     nqueue s' = nqueue s + length ds \<and> arrived s' = arrived s @ map (\<lambda>(sa, d). (sa, take MAXDG d)) ds \<and>
     replied s' = replied s"
proof (induction ds e n s rule: sig_io_loop.induct)
  case (1 e n s)
  then show ?case by (auto simp: ring_ok_def waiting_def split: if_splits)
next
  case (2 sa d ds e n s)
  have q: "nqueue s < QSIZE" using 2(2) by (simp split: if_splits)
  have so: "sent_only pc \<le> nqueue s - gone pc" using 2(3) by (cases pc) (simp_all add: ring_ok_def)
  show ?case using 2(1) [OF _ refl refl] 2(2) handler_put [OF 2(3) q so refl] q by (simp add: Let_def)
qed

lemma dg_step_inv:
  assumes "dg_step pc s = Some (pc', s')" and "sigio_inv (pc, s)"
  shows "sigio_inv (pc', s')"
proof -
  have i: "ring_ok pc s" and q: "nqueue s < QSIZE" using assms(2) by (simp_all add: sigio_inv_def)
  note r = i [unfolded ring_ok_def waiting_def]
  show ?thesis
  proof (cases pc)
    case AtTest
    then show ?thesis using assms(1) i q by (auto simp: sigio_inv_def ring_ok_def waiting_def split: if_splits)
  next
    case AtSend
    then have "ring_list (dg s) (iget s) (nqueue s) =
        dg s ! iget s # ring_list (dg s) (ring_next QSIZE (iget s)) (nqueue s - 1)"
      using r ring_get [of "nqueue s" "iget s" "dg s"] by simp
    then show ?thesis using assms(1) AtSend r q by (auto simp: sigio_inv_def ring_ok_def waiting_def)
  next
    case AtAdvance
    then have "ring_list (dg s) (iget s) (nqueue s) =
        dg s ! iget s # ring_list (dg s) (ring_next QSIZE (iget s)) (nqueue s - 1)"
      using r ring_get [of "nqueue s" "iget s" "dg s"] by simp
    then show ?thesis using assms(1) AtAdvance r q ring_get_index [of "iget s" QSIZE "nqueue s"]
      by (auto simp: sigio_inv_def ring_ok_def waiting_def ring_next_less)
  next
    case AtBlock
    then show ?thesis using assms(1) i q by (auto simp: sigio_inv_def ring_ok_def waiting_def)
  next
    case AtDec
    then show ?thesis using assms(1) i q by (auto simp: sigio_inv_def ring_ok_def waiting_def)
  qed
qed

lemma sigio_step_inv: "sigio_step c c' \<Longrightarrow> sigio_inv c \<Longrightarrow> sigio_inv c'"
proof (induction rule: sigio_step.induct)
  case (loop pc s pc' s')
  then show ?case using dg_step_inv by blast
next
  case (signal pc s ds e s')
  then show ?case using sig_io_loop_ring [of ds e 0 s s' pc] by (simp add: sigio_inv_def sig_io_def)
qed

definition bufs_ok :: "DG list \<Rightarrow> bool" where
  "bufs_ok bufs \<longleftrightarrow> length bufs = QSIZE \<and> (\<forall>p \<in> set bufs. length (dg_data p) = MAXDG)"

lemma sigio_reachable_inv:
  "sigio_reachable bufs c \<Longrightarrow> bufs_ok bufs \<Longrightarrow> sigio_inv c"
proof (induction rule: sigio_reachable.induct)
  case start
  then show ?case by (simp add: sigio_inv_def ring_ok_def dg_init_def waiting_def bufs_ok_def QSIZE_def)
next
  case (step c c')
  then show ?case using sigio_step_inv by blast
qed

lemma sig_io_loop_room:
  "length ds + nqueue s < QSIZE \<Longrightarrow> \<exists>s'. sig_io_loop ds EWOULDBLOCK n s = Ret s'"
  by (induction ds EWOULDBLOCK n s rule: sig_io_loop.induct) (auto simp: Let_def)

lemma sig_io_loop_full:
  "QSIZE \<le> length ds + nqueue s \<Longrightarrow> sig_io_loop ds e n s = Fatal ''receive overflow''"
  by (induction ds e n s rule: sig_io_loop.induct) (auto simp: Let_def)

section \<open>Emptying the queue\<close>

text \<open>The main loop for a number of steps, without a signal.\<close>

fun dg_steps :: "nat \<Rightarrow> dg_pc \<times> sigio \<Rightarrow> (dg_pc \<times> sigio) option" where
  "dg_steps 0 c = Some c"
| "dg_steps (Suc k) c = (case dg_step (fst c) (snd c) of None \<Rightarrow> None | Some c' \<Rightarrow> dg_steps k c')"

lemma dg_steps_add: "dg_steps (m + k) c = (case dg_steps m c of None \<Rightarrow> None | Some c' \<Rightarrow> dg_steps k c')"
  by (induction m arbitrary: c) (auto split: option.splits)

lemma dg_round:
  assumes "nqueue s \<noteq> 0"
  shows "\<exists>s'. dg_steps 5 (AtTest, s) = Some (AtTest, s') \<and> nqueue s' = nqueue s - 1 \<and> arrived s' = arrived s"
  using assms by (simp add: eval_nat_numeral)

lemma dg_drain:
  "\<exists>s'. dg_steps (5 * nqueue s) (AtTest, s) = Some (AtTest, s') \<and> nqueue s' = 0 \<and> arrived s' = arrived s"
proof (induction "nqueue s" arbitrary: s)
  case 0
  then show ?case by simp
next
  case (Suc k)
  then obtain s1 where s1: "dg_steps 5 (AtTest, s) = Some (AtTest, s1)" "nqueue s1 = k" "arrived s1 = arrived s"
    using dg_round [of s] by (metis diff_Suc_1 nat.distinct(1))
  obtain s' where "dg_steps (5 * k) (AtTest, s1) = Some (AtTest, s')" "nqueue s' = 0" "arrived s' = arrived s1"
    using Suc(1) [of s1] s1(2) by auto
  then show ?case using s1 Suc(2) [symmetric] dg_steps_add [of 5 "5 * k" "(AtTest, s)"] by auto
qed

lemma dg_steps_reachable:
  "dg_steps k c = Some c' \<Longrightarrow> sigio_reachable bufs c \<Longrightarrow> sigio_reachable bufs c'"
proof (induction k arbitrary: c)
  case (Suc k)
  then obtain c1 where c1: "dg_step (fst c) (snd c) = Some c1" "dg_steps k c1 = Some c'"
    by (auto split: option.splits)
  then have "sigio_step c c1" using sigio_step.loop [of "fst c" "snd c" "fst c1" "snd c1"] by simp
  then show ?case using Suc c1(2) sigio_reachable.step by blast
qed simp

section \<open>Properties\<close>

text \<open>
  C26: whenever the signal comes, the server replies to the datagrams in the order in which they arrived, each
  with the bytes received (at most \<open>MAXDG\<close>) and to the address it came from: what has been sent is
  always a prefix of what has arrived, at most seven datagrams are between the two, and none
  when the main loop waits with an empty queue.
\<close>
theorem sigio_fifo:
  assumes "sigio_reachable bufs (pc, s)" and "bufs_ok bufs"
  shows "\<exists>queue. arrived s = replied s @ queue \<and> length queue < QSIZE \<and> (pc = AtTest \<and> nqueue s = 0 \<longrightarrow> queue = [])"
proof -
  have "ring_ok pc s" "nqueue s < QSIZE" using sigio_reachable_inv [OF assms] by (simp_all add: sigio_inv_def)
  then show ?thesis unfolding ring_ok_def by (intro exI [of _ "drop (sent_only pc) (waiting pc s)"]) (auto simp: waiting_def)
qed

definition demo_bufs :: "DG list" where
  "demo_bufs = replicate QSIZE \<lparr>dg_data = replicate MAXDG 0, dg_len = 0, dg_sa = SaOther 0\<rparr>"

text \<open>
  The handler ends the program as soon as the queue would hold \<open>QSIZE\<close> datagrams, although there is
  room for them: with \<open>n\<close> datagrams in the queue it returns exactly when fewer than \<open>QSIZE - n\<close> are waiting in the
  socket, because the test stands before the call that would find the socket empty.
\<close>
lemma sig_io_overflow:
  "(\<exists>s'. sig_io ds EWOULDBLOCK s = Ret s') \<longleftrightarrow> nqueue s + length ds < QSIZE"
  using sig_io_loop_room [of ds s 0] sig_io_loop_full [of ds s EWOULDBLOCK 0]
  by (cases "nqueue s + length ds < QSIZE") (auto simp: sig_io_def add.commute)

text \<open>
  In every reachable state at the test, if no further signal comes, five steps of the main loop
  for each queued datagram empty the queue, and then everything that has arrived has been replied to.
\<close>
lemma sigio_drains:
  assumes "sigio_reachable bufs (AtTest, s)" and "bufs_ok bufs"
  shows "\<exists>s'. dg_steps (5 * nqueue s) (AtTest, s) = Some (AtTest, s') \<and> nqueue s' = 0 \<and> replied s' = arrived s"
proof -
  obtain s' where s': "dg_steps (5 * nqueue s) (AtTest, s) = Some (AtTest, s')" "nqueue s' = 0" "arrived s' = arrived s"
    using dg_drain [of s] by blast
  have "sigio_inv (AtTest, s')" by (rule sigio_reachable_inv [OF dg_steps_reachable [OF s'(1) assms(1)] assms(2)])
  then show ?thesis using s' by (simp add: sigio_inv_def ring_ok_def waiting_def)
qed

lemma demo_bufs_ok: "bufs_ok demo_bufs"
  by (simp add: bufs_ok_def demo_bufs_def)

lemma demo_two:
  "\<exists>s. sigio_reachable demo_bufs (AtTest, s) \<and> nqueue s = 2 \<and> arrived s = [(SaOther 1, [1]), (SaOther 2, [2])]"
proof -
  let ?ds = "[(SaOther 1, [1 :: byte]), (SaOther 2, [2])]" and ?s = "dg_init demo_bufs"
  have z: "nqueue ?s = 0" "arrived ?s = []" by (simp_all add: dg_init_def)
  obtain s' where s': "sig_io ?ds EWOULDBLOCK ?s = Ret s'"
    using sig_io_loop_room [of ?ds ?s 0] z by (auto simp: sig_io_def QSIZE_def)
  have "sigio_inv (AtTest, ?s)" by (rule sigio_reachable_inv [OF sigio_reachable.start demo_bufs_ok])
  then have "nqueue s' = 2" "arrived s' = ?ds"
    using sig_io_loop_ring [of ?ds EWOULDBLOCK 0 ?s s' AtTest] s' z
    by (simp_all add: sig_io_def sigio_inv_def MAXDG_def take_Cons')
  moreover have "sigio_reachable demo_bufs (AtTest, s')"
    by (rule sigio_reachable.step [OF sigio_reachable.start sigio_step.signal [OF _ s']])
      (simp add: sigio_enabled_def z)
  ultimately show ?thesis by blast
qed

lemma sigio_drains_witness:
  "\<exists>s s'. nqueue s = 2 \<and> dg_steps 10 (AtTest, s) = Some (AtTest, s') \<and> replied s' = [(SaOther 1, [1]), (SaOther 2, [2])]"
proof -
  obtain s where s: "sigio_reachable demo_bufs (AtTest, s)" "nqueue s = 2" "arrived s = [(SaOther 1, [1]), (SaOther 2, [2])]"
    using demo_two by blast
  show ?thesis using sigio_drains [OF s(1) demo_bufs_ok] s(2,3) by auto
qed

theorem sigio_fifo_witness:
  "\<exists>(s :: sigio) queue. nqueue s = 2 \<and> [(SaOther 1, [1]), (SaOther 2, [2])] = replied s @ queue \<and> length queue < QSIZE"
proof -
  obtain s where s: "sigio_reachable demo_bufs (AtTest, s)" "nqueue s = 2" "arrived s = [(SaOther 1, [1]), (SaOther 2, [2])]"
    using demo_two by blast
  obtain queue where "arrived s = replied s @ queue" "length queue < QSIZE"
    using sigio_fifo [OF s(1) demo_bufs_ok] by blast
  then show ?thesis using s(2,3) by (intro exI [of _ s] exI [of _ queue]) simp
qed

end
