(* ===== verification/Thread_Pool.thy ===== *)
theory Thread_Pool
  imports Ring
begin

text \<open>
  \<open>server/serv08.c\<close> and \<open>server/pthread08.c\<close>: the main thread accepts connections and puts their
  descriptors into a circular array, a fixed number of threads takes them out.  Both sides hold the
  mutex while they touch the array, so that each critical section is one step.
\<close>

section \<open>State\<close>

definition MAXNCLI :: nat where "MAXNCLI = 32"

text \<open>\<open>serving\<close> is the local \<open>connfd\<close> of a thread while it is in \<open>web_child\<close>.\<close>

record pool_thread =
  thread_count :: nat
  serving :: "int option"

text \<open>\<open>accepted_fds\<close> and \<open>taken_fds\<close> record the descriptors that went into and out of the array.\<close>

record pool =
  clifd :: "int list"
  pget :: nat
  pput :: nat
  tptr :: "pool_thread list"
  open_fds :: "int set"
  accepted_fds :: "int list"
  taken_fds :: "(nat \<times> int) list"

definition pool_init :: "int \<Rightarrow> int list \<Rightarrow> nat \<Rightarrow> pool" where
  "pool_init listenfd arr nthreads =
     \<lparr>clifd = arr, pget = 0, pput = 0, tptr = replicate nthreads \<lparr>thread_count = 0, serving = None\<rparr>,
      open_fds = {listenfd}, accepted_fds = [], taken_fds = []\<rparr>"

section \<open>Steps\<close>

text \<open>
  \<open>Accept\<close> has returned a descriptor that was not open.  The call, which comes before the lock, and the insertion under the lock
  are one step: the main thread alone has the new descriptor in between.
\<close>

definition main_put :: "int \<Rightarrow> pool \<Rightarrow> pool run" where
  "main_put connfd s =
     (let s1 = s\<lparr>clifd := (clifd s)[pput s := connfd], pput := (if pput s + 1 = MAXNCLI then 0 else pput s + 1),
            open_fds := insert connfd (open_fds s), accepted_fds := accepted_fds s @ [connfd]\<rparr>
      in if pput s1 = pget s1 then Fatal ''iput = iget'' else Ret s1)"

text \<open>A thread leaves its wait for the condition only when the array is not empty.\<close>

definition thread_take :: "nat \<Rightarrow> pool \<Rightarrow> pool option" where
  "thread_take i s =
     (if pget s = pput s then None
      else let connfd = clifd s ! pget s; t = tptr s ! i
        in Some (s\<lparr>pget := (if pget s + 1 = MAXNCLI then 0 else pget s + 1),
             tptr := (tptr s)[i := t\<lparr>thread_count := thread_count t + 1, serving := Some connfd\<rparr>],
             taken_fds := taken_fds s @ [(i, connfd)]\<rparr>))"

text \<open>\<open>web_child\<close> has returned and the thread closes the connection.\<close>

definition thread_close :: "nat \<Rightarrow> int \<Rightarrow> pool \<Rightarrow> pool" where
  "thread_close i connfd s =
     s\<lparr>tptr := (tptr s)[i := (tptr s ! i)\<lparr>serving := None\<rparr>], open_fds := open_fds s - {connfd}\<rparr>"

inductive pool_step :: "pool \<Rightarrow> pool \<Rightarrow> bool" where
  accept: "connfd \<notin> open_fds s \<Longrightarrow> main_put connfd s = Ret s' \<Longrightarrow> pool_step s s'"
| take: "i < length (tptr s) \<Longrightarrow> serving (tptr s ! i) = None \<Longrightarrow> thread_take i s = Some s' \<Longrightarrow> pool_step s s'"
| close: "i < length (tptr s) \<Longrightarrow> serving (tptr s ! i) = Some connfd \<Longrightarrow> pool_step s (thread_close i connfd s)"

inductive pool_reachable :: "pool \<Rightarrow> pool \<Rightarrow> bool" for s0 where
  start: "pool_reachable s0 s0"
| step: "pool_reachable s0 s \<Longrightarrow> pool_step s s' \<Longrightarrow> pool_reachable s0 s'"

section \<open>The invariant\<close>

text \<open>How many descriptors wait in the array, and which.\<close>

definition waiting_count :: "pool \<Rightarrow> nat" where
  "waiting_count s = (pput s + MAXNCLI - pget s) mod MAXNCLI"

definition waiting_fds :: "pool \<Rightarrow> int list" where
  "waiting_fds s = ring_list (clifd s) (pget s) (waiting_count s)"

definition options :: "'a option list \<Rightarrow> 'a list" where
  "options os = concat (map (\<lambda>x. case x of None \<Rightarrow> [] | Some v \<Rightarrow> [v]) os)"

definition served_fds :: "pool \<Rightarrow> int list" where
  "served_fds s = options (map serving (tptr s))"

definition pool_inv :: "int \<Rightarrow> pool \<Rightarrow> bool" where
  "pool_inv listenfd s \<longleftrightarrow> length (clifd s) = MAXNCLI \<and> pget s < MAXNCLI \<and> pput s < MAXNCLI \<and>
     accepted_fds s = map snd (taken_fds s) @ waiting_fds s \<and>
     distinct (waiting_fds s @ served_fds s) \<and>
     open_fds s = insert listenfd (set (waiting_fds s) \<union> set (served_fds s)) \<and>
     listenfd \<notin> set (waiting_fds s) \<union> set (served_fds s) \<and>
     sum_list (map thread_count (tptr s)) = length (taken_fds s)"

lemma next_MAXNCLI: "i < MAXNCLI \<Longrightarrow> (if i + 1 = MAXNCLI then 0 else i + 1) = ring_next MAXNCLI i"
  by (simp add: ring_next_def)

lemma waiting_count_less: "waiting_count s < MAXNCLI"
  by (simp add: waiting_count_def MAXNCLI_def)

lemma pput_eq:
  assumes "pget s < MAXNCLI" and "pput s < MAXNCLI"
  shows "pput s = (pget s + waiting_count s) mod MAXNCLI"
  using assms by (simp add: waiting_count_def mod_simps)

lemma count_zero:
  assumes "pget s < MAXNCLI" and "pput s < MAXNCLI"
  shows "waiting_count s = 0 \<longleftrightarrow> pget s = pput s"
  using assms by (auto simp: waiting_count_def mod_if)

lemma count_put:
  assumes "pget s < MAXNCLI" and "pput s < MAXNCLI" and "ring_next MAXNCLI (pput s) \<noteq> pget s"
  shows "(ring_next MAXNCLI (pput s) + MAXNCLI - pget s) mod MAXNCLI = waiting_count s + 1"
  using assms by (auto simp: waiting_count_def ring_next_def mod_if split: if_splits)

lemma count_get:
  assumes "pget s < MAXNCLI" and "pput s < MAXNCLI" and "pget s \<noteq> pput s"
  shows "(pput s + MAXNCLI - ring_next MAXNCLI (pget s)) mod MAXNCLI = waiting_count s - 1"
  using assms by (auto simp: waiting_count_def ring_next_def mod_if split: if_splits)

lemma options_simps [simp]:
  "options [] = []" "options (None # os) = options os" "options (Some v # os) = v # options os"
  "options (os @ os') = options os @ options os'"
  by (simp_all add: options_def)

lemma options_set:
  assumes "i < length os" and "os ! i = None"
  obtains as bs where "options os = as @ bs" and "options (os[i := Some v]) = as @ v # bs"
proof
  have "os = take i os @ None # drop (Suc i) os" using id_take_nth_drop [OF assms(1)] assms(2) by simp
  then show "options os = options (take i os) @ options (drop (Suc i) os)" by (metis options_simps(2,4))
  show "options (os[i := Some v]) = options (take i os) @ v # options (drop (Suc i) os)"
    by (simp add: upd_conv_take_nth_drop assms(1))
qed

lemma options_clear:
  assumes "i < length os" and "os ! i = Some v"
  obtains as bs where "options os = as @ v # bs" and "options (os[i := None]) = as @ bs"
proof
  have "os = take i os @ Some v # drop (Suc i) os" using id_take_nth_drop [OF assms(1)] assms(2) by simp
  then show "options os = options (take i os) @ v # options (drop (Suc i) os)" by (metis options_simps(3,4))
  show "options (os[i := None]) = options (take i os) @ options (drop (Suc i) os)"
    by (simp add: upd_conv_take_nth_drop assms(1))
qed

lemma main_put_inv:
  assumes "pool_inv l s" and "connfd \<notin> open_fds s" and "main_put connfd s = Ret s'"
  shows "pool_inv l s'"
proof -
  note i = assms(1) [unfolded pool_inv_def]
  have p: "pput s < MAXNCLI" "pget s < MAXNCLI" "length (clifd s) = MAXNCLI" using i by simp_all
  have s': "s' = s\<lparr>clifd := (clifd s)[pput s := connfd], pput := ring_next MAXNCLI (pput s),
      open_fds := insert connfd (open_fds s), accepted_fds := accepted_fds s @ [connfd]\<rparr>"
    and ne: "ring_next MAXNCLI (pput s) \<noteq> pget s"
    using assms(3) unfolding main_put_def Let_def next_MAXNCLI [OF p(1)] by (auto split: if_splits)
  have c: "waiting_count s' = waiting_count s + 1"
    using count_put [OF p(2,1) ne] by (simp add: s' waiting_count_def)
  have w: "waiting_fds s' = waiting_fds s @ [connfd]"
    using ring_put [of "waiting_count s" "clifd s" "pput s" "pget s" connfd] p(3) waiting_count_less [of s]
      pput_eq [OF p(2,1)] c by (simp add: waiting_fds_def s')
  have "served_fds s' = served_fds s" by (simp add: s' served_fds_def)
  then show ?thesis using i assms(2) w unfolding pool_inv_def by (auto simp: s' ring_next_less)
qed

lemma thread_take_inv:
  assumes "pool_inv l s" and "i < length (tptr s)" and "serving (tptr s ! i) = None" and "thread_take i s = Some s'"
  shows "pool_inv l s'"
proof -
  note inv = assms(1) [unfolded pool_inv_def]
  have p: "pput s < MAXNCLI" "pget s < MAXNCLI" "length (clifd s) = MAXNCLI" using inv by simp_all
  let ?c = "clifd s ! pget s" and ?t = "tptr s ! i"
  have ne: "pget s \<noteq> pput s" and s': "s' = s\<lparr>pget := ring_next MAXNCLI (pget s),
      tptr := (tptr s)[i := ?t\<lparr>thread_count := thread_count ?t + 1, serving := Some ?c\<rparr>],
      taken_fds := taken_fds s @ [(i, ?c)]\<rparr>"
    using assms(4) unfolding thread_take_def Let_def next_MAXNCLI [OF p(2)] by (auto split: if_splits)
  have pos: "0 < waiting_count s" using count_zero [OF p(2,1)] ne by simp
  have c: "waiting_count s' = waiting_count s - 1"
    using count_get [OF p(2,1) ne] by (simp add: s' waiting_count_def)
  have w: "waiting_fds s = ?c # waiting_fds s'"
    using ring_get [OF pos, of "pget s" "clifd s"] p by (simp add: waiting_fds_def c) (simp add: s')
  obtain as bs where o: "served_fds s = as @ bs" "served_fds s' = as @ ?c # bs"
  proof (rule options_set [of i "map serving (tptr s)" ?c])
    show "i < length (map serving (tptr s))" "map serving (tptr s) ! i = None" using assms(2,3) by simp_all
  qed (auto simp: served_fds_def s' map_update)
  have "sum_list (map thread_count (tptr s')) = sum_list (map thread_count (tptr s)) + 1"
    using assms(2) by (simp add: s' map_update sum_list_update)
  then show ?thesis using inv w o unfolding pool_inv_def by (auto simp: s' ring_next_less)
qed

lemma thread_close_inv:
  assumes "pool_inv l s" and "i < length (tptr s)" and "serving (tptr s ! i) = Some connfd"
  shows "pool_inv l (thread_close i connfd s)"
proof -
  note inv = assms(1) [unfolded pool_inv_def]
  let ?s = "thread_close i connfd s"
  have w: "waiting_fds ?s = waiting_fds s" by (simp add: waiting_fds_def waiting_count_def thread_close_def)
  obtain as bs where o: "served_fds s = as @ connfd # bs" "served_fds ?s = as @ bs"
  proof (rule options_clear [of i "map serving (tptr s)" connfd])
    show "i < length (map serving (tptr s))" "map serving (tptr s) ! i = Some connfd" using assms(2,3) by simp_all
  qed (auto simp: served_fds_def thread_close_def map_update)
  have "map thread_count (tptr ?s) = map thread_count (tptr s)"
    using assms(2) by (simp add: thread_close_def map_update list_update_same_conv)
  then show ?thesis using inv w o unfolding pool_inv_def by (auto simp: thread_close_def)
qed

lemma pool_reachable_inv:
  assumes "pool_reachable (pool_init l arr n) s" and "length arr = MAXNCLI"
  shows "pool_inv l s"
  using assms
proof (induction rule: pool_reachable.induct)
  case start
  have "options (replicate n (None :: int option)) = []" by (induction n) simp_all
  then show ?case using start
    by (simp add: pool_inv_def pool_init_def waiting_fds_def waiting_count_def served_fds_def MAXNCLI_def sum_list_replicate)
next
  case (step s s')
  from step(2) step.IH [OF step(4)] show ?case
    by (cases rule: pool_step.cases) (auto intro: main_put_inv thread_take_inv thread_close_inv)
qed

section \<open>Properties\<close>

text \<open>
  C25: with any number of threads and any interleaving, every accepted connection is handed to exactly one
  thread, in the order of acceptance: what was taken followed by what waits in the array is what was accepted, no
  descriptor is served twice or while it still waits, and the open descriptors are the listening one and exactly these.
\<close>
theorem pool_fifo:
  assumes "pool_reachable (pool_init l arr n) s" and "length arr = MAXNCLI"
  shows "accepted_fds s = map snd (taken_fds s) @ waiting_fds s \<and> distinct (waiting_fds s @ served_fds s) \<and>
    open_fds s = insert l (set (waiting_fds s @ served_fds s)) \<and>
    sum_list (map thread_count (tptr s)) = length (taken_fds s)"
  using pool_reachable_inv [OF assms] unfolding pool_inv_def by auto

lemma demo_pool_step: "\<exists>s. pool_reachable (pool_init 3 (replicate MAXNCLI 0) 2) s \<and> accepted_fds s = [7] \<and> waiting_fds s = [7]"
proof -
  let ?s0 = "pool_init 3 (replicate MAXNCLI 0) 2"
  obtain s where s: "main_put 7 ?s0 = Ret s" and a: "accepted_fds s = [7]" and t: "taken_fds s = []"
    by (simp add: main_put_def pool_init_def Let_def MAXNCLI_def)
  have r: "pool_reachable ?s0 s"
    by (rule pool_reachable.step [OF pool_reachable.start pool_step.accept [OF _ s]]) (simp add: pool_init_def)
  have "accepted_fds s = map snd (taken_fds s) @ waiting_fds s"
    using pool_reachable_inv [OF r] by (simp add: pool_inv_def)
  then show ?thesis using r a t by auto
qed

theorem pool_fifo_witness:
  "\<exists>s. accepted_fds s = [7] \<and> waiting_fds s = [7] \<and> open_fds s = insert 3 (set (waiting_fds s @ served_fds s))"
  using demo_pool_step pool_fifo [of 3 "replicate MAXNCLI 0" 2] by fastforce

text \<open>
  The array of \<open>MAXNCLI\<close> entries holds \<open>MAXNCLI - 1\<close> descriptors: in a reachable state the main thread ends the
  program exactly when it accepts a connection while that many wait, and otherwise the new one waits behind them.
\<close>
lemma pool_capacity:
  assumes "pool_reachable (pool_init l arr n) s" and "length arr = MAXNCLI"
  shows "main_put connfd s = Fatal ''iput = iget'' \<longleftrightarrow> length (waiting_fds s) = MAXNCLI - 1"
proof -
  have p: "pget s < MAXNCLI" "pput s < MAXNCLI"
    using pool_reachable_inv [OF assms] by (simp_all add: pool_inv_def)
  have "main_put connfd s = Fatal ''iput = iget'' \<longleftrightarrow> ring_next MAXNCLI (pput s) = pget s"
    unfolding main_put_def Let_def next_MAXNCLI [OF p(2)] by simp
  moreover have "ring_next MAXNCLI (pput s) = pget s \<longleftrightarrow> waiting_count s = MAXNCLI - 1"
    using p by (auto simp: waiting_count_def ring_next_def mod_if split: if_splits)
  ultimately show ?thesis by (simp add: waiting_fds_def)
qed

lemma pool_capacity_witness:
  "\<exists>s. waiting_fds s = [7] \<and> main_put 8 s \<noteq> Fatal ''iput = iget''"
  using demo_pool_step pool_capacity [of 3 "replicate MAXNCLI 0" 2 _ 8] by (fastforce simp: MAXNCLI_def)

end
