(* ===== verification/Prefork.thy ===== *)
theory Prefork
  imports Prelude
begin

text \<open>
  \<open>server/serv05.c\<close> and \<open>server/child05.c\<close>: a parent accepts the connections and passes each descriptor
  over a stream pipe to one of its preforked children; a child reports back with one byte
  when it has served the connection.  The pipe is the standard error of the child: what \<open>err_quit\<close> prints there, when
  \<open>web_child\<close> refuses a request, reaches the parent in the same way.
\<close>

section \<open>State\<close>

text \<open>The parent's entry for a child.\<close>

record Child =
  child_status :: nat
  child_count :: nat

text \<open>
  A child process with its pipe: descriptors that wait in it, the connection being served, bytes the parent has
  not read yet, whether the process still runs, and whether it is on its way out, between the message of \<open>err_quit\<close>
  and \<open>exit\<close>.
\<close>

record kid =
  inbox :: "int list"
  job :: "int option"
  outbox :: nat
  alive :: bool
  leaving :: bool

text \<open>
  \<open>handed\<close> records which connection went to which child, \<open>surplus\<close> how many bytes were read from a child that
  was available already.
\<close>

record prefork =
  cptr :: "Child list"
  navail :: int
  kids :: "kid list"
  handed :: "(nat \<times> int) list"
  surplus :: nat

definition prefork_init :: "nat \<Rightarrow> prefork" where
  "prefork_init nchildren =
     \<lparr>cptr = replicate nchildren \<lparr>child_status = 0, child_count = 0\<rparr>, navail = int nchildren,
      kids = replicate nchildren \<lparr>inbox = [], job = None, outbox = 0, alive = True, leaving = False\<rparr>,
      handed = [], surplus = 0\<rparr>"

section \<open>The parent\<close>

text \<open>The process is killed by \<open>SIGPIPE\<close> when the child has gone.\<close>

definition hand_over :: "int \<Rightarrow> prefork \<Rightarrow> prefork run" where
  "hand_over connfd s =
     (let i = length (takeWhile (\<lambda>c. child_status c \<noteq> 0) (cptr s))
      in if i = length (cptr s) then Fatal ''no available children''
         else let c = cptr s ! i; k = kids s ! i
           in if \<not> alive k then Fatal ''SIGPIPE''
              else Ret (s\<lparr>cptr := (cptr s)[i := c\<lparr>child_status := 1, child_count := child_count c + 1\<rparr>],
                navail := navail s - 1, kids := (kids s)[i := k\<lparr>inbox := inbox k @ [connfd]\<rparr>],
                handed := handed s @ [(i, connfd)]\<rparr>))"

text \<open>\<open>Read\<close> of one byte from the pipe of a child: end of file when there is none and the child has gone.\<close>

definition read_child :: "nat \<Rightarrow> prefork \<Rightarrow> prefork run" where
  "read_child i s =
     (let k = kids s ! i
      in if outbox k > 0 then
           Ret (s\<lparr>kids := (kids s)[i := k\<lparr>outbox := outbox k - 1\<rparr>],
             cptr := (cptr s)[i := (cptr s ! i)\<lparr>child_status := 0\<rparr>], navail := navail s + 1,
             surplus := (if child_status (cptr s ! i) = 0 then surplus s + 1 else surplus s)\<rparr>)
         else if alive k then Blocked else Fatal ''child terminated unexpectedly'')"

fun collect :: "(nat \<Rightarrow> bool) \<Rightarrow> int \<Rightarrow> nat list \<Rightarrow> prefork \<Rightarrow> prefork run" where
  "collect ready nsel [] s = Ret s"
| "collect ready nsel (i # is) s =
     (if ready i then
        run_bind (read_child i s) (\<lambda>s1. if nsel - 1 = 0 then Ret s1 else collect ready (nsel - 1) is s1)
      else collect ready nsel is s)"

text \<open>
  One turn: \<open>conn\<close> is the connection that makes the listening socket readable, which is looked at only when a
  child is available, and \<open>ready\<close> tells which pipes are readable.
\<close>

definition parent_turn :: "int option \<Rightarrow> (nat \<Rightarrow> bool) \<Rightarrow> prefork \<Rightarrow> prefork run" where
  "parent_turn conn ready s =
     (let l = (navail s > 0 \<and> conn \<noteq> None);
          all = [0 ..< length (cptr s)];
          nsel = (if l then 1 else 0) + int (length (filter ready all))
      in if nsel = 0 then Blocked
         else if l then
           run_bind (hand_over (the conn) s) (\<lambda>s1. if nsel - 1 = 0 then Ret s1 else collect ready (nsel - 1) all s1)
         else collect ready nsel all s)"

section \<open>The children\<close>

text \<open>\<open>Read_fd\<close> gives the next descriptor; the connection is served and closed, and one byte is written.\<close>

definition kid_take :: "nat \<Rightarrow> prefork \<Rightarrow> prefork" where
  "kid_take i s =
     (let k = kids s ! i in s\<lparr>kids := (kids s)[i := k\<lparr>inbox := tl (inbox k), job := Some (hd (inbox k))\<rparr>]\<rparr>)"

definition kid_done :: "nat \<Rightarrow> prefork \<Rightarrow> prefork" where
  "kid_done i s = (let k = kids s ! i in s\<lparr>kids := (kids s)[i := k\<lparr>job := None, outbox := outbox k + 1\<rparr>]\<rparr>)"

text \<open>\<open>web_child\<close> calls \<open>err_quit\<close>: a message of \<open>m\<close> bytes is written, and then the process exits.\<close>

definition kid_quit :: "nat \<Rightarrow> nat \<Rightarrow> prefork \<Rightarrow> prefork" where
  "kid_quit i m s = (let k = kids s ! i in s\<lparr>kids := (kids s)[i := k\<lparr>outbox := outbox k + m, leaving := True\<rparr>]\<rparr>)"

text \<open>The process ends, after \<open>err_quit\<close> or by a signal.\<close>

definition kid_exit :: "nat \<Rightarrow> prefork \<Rightarrow> prefork" where
  "kid_exit i s = s\<lparr>kids := (kids s)[i := (kids s ! i)\<lparr>alive := False\<rparr>]\<rparr>"

definition readable :: "prefork \<Rightarrow> nat \<Rightarrow> bool" where
  "readable s i \<longleftrightarrow> outbox (kids s ! i) > 0 \<or> \<not> alive (kids s ! i)"

definition well :: "kid \<Rightarrow> bool" where
  "well k \<longleftrightarrow> alive k \<and> \<not> leaving k"

inductive prefork_step :: "prefork \<Rightarrow> prefork \<Rightarrow> bool" where
  turn: "\<forall>i < length (cptr s). ready i \<longrightarrow> readable s i \<Longrightarrow> parent_turn conn ready s = Ret s' \<Longrightarrow> prefork_step s s'"
| take: "i < length (kids s) \<Longrightarrow> well (kids s ! i) \<Longrightarrow> job (kids s ! i) = None \<Longrightarrow> inbox (kids s ! i) \<noteq> [] \<Longrightarrow>
    prefork_step s (kid_take i s)"
| finish: "i < length (kids s) \<Longrightarrow> well (kids s ! i) \<Longrightarrow> job (kids s ! i) \<noteq> None \<Longrightarrow> prefork_step s (kid_done i s)"
| quit: "i < length (kids s) \<Longrightarrow> well (kids s ! i) \<Longrightarrow> job (kids s ! i) \<noteq> None \<Longrightarrow> prefork_step s (kid_quit i m s)"
| exit: "i < length (kids s) \<Longrightarrow> alive (kids s ! i) \<Longrightarrow> prefork_step s (kid_exit i s)"

inductive prefork_reachable :: "nat \<Rightarrow> prefork \<Rightarrow> bool" for n where
  start: "prefork_reachable n (prefork_init n)"
| step: "prefork_reachable n s \<Longrightarrow> prefork_step s s' \<Longrightarrow> prefork_reachable n s'"

section \<open>The invariant\<close>

text \<open>
  What a child has to do or to report; the parent's status of a child that works counts exactly this, and is never
  above 1.
\<close>

definition load :: "kid \<Rightarrow> nat" where
  "load k = length (inbox k) + (if job k = None then 0 else 1) + outbox k"

definition free_count :: "Child list \<Rightarrow> nat" where
  "free_count cs = length (filter (\<lambda>c. child_status c = 0) cs)"

definition child_ok :: "Child \<Rightarrow> kid \<Rightarrow> bool" where
  "child_ok c k \<longleftrightarrow> child_status c \<le> 1 \<and> (well k \<longrightarrow> child_status c = load k)"

definition prefork_inv :: "prefork \<Rightarrow> bool" where
  "prefork_inv s \<longleftrightarrow> list_all2 child_ok (cptr s) (kids s) \<and> navail s = int (free_count (cptr s)) + int (surplus s) \<and>
     (surplus s > 0 \<longrightarrow> (\<exists>k \<in> set (kids s). \<not> well k)) \<and> sum_list (map child_count (cptr s)) = length (handed s)"

lemma free_count_update:
  assumes "i < length cs"
  shows "int (free_count (cs[i := c])) = int (free_count cs) - (if child_status (cs ! i) = 0 then 1 else 0)
    + (if child_status c = 0 then 1 else 0)"
proof -
  have cs: "cs = take i cs @ cs ! i # drop (Suc i) cs" by (rule id_take_nth_drop [OF assms])
  have "free_count cs = free_count (take i cs) + free_count [cs ! i] + free_count (drop (Suc i) cs)"
    using arg_cong [OF cs, of free_count] by (simp add: free_count_def)
  moreover have "free_count (cs[i := c]) = free_count (take i cs) + free_count [c] + free_count (drop (Suc i) cs)"
    by (simp add: upd_conv_take_nth_drop assms free_count_def)
  ultimately show ?thesis by (simp add: free_count_def)
qed

lemma sum_count_update:
  assumes "i < length cs" and "child_count c = child_count (cs ! i) + d"
  shows "sum_list (map child_count (cs[i := c])) = sum_list (map child_count cs) + d"
proof -
  have cs: "cs = take i cs @ cs ! i # drop (Suc i) cs" by (rule id_take_nth_drop [OF assms(1)])
  show ?thesis using arg_cong [OF cs, of "\<lambda>cs. sum_list (map child_count cs)"] assms(2)
    by (simp add: upd_conv_take_nth_drop assms(1))
qed

lemma inv_child: "prefork_inv s \<Longrightarrow> i < length (cptr s) \<Longrightarrow> child_ok (cptr s ! i) (kids s ! i)"
  unfolding prefork_inv_def by (simp add: list_all2_nthD)

lemma inv_len: "prefork_inv s \<Longrightarrow> length (kids s) = length (cptr s)"
  unfolding prefork_inv_def by (metis list_all2_lengthD)

text \<open>Updating both sides of one child.\<close>

lemma prefork_inv_update:
  assumes "prefork_inv s" and "i < length (cptr s)" and "child_ok c k" and "well k \<longrightarrow> well (kids s ! i)"
    and "child_count c = child_count (cptr s ! i) + d"
    and "v = navail s - (if child_status (cptr s ! i) = 0 then 1 else 0) + (if child_status c = 0 then 1 else 0)
      + int u - int (surplus s)"
    and "length h = length (handed s) + d" and "u > surplus s \<longrightarrow> \<not> well k"
  shows "prefork_inv \<lparr>cptr = (cptr s)[i := c], navail = v, kids = (kids s)[i := k], handed = h, surplus = u\<rparr>"
proof -
  have len: "i < length (kids s)" using assms(2) inv_len [OF assms(1)] by simp
  have "list_all2 child_ok ((cptr s)[i := c]) ((kids s)[i := k])"
    using assms(1,3) by (simp add: prefork_inv_def list_all2_update_cong)
  moreover have "\<exists>k' \<in> set ((kids s)[i := k]). \<not> well k'" if u: "u > 0"
  proof (cases "well k")
    case False
    then show ?thesis using set_update_memI [OF len] by blast
  next
    case True
    then have "surplus s > 0" using assms(8) u by (cases "u > surplus s") auto
    then obtain j where j: "j < length (kids s)" "\<not> well (kids s ! j)" using assms(1) by (auto simp: prefork_inv_def in_set_conv_nth)
    then have "j \<noteq> i" using assms(4) True by blast
    then show ?thesis using j by (metis length_list_update nth_list_update_neq nth_mem)
  qed
  ultimately show ?thesis
    using assms(1,6,7) free_count_update [OF assms(2), of c] sum_count_update [OF assms(2,5)]
    by (simp add: prefork_inv_def)
qed

lemma prefork_eta: "s = \<lparr>cptr = cptr s, navail = navail s, kids = kids s, handed = handed s, surplus = surplus s\<rparr>"
  by simp

lemma first_free:
  assumes "free_count cs > 0"
  shows "length (takeWhile (\<lambda>c. child_status c \<noteq> 0) cs) < length cs"
proof -
  let ?P = "\<lambda>c. child_status c \<noteq> 0"
  have "\<exists>c \<in> set cs. \<not> ?P c" using assms by (auto simp: free_count_def filter_empty_conv)
  then have "takeWhile ?P cs \<noteq> cs" by (metis set_takeWhileD)
  then show ?thesis by (metis length_takeWhile_le nat_less_le takeWhile_eq_take take_all_iff)
qed

lemma hand_over_cases:
  obtains (none) "hand_over connfd s = Fatal ''no available children''" and "free_count (cptr s) = 0"
  | (gone) i where "hand_over connfd s = Fatal ''SIGPIPE''" and "i < length (cptr s)" and "child_status (cptr s ! i) = 0"
      and "\<not> alive (kids s ! i)"
  | (handed) i where "i < length (cptr s)" and "child_status (cptr s ! i) = 0" and "alive (kids s ! i)"
      and "hand_over connfd s =
        Ret (s\<lparr>cptr := (cptr s)[i := (cptr s ! i)\<lparr>child_status := 1, child_count := child_count (cptr s ! i) + 1\<rparr>],
          navail := navail s - 1, kids := (kids s)[i := (kids s ! i)\<lparr>inbox := inbox (kids s ! i) @ [connfd]\<rparr>],
          handed := handed s @ [(i, connfd)]\<rparr>)"
proof -
  define i where "i = length (takeWhile (\<lambda>c. child_status c \<noteq> 0) (cptr s))"
  consider "i = length (cptr s)" | "i < length (cptr s)"
    using length_takeWhile_le [of "\<lambda>c. child_status c \<noteq> 0" "cptr s"] by (auto simp: i_def le_less)
  then show ?thesis
  proof cases
    case 1
    then have "hand_over connfd s = Fatal ''no available children''" by (simp add: hand_over_def i_def)
    moreover have "free_count (cptr s) = 0" using first_free [of "cptr s"] 1 by (force simp: i_def)
    ultimately show ?thesis by (rule none)
  next
    case 2
    then have st: "child_status (cptr s ! i) = 0"
      using nth_length_takeWhile [of "\<lambda>c. child_status c \<noteq> 0" "cptr s"] by (simp add: i_def)
    show ?thesis
    proof (cases "alive (kids s ! i)")
      case True
      then show ?thesis using handed [OF 2 st True] 2 by (simp add: hand_over_def Let_def i_def)
    next
      case False
      then show ?thesis using gone [OF _ 2 st False] 2 by (simp add: hand_over_def Let_def i_def)
    qed
  qed
qed

lemma hand_over_inv:
  assumes "prefork_inv s" and "hand_over connfd s = Ret s'"
  shows "prefork_inv s'" and "length (cptr s') = length (cptr s)"
    and "outbox (kids s' ! j) = outbox (kids s ! j)" and "alive (kids s' ! j) = alive (kids s ! j)"
    and "\<exists>i < length (cptr s). child_status (cptr s ! i) = 0 \<and> handed s' = handed s @ [(i, connfd)]"
proof -
  obtain i where i: "i < length (cptr s)" and st: "child_status (cptr s ! i) = 0" and al: "alive (kids s ! i)"
    and s': "s' = s\<lparr>cptr := (cptr s)[i := (cptr s ! i)\<lparr>child_status := 1, child_count := child_count (cptr s ! i) + 1\<rparr>],
          navail := navail s - 1, kids := (kids s)[i := (kids s ! i)\<lparr>inbox := inbox (kids s ! i) @ [connfd]\<rparr>],
          handed := handed s @ [(i, connfd)]\<rparr>"
    by (rule hand_over_cases [of connfd s]) (use assms(2) in auto)
  have "child_ok (cptr s ! i) (kids s ! i)" by (rule inv_child [OF assms(1) i])
  then have ok: "child_ok ((cptr s ! i)\<lparr>child_status := 1, child_count := child_count (cptr s ! i) + 1\<rparr>)
      ((kids s ! i)\<lparr>inbox := inbox (kids s ! i) @ [connfd]\<rparr>)"
    using st by (auto simp: child_ok_def well_def load_def)
  show "prefork_inv s'" unfolding s'
    using prefork_inv_update [OF assms(1) i ok, of 1 "navail s - 1" "surplus s" "handed s @ [(i, connfd)]"] st
    by (subst prefork_eta) (simp add: well_def)
  show "length (cptr s') = length (cptr s)" "outbox (kids s' ! j) = outbox (kids s ! j)" "alive (kids s' ! j) = alive (kids s ! j)"
    using i inv_len [OF assms(1)] by (simp_all add: s' nth_list_update)
  show "\<exists>i < length (cptr s). child_status (cptr s ! i) = 0 \<and> handed s' = handed s @ [(i, connfd)]"
    using i st by (auto simp: s')
qed

lemma read_child_Ret:
  assumes "prefork_inv s" and "i < length (cptr s)" and "read_child i s = Ret s'"
  shows "prefork_inv s' \<and> child_status (cptr s' ! i) = 0 \<and> length (cptr s') = length (cptr s) \<and> handed s' = handed s \<and>
    (\<forall>j. j \<noteq> i \<longrightarrow> cptr s' ! j = cptr s ! j \<and> kids s' ! j = kids s ! j)"
proof -
  let ?k = "kids s ! i" and ?c = "cptr s ! i"
  let ?u = "if child_status ?c = 0 then surplus s + 1 else surplus s"
  have o: "outbox ?k > 0" and s': "s' = s\<lparr>kids := (kids s)[i := ?k\<lparr>outbox := outbox ?k - 1\<rparr>],
      cptr := (cptr s)[i := ?c\<lparr>child_status := 0\<rparr>], navail := navail s + 1, surplus := ?u\<rparr>"
    using assms(3) by (auto simp: read_child_def Let_def split: if_splits)
  note old = inv_child [OF assms(1,2)]
  have one: "child_status ?c = 1 \<and> load ?k = 1" if "well ?k" using old that o by (auto simp: child_ok_def load_def)
  have ok: "child_ok (?c\<lparr>child_status := 0\<rparr>) (?k\<lparr>outbox := outbox ?k - 1\<rparr>)"
    using one o by (auto simp: child_ok_def well_def load_def split: if_splits)
  have w: "well (?k\<lparr>outbox := outbox ?k - 1\<rparr>) = well ?k" by (simp add: well_def)
  have v: "navail s + 1 = navail s - (if child_status ?c = 0 then 1 else 0) +
      (if child_status (?c\<lparr>child_status := 0\<rparr>) = 0 then 1 else 0) + int ?u - int (surplus s)" by simp
  have u: "?u > surplus s \<longrightarrow> \<not> well (?k\<lparr>outbox := outbox ?k - 1\<rparr>)" using one w by auto
  have "s' = \<lparr>cptr = (cptr s)[i := ?c\<lparr>child_status := 0\<rparr>], navail = navail s + 1,
      kids = (kids s)[i := ?k\<lparr>outbox := outbox ?k - 1\<rparr>], handed = handed s, surplus = ?u\<rparr>" by (simp add: s')
  moreover have "prefork_inv \<dots>"
    by (rule prefork_inv_update [OF assms(1,2) ok _ _ v _ u, of 0]) (simp_all add: w [simplified])
  ultimately have "prefork_inv s'" by simp
  then show ?thesis using assms(2) by (simp add: s')
qed

text \<open>The loop with its early exit reads exactly the ready children, in order.\<close>

fun read_all :: "nat list \<Rightarrow> prefork \<Rightarrow> prefork run" where
  "read_all [] s = Ret s"
| "read_all (i # is) s = run_bind (read_child i s) (read_all is)"

lemma collect_none: "filter ready is = [] \<Longrightarrow> collect ready nsel is s = Ret s"
  by (induction "is") (simp_all split: if_splits)

lemma collect_read_all: "collect ready (int (length (filter ready is))) is s = read_all (filter ready is) s"
proof (induction "is" arbitrary: s)
  case (Cons i "is")
  show ?case
  proof (cases "ready i")
    case True
    have "(if int (length (filter ready is)) = 0 then Ret s1 else collect ready (int (length (filter ready is))) is s1) =
        read_all (filter ready is) s1" for s1
      using Cons.IH [of s1] by (cases "filter ready is") simp_all
    then have "run_bind (read_child i s) (\<lambda>s1. if int (length (filter ready is)) = 0 then Ret s1
        else collect ready (int (length (filter ready is))) is s1) = run_bind (read_child i s) (read_all (filter ready is))"
      by presburger
    moreover have "int (length (filter ready (i # is))) - 1 = int (length (filter ready is))" using True by simp
    ultimately show ?thesis using True by (simp only: collect.simps if_True filter.simps read_all.simps)
  next
    case False
    then show ?thesis using Cons.IH [of s] by simp
  qed
qed simp

lemma read_all_Ret:
  "prefork_inv s \<Longrightarrow> \<forall>i \<in> set is. i < length (cptr s) \<Longrightarrow> distinct is \<Longrightarrow> read_all is s = Ret s' \<Longrightarrow>
   prefork_inv s' \<and> length (cptr s') = length (cptr s) \<and> handed s' = handed s \<and>
   (\<forall>i. if i \<in> set is then child_status (cptr s' ! i) = 0 else cptr s' ! i = cptr s ! i \<and> kids s' ! i = kids s ! i)"
proof (induction "is" arbitrary: s)
  case (Cons i "is")
  obtain s1 where s1: "read_child i s = Ret s1" "read_all is s1 = Ret s'"
    using Cons.prems(4) by (auto simp: run_bind_Ret_conv)
  have i: "i < length (cptr s)" using Cons.prems(2) by simp
  note r = read_child_Ret [OF Cons.prems(1) i s1(1)]
  have "prefork_inv s' \<and> length (cptr s') = length (cptr s1) \<and> handed s' = handed s1 \<and>
      (\<forall>i. if i \<in> set is then child_status (cptr s' ! i) = 0 else cptr s' ! i = cptr s1 ! i \<and> kids s' ! i = kids s1 ! i)"
    using Cons.IH [OF _ _ _ s1(2)] r Cons.prems(2,3) by simp
  then show ?case using r Cons.prems(3) by (auto split: if_splits)
qed simp

lemma read_all_ok:
  "\<forall>i \<in> set is. outbox (kids s ! i) > 0 \<Longrightarrow> distinct is \<Longrightarrow> \<exists>s'. read_all is s = Ret s'"
proof (induction "is" arbitrary: s)
  case (Cons i "is")
  obtain s1 where s1: "read_child i s = Ret s1" and k: "\<forall>j. j \<noteq> i \<longrightarrow> kids s1 ! j = kids s ! j"
    using Cons.prems(1) by (simp add: read_child_def Let_def)
  have "\<forall>j \<in> set is. outbox (kids s1 ! j) > 0" using Cons.prems k by auto
  from Cons.IH [OF this] Cons.prems(2) show ?case using s1 by simp
qed simp

lemma kid_step_inv:
  assumes "prefork_inv s" and "i < length (kids s)" and "well k \<longrightarrow> well (kids s ! i) \<and> load k = load (kids s ! i)"
  shows "prefork_inv (s\<lparr>kids := (kids s)[i := k]\<rparr>)"
proof -
  have i: "i < length (cptr s)" using assms(2) inv_len [OF assms(1)] by simp
  have "child_ok (cptr s ! i) k" using inv_child [OF assms(1) i] assms(3) by (auto simp: child_ok_def)
  from prefork_inv_update [OF assms(1) i this, of 0 "navail s" "surplus s" "handed s"] assms(3)
  show ?thesis by (subst prefork_eta) simp
qed

definition turn_children :: "(nat \<Rightarrow> bool) \<Rightarrow> prefork \<Rightarrow> nat list" where
  "turn_children ready s = filter ready [0 ..< length (cptr s)]"

text \<open>A turn is: hand over the connection, if it was accepted, and then read from all ready children.\<close>

lemma parent_turn_eq:
  "parent_turn conn ready s =
    (if navail s > 0 \<and> conn \<noteq> None then run_bind (hand_over (the conn) s) (read_all (turn_children ready s))
     else if turn_children ready s = [] then Blocked else read_all (turn_children ready s) s)"
proof (cases "navail s > 0 \<and> conn \<noteq> None")
  case True
  let ?all = "[0 ..< length (cptr s)]"
  have one: "1 + int m - 1 = int m" for m by simp
  have c: "(if int (length (filter ready ?all)) = 0 then Ret s1 else collect ready (int (length (filter ready ?all))) ?all s1) =
      read_all (filter ready ?all) s1" for s1
    using collect_read_all [of ready ?all s1] by (cases "filter ready ?all") simp_all
  have "parent_turn conn ready s = run_bind (hand_over (the conn) s) (\<lambda>s1. if int (length (filter ready ?all)) = 0 then Ret s1
      else collect ready (int (length (filter ready ?all))) ?all s1)"
    using True unfolding parent_turn_def Let_def by (simp add: one cong del: if_weak_cong)
  then show ?thesis using True unfolding c turn_children_def by simp
next
  case False
  then show ?thesis using collect_read_all [of ready "[0 ..< length (cptr s)]" s]
    unfolding parent_turn_def Let_def turn_children_def by (auto simp: filter_empty_conv)
qed

lemma turn_children_ok: "distinct (turn_children ready s)" "i \<in> set (turn_children ready s) \<longleftrightarrow> i < length (cptr s) \<and> ready i"
  by (auto simp: turn_children_def)

lemma turn_inv:
  assumes "prefork_inv s" and "parent_turn conn ready s = Ret s'"
  shows "prefork_inv s'"
proof (cases "navail s > 0 \<and> conn \<noteq> None")
  case True
  then obtain s1 where s1: "hand_over (the conn) s = Ret s1" and r: "read_all (turn_children ready s) s1 = Ret s'"
    using assms(2) by (auto simp: parent_turn_eq run_bind_Ret_conv)
  note h = hand_over_inv(1,2) [OF assms(1) s1]
  show ?thesis using read_all_Ret [OF h(1) _ turn_children_ok(1) r] by (simp add: turn_children_ok(2) h(2))
next
  case False
  then have r: "read_all (turn_children ready s) s = Ret s'" using assms(2) by (auto simp: parent_turn_eq split: if_splits)
  show ?thesis using read_all_Ret [OF assms(1) _ turn_children_ok(1) r] by (simp add: turn_children_ok(2))
qed

lemma prefork_init_inv: "prefork_inv (prefork_init n)"
proof -
  have "list_all2 child_ok (cptr (prefork_init n)) (kids (prefork_init n))"
    by (simp add: list_all2_conv_all_nth prefork_init_def child_ok_def load_def)
  then show ?thesis by (simp add: prefork_inv_def) (simp add: prefork_init_def free_count_def sum_list_replicate)
qed

lemma prefork_reachable_inv: "prefork_reachable n s \<Longrightarrow> prefork_inv s"
proof (induction rule: prefork_reachable.induct)
  case start
  show ?case by (rule prefork_init_inv)
next
  case (step s s')
  from step(2) show ?case
  proof (cases rule: prefork_step.cases)
    case (turn ready conn)
    then show ?thesis using turn_inv step.IH by blast
  next
    case (take i)
    show ?thesis unfolding take(1) kid_take_def Let_def
      by (rule kid_step_inv [OF step.IH take(2)]) (use take(3-5) in \<open>cases "inbox (kids s ! i)"; simp add: load_def\<close>)
  next
    case (finish i)
    show ?thesis unfolding finish(1) kid_done_def Let_def
      by (rule kid_step_inv [OF step.IH finish(2)]) (use finish(3,4) in \<open>auto simp: load_def\<close>)
  next
    case (quit i m)
    show ?thesis unfolding quit(1) kid_quit_def Let_def
      by (rule kid_step_inv [OF step.IH quit(2)]) (simp add: well_def)
  next
    case (exit i)
    show ?thesis unfolding exit(1) kid_exit_def
      by (rule kid_step_inv [OF step.IH exit(2)]) (simp add: well_def)
  qed
qed

text \<open>While every child works, the count of the parent is right, and its turn does all that is reported.\<close>

lemma all_well_count:
  assumes "prefork_inv s" and "\<forall>k \<in> set (kids s). well k"
  shows "surplus s = 0" and "navail s = int (free_count (cptr s))"
  using assms by (auto simp: prefork_inv_def)

lemma all_well_hand_over:
  assumes "prefork_inv s" and "\<forall>k \<in> set (kids s). well k" and "navail s > 0"
  shows "\<exists>s'. hand_over connfd s = Ret s'"
proof (rule hand_over_cases [of connfd s])
  assume "free_count (cptr s) = 0"
  then show ?thesis using all_well_count [OF assms(1,2)] assms(3) by simp
next
  fix i assume "i < length (cptr s)" and "\<not> alive (kids s ! i)"
  moreover from this(1) have "kids s ! i \<in> set (kids s)" using inv_len [OF assms(1)] by simp
  ultimately show ?thesis using assms(2) by (auto simp: well_def)
qed blast

lemma turn_serves:
  assumes "prefork_inv s" and "\<forall>k \<in> set (kids s). well k" and "\<forall>i < length (cptr s). ready i \<longrightarrow> outbox (kids s ! i) > 0"
    and "navail s > 0 \<and> conn = Some c \<or> (\<exists>i < length (cptr s). ready i)"
  obtains s' where "parent_turn conn ready s = Ret s'"
    and "\<forall>i < length (cptr s). ready i \<longrightarrow> child_status (cptr s' ! i) = 0"
    and "if navail s > 0 \<and> conn \<noteq> None
      then \<exists>i < length (cptr s). child_status (cptr s ! i) = 0 \<and> handed s' = handed s @ [(i, the conn)]
      else handed s' = handed s"
proof -
  let ?is = "turn_children ready s"
  have o: "\<forall>i \<in> set ?is. outbox (kids s ! i) > 0" using assms(3) by (simp add: turn_children_ok(2))
  show ?thesis
  proof (cases "navail s > 0 \<and> conn \<noteq> None")
    case True
    then obtain s1 where s1: "hand_over (the conn) s = Ret s1" using all_well_hand_over [OF assms(1,2)] by blast
    note h = hand_over_inv [OF assms(1) s1]
    obtain s' where s': "read_all ?is s1 = Ret s'" using read_all_ok [OF _ turn_children_ok(1)] o h(3) by metis
    have b: "\<forall>i \<in> set ?is. i < length (cptr s1)" by (simp add: turn_children_ok(2) h(2))
    note r = read_all_Ret [OF h(1) b turn_children_ok(1) s']
    have "parent_turn conn ready s = Ret s'" using True s1 s' by (simp add: parent_turn_eq)
    moreover have "\<forall>i < length (cptr s). ready i \<longrightarrow> child_status (cptr s' ! i) = 0" using r by (metis turn_children_ok(2))
    ultimately show ?thesis using that [of s'] r h(5) True by simp
  next
    case False
    obtain s' where s': "read_all ?is s = Ret s'" using read_all_ok [OF o turn_children_ok(1)] by blast
    have b: "\<forall>i \<in> set ?is. i < length (cptr s)" by (simp add: turn_children_ok(2))
    note r = read_all_Ret [OF assms(1) b turn_children_ok(1) s']
    have "?is \<noteq> []" using assms(4) False by (metis empty_iff empty_set option.distinct(1) turn_children_ok(2))
    then have "parent_turn conn ready s = Ret s'" using False s' by (auto simp: parent_turn_eq)
    moreover have "\<forall>i < length (cptr s). ready i \<longrightarrow> child_status (cptr s' ! i) = 0" using r by (metis turn_children_ok(2))
    moreover have "if navail s > 0 \<and> conn \<noteq> None
      then \<exists>i < length (cptr s). child_status (cptr s ! i) = 0 \<and> handed s' = handed s @ [(i, the conn)]
      else handed s' = handed s" using r False by simp
    ultimately show ?thesis by (rule that)
  qed
qed

lemma read_all_Fatal:
  "read_all is s = Fatal m \<Longrightarrow> distinct is \<Longrightarrow>
   m = ''child terminated unexpectedly'' \<and> (\<exists>i \<in> set is. outbox (kids s ! i) = 0 \<and> \<not> alive (kids s ! i))"
proof (induction "is" arbitrary: s)
  case (Cons i "is")
  show ?case
  proof (cases "read_child i s")
    case (Ret s1)
    have k: "kids s1 ! j = kids s ! j" if "j \<in> set is" for j
      using Ret that Cons.prems(2) by (cases "j = i") (auto simp: read_child_def Let_def split: if_splits)
    have "m = ''child terminated unexpectedly'' \<and> (\<exists>i \<in> set is. outbox (kids s1 ! i) = 0 \<and> \<not> alive (kids s1 ! i))"
      using Cons.IH [of s1] Cons.prems Ret by simp
    then show ?thesis using k by auto
  qed (use Cons.prems in \<open>auto simp: read_child_def Let_def split: if_splits\<close>)
qed simp

text \<open>
  The three ways in which the parent ends: its count was too high, it passes a descriptor to a child that has gone, or it reads
  from the pipe of a child that has gone and left no byte in it.
\<close>

lemma turn_Fatal:
  assumes "prefork_inv s" and "parent_turn conn ready s = Fatal m"
  shows "(m = ''no available children'' \<and> free_count (cptr s) = 0 \<and> surplus s > 0) \<or>
    (m = ''SIGPIPE'' \<and> (\<exists>i < length (cptr s). child_status (cptr s ! i) = 0 \<and> \<not> alive (kids s ! i))) \<or>
    (m = ''child terminated unexpectedly'' \<and> (\<exists>i < length (cptr s). ready i \<and> outbox (kids s ! i) = 0 \<and> \<not> alive (kids s ! i)))"
proof (cases "navail s > 0 \<and> conn \<noteq> None")
  case True
  then have t: "run_bind (hand_over (the conn) s) (read_all (turn_children ready s)) = Fatal m"
    using assms(2) by (simp add: parent_turn_eq)
  show ?thesis
  proof (rule hand_over_cases [of "the conn" s])
    assume "hand_over (the conn) s = Fatal ''no available children''" and "free_count (cptr s) = 0"
    then show ?thesis using t True assms(1) by (simp add: prefork_inv_def)
  next
    fix i assume "hand_over (the conn) s = Fatal ''SIGPIPE''" and "i < length (cptr s)" and "child_status (cptr s ! i) = 0"
      and "\<not> alive (kids s ! i)"
    then show ?thesis using t by auto
  next
    fix i assume "hand_over (the conn) s = Ret (s\<lparr>cptr := (cptr s)[i := (cptr s ! i)\<lparr>child_status := 1,
          child_count := child_count (cptr s ! i) + 1\<rparr>], navail := navail s - 1,
          kids := (kids s)[i := (kids s ! i)\<lparr>inbox := inbox (kids s ! i) @ [the conn]\<rparr>], handed := handed s @ [(i, the conn)]\<rparr>)"
    then obtain s1 where s1: "hand_over (the conn) s = Ret s1" by blast
    then have f: "read_all (turn_children ready s) s1 = Fatal m" using t by simp
    show ?thesis using read_all_Fatal [OF f turn_children_ok(1)] hand_over_inv(3,4) [OF assms(1) s1]
      by (auto simp: turn_children_ok(2))
  qed
next
  case False
  then have f: "read_all (turn_children ready s) s = Fatal m" using assms(2) by (auto simp: parent_turn_eq split: if_splits)
  show ?thesis using read_all_Fatal [OF f turn_children_ok(1)] by (auto simp: turn_children_ok(2))
qed

lemma turn_Fatal_unwell:
  assumes "prefork_inv s" and "parent_turn conn ready s = Fatal m"
  shows "\<exists>k \<in> set (kids s). \<not> well k"
proof -
  have "\<exists>k \<in> set (kids s). \<not> well k" if "i < length (cptr s)" "\<not> alive (kids s ! i)" for i
  proof -
    have "kids s ! i \<in> set (kids s)" using that(1) inv_len [OF assms(1)] by simp
    then show ?thesis using that(2) by (auto simp: well_def)
  qed
  moreover have "surplus s > 0 \<Longrightarrow> \<exists>k \<in> set (kids s). \<not> well k" using assms(1) by (simp add: prefork_inv_def)
  ultimately show ?thesis using turn_Fatal [OF assms] by (elim disjE conjE exE) simp_all
qed

section \<open>A request that is refused\<close>

text \<open>
  One child, which refuses the request for 0 bytes on the connection 9: the 27 bytes of its message
  (\<open>client request for 0 bytes\<close> and the end of line) are read one by one, each of them raising the count.
\<close>

definition refusing :: "nat \<Rightarrow> int \<Rightarrow> int list \<Rightarrow> nat \<Rightarrow> nat \<Rightarrow> (nat \<times> int) list \<Rightarrow> nat \<Rightarrow> prefork" where
  "refusing st v ib ct ob h u = \<lparr>cptr = [\<lparr>child_status = st, child_count = ct\<rparr>], navail = v,
     kids = [\<lparr>inbox = ib, job = Some 9, outbox = ob, alive = True, leaving = True\<rparr>], handed = h, surplus = u\<rparr>"

lemma refusing_read:
  assumes "prefork_reachable 1 (refusing st v ib ct (Suc ob) h u)"
  shows "prefork_reachable 1 (refusing 0 (v + 1) ib ct ob h (if st = 0 then u + 1 else u))"
proof -
  have t: "parent_turn None (readable (refusing st v ib ct (Suc ob) h u)) (refusing st v ib ct (Suc ob) h u) =
      Ret (refusing 0 (v + 1) ib ct ob h (if st = 0 then u + 1 else u))"
    by (simp add: parent_turn_eq turn_children_def refusing_def readable_def read_child_def)
  show ?thesis by (rule prefork_reachable.step [OF assms prefork_step.turn [OF _ t]]) blast
qed

lemma refusing_reads:
  "prefork_reachable 1 (refusing 0 v ib ct ob h u) \<Longrightarrow> prefork_reachable 1 (refusing 0 (v + int ob) ib ct 0 h (u + ob))"
proof (induction ob arbitrary: v u)
  case (Suc ob)
  from Suc.IH [OF refusing_read [OF Suc.prems, unfolded if_P [OF refl]]] show ?case by (simp add: algebra_simps)
qed simp

lemma refusing_reachable: "prefork_reachable 1 (refusing 1 0 [] 1 27 [(0, 9)] 0)"
proof -
  let ?s1 = "\<lparr>cptr = [\<lparr>child_status = 1, child_count = 1\<rparr>], navail = 0,
     kids = [\<lparr>inbox = [9], job = None, outbox = 0, alive = True, leaving = False\<rparr>], handed = [(0, 9)], surplus = 0\<rparr>"
  have t: "parent_turn (Some 9) (\<lambda>i. False) (prefork_init 1) = Ret ?s1"
    by (simp add: parent_turn_eq turn_children_def prefork_init_def hand_over_def)
  have "prefork_reachable 1 ?s1"
    by (rule prefork_reachable.step [OF prefork_reachable.start prefork_step.turn [OF _ t]]) simp
  then have "prefork_reachable 1 (kid_take 0 ?s1)"
    by (rule prefork_reachable.step [OF _ prefork_step.take]) (simp_all add: well_def)
  then have "prefork_reachable 1 (kid_quit 0 27 (kid_take 0 ?s1))"
    by (rule prefork_reachable.step [OF _ prefork_step.quit]) (simp_all add: well_def kid_take_def)
  then show ?thesis by (simp add: kid_quit_def kid_take_def refusing_def)
qed

lemma refusing_fatal:
  "\<exists>s. prefork_reachable 1 s \<and> navail s = 26 \<and> free_count (cptr s) = 0 \<and>
     parent_turn (Some 11) (readable s) s = Fatal ''no available children''"
proof -
  have "prefork_reachable 1 (refusing 0 1 [] 1 26 [(0, 9)] 0)"
    using refusing_read [of 1 0 "[]" 1 26] refusing_reachable by simp
  from refusing_reads [OF this] have r: "prefork_reachable 1 (refusing 0 27 [] 1 0 [(0, 9)] 26)" by simp
  have t: "parent_turn (Some 10) (\<lambda>i. False) (refusing 0 27 [] 1 0 [(0, 9)] 26) = Ret (refusing 1 26 [10] 2 0 [(0, 9), (0, 10)] 26)"
    by (simp add: parent_turn_eq turn_children_def refusing_def hand_over_def)
  have "prefork_reachable 1 (refusing 1 26 [10] 2 0 [(0, 9), (0, 10)] 26)"
    by (rule prefork_reachable.step [OF r prefork_step.turn [OF _ t]]) simp
  moreover have "parent_turn (Some 11) (readable (refusing 1 26 [10] 2 0 [(0, 9), (0, 10)] 26)) (refusing 1 26 [10] 2 0 [(0, 9), (0, 10)] 26) =
      Fatal ''no available children''"
    by (simp add: parent_turn_eq refusing_def hand_over_def)
  ultimately show ?thesis by (intro exI [of _ "refusing 1 26 [10] 2 0 [(0, 9), (0, 10)] 26"]) (simp add: refusing_def free_count_def)
qed

section \<open>Properties\<close>

text \<open>
  C24: in every reachable state of the parent and its children, whatever the order of their steps: the count of available
  children is the number of children marked free plus the number of bytes that came from children marked free; a child that is not
  on its way out has at most one thing to do or to report (a descriptor in its pipe, a connection in service, or an
  unread byte), and has it exactly when its status says busy; the counts of the children add up to the number of connections handed
  over.  While all children work the count is exactly the number of free children and no turn ends the parent.
  But a child that refuses a request writes its message into the pipe, each byte of which raises the count: with a single child the parent
  comes to believe in 26 free children when there is none, and ends with \<open>no available children\<close> on the next connection.
\<close>
theorem prefork_state:
  assumes "prefork_reachable n s"
  shows "(navail s = int (free_count (cptr s)) + int (surplus s) \<and>
      (\<forall>i < length (cptr s). well (kids s ! i) \<longrightarrow> child_status (cptr s ! i) = load (kids s ! i) \<and> load (kids s ! i) \<le> 1) \<and>
      sum_list (map child_count (cptr s)) = length (handed s)) \<and>
    ((\<forall>k \<in> set (kids s). well k) \<longrightarrow>
      navail s = int (free_count (cptr s)) \<and> (\<forall>conn ready m. parent_turn conn ready s \<noteq> Fatal m)) \<and>
    (\<exists>s1. prefork_reachable 1 s1 \<and> navail s1 = 26 \<and> free_count (cptr s1) = 0 \<and>
      parent_turn (Some 11) (readable s1) s1 = Fatal ''no available children'')"
proof -
  have inv: "prefork_inv s" by (rule prefork_reachable_inv [OF assms])
  have "child_status (cptr s ! j) = load (kids s ! j) \<and> load (kids s ! j) \<le> 1"
    if "j < length (cptr s)" "well (kids s ! j)" for j
    using inv_child [OF inv that(1)] that(2) by (simp add: child_ok_def)
  moreover have "navail s = int (free_count (cptr s)) \<and> (\<forall>conn ready m. parent_turn conn ready s \<noteq> Fatal m)"
    if "\<forall>k \<in> set (kids s). well k"
    using all_well_count [OF inv that] turn_Fatal_unwell [OF inv] that by blast
  ultimately show ?thesis using inv refusing_fatal by (simp add: prefork_inv_def)
qed

theorem prefork_state_witness:
  "navail (refusing 1 0 [] 1 27 [(0, 9)] 0) = int (free_count (cptr (refusing 1 0 [] 1 27 [(0, 9)] 0)))
     + int (surplus (refusing 1 0 [] 1 27 [(0, 9)] 0)) \<and>
   (\<forall>conn ready m. parent_turn conn ready (prefork_init 3) \<noteq> Fatal m)"
proof -
  have "\<forall>k \<in> set (kids (prefork_init 3)). well k" by (simp add: prefork_init_def well_def)
  then show ?thesis
    using prefork_state [OF refusing_reachable] prefork_state [OF prefork_reachable.start [of 3]] by blast
qed

text \<open>
  A turn of the parent does all that \<open>select\<close> has reported, although its loop stops at its count, while all children work: a
  connection accepted goes to a child that was idle, and every child that has reported is available
  afterwards; the connection is left in the queue of the socket while no child is available.
\<close>
lemma prefork_turn:
  assumes "prefork_reachable n s" and "\<forall>k \<in> set (kids s). well k"
    and "\<forall>i < length (cptr s). ready i \<longrightarrow> outbox (kids s ! i) > 0"
    and "navail s > 0 \<and> conn = Some c \<or> (\<exists>i < length (cptr s). ready i)"
  shows "\<exists>s'. parent_turn conn ready s = Ret s' \<and>
    (\<forall>i < length (cptr s). ready i \<longrightarrow> child_status (cptr s' ! i) = 0) \<and>
    (if navail s > 0 \<and> conn \<noteq> None
     then \<exists>i < length (cptr s). child_status (cptr s ! i) = 0 \<and> handed s' = handed s @ [(i, the conn)]
     else handed s' = handed s)"
  using turn_serves [OF prefork_reachable_inv [OF assms(1)] assms(2-4)] by blast

lemma prefork_turn_witness:
  "\<exists>s'. parent_turn (Some 9) (\<lambda>i. False) (prefork_init 2) = Ret s' \<and> (\<exists>i < 2. handed s' = [(i, 9)])"
  using prefork_turn [OF prefork_reachable.start [of 2], of "\<lambda>i. False" "Some 9" 9] by (auto simp: prefork_init_def well_def)

end
