(* ===== verification/Sock_Open.thy ===== *)
theory Sock_Open
  imports Getaddrinfo Kernel
begin

text \<open>
  The functions of \<open>lib/\<close> that open a socket for a host and a service: \<open>host_serv.c\<close>, \<open>tcp_connect.c\<close>,
  \<open>tcp_listen.c\<close>, \<open>udp_client.c\<close>, \<open>udp_connect.c\<close>, \<open>udp_server.c\<close>, on top of \<open>getaddrinfo\<close>; and the two
  ways to limit the time of a connect, \<open>connect_nonb.c\<close> and \<open>connect_timeo.c\<close>.
\<close>

section \<open>Trying the addresses\<close>

text \<open>
  What the kernel answers: whether \<open>socket\<close> succeeds for an entry, and \<open>connect\<close> or \<open>bind\<close> to its
  address.  \<open>opened\<close> descriptors are a list; a new one is the lowest that is free.
\<close>

record sock_env =
  socket_ok :: "addrinfo \<Rightarrow> bool"
  connect_ok :: "addrinfo \<Rightarrow> bool"
  bind_ok :: "addrinfo \<Rightarrow> bool"
  listen_ok :: bool

fun try_addrs ::
  "(addrinfo \<Rightarrow> bool) \<Rightarrow> (addrinfo \<Rightarrow> bool) \<Rightarrow> addrinfo list \<Rightarrow> int list \<Rightarrow> (int \<times> addrinfo) option \<times> int list" where
  "try_addrs sock act [] fds = (None, fds)"
| "try_addrs sock act (ai # ais) fds =
     (if \<not> sock ai then try_addrs sock act ais fds
      else let sockfd = lowest_free fds; fds1 = sockfd # fds
        in if act ai then (Some (sockfd, ai), fds1)
           else try_addrs sock act ais (removeAll sockfd fds1))"

definition open_hints :: "u32 \<Rightarrow> int \<Rightarrow> addrinfo" where
  "open_hints flags socktype = no_hints\<lparr>ai_flags := flags, ai_family := AF_UNSPEC, ai_socktype := socktype\<rparr>"

text \<open>The steps the five functions share, up to \<open>freeaddrinfo\<close>; \<open>who\<close> is the name in the messages.\<close>

definition open_first ::
  "string \<Rightarrow> resolver \<Rightarrow> string option \<Rightarrow> string option \<Rightarrow> addrinfo \<Rightarrow> (addrinfo \<Rightarrow> bool) \<Rightarrow> (addrinfo \<Rightarrow> bool) \<Rightarrow>
     int list \<Rightarrow> gai \<Rightarrow> (int \<times> addrinfo \<times> addrinfo list \<times> int list \<times> gai) run" where
  "open_first who r host serv hints sock act fds g =
     run_bind (getaddrinfo r host serv (Some hints) g) (\<lambda>(res, g1).
       case res of
         Inl e \<Rightarrow> Fatal (who @ '' error'')
       | Inr ais \<Rightarrow>
           (case try_addrs sock act ais fds of
              (None, _) \<Rightarrow> Fatal (who @ '' error'')
            | (Some (sockfd, ai), fds1) \<Rightarrow> Ret (sockfd, ai, ais, fds1, g1)))"

definition tcp_connect ::
  "sock_env \<Rightarrow> resolver \<Rightarrow> string option \<Rightarrow> string option \<Rightarrow> int list \<Rightarrow> gai \<Rightarrow> (int \<times> int list \<times> gai) run" where
  "tcp_connect env r host serv fds g =
     run_bind (open_first ''tcp_connect'' r host serv (open_hints 0 SOCK_STREAM) (socket_ok env) (connect_ok env) fds g)
       (\<lambda>(sockfd, ai, ais, fds1, g1). Ret (sockfd, fds1, freeaddrinfo ais g1))"

text \<open>The third result is the length stored through \<open>addrlenp\<close>.\<close>

definition tcp_listen ::
  "sock_env \<Rightarrow> resolver \<Rightarrow> string option \<Rightarrow> string option \<Rightarrow> int list \<Rightarrow> gai \<Rightarrow> (int \<times> int list \<times> nat \<times> gai) run" where
  "tcp_listen env r host serv fds g =
     run_bind (open_first ''tcp_listen'' r host serv (open_hints AI_PASSIVE SOCK_STREAM) (socket_ok env) (bind_ok env) fds g)
       (\<lambda>(listenfd, ai, ais, fds1, g1).
         if listen_ok env then Ret (listenfd, fds1, ai_addrlen ai, freeaddrinfo ais g1) else Fatal ''listen error'')"

text \<open>The address is copied into a block of its own, which the caller owns.\<close>

definition udp_client ::
  "sock_env \<Rightarrow> resolver \<Rightarrow> string option \<Rightarrow> string option \<Rightarrow> int list \<Rightarrow> gai \<Rightarrow>
     (int \<times> int list \<times> sockaddr option \<times> nat \<times> gai) run" where
  "udp_client env r host serv fds g =
     run_bind (open_first ''udp_client'' r host serv (open_hints 0 SOCK_DGRAM) (socket_ok env) (\<lambda>ai. True) fds g)
       (\<lambda>(sockfd, ai, ais, fds1, g1).
         let (ok, g2) = calloc g1
         in if ok then Ret (sockfd, fds1, ai_addr ai, ai_addrlen ai, freeaddrinfo ais g2) else Fatal ''malloc error'')"

definition udp_connect ::
  "sock_env \<Rightarrow> resolver \<Rightarrow> string option \<Rightarrow> string option \<Rightarrow> int list \<Rightarrow> gai \<Rightarrow> (int \<times> int list \<times> gai) run" where
  "udp_connect env r host serv fds g =
     run_bind (open_first ''udp_connect'' r host serv (open_hints 0 SOCK_DGRAM) (socket_ok env) (connect_ok env) fds g)
       (\<lambda>(sockfd, ai, ais, fds1, g1). Ret (sockfd, fds1, freeaddrinfo ais g1))"

definition udp_server ::
  "sock_env \<Rightarrow> resolver \<Rightarrow> string option \<Rightarrow> string option \<Rightarrow> int list \<Rightarrow> gai \<Rightarrow> (int \<times> int list \<times> nat \<times> gai) run" where
  "udp_server env r host serv fds g =
     run_bind (open_first ''udp_server'' r host serv (open_hints AI_PASSIVE SOCK_DGRAM) (socket_ok env) (bind_ok env) fds g)
       (\<lambda>(sockfd, ai, ais, fds1, g1). Ret (sockfd, fds1, ai_addrlen ai, freeaddrinfo ais g1))"

definition host_serv ::
  "resolver \<Rightarrow> string option \<Rightarrow> string option \<Rightarrow> int \<Rightarrow> int \<Rightarrow> gai \<Rightarrow> (addrinfo list option \<times> gai) run" where
  "host_serv r host serv family socktype g =
     run_bind (getaddrinfo r host serv (Some ((open_hints AI_CANONNAME socktype)\<lparr>ai_family := family\<rparr>)) g)
       (\<lambda>(res, g1). Ret (case res of Inl e \<Rightarrow> None | Inr ais \<Rightarrow> Some ais, g1))"

definition Host_serv ::
  "resolver \<Rightarrow> string option \<Rightarrow> string option \<Rightarrow> int \<Rightarrow> int \<Rightarrow> gai \<Rightarrow> (addrinfo list \<times> gai) run" where
  "Host_serv r host serv family socktype g =
     run_bind (getaddrinfo r host serv (Some ((open_hints AI_CANONNAME socktype)\<lparr>ai_family := family\<rparr>)) g)
       (\<lambda>(res, g1). case res of Inl e \<Rightarrow> Fatal ''host_serv error'' | Inr ais \<Rightarrow> Ret (ais, g1))"

section \<open>Connecting with a time limit\<close>

text \<open>
  What \<open>connect\<close> answers, what \<open>select\<close> reports (whether the descriptor is readable and writable, and what
  \<open>getsockopt\<close> then says: it fails, or gives the pending error), or that its time runs out.
\<close>

datatype connect_answer = Connected | ConnectError errno
datatype select_answer = SelectTimeout | SelectFails | SelectReports bool bool "errno option option"

text \<open>The return value with \<open>errno\<close>, the file status flags, and whether the descriptor is open.\<close>

record connected =
  retval :: int
  err :: "errno option"
  fl_flags :: u32
  fd_open :: bool

definition O_NONBLOCK :: u32 where "O_NONBLOCK = 0x800"

definition connect_nonb :: "u32 \<Rightarrow> connect_answer \<Rightarrow> select_answer \<Rightarrow> int \<Rightarrow> connected run" where
  "connect_nonb flags ca sa nsec =
     (let nb = flags OR O_NONBLOCK;
          finish = (\<lambda>error.
            case error of
              None \<Rightarrow> Ret \<lparr>retval = 0, err = None, fl_flags = flags, fd_open = True\<rparr>
            | Some e \<Rightarrow> Ret \<lparr>retval = -1, err = Some e, fl_flags = flags, fd_open = False\<rparr>)
      in case ca of
           Connected \<Rightarrow> finish None
         | ConnectError e \<Rightarrow>
             if e \<noteq> EINPROGRESS then Ret \<lparr>retval = -1, err = Some e, fl_flags = nb, fd_open = True\<rparr>
             else (case sa of
                 SelectFails \<Rightarrow> Fatal ''select error''
               | SelectTimeout \<Rightarrow>
                   if nsec = 0 then Blocked
                   else Ret \<lparr>retval = -1, err = Some ETIMEDOUT, fl_flags = nb, fd_open = False\<rparr>
               | SelectReports rd wr opt \<Rightarrow>
                   if \<not> rd \<and> \<not> wr then Fatal ''select error: sockfd not set''
                   else (case opt of
                       None \<Rightarrow> Ret \<lparr>retval = -1, err = None, fl_flags = nb, fd_open = True\<rparr>
                     | Some error \<Rightarrow> finish error)))"

text \<open>\<open>None\<close> stands for the alarm, which interrupts the connect.\<close>

definition connect_timeo :: "u32 \<Rightarrow> connect_answer option \<Rightarrow> connected" where
  "connect_timeo flags ca =
     (case (case ca of None \<Rightarrow> ConnectError EINTR | Some a \<Rightarrow> a) of
        Connected \<Rightarrow> \<lparr>retval = 0, err = None, fl_flags = flags, fd_open = True\<rparr>
      | ConnectError e \<Rightarrow>
          \<lparr>retval = -1, err = Some (if e = EINTR then ETIMEDOUT else e), fl_flags = flags, fd_open = False\<rparr>)"

section \<open>The first address that works\<close>

definition usable :: "(addrinfo \<Rightarrow> bool) \<Rightarrow> (addrinfo \<Rightarrow> bool) \<Rightarrow> addrinfo \<Rightarrow> bool" where
  "usable sock act ai \<longleftrightarrow> sock ai \<and> act ai"

text \<open>Descriptors opened for addresses that do not work are closed again.\<close>

lemma try_addrs_find:
  "try_addrs sock act ais fds =
     (case List.find (usable sock act) ais of
        None \<Rightarrow> (None, fds)
      | Some ai \<Rightarrow> (Some (lowest_free fds, ai), lowest_free fds # fds))"
proof (induction ais)
  case (Cons ai ais)
  have "removeAll (lowest_free fds) fds = fds" using lowest_free_fresh [of fds] by (simp add: removeAll_id)
  then show ?case using Cons by (simp add: usable_def Let_def)
qed simp

lemma open_first_Ret:
  "open_first who r host serv hints sock act fds g = Ret (fd, ai, ais, fds1, g1) \<longleftrightarrow>
     getaddrinfo r host serv (Some hints) g = Ret (Inr ais, g1) \<and> List.find (usable sock act) ais = Some ai \<and>
     fd = lowest_free fds \<and> fds1 = fd # fds"
  unfolding open_first_def try_addrs_find
  by (cases "getaddrinfo r host serv (Some hints) g") (auto split: sum.splits option.splits)

lemma opened_balance:
  assumes "getaddrinfo r host serv (Some hints) g = Ret (Inr ais, g1)" and "\<not> unix_name host serv"
  shows "live (freeaddrinfo ais g1) = live g"
  using getaddrinfo_balance [OF assms] by simp

lemma open_hints_type: "open_hints 0 st = type_hints st"
  by (simp add: open_hints_def type_hints_def no_hints_def)

lemma find_first: "List.find P xs = Some x \<longleftrightarrow> (\<exists>as bs. xs = as @ x # bs \<and> P x \<and> (\<forall>y \<in> set as. \<not> P y))"
proof
  assume "List.find P xs = Some x"
  then obtain i where i: "i < length xs" "P (xs ! i)" "x = xs ! i" "\<forall>j < i. \<not> P (xs ! j)"
    by (auto simp: find_Some_iff)
  then show "\<exists>as bs. xs = as @ x # bs \<and> P x \<and> (\<forall>y \<in> set as. \<not> P y)"
    by (intro exI [of _ "take i xs"] exI [of _ "drop (Suc i) xs"])
      (auto simp: in_set_conv_nth id_take_nth_drop [symmetric])
next
  assume "\<exists>as bs. xs = as @ x # bs \<and> P x \<and> (\<forall>y \<in> set as. \<not> P y)"
  then obtain as bs where xs: "xs = as @ x # bs" "P x" "\<forall>y \<in> set as. \<not> P y" by blast
  then show "List.find P xs = Some x" by (induction as arbitrary: xs) simp_all
qed

section \<open>Properties\<close>

text \<open>
  C31: \<open>tcp_connect\<close> and \<open>tcp_listen\<close> that return have opened exactly one descriptor, the lowest free one, for the
  first entry of \<open>getaddrinfo\<close>'s list for which both system calls succeed; every descriptor opened
  for an entry before it is closed again, and all memory of the list is freed.
\<close>
theorem tcp_open_first:
  assumes "\<not> unix_name host serv"
  shows "(tcp_connect env r host serv fds g = Ret (fd, fds', g') \<longrightarrow>
      fd = lowest_free fds \<and> fds' = fd # fds \<and> live g' = live g \<and>
      (\<exists>as ai bs g1. getaddrinfo r host serv (Some (open_hints 0 SOCK_STREAM)) g = Ret (Inr (as @ ai # bs), g1) \<and>
        socket_ok env ai \<and> connect_ok env ai \<and> (\<forall>a \<in> set as. \<not> (socket_ok env a \<and> connect_ok env a)))) \<and>
    (tcp_listen env r host serv fds g = Ret (fd, fds', len, g') \<longrightarrow>
      fd = lowest_free fds \<and> fds' = fd # fds \<and> live g' = live g \<and>
      (\<exists>as ai bs g1. getaddrinfo r host serv (Some (open_hints AI_PASSIVE SOCK_STREAM)) g = Ret (Inr (as @ ai # bs), g1) \<and>
        len = ai_addrlen ai \<and> socket_ok env ai \<and> bind_ok env ai \<and> (\<forall>a \<in> set as. \<not> (socket_ok env a \<and> bind_ok env a))))"
proof (intro conjI impI)
  assume "tcp_connect env r host serv fds g = Ret (fd, fds', g')"
  then obtain ais ai g1 where g1: "getaddrinfo r host serv (Some (open_hints 0 SOCK_STREAM)) g = Ret (Inr ais, g1)"
    and f: "List.find (usable (socket_ok env) (connect_ok env)) ais = Some ai"
    and r: "fd = lowest_free fds" "fds' = fd # fds" "g' = freeaddrinfo ais g1"
    by (auto simp: tcp_connect_def run_bind_Ret_conv open_first_Ret)
  then show "fd = lowest_free fds" "fds' = fd # fds" "live g' = live g" using opened_balance [OF g1 assms] by simp_all
  show "\<exists>as ai bs g1. getaddrinfo r host serv (Some (open_hints 0 SOCK_STREAM)) g = Ret (Inr (as @ ai # bs), g1) \<and>
      socket_ok env ai \<and> connect_ok env ai \<and> (\<forall>a \<in> set as. \<not> (socket_ok env a \<and> connect_ok env a))"
    using g1 f unfolding find_first usable_def by blast
next
  assume "tcp_listen env r host serv fds g = Ret (fd, fds', len, g')"
  then obtain ais ai g1 where g1: "getaddrinfo r host serv (Some (open_hints AI_PASSIVE SOCK_STREAM)) g = Ret (Inr ais, g1)"
    and f: "List.find (usable (socket_ok env) (bind_ok env)) ais = Some ai"
    and r: "fd = lowest_free fds" "fds' = fd # fds" "len = ai_addrlen ai" "g' = freeaddrinfo ais g1"
    by (auto simp: tcp_listen_def run_bind_Ret_conv open_first_Ret split: if_splits)
  then show "fd = lowest_free fds" "fds' = fd # fds" "live g' = live g" using opened_balance [OF g1 assms] by simp_all
  show "\<exists>as ai bs g1. getaddrinfo r host serv (Some (open_hints AI_PASSIVE SOCK_STREAM)) g = Ret (Inr (as @ ai # bs), g1) \<and>
      len = ai_addrlen ai \<and> socket_ok env ai \<and> bind_ok env ai \<and> (\<forall>a \<in> set as. \<not> (socket_ok env a \<and> bind_ok env a))"
    using g1 f r(3) unfolding find_first usable_def by blast
qed

text \<open>A host with two addresses, of which the first does not answer.\<close>

definition demo_env :: sock_env where
  "demo_env = \<lparr>socket_ok = (\<lambda>ai. True), connect_ok = (\<lambda>ai. ai_addr ai \<noteq> Some (SaIn (htons 13) [10, 0, 0, 1])),
     bind_ok = (\<lambda>ai. True), listen_ok = True\<rparr>"

lemma demo_stream_run:
  "getaddrinfo two_hosts (Some ''sol'') (Some ''daytime'') (Some (open_hints 0 SOCK_STREAM)) fresh_heap =
     Ret (Inr [numeric_entry SOCK_STREAM (SaIn (htons 13) [10, 0, 0, 1]), numeric_entry SOCK_STREAM (SaIn (htons 13) [10, 0, 1, 1])],
       fresh_heap\<lparr>live := 4\<rparr>)"
  by (simp add: open_hints_def getaddrinfo_def ga_echeck_def unnamed_def no_hints_def unix_name_def ga_nsearch_def search_step_def
      demo_literal two_hosts_def no_resolver_def use_host_def wants_canon_def ga_aistruct_def add_addr_def calloc_def
      fresh_heap_def ga_finish_def ga_serv_def serv_ports_def named_port_def first_def isdigit_def dec_digits_def
      set_port_def has_port_def numeric_entry_def ai_flag_consts af_consts sock_consts)

lemma lowest_free_012: "lowest_free [0, 1, 2] = 3"
  by (simp add: lowest_free_def eval_nat_numeral)

lemma demo_connect_run:
  "tcp_connect demo_env two_hosts (Some ''sol'') (Some ''daytime'') [0, 1, 2] fresh_heap = Ret (3, [3, 0, 1, 2], fresh_heap)"
  unfolding tcp_connect_def open_first_def demo_stream_run
  by (simp add: try_addrs_find usable_def demo_env_def numeric_entry_def lowest_free_012 freeaddrinfo_def blocks_def
      fresh_heap_def htons_def)

theorem tcp_open_first_witness:
  "\<exists>as ai bs g1. getaddrinfo two_hosts (Some ''sol'') (Some ''daytime'') (Some (open_hints 0 SOCK_STREAM)) fresh_heap =
      Ret (Inr (as @ ai # bs), g1) \<and> connect_ok demo_env ai \<and> (\<forall>a \<in> set as. \<not> (socket_ok demo_env a \<and> connect_ok demo_env a))"
proof -
  have "\<not> unix_name (Some ''sol'') (Some ''daytime'')" by (simp add: unix_name_def)
  note t = tcp_open_first [OF this, THEN conjunct1, rule_format, OF demo_connect_run]
  then show ?thesis by blast
qed

text \<open>
  C28: \<open>tcp_connect\<close> to the texts that \<open>getnameinfo\<close> prints for a socket address connects to that very address
  and to no other: it returns the lowest free descriptor and leaves the memory as it was when the
  kernel accepts this address, and ends the program when it does not.
\<close>
lemma tcp_connect_text:
  assumes "inet_sa sa" and "answers g = []"
  shows "tcp_connect env r (Some (addr_text sa)) (Some (port_text (sa_port sa))) fds g =
    (if socket_ok env (numeric_entry SOCK_STREAM sa) \<and> connect_ok env (numeric_entry SOCK_STREAM sa)
     then Ret (lowest_free fds, lowest_free fds # fds, g) else Fatal ''tcp_connect error'') \<and>
    ai_addr (numeric_entry SOCK_STREAM sa) = Some sa"
proof -
  have n: "getaddrinfo r (Some (addr_text sa)) (Some (port_text (sa_port sa))) (Some (open_hints 0 SOCK_STREAM)) g =
      Ret (Inr [numeric_entry SOCK_STREAM sa], g\<lparr>live := live g + 2\<rparr>)"
    unfolding open_hints_type
    by (rule getaddrinfo_numeric [OF addr_text_ok(1) [OF assms(1)] assms(1) addr_text_ok(2,3) [OF assms(1)] _ assms(2)]) simp
  have "freeaddrinfo [numeric_entry SOCK_STREAM sa] (g\<lparr>live := live g + 2\<rparr>) = g"
    by (simp add: freeaddrinfo_def blocks_def numeric_entry_def)
  then show ?thesis unfolding tcp_connect_def open_first_def n try_addrs_find
    by (simp add: usable_def) (simp add: numeric_entry_def)
qed

lemma tcp_connect_text_witness:
  "tcp_connect demo_env no_resolver (Some (addr_text (SaIn 0 [10, 0, 0, 1])))
     (Some (port_text (sa_port (SaIn 0 [10, 0, 0, 1])))) [0, 1, 2] fresh_heap = Ret (3, [3, 0, 1, 2], fresh_heap)"
proof -
  have "inet_sa (SaIn 0 [10, 0, 0, 1])" "answers fresh_heap = []" by (simp_all add: fresh_heap_def)
  note t = tcp_connect_text [OF this, of demo_env no_resolver "[0, 1, 2]", THEN conjunct1]
  have "socket_ok demo_env (numeric_entry SOCK_STREAM (SaIn 0 [10, 0, 0, 1])) \<and>
      connect_ok demo_env (numeric_entry SOCK_STREAM (SaIn 0 [10, 0, 0, 1]))"
    by (simp add: demo_env_def numeric_entry_def htons_def)
  with t show ?thesis unfolding lowest_free_012 by (simp only: simp_thms if_True)
qed

text \<open>
  C0: \<open>connect_timeo\<close> leaves the descriptor open exactly when it succeeds; \<open>connect_nonb\<close>, when it returns, does so
  only if the connect was begun and its outcome could be asked for.  If \<open>connect\<close> fails at
  once, or \<open>getsockopt\<close> fails, the caller gets -1 with a descriptor that is still open and still nonblocking.
\<close>
lemma connect_leaves_open:
  assumes "connect_nonb flags ca sa nsec = Ret c"
  shows "(retval c = 0 \<longrightarrow> fd_open c \<and> fl_flags c = flags) \<and>
    (retval c = -1 \<and> fd_open c \<longleftrightarrow>
       (\<exists>e. ca = ConnectError e \<and> e \<noteq> EINPROGRESS) \<or> (ca = ConnectError EINPROGRESS \<and> (\<exists>rd wr. sa = SelectReports rd wr None))) \<and>
    (fd_open (connect_timeo flags a) \<longleftrightarrow> retval (connect_timeo flags a) = 0)"
  using assms
  by (cases ca; cases sa)
    (auto simp: connect_nonb_def connect_timeo_def Let_def split: if_splits option.splits connect_answer.splits)

lemma connect_leaves_open_witness:
  "\<exists>c. connect_nonb 0 (ConnectError ECONNREFUSED) SelectTimeout 5 = Ret c \<and> retval c = -1 \<and> fd_open c"
proof -
  have "connect_nonb 0 (ConnectError ECONNREFUSED) SelectTimeout 5 =
      Ret \<lparr>retval = -1, err = Some ECONNREFUSED, fl_flags = 0 OR O_NONBLOCK, fd_open = True\<rparr>"
    by (simp add: connect_nonb_def)
  from connect_leaves_open [OF this] this show ?thesis by auto
qed

end
