(* ===== verification/Source_Route.thy ===== *)
theory Source_Route
  imports Sock_Open Packet
begin

text \<open>
  \<open>ipopts/sourceroute.c\<close>: building the IP source route option from host names and printing a received one.
\<close>

section \<open>Building\<close>

definition IPOPT_NOP :: byte where "IPOPT_NOP = 1"
definition IPOPT_LSRR :: byte where "IPOPT_LSRR = 0x83"
definition IPOPT_SSRR :: byte where "IPOPT_SSRR = 0x89"

lemmas ipopt_consts = IPOPT_NOP_def IPOPT_LSRR_def IPOPT_SSRR_def

text \<open>The block of 44 bytes with the static variables: the offsets \<open>optr\<close> and \<open>lenptr\<close> into it, and the count.\<close>

record srcrt =
  opts :: "byte list"
  optr :: nat
  lenptr :: nat
  ocnt :: nat

definition inet_srcrt_init :: "bool \<Rightarrow> srcrt" where
  "inet_srcrt_init strict =
     (let b0 = replicate 44 0; b1 = b0[0 := IPOPT_NOP]; b2 = b1[1 := if strict then IPOPT_SSRR else IPOPT_LSRR];
          b3 = b2[3 := 4]
      in \<lparr>opts = b3, optr = 4, lenptr = 2, ocnt = 0\<rparr>)"

definition inet_srcrt_add :: "resolver \<Rightarrow> string \<Rightarrow> srcrt \<Rightarrow> gai \<Rightarrow> (nat \<times> srcrt \<times> gai) run" where
  "inet_srcrt_add r hostptr s g =
     (if ocnt s > 9 then Fatal (''too many source routes with: '' @ hostptr)
      else run_bind (Host_serv r (Some hostptr) None AF_INET 0 g) (\<lambda>(ais, g1).
        case ai_addr (hd ais) of
          None \<Rightarrow> Fatal ''null address''
        | Some sin \<Rightarrow>
            (let b = take (optr s) (opts s) @ take 4 (sa_bytes sin) @ drop (optr s + 4) (opts s);
                 cnt = ocnt s + 1; len = 3 + cnt * 4
             in Ret (len + 1, s\<lparr>opts := b[lenptr s := of_nat len], optr := optr s + 4, ocnt := cnt\<rparr>, freeaddrinfo ais g1))))"

fun add_hosts :: "resolver \<Rightarrow> string list \<Rightarrow> srcrt \<Rightarrow> gai \<Rightarrow> (srcrt \<times> gai) run" where
  "add_hosts r [] s g = Ret (s, g)"
| "add_hosts r (h # hs) s g = run_bind (inet_srcrt_add r h s g) (\<lambda>(len, s1, g1). add_hosts r hs s1 g1)"

section \<open>Printing\<close>

text \<open>What is printed: the kind of route with the addresses, or the type of another option.\<close>

datatype route_text = Lsrr "string list" | Ssrr "string list" | OtherOption byte

text \<open>The NOPs at an offset are skipped; the result is the offset of the first other byte.\<close>

function skip_nops :: "byte list \<Rightarrow> nat \<Rightarrow> nat" where
  "skip_nops mem p = (if byte_at mem p = IPOPT_NOP then skip_nops mem (p + 1) else p)"
  by pat_completeness auto
termination
  by (relation "measure (\<lambda>(mem, p). length mem - p)") (auto simp: byte_at_def IPOPT_NOP_def split: if_splits)

declare skip_nops.simps [simp del]

definition addr_at :: "byte list \<Rightarrow> nat \<Rightarrow> string" where
  "addr_at mem p = (case inet_ntop AF_INET (map (byte_at mem) [p ..< p + 4]) INET_ADDRSTRLEN of Inr s \<Rightarrow> s | Inl e \<Rightarrow> [])"

function route_hops :: "byte list \<Rightarrow> nat \<Rightarrow> int \<Rightarrow> string list" where
  "route_hops mem p len = (if len > 0 then addr_at mem p # route_hops mem (p + 4) (len - 4) else [])"
  by pat_completeness auto
termination
  by (relation "measure (\<lambda>(mem, p, len). nat len)") auto

declare route_hops.simps [simp del]

definition inet_srcrt_print :: "byte list \<Rightarrow> route_text" where
  "inet_srcrt_print mem =
     (let p = skip_nops mem 4; c = byte_at mem p;
          len = int (u8_at mem (p + 1)) - 4;
          hops = addr_at mem 0 # route_hops mem (p + 3) len
      in if c = IPOPT_LSRR then Lsrr hops else if c = IPOPT_SSRR then Ssrr hops else OtherOption c)"

section \<open>The option for a list of addresses\<close>

text \<open>What the buffer holds behind the four header bytes: the addresses added, and zeros.\<close>

definition route_state :: "bool \<Rightarrow> byte list list \<Rightarrow> srcrt" where
  "route_state strict as =
     \<lparr>opts = [IPOPT_NOP, if strict then IPOPT_SSRR else IPOPT_LSRR, if as = [] then 0 else of_nat (3 + length as * 4), 4] @
        concat as @ replicate (40 - length as * 4) 0,
      optr = 4 + length as * 4, lenptr = 2, ocnt = length as\<rparr>"

lemma init_state: "inet_srcrt_init strict = route_state strict []"
  by (simp add: inet_srcrt_init_def route_state_def numeral_eq_Suc)

lemma length_concat_4: "\<forall>a \<in> set as. length a = 4 \<Longrightarrow> length (concat as) = length as * 4"
  by (induction as) simp_all

lemma host_serv_literal:
  assumes "length a = 4" and "answers g = []"
  shows "\<exists>ai. Host_serv r (Some (dotted a)) None AF_INET 0 g = Ret ([ai], g\<lparr>live := live g + 3\<rparr>) \<and>
    ai_addr ai = Some (SaIn 0 a) \<and> ai_canonname ai \<noteq> None"
proof -
  let ?hints = "(open_hints AI_CANONNAME 0)\<lparr>ai_family := AF_INET\<rparr>"
  let ?h = "Some (dotted a)"
  have h: "ai_flags ?hints = AI_CANONNAME" "ai_family ?hints = AF_INET" "ai_socktype ?hints = 0"
    by (simp_all add: open_hints_def no_hints_def)
  have nn: "\<not> unnamed ?h" by (auto simp: unnamed_def dotted_def)
  have e: "ga_echeck ?h None AI_CANONNAME AF_INET 0 = None"
    using nn by (simp add: ga_echeck_def ai_flag_consts sock_consts af_consts)
  have s: "ga_nsearch ?h ?hints = Ret [(dotted a, AF_INET)]" using nn by (simp add: ga_nsearch_def h)
  have u: "\<not> unix_name ?h None" by (simp add: unix_name_def)
  define ai where "ai = \<lparr>ai_flags = AI_CLONE, ai_family = AF_INET, ai_socktype = 0, ai_protocol = 0, ai_addrlen = 16,
    ai_canonname = None, ai_addr = Some (SaIn 0 a)\<rparr>"
  have st: "search_step r ?h ?hints 1 (dotted a) AF_INET None [] g = (None, None, [ai], g\<lparr>live := live g + 2\<rparr>)"
    using assms by (simp add: search_step_def literal_dotted h ga_aistruct_def add_addr_def calloc_def ai_def
      open_hints_def no_hints_def)
  have w: "wants_canon ?h ?hints" using nn by (simp add: wants_canon_def h) (simp add: AI_CANONNAME_def)
  have f: "ga_finish r ?h None ?hints (dotted a) None [ai] (g\<lparr>live := live g + 2\<rparr>) =
      (None, [ai\<lparr>ai_canonname := Some (dotted a)\<rparr>], g\<lparr>live := live g + 3\<rparr>)"
    using assms(2) w by (simp add: ga_finish_def calloc_def unnamed_def)
  have "getaddrinfo r ?h None (Some ?hints) g = Ret (Inr [ai\<lparr>ai_canonname := Some (dotted a)\<rparr>], g\<lparr>live := live g + 3\<rparr>)"
    using st f by (simp add: getaddrinfo_def h e u s)
  then have "Host_serv r ?h None AF_INET 0 g = Ret ([ai\<lparr>ai_canonname := Some (dotted a)\<rparr>], g\<lparr>live := live g + 3\<rparr>)"
    unfolding Host_serv_def by (simp only: run_bind.simps prod.case sum.case)
  then show ?thesis by (auto simp: ai_def)
qed

lemma add_state:
  assumes "\<forall>a \<in> set as. length a = 4" and "length a = 4" and "length as < 10" and "answers g = []"
  shows "inet_srcrt_add r (dotted a) (route_state strict as) g =
    Ret (8 + length as * 4, route_state strict (as @ [a]), g)"
proof -
  obtain ai where h: "Host_serv r (Some (dotted a)) None AF_INET 0 g = Ret ([ai], g\<lparr>live := live g + 3\<rparr>)"
    and ai: "ai_addr ai = Some (SaIn 0 a)" "ai_canonname ai \<noteq> None"
    using host_serv_literal [OF assms(2,4)] by blast
  have fr: "freeaddrinfo [ai] (g\<lparr>live := live g + 3\<rparr>) = g" using ai by (auto simp: freeaddrinfo_def blocks_def)
  let ?n = "length as * 4"
  define hd4 where "hd4 c = [IPOPT_NOP, if strict then IPOPT_SSRR else IPOPT_LSRR, c, 4 :: byte]" for c
  define k where "k = 40 - ?n"
  have k: "40 - ?n = 4 + (40 - (?n + 4))" using assms(3) by simp
  have c: "length (concat as) = ?n" by (rule length_concat_4 [OF assms(1)])
  have buf: "opts (route_state strict as) = hd4 (if as = [] then 0 else of_nat (3 + ?n)) @ concat as @ replicate (40 - ?n) 0"
    by (simp add: route_state_def hd4_def)
  have l4: "length (hd4 c) = 4" for c by (simp add: hd4_def)
  have put: "take (4 + ?n) (opts (route_state strict as)) @ a @ drop (4 + ?n + 4) (opts (route_state strict as)) =
      hd4 (if as = [] then 0 else of_nat (3 + ?n)) @ concat as @ a @ replicate (40 - (?n + 4)) 0"
    unfolding buf k using c l4 assms(2) by (simp add: replicate_add)
  have upd: "(hd4 c @ rest)[2 := v] = hd4 v @ rest" for c v rest by (simp add: hd4_def numeral_2_eq_2)
  show ?thesis
    using assms(2,3) h ai fr put upd
    by (simp add: inet_srcrt_add_def Let_def) (simp add: route_state_def hd4_def)
qed

lemma add_hosts_state:
  assumes "\<forall>a \<in> set as \<union> set bs. length a = 4" and "length as + length bs \<le> 10" and "answers g = []"
  shows "add_hosts r (map dotted bs) (route_state strict as) g = Ret (route_state strict (as @ bs), g)"
  using assms
proof (induction bs arbitrary: as)
  case (Cons b bs)
  have "inet_srcrt_add r (dotted b) (route_state strict as) g = Ret (8 + length as * 4, route_state strict (as @ [b]), g)"
    by (rule add_state) (use Cons.prems in auto)
  then show ?case using Cons.IH [of "as @ [b]"] Cons.prems by simp
qed simp

section \<open>Printing what was built\<close>

lemma bytes_at:
  assumes "length xs = p" and "length ys = n"
  shows "map (byte_at (xs @ ys @ zs)) [p ..< p + n] = ys"
  using assms by (intro nth_equalityI) (auto simp: byte_at_def nth_append)

lemma addr_at_dotted:
  assumes "length xs = p" and "length a = 4"
  shows "addr_at (xs @ a @ zs) p = dotted a"
proof -
  have "inet_ntop AF_INET a INET_ADDRSTRLEN = Inr (dotted a)"
    using dotted_length [of a] by (simp add: inet_ntop_def inet_ntop4_def Let_def INET_ADDRSTRLEN_def)
  then show ?thesis unfolding addr_at_def bytes_at [OF assms] by simp
qed

lemma route_hops_all:
  "\<forall>a \<in> set as. length a = 4 \<Longrightarrow> length xs = p \<Longrightarrow>
   route_hops (xs @ concat as @ zs) p (int (length as * 4) - 1) = map dotted as"
proof (induction as arbitrary: xs p)
  case Nil
  then show ?case by (simp add: route_hops.simps)
next
  case (Cons a as)
  have "route_hops ((xs @ a) @ concat as @ zs) (p + 4) (int (length as * 4) - 1) = map dotted as"
    by (rule Cons.IH) (use Cons.prems in simp_all)
  then show ?case using addr_at_dotted [of xs p a "concat as @ zs"] Cons.prems
    by (subst route_hops.simps) (simp add: algebra_simps)
qed

section \<open>Properties\<close>

text \<open>
  The option built for up to ten addresses, with their texts as host names and whatever the resolver knows, fits
  the block of 44 bytes, leaves the memory as it was, and printing it behind the address of the first
  hop gives the kind of route and the texts of exactly these addresses in order.
\<close>
lemma source_route_roundtrip:
  assumes "\<forall>a \<in> set as. length a = 4" and "as \<noteq> []" and "length as \<le> 10" and "length hop1 = 4" and "answers g = []"
  shows "\<exists>s. add_hosts r (map dotted as) (inet_srcrt_init strict) g = Ret (s, g) \<and> length (opts s) = 44 \<and> optr s \<le> 44 \<and>
    inet_srcrt_print (hop1 @ opts s) = (if strict then Ssrr else Lsrr) (dotted hop1 # map dotted as)"
proof -
  let ?s = "route_state strict as" and ?m = "hop1 @ opts (route_state strict as)"
  let ?code = "if strict then IPOPT_SSRR else IPOPT_LSRR"
  define hd8 where "hd8 = hop1 @ [IPOPT_NOP, ?code, of_nat (3 + length as * 4), 4]"
  have r: "add_hosts r (map dotted as) (inet_srcrt_init strict) g = Ret (?s, g)"
    unfolding init_state using add_hosts_state [of "[]" as g r strict] assms by simp
  have m: "?m = hd8 @ concat as @ replicate (40 - length as * 4) 0"
    using assms(2) by (simp add: route_state_def hd8_def)
  have code: "?code \<noteq> IPOPT_NOP" "(if strict then Ssrr else Lsrr) hs =
      (if ?code = IPOPT_LSRR then Lsrr hs else if ?code = IPOPT_SSRR then Ssrr hs else OtherOption ?code)" for hs
    by (simp_all add: ipopt_consts)
  have b: "byte_at ?m 4 = IPOPT_NOP" "byte_at ?m 5 = ?code" "byte_at ?m 6 = of_nat (3 + length as * 4)"
    unfolding m using assms(4) by (simp_all add: byte_at_def hd8_def nth_append)
  have sk: "skip_nops ?m 4 = 5" using b(1,2) code(1) by (simp add: skip_nops.simps)
  have "int (u8_at ?m 6) - 4 = int (length as * 4) - 1"
    unfolding u8_at_def b(3) using assms(3) by (subst unat_of_nat_byte) simp_all
  moreover have "route_hops ?m 8 (int (length as * 4) - 1) = map dotted as"
    unfolding m by (rule route_hops_all [OF assms(1)]) (simp add: hd8_def assms(4))
  moreover have "addr_at ?m 0 = dotted hop1" using addr_at_dotted [of "[]" 0 hop1] assms(4) by simp
  ultimately have "inet_srcrt_print ?m = (if strict then Ssrr else Lsrr) (dotted hop1 # map dotted as)"
    unfolding inet_srcrt_print_def Let_def sk code(2) using b(2) by simp
  moreover have "length (opts ?s) = 44" "optr ?s \<le> 44"
    using length_concat_4 [OF assms(1)] assms(3) by (simp_all add: route_state_def)
  ultimately show ?thesis using r by blast
qed

lemma source_route_roundtrip_witness:
  "\<exists>s. add_hosts no_resolver [dotted [10, 0, 0, 1], dotted [10, 0, 0, 2]] (inet_srcrt_init True) fresh_heap = Ret (s, fresh_heap) \<and>
     inet_srcrt_print ([10, 0, 0, 1] @ opts s) = Ssrr [dotted [10, 0, 0, 1], dotted [10, 0, 0, 1], dotted [10, 0, 0, 2]]"
  using source_route_roundtrip [of "[[10, 0, 0, 1], [10, 0, 0, 2]]" "[10, 0, 0, 1]" fresh_heap no_resolver True]
  by (auto simp: fresh_heap_def)

text \<open>The eleventh address is refused.\<close>

lemma too_many_routes: "10 \<le> ocnt s \<Longrightarrow> inet_srcrt_add r h s g = Fatal (''too many source routes with: '' @ h)"
  by (simp add: inet_srcrt_add_def)

end
