(* ===== verification/Runs.thy ===== *)
theory Runs
  imports Main
begin

text \<open>
  Runs of a step relation: the states it reaches, with and without the number of steps, and the two
  ways they are used, an invariant and a measure that every step lowers.
\<close>

inductive reached :: "('s \<Rightarrow> 's \<Rightarrow> bool) \<Rightarrow> 's \<Rightarrow> 's \<Rightarrow> bool" for r s0 where
  start: "reached r s0 s0"
| step: "reached r s0 s \<Longrightarrow> r s s' \<Longrightarrow> reached r s0 s'"

inductive steps :: "('s \<Rightarrow> 's \<Rightarrow> bool) \<Rightarrow> nat \<Rightarrow> 's \<Rightarrow> 's \<Rightarrow> bool" for r where
  none: "steps r 0 s0 s0"
| more: "steps r n s0 s \<Longrightarrow> r s s' \<Longrightarrow> steps r (Suc n) s0 s'"

lemma reached_inv:
  assumes "reached r s0 s" and "I s0" and "\<And>s s'. I s \<Longrightarrow> r s s' \<Longrightarrow> I s'"
  shows "I s"
  using assms(1) by induction (use assms(2,3) in auto)

lemma reached_trans: "reached r t u \<Longrightarrow> reached r s t \<Longrightarrow> reached r s u"
  by (induction rule: reached.induct) (auto intro: reached.step)

lemma reached_one: "r s t \<Longrightarrow> reached r s t"
  by (rule reached.step [OF reached.start])

lemma steps_reached: "steps r n s0 s \<Longrightarrow> reached r s0 s"
  by (induction rule: steps.induct) (auto intro: reached.intros)

lemma reached_steps: "reached r s0 s \<Longrightarrow> \<exists>n. steps r n s0 s"
  by (induction rule: reached.induct) (auto intro: steps.intros)

text \<open>A run has at most as many steps as the measure allows.\<close>

lemma steps_measure:
  assumes "steps r n s0 s" and "I s0" and "\<And>s s'. I s \<Longrightarrow> r s s' \<Longrightarrow> I s' \<and> m s' < (m s :: nat)"
  shows "I s \<and> n + m s \<le> m s0"
  using assms(1,2)
proof induction
  case (more n s0 s s')
  then have "I s" "n + m s \<le> m s0" by auto
  then show ?case using assms(3) [OF _ more.hyps(2)] by fastforce
qed auto

text \<open>From every state a measure leads to one where the relation ends.\<close>

lemma reached_stuck:
  assumes "I s0" and "\<And>s s'. I s \<Longrightarrow> r s s' \<Longrightarrow> I s' \<and> m s' < (m s :: nat)"
  shows "\<exists>s. reached r s0 s \<and> \<not> (\<exists>s'. r s s')"
  using assms(1)
proof (induction "m s0" arbitrary: s0 rule: less_induct)
  case less
  show ?case
  proof (cases "\<exists>s'. r s0 s'")
    case True
    then obtain s' where "r s0 s'" by blast
    with less assms(2) obtain s where "reached r s' s" "\<not> (\<exists>s''. r s s'')" by meson
    then show ?thesis using reached_trans reached_one [of r] \<open>r s0 s'\<close> by metis
  qed (blast intro: reached.start)
qed

end
