(* ===== verification/Thread_Examples.thy ===== *)
theory Thread_Examples
  imports Ring Runs
begin

text \<open>
  \<open>threads/example01.c\<close>, \<open>example02.c\<close>: two threads that increment a shared counter, without and with a mutex; and
  \<open>example03.c\<close>: a producer and a consumer with condition variables.  A step of a thread is a
  piece of code with one access to shared memory, or a critical section.
\<close>

section \<open>The counter without a mutex\<close>

definition NLOOP :: nat where "NLOOP = 5000"

text \<open>\<open>doit\<close>: the loop index, and \<open>val\<close> between the fetch and the store.\<close>

record racer =
  ri :: nat
  rval :: "int option"

record race =
  rcounter :: int
  racers :: "racer list"

definition race_init :: race where
  "race_init = \<lparr>rcounter = 0, racers = replicate 2 \<lparr>ri = 0, rval = None\<rparr>\<rparr>"

definition race_fetch :: "nat \<Rightarrow> race \<Rightarrow> race" where
  "race_fetch k s = s\<lparr>racers := (racers s)[k := (racers s ! k)\<lparr>rval := Some (rcounter s)\<rparr>]\<rparr>"

definition race_store :: "nat \<Rightarrow> int \<Rightarrow> race \<Rightarrow> race" where
  "race_store k v s = s\<lparr>rcounter := v + 1, racers := (racers s)[k := \<lparr>ri = ri (racers s ! k) + 1, rval = None\<rparr>]\<rparr>"

inductive race_step :: "race \<Rightarrow> race \<Rightarrow> bool" where
  fetch: "k < length (racers s) \<Longrightarrow> ri (racers s ! k) < NLOOP \<Longrightarrow> rval (racers s ! k) = None \<Longrightarrow> race_step s (race_fetch k s)"
| store: "k < length (racers s) \<Longrightarrow> rval (racers s ! k) = Some v \<Longrightarrow> race_step s (race_store k v s)"

section \<open>The counter with a mutex\<close>

datatype lock_pc = AtLock | AtFetch | AtStore | AtUnlock

record locker =
  li :: nat
  lval :: int
  lpc :: lock_pc

record locked =
  lcounter :: int
  owner :: "nat option"
  lockers :: "locker list"

definition locked_init :: "int \<Rightarrow> locked" where
  "locked_init garbage = \<lparr>lcounter = 0, owner = None, lockers = replicate 2 \<lparr>li = 0, lval = garbage, lpc = AtLock\<rparr>\<rparr>"

text \<open>One step of thread \<open>k\<close>; \<open>None\<close> when it waits for the mutex or has ended.\<close>

definition locked_step :: "nat \<Rightarrow> locked \<Rightarrow> locked option" where
  "locked_step k s =
     (let t = lockers s ! k; upd = (\<lambda>t'. (lockers s)[k := t'])
      in case lpc t of
           AtLock \<Rightarrow>
             if li t < NLOOP \<and> owner s = None then Some (s\<lparr>owner := Some k, lockers := upd (t\<lparr>lpc := AtFetch\<rparr>)\<rparr>) else None
         | AtFetch \<Rightarrow> Some (s\<lparr>lockers := upd (t\<lparr>lval := lcounter s, lpc := AtStore\<rparr>)\<rparr>)
         | AtStore \<Rightarrow> Some (s\<lparr>lcounter := lval t + 1, lockers := upd (t\<lparr>lpc := AtUnlock\<rparr>)\<rparr>)
         | AtUnlock \<Rightarrow> Some (s\<lparr>owner := None, lockers := upd (t\<lparr>li := li t + 1, lpc := AtLock\<rparr>)\<rparr>))"

section \<open>Producer and consumer\<close>

definition PCLOOP :: nat where "PCLOOP = 50"
definition BUFFSIZE :: nat where "BUFFSIZE = 10"

text \<open>
  \<open>struct buf_t\<close> with the loop indices of the two threads, whether they sleep in \<open>pthread_cond_wait\<close>, and the
  values that \<open>consume\<close> has returned.
\<close>

record buf_t =
  b_buf :: "int list"
  b_nitems :: nat
  b_nextget :: nat
  b_nextput :: nat
  prod_i :: nat
  cons_i :: nat
  prod_sleeps :: bool
  cons_sleeps :: bool
  consumed :: "int list"

definition buf_init :: buf_t where
  "buf_init = \<lparr>b_buf = replicate BUFFSIZE 0, b_nitems = 0, b_nextget = 0, b_nextput = 0, prod_i = 0, cons_i = 0,
     prod_sleeps = False, cons_sleeps = False, consumed = []\<rparr>"

definition produce :: "int \<Rightarrow> buf_t \<Rightarrow> buf_t" where
  "produce val b =
     (if b_nitems b \<ge> BUFFSIZE then b\<lparr>prod_sleeps := True\<rparr>
      else b\<lparr>b_buf := (b_buf b)[b_nextput b := val], b_nextput := ring_next BUFFSIZE (b_nextput b),
             b_nitems := b_nitems b + 1, cons_sleeps := False, prod_i := prod_i b + 1\<rparr>)"

definition consume :: "buf_t \<Rightarrow> buf_t" where
  "consume b =
     (if b_nitems b \<le> 0 then b\<lparr>cons_sleeps := True\<rparr>
      else b\<lparr>consumed := consumed b @ [b_buf b ! b_nextget b], b_nextget := ring_next BUFFSIZE (b_nextget b),
             b_nitems := b_nitems b - 1, prod_sleeps := False, cons_i := cons_i b + 1\<rparr>)"

text \<open>A thread may also wake up without a signal, and looks again.\<close>

inductive pc_step :: "buf_t \<Rightarrow> buf_t \<Rightarrow> bool" where
  produce: "prod_i b < PCLOOP \<Longrightarrow> \<not> prod_sleeps b \<Longrightarrow> pc_step b (produce (int (prod_i b)) b)"
| consume: "cons_i b < PCLOOP \<Longrightarrow> \<not> cons_sleeps b \<Longrightarrow> pc_step b (consume b)"
| wake_p: "pc_step b (b\<lparr>prod_sleeps := False\<rparr>)"
| wake_c: "pc_step b (b\<lparr>cons_sleeps := False\<rparr>)"

section \<open>Without the mutex\<close>

lemma sum_list_update_nat:
  assumes "k < length xs"
  shows "sum_list (map f (xs[k := x])) + f (xs ! k) = sum_list (map f xs) + (f x :: nat)"
proof -
  have xs: "xs = take k xs @ xs ! k # drop (Suc k) xs" by (rule id_take_nth_drop [OF assms])
  show ?thesis using arg_cong [OF xs, of "\<lambda>xs. sum_list (map f xs)"] by (simp add: upd_conv_take_nth_drop assms)
qed

lemma racer_two: "racers race_init = [\<lparr>ri = 0, rval = None\<rparr>, \<lparr>ri = 0, rval = None\<rparr>]"
  by (simp add: race_init_def numeral_2_eq_2)

definition race_at :: "int \<Rightarrow> racer \<Rightarrow> racer \<Rightarrow> race" where
  "race_at c a b = \<lparr>rcounter = c, racers = [a, b]\<rparr>"

lemma race_init_at: "race_init = race_at 0 \<lparr>ri = 0, rval = None\<rparr> \<lparr>ri = 0, rval = None\<rparr>"
  by (simp add: race_init_def race_at_def numeral_2_eq_2)

lemma race_steps_at:
  "i < NLOOP \<Longrightarrow> race_step (race_at c \<lparr>ri = i, rval = None\<rparr> b) (race_at c \<lparr>ri = i, rval = Some c\<rparr> b)"
  "i < NLOOP \<Longrightarrow> race_step (race_at c a \<lparr>ri = i, rval = None\<rparr>) (race_at c a \<lparr>ri = i, rval = Some c\<rparr>)"
  "race_step (race_at c \<lparr>ri = i, rval = Some v\<rparr> b) (race_at (v + 1) \<lparr>ri = i + 1, rval = None\<rparr> b)"
  "race_step (race_at c a \<lparr>ri = i, rval = Some v\<rparr>) (race_at (v + 1) a \<lparr>ri = i + 1, rval = None\<rparr>)"
  using race_step.fetch [of 0 "race_at c \<lparr>ri = i, rval = None\<rparr> b"] race_step.fetch [of 1 "race_at c a \<lparr>ri = i, rval = None\<rparr>"]
    race_step.store [of 0 "race_at c \<lparr>ri = i, rval = Some v\<rparr> b" v] race_step.store [of 1 "race_at c a \<lparr>ri = i, rval = Some v\<rparr>" v]
  by (simp_all add: race_at_def race_fetch_def race_store_def)

text \<open>A thread that runs alone, either of the two.\<close>

lemma race_solo_a:
  "i + n \<le> NLOOP \<Longrightarrow>
   reached race_step (race_at c \<lparr>ri = i, rval = None\<rparr> b) (race_at (c + int n) \<lparr>ri = i + n, rval = None\<rparr> b)"
proof (induction n)
  case (Suc n)
  then have i: "i + n < NLOOP" by simp
  note reached.step [where r = race_step, OF Suc.IH race_steps_at(1) [OF i]]
  from reached.step [where r = race_step, OF this race_steps_at(3)] Suc.prems show ?case by (simp add: algebra_simps)
qed (simp add: reached.start)

lemma race_solo_b:
  "i + n \<le> NLOOP \<Longrightarrow>
   reached race_step (race_at c a \<lparr>ri = i, rval = None\<rparr>) (race_at (c + int n) a \<lparr>ri = i + n, rval = None\<rparr>)"
proof (induction n)
  case (Suc n)
  then have i: "i + n < NLOOP" by simp
  note reached.step [where r = race_step, OF Suc.IH race_steps_at(2) [OF i]]
  from reached.step [where r = race_step, OF this race_steps_at(4)] Suc.prems show ?case by (simp add: algebra_simps)
qed (simp add: reached.start)

definition race_bounded :: "race \<Rightarrow> bool" where
  "race_bounded s \<longleftrightarrow> (let n = int (sum_list (map ri (racers s)))
     in rcounter s \<le> n \<and> (\<forall>t \<in> set (racers s). \<forall>v. rval t = Some v \<longrightarrow> v \<le> n))"

lemma race_bounded_step:
  assumes "race_bounded s" and "race_step s s'"
  shows "race_bounded s'"
  using assms(2)
proof cases
  case (fetch k)
  then have "sum_list (map ri (racers s')) = sum_list (map ri (racers s))"
    using sum_list_update_nat [of k "racers s" ri "(racers s ! k)\<lparr>rval := Some (rcounter s)\<rparr>"] by (simp add: race_fetch_def)
  then show ?thesis using fetch assms(1) set_update_subset_insert [of "racers s" k]
    by (fastforce simp: race_bounded_def race_fetch_def Let_def)
next
  case (store k v)
  then have "sum_list (map ri (racers s')) = sum_list (map ri (racers s)) + 1"
    using sum_list_update_nat [of k "racers s" ri "\<lparr>ri = ri (racers s ! k) + 1, rval = None\<rparr>"] by (simp add: race_store_def)
  moreover have "v \<le> int (sum_list (map ri (racers s)))" using store assms(1) by (auto simp: race_bounded_def Let_def)
  ultimately show ?thesis using store assms(1) set_update_subset_insert [of "racers s" k]
    by (fastforce simp: race_bounded_def race_store_def Let_def)
qed

lemma race_bounded_reached: "reached race_step race_init s \<Longrightarrow> race_bounded s"
  by (erule reached_inv [where I = race_bounded]) (simp add: race_bounded_def race_init_def, rule race_bounded_step)

text \<open>
  The unprotected counter of \<open>example01.c\<close>: it never runs ahead of the iterations the two threads have
  completed, but it does not count them.  Both threads can run to the end with \<open>2 * NLOOP\<close> in the counter, or
  with as little as 2; and a step of one thread can set it back, so that it does not increase monotonically.
\<close>

lemma race_outcomes:
  "(\<forall>s. reached race_step race_init s \<longrightarrow> rcounter s \<le> int (sum_list (map ri (racers s)))) \<and>
   reached race_step race_init \<lparr>rcounter = 2 * int NLOOP, racers = replicate 2 \<lparr>ri = NLOOP, rval = None\<rparr>\<rparr> \<and>
   reached race_step race_init \<lparr>rcounter = 2, racers = replicate 2 \<lparr>ri = NLOOP, rval = None\<rparr>\<rparr> \<and>
   (\<exists>s s'. reached race_step race_init s \<and> race_step s s' \<and> rcounter s' < rcounter s)"
proof (intro conjI allI impI)
  let ?z = "\<lparr>ri = 0, rval = None\<rparr>" and ?m = "\<lparr>ri = NLOOP - 1, rval = None\<rparr>" and ?h = "\<lparr>ri = 0, rval = Some 0\<rparr>"
  let ?R = "reached race_step race_init" and ?e = "\<lparr>ri = NLOOP, rval = None\<rparr>"
  show "rcounter s \<le> int (sum_list (map ri (racers s)))" if "?R s" for s
    using race_bounded_reached [OF that] by (simp add: race_bounded_def Let_def)
  have 0: "?R (race_at 0 ?z ?z)" by (simp add: race_init_at [symmetric] reached.start)
  have "?R (race_at (int NLOOP) ?e ?z)" using reached_trans [OF race_solo_a [of 0 NLOOP] 0] by simp
  from reached_trans [OF race_solo_b [of 0 NLOOP] this]
  show "?R \<lparr>rcounter = 2 * int NLOOP, racers = replicate 2 ?e\<rparr>" by (simp add: race_at_def numeral_2_eq_2)
  have "?R (race_at 0 ?h ?z)" using reached.step [where r = race_step, OF 0 race_steps_at(1)] by (simp add: NLOOP_def)
  from reached_trans [OF race_solo_b [of 0 "NLOOP - 1"] this]
  have 1: "?R (race_at (int NLOOP - 1) ?h ?m)" by (simp add: NLOOP_def)
  have 2: "race_step (race_at (int NLOOP - 1) ?h ?m) (race_at 1 \<lparr>ri = 1, rval = None\<rparr> ?m)"
    using race_steps_at(3) [of _ 0 0] by simp
  show "\<exists>s s'. ?R s \<and> race_step s s' \<and> rcounter s' < rcounter s"
    by (rule exI [of _ "race_at (int NLOOP - 1) ?h ?m"], rule exI [of _ "race_at 1 \<lparr>ri = 1, rval = None\<rparr> ?m"])
      (use 1 2 in \<open>simp add: race_at_def NLOOP_def\<close>)
  have "?R (race_at 1 \<lparr>ri = 1, rval = None\<rparr> ?m)" using reached.step [where r = race_step, OF 1 2] .
  from reached.step [where r = race_step, OF this race_steps_at(2)]
  have "?R (race_at 1 \<lparr>ri = 1, rval = None\<rparr> \<lparr>ri = NLOOP - 1, rval = Some 1\<rparr>)" by (simp add: NLOOP_def)
  from reached_trans [OF race_solo_a [of 1 "NLOOP - 1"] this]
  have "?R (race_at (int NLOOP) ?e \<lparr>ri = NLOOP - 1, rval = Some 1\<rparr>)" by (simp add: NLOOP_def)
  from reached.step [where r = race_step, OF this race_steps_at(4)]
  show "?R \<lparr>rcounter = 2, racers = replicate 2 ?e\<rparr>" by (simp add: race_at_def NLOOP_def numeral_2_eq_2)
qed

lemma race_outcomes_witness: "rcounter race_init \<le> int (sum_list (map ri (racers race_init)))"
  using race_outcomes reached.start [of race_step race_init] by blast

section \<open>With the mutex\<close>

definition locked_next :: "locked \<Rightarrow> locked \<Rightarrow> bool" where
  "locked_next s s' \<longleftrightarrow> (\<exists>k < 2. locked_step k s = Some s')"

text \<open>What a thread has added to the counter in the iteration it is in.\<close>

definition at_unlock :: "locker \<Rightarrow> nat" where
  "at_unlock t = (if lpc t = AtUnlock then 1 else 0)"

definition locker_ok :: "locked \<Rightarrow> nat \<Rightarrow> bool" where
  "locker_ok s k \<longleftrightarrow> (let t = lockers s ! k in
     (owner s = Some k \<longleftrightarrow> lpc t \<noteq> AtLock) \<and> (lpc t = AtStore \<longrightarrow> lval t = lcounter s) \<and>
     (if lpc t = AtLock then li t \<le> NLOOP else li t < NLOOP))"

definition locked_ok :: "locked \<Rightarrow> bool" where
  "locked_ok s \<longleftrightarrow> length (lockers s) = 2 \<and> locker_ok s 0 \<and> locker_ok s 1 \<and> (\<forall>k. owner s = Some k \<longrightarrow> k < 2) \<and>
     lcounter s = int (sum_list (map li (lockers s)) + sum_list (map at_unlock (lockers s)))"

lemma less_two: "k < (2 :: nat) \<longleftrightarrow> k = 0 \<or> k = 1"
  by auto

lemma locked_ok_pair:
  assumes "locked_ok s"
  obtains a b where "lockers s = [a, b]"
  using assms by (auto simp: locked_ok_def numeral_2_eq_2 length_Suc_conv)

lemma locked_ok_step:
  assumes "locked_ok s" and "locked_step k s = Some s'" and "k < 2"
  shows "locked_ok s'"
proof -
  obtain a b where ab: "lockers s = [a, b]" using locked_ok_pair [OF assms(1)] .
  show ?thesis
    using assms ab
    by (cases "lpc a"; cases "lpc b")
      (auto simp: locked_ok_def locker_ok_def locked_step_def Let_def at_unlock_def less_two split: if_splits)
qed

lemma locked_ok_reached: "reached locked_next (locked_init g) s \<Longrightarrow> locked_ok s"
  by (erule reached_inv [where I = locked_ok])
    (simp add: locked_ok_def locker_ok_def locked_init_def at_unlock_def numeral_2_eq_2,
     auto simp: locked_next_def dest: locked_ok_step)

text \<open>
  The counter of \<open>example02.c\<close>, in every interleaving of the two threads: no step lowers it, one of the threads
  can take a step until both have ended, and then it holds \<open>2 * NLOOP\<close>.
\<close>

lemma locked_exact:
  assumes "reached locked_next (locked_init garbage) s"
  shows "(\<forall>s'. locked_next s s' \<longrightarrow> lcounter s \<le> lcounter s') \<and>
    ((\<exists>s'. locked_next s s') \<or> owner s = None \<and> map li (lockers s) = [NLOOP, NLOOP] \<and> lcounter s = 2 * int NLOOP)"
proof -
  have ok: "locked_ok s" by (rule locked_ok_reached [OF assms])
  obtain a b where ab: "lockers s = [a, b]" using locked_ok_pair [OF ok] .
  have "lcounter s \<le> lcounter s'" if "locked_step k s = Some s'" "k < 2" for k s'
    using that ok ab
    by (cases "lpc (lockers s ! k)")
      (auto simp: locked_ok_def locker_ok_def locked_step_def Let_def less_two split: if_splits)
  moreover have "(\<exists>k s'. k < 2 \<and> locked_step k s = Some s') \<or>
      owner s = None \<and> map li (lockers s) = [NLOOP, NLOOP] \<and> lcounter s = 2 * int NLOOP"
  proof (cases "locked_step 0 s = None \<and> locked_step 1 s = None")
    case True
    then show ?thesis using ok ab
      by (cases "lpc a"; cases "lpc b")
        (auto simp: locked_ok_def locker_ok_def locked_step_def Let_def at_unlock_def split: if_splits option.splits)
  qed (auto simp: less_two)
  ultimately show ?thesis by (auto simp: locked_next_def)
qed

lemma locked_exact_witness: "\<exists>s'. locked_next (locked_init 7) s'"
  using locked_exact [OF reached.start [of locked_next "locked_init 7"]] by (auto simp: locked_init_def NLOOP_def)

section \<open>The bounded buffer\<close>

definition buf_ok :: "buf_t \<Rightarrow> bool" where
  "buf_ok b \<longleftrightarrow> length (b_buf b) = BUFFSIZE \<and> b_nextget b < BUFFSIZE \<and> b_nitems b \<le> BUFFSIZE \<and>
     b_nextput b = (b_nextget b + b_nitems b) mod BUFFSIZE \<and>
     prod_i b = cons_i b + b_nitems b \<and> prod_i b \<le> PCLOOP \<and>
     consumed b = map int [0 ..< cons_i b] \<and>
     ring_list (b_buf b) (b_nextget b) (b_nitems b) = map int [cons_i b ..< prod_i b] \<and>
     (prod_sleeps b \<longrightarrow> b_nitems b = BUFFSIZE) \<and> (cons_sleeps b \<longrightarrow> b_nitems b = 0)"

lemma buf_ok_produce:
  assumes "buf_ok b" and "prod_i b < PCLOOP"
  shows "buf_ok (produce (int (prod_i b)) b)"
proof (cases "b_nitems b \<ge> BUFFSIZE")
  case False
  then have "ring_list ((b_buf b)[b_nextput b := int (prod_i b)]) (b_nextget b) (b_nitems b + 1) =
      map int [cons_i b ..< prod_i b + 1]"
    using assms(1) by (subst ring_put) (simp_all add: buf_ok_def)
  moreover have "ring_next BUFFSIZE (b_nextput b) = (b_nextget b + (b_nitems b + 1)) mod BUFFSIZE"
    using assms(1) by (intro ring_put_index) (auto simp: buf_ok_def)
  ultimately show ?thesis using assms False by (simp add: buf_ok_def produce_def)
next
  case True
  then have "b_nitems b = BUFFSIZE" and "0 < BUFFSIZE" using assms(1) by (simp_all add: buf_ok_def BUFFSIZE_def)
  then show ?thesis using assms by (auto simp: buf_ok_def produce_def)
qed

lemma buf_ok_consume:
  assumes "buf_ok b"
  shows "buf_ok (consume b)"
proof (cases "b_nitems b \<le> 0")
  case False
  have c: "[cons_i b ..< prod_i b] = cons_i b # [cons_i b + 1 ..< prod_i b]"
    using False assms by (simp add: buf_ok_def upt_conv_Cons)
  have r: "ring_list (b_buf b) (b_nextget b) (b_nitems b) =
      b_buf b ! b_nextget b # ring_list (b_buf b) (ring_next BUFFSIZE (b_nextget b)) (b_nitems b - 1)"
    using ring_get [of "b_nitems b" "b_nextget b" "b_buf b"] False assms by (simp add: buf_ok_def)
  have "(ring_next BUFFSIZE (b_nextget b) + (b_nitems b - 1)) mod BUFFSIZE = (b_nextget b + b_nitems b) mod BUFFSIZE"
    using False assms by (intro ring_get_index) (auto simp: buf_ok_def)
  then show ?thesis using assms False c r ring_next_less [of "b_nextget b" BUFFSIZE]
    by (auto simp: buf_ok_def consume_def)
qed (use assms in \<open>simp add: buf_ok_def consume_def\<close>)

lemma buf_ok_step: "buf_ok b \<Longrightarrow> pc_step b b' \<Longrightarrow> buf_ok b'"
  by (erule pc_step.cases) (auto intro: buf_ok_produce buf_ok_consume, auto simp: buf_ok_def)

lemma buf_ok_init: "buf_ok buf_init"
  by (simp add: buf_ok_def buf_init_def BUFFSIZE_def)

text \<open>
  The producer and the consumer of \<open>example03.c\<close>, in every interleaving with any spurious wake-ups: what
  \<open>consume\<close> has returned are the values \<open>0, 1, 2, ...\<close> in the order they were produced, at most \<open>BUFFSIZE\<close> are on
  their way, and a signal is never lost: while a thread has work left one of them with work left is awake.
\<close>

lemma producer_consumer:
  assumes "reached pc_step buf_init b"
  shows "consumed b = map int [0 ..< cons_i b] \<and> cons_i b \<le> prod_i b \<and> prod_i b \<le> cons_i b + BUFFSIZE \<and>
    ring_list (b_buf b) (b_nextget b) (b_nitems b) = map int [cons_i b ..< prod_i b] \<and>
    (prod_i b = PCLOOP \<and> cons_i b = PCLOOP \<or>
     prod_i b < PCLOOP \<and> \<not> prod_sleeps b \<or> cons_i b < PCLOOP \<and> \<not> cons_sleeps b)"
proof -
  have "buf_ok b" using reached_inv [OF assms, of buf_ok] buf_ok_init buf_ok_step by blast
  then show ?thesis by (auto simp: buf_ok_def BUFFSIZE_def)
qed

lemma producer_consumer_witness:
  "consumed (consume (produce 0 buf_init)) = [0]"
proof -
  have "pc_step buf_init (produce (int (prod_i buf_init)) buf_init)"
    by (rule pc_step.produce) (simp_all add: buf_init_def PCLOOP_def)
  moreover have "pc_step (produce (int (prod_i buf_init)) buf_init) (consume (produce (int (prod_i buf_init)) buf_init))"
    by (rule pc_step.consume) (simp_all add: buf_init_def produce_def BUFFSIZE_def PCLOOP_def)
  ultimately have "reached pc_step buf_init (consume (produce (int (prod_i buf_init)) buf_init))"
    using reached.step [OF reached.step [OF reached.start [of pc_step]]] by blast
  from producer_consumer [OF this] show ?thesis
    by (simp add: buf_init_def produce_def consume_def BUFFSIZE_def)
qed

end
