(* ===== verification/Echo_Session.thy ===== *)
theory Echo_Session
  imports Runs Stdio
begin

text \<open>
  A whole session between an echo client and \<open>str_echo\<close> over a connection with finite buffers: the
  stop-and-wait client of \<open>lib/str_cli.c\<close>, the \<open>select\<close> client of \<open>select/strcliselect02.c\<close>, and the
  clients with two processes or threads of \<open>nonblock/strclifork.c\<close> and \<open>threads/strclithread.c\<close>.
\<close>

section \<open>The session\<close>

text \<open>
  In the order the data moves: what is left of standard input; the part of the client's buffer that
  \<open>Writen\<close> has still to write; the bytes on their way to the server; the part of the server's buffer its
  \<open>Writen\<close> has still to write; the bytes on their way back; those the client's \<open>Readline\<close> has read but not returned; and
  standard output.  \<open>fin\<close> and \<open>closed\<close>: the client, and the server, has closed its sending side.  \<open>eof\<close> is
  \<open>stdineof\<close>, \<open>waiting\<close> tells that the stop-and-wait client is in \<open>Readline\<close>.
\<close>

record session =
  inp :: "byte list"
  cpend :: "byte list"
  up :: "byte list"
  spend :: "byte list"
  down :: "byte list"
  rbuf :: "byte list"
  outp :: "byte list"
  fin :: bool
  closed :: bool
  eof :: bool
  waiting :: bool
  ended :: bool

definition session_init :: "byte list \<Rightarrow> session" where
  "session_init bs = \<lparr>inp = bs, cpend = [], up = [], spend = [], down = [], rbuf = [], outp = [],
     fin = False, closed = False, eof = False, waiting = False, ended = False\<rparr>"

text \<open>
  The network with buffers of \<open>cu\<close> and \<open>cd\<close> bytes, and the loop of \<open>str_echo\<close>: a \<open>write\<close> may take any part for which
  there is room, a \<open>read\<close> may return any part of what is there.
\<close>

inductive echo_step :: "nat \<Rightarrow> nat \<Rightarrow> session \<Rightarrow> session \<Rightarrow> bool" for cu cd where
  send: "0 < k \<Longrightarrow> k \<le> length (cpend s) \<Longrightarrow> length (up s) + k \<le> cu \<Longrightarrow>
    echo_step cu cd s (s\<lparr>cpend := drop k (cpend s), up := up s @ take k (cpend s)\<rparr>)"
| serve: "spend s = [] \<Longrightarrow> \<not> closed s \<Longrightarrow> 0 < k \<Longrightarrow> k \<le> length (up s) \<Longrightarrow> k \<le> MAXLINE \<Longrightarrow>
    echo_step cu cd s (s\<lparr>up := drop k (up s), spend := take k (up s)\<rparr>)"
| reply: "0 < k \<Longrightarrow> k \<le> length (spend s) \<Longrightarrow> length (down s) + k \<le> cd \<Longrightarrow>
    echo_step cu cd s (s\<lparr>spend := drop k (spend s), down := down s @ take k (spend s)\<rparr>)"
| close: "spend s = [] \<Longrightarrow> up s = [] \<Longrightarrow> fin s \<Longrightarrow> \<not> closed s \<Longrightarrow> echo_step cu cd s (s\<lparr>closed := True\<rparr>)"

section \<open>The client with select\<close>

definition sel_socket :: "nat \<Rightarrow> session \<Rightarrow> session run" where
  "sel_socket n s =
     (if down s = [] then
        if eof s then Ret (s\<lparr>ended := True\<rparr>) else Fatal ''str_cli: server terminated prematurely''
      else Ret (s\<lparr>down := drop n (down s), outp := outp s @ take n (down s)\<rparr>))"

definition sel_stdin :: "nat \<Rightarrow> session \<Rightarrow> session" where
  "sel_stdin n s =
     (if inp s = [] then s\<lparr>eof := True, fin := True\<rparr>
      else s\<lparr>inp := drop n (inp s), cpend := take n (inp s)\<rparr>)"

text \<open>One iteration: \<open>rs\<close> and \<open>ri\<close> tell which descriptors \<open>select\<close> has returned.\<close>

definition sel_iter :: "bool \<Rightarrow> bool \<Rightarrow> nat \<Rightarrow> nat \<Rightarrow> session \<Rightarrow> session run" where
  "sel_iter rs ri n1 n2 s =
     run_bind (if rs then sel_socket n1 s else Ret s)
       (\<lambda>s1. Ret (if ri \<and> \<not> ended s1 then sel_stdin n2 s1 else s1))"

definition sel_ready :: "bool \<Rightarrow> bool \<Rightarrow> nat \<Rightarrow> nat \<Rightarrow> session \<Rightarrow> bool" where
  "sel_ready rs ri n1 n2 s \<longleftrightarrow> \<not> ended s \<and> cpend s = [] \<and> (rs \<or> ri) \<and> (rs \<longrightarrow> down s \<noteq> [] \<or> closed s) \<and>
     (ri \<longrightarrow> \<not> eof s) \<and> 0 < n1 \<and> n1 \<le> MAXLINE \<and> 0 < n2 \<and> n2 \<le> MAXLINE"

inductive sel_next :: "nat \<Rightarrow> nat \<Rightarrow> session \<Rightarrow> session \<Rightarrow> bool" for cu cd where
  net: "echo_step cu cd s s' \<Longrightarrow> sel_next cu cd s s'"
| iter: "sel_ready rs ri n1 n2 s \<Longrightarrow> sel_iter rs ri n1 n2 s = Ret s' \<Longrightarrow> sel_next cu cd s s'"

section \<open>Clients that read lines\<close>

text \<open>\<open>Readline\<close> returns a line with its newline, or \<open>MAXLINE - 1\<close> bytes.\<close>

definition line_done :: "byte list \<Rightarrow> bool" where
  "line_done bs \<longleftrightarrow> 10 \<in> set bs \<or> MAXLINE - 1 \<le> length bs"

definition rl_fill :: "nat \<Rightarrow> session \<Rightarrow> session" where
  "rl_fill k s = s\<lparr>down := drop k (down s), rbuf := rbuf s @ take k (down s)\<rparr>"

definition rl_line :: "session \<Rightarrow> session" where
  "rl_line s = (let (l, r) = fgets_split (MAXLINE - 1) (rbuf s) in s\<lparr>rbuf := r, outp := outp s @ c_str l\<rparr>)"

text \<open>
  The copying from standard input to the socket and back that two processes or threads do.  The process that
  sees the end of the replies ends the session: it kills its parent, or is the main thread.
\<close>

definition copyto :: "session \<Rightarrow> session" where
  "copyto s =
     (case Fgets MAXLINE (inp s) of
        Some (l, r) \<Rightarrow> s\<lparr>inp := r, cpend := c_str l\<rparr>
      | None \<Rightarrow> s\<lparr>eof := True, fin := True\<rparr>)"

inductive two_next :: "nat \<Rightarrow> nat \<Rightarrow> session \<Rightarrow> session \<Rightarrow> bool" for cu cd where
  net: "echo_step cu cd s s' \<Longrightarrow> two_next cu cd s s'"
| copyto: "\<not> ended s \<Longrightarrow> \<not> eof s \<Longrightarrow> cpend s = [] \<Longrightarrow> two_next cu cd s (copyto s)"
| fill: "\<not> ended s \<Longrightarrow> \<not> line_done (rbuf s) \<Longrightarrow> 0 < k \<Longrightarrow> k \<le> length (down s) \<Longrightarrow> k \<le> MAXLINE \<Longrightarrow>
    two_next cu cd s (rl_fill k s)"
| line: "\<not> ended s \<Longrightarrow> rbuf s \<noteq> [] \<Longrightarrow> line_done (rbuf s) \<or> down s = [] \<and> closed s \<Longrightarrow> two_next cu cd s (rl_line s)"
| return: "\<not> ended s \<Longrightarrow> rbuf s = [] \<Longrightarrow> down s = [] \<Longrightarrow> closed s \<Longrightarrow> two_next cu cd s (s\<lparr>ended := True\<rparr>)"

text \<open>The stop-and-wait client; when it returns the process exits, which closes the connection.\<close>

definition saw_send :: "session \<Rightarrow> session" where
  "saw_send s =
     (case Fgets MAXLINE (inp s) of
        Some (l, r) \<Rightarrow> s\<lparr>inp := r, cpend := c_str l, waiting := True\<rparr>
      | None \<Rightarrow> s\<lparr>ended := True, fin := True\<rparr>)"

definition saw_recv :: "session \<Rightarrow> session run" where
  "saw_recv s =
     (if rbuf s = [] then Fatal ''str_cli: server terminated prematurely''
      else Ret ((rl_line s)\<lparr>waiting := False\<rparr>))"

inductive saw_next :: "nat \<Rightarrow> nat \<Rightarrow> session \<Rightarrow> session \<Rightarrow> bool" for cu cd where
  net: "echo_step cu cd s s' \<Longrightarrow> saw_next cu cd s s'"
| send: "\<not> ended s \<Longrightarrow> \<not> waiting s \<Longrightarrow> saw_next cu cd s (saw_send s)"
| fill: "waiting s \<Longrightarrow> cpend s = [] \<Longrightarrow> \<not> line_done (rbuf s) \<Longrightarrow> 0 < k \<Longrightarrow> k \<le> length (down s) \<Longrightarrow> k \<le> MAXLINE \<Longrightarrow>
    saw_next cu cd s (rl_fill k s)"
| recv: "waiting s \<Longrightarrow> cpend s = [] \<Longrightarrow> line_done (rbuf s) \<or> down s = [] \<and> closed s \<Longrightarrow> saw_recv s = Ret s' \<Longrightarrow>
    saw_next cu cd s s'"

section \<open>Bytes in order, and a measure\<close>

definition pipe :: "session \<Rightarrow> byte list" where
  "pipe s = rbuf s @ down s @ spend s @ up s @ cpend s"

definition weight :: "session \<Rightarrow> nat" where
  "weight s = 7 * length (inp s) + 5 * length (cpend s) + 4 * length (up s) + 3 * length (spend s) + 2 * length (down s) +
     length (rbuf s) + (if closed s then 0 else 1) + (if eof s then 0 else 1) + (if ended s then 0 else 1) +
     (if waiting s then 1 else 0)"

definition tidy :: "session \<Rightarrow> bool" where
  "tidy s \<longleftrightarrow> (closed s \<longrightarrow> fin s \<and> up s = [] \<and> spend s = []) \<and> (fin s \<longrightarrow> inp s = [] \<and> cpend s = [])"

lemma echo_step_keeps:
  assumes "echo_step cu cd s s'"
  shows "pipe s' = pipe s \<and> inp s' = inp s \<and> outp s' = outp s \<and> rbuf s' = rbuf s \<and> fin s' = fin s \<and> eof s' = eof s \<and>
    waiting s' = waiting s \<and> ended s' = ended s \<and> (closed s' \<longrightarrow> closed s \<or> fin s)"
  using assms by cases (simp_all add: pipe_def)

lemma echo_step_weight: "echo_step cu cd s s' \<Longrightarrow> weight s' < weight s"
  by (induction rule: echo_step.induct) (simp_all add: weight_def)

lemma echo_step_tidy: "echo_step cu cd s s' \<Longrightarrow> tidy s \<Longrightarrow> tidy s'"
  by (induction rule: echo_step.induct) (auto simp: tidy_def)

text \<open>When the network rests, data is waiting only behind a full buffer.\<close>

lemma echo_step_rests:
  assumes "\<not> (\<exists>s'. echo_step cu cd s s')" and "0 < cu" and "0 < cd" and "tidy s"
  shows "cpend s \<noteq> [] \<longrightarrow> cu \<le> length (up s)" and "spend s \<noteq> [] \<longrightarrow> cd \<le> length (down s)"
    and "up s \<noteq> [] \<longrightarrow> spend s \<noteq> []" and "up s = [] \<and> spend s = [] \<and> fin s \<longrightarrow> closed s"
proof -
  have "\<not> length (up s) + 1 \<le> cu" if "cpend s \<noteq> []"
    using assms(1) echo_step.send [of 1 s cu cd] that by (cases "cpend s") auto
  then show "cpend s \<noteq> [] \<longrightarrow> cu \<le> length (up s)" by fastforce
  have "\<not> length (down s) + 1 \<le> cd" if "spend s \<noteq> []"
    using assms(1) echo_step.reply [of 1 s cd cu] that by (cases "spend s") auto
  then show "spend s \<noteq> [] \<longrightarrow> cd \<le> length (down s)" by fastforce
  show "up s \<noteq> [] \<longrightarrow> spend s \<noteq> []"
    using assms(1,4) echo_step.serve [of s 1 cu cd] MAXLINE_pos by (cases "up s") (auto simp: tidy_def Suc_le_eq)
  show "up s = [] \<and> spend s = [] \<and> fin s \<longrightarrow> closed s"
    using assms(1) echo_step.close [of s cu cd] by blast
qed

section \<open>The select client\<close>

definition sel_inv :: "byte list \<Rightarrow> session \<Rightarrow> bool" where
  "sel_inv bs s \<longleftrightarrow> tidy s \<and> rbuf s = [] \<and> \<not> waiting s \<and> (fin s \<longleftrightarrow> eof s) \<and> outp s @ pipe s @ inp s = bs \<and>
     (ended s \<longrightarrow> closed s \<and> down s = [])"

lemma sel_iter_keeps:
  assumes "sel_ready rs ri n1 n2 s" and "sel_iter rs ri n1 n2 s = Ret s'" and "sel_inv bs s"
  shows "sel_inv bs s' \<and> weight s' < weight s"
proof -
  have socket: "sel_inv bs s1 \<and> weight s1 < weight s \<and> cpend s1 = [] \<and> eof s1 = eof s"
    if "sel_socket n1 s = Ret s1" rs for s1
    using that assms(1,3)
    by (auto simp: sel_socket_def sel_inv_def sel_ready_def tidy_def pipe_def weight_def split: if_splits)
  have stdin: "sel_inv bs (sel_stdin n2 s1) \<and> weight (sel_stdin n2 s1) < weight s1"
    if "sel_inv bs s1" "cpend s1 = []" "\<not> eof s1" "\<not> ended s1" for s1
    using that assms(1)
    by (auto simp: sel_stdin_def sel_inv_def sel_ready_def tidy_def pipe_def weight_def
        min_def diff_mult_distrib2 split: if_splits)
  show ?thesis
  proof (cases rs)
    case True
    then obtain s1 where s1: "sel_socket n1 s = Ret s1" "s' = (if ri \<and> \<not> ended s1 then sel_stdin n2 s1 else s1)"
      using assms(2) by (auto simp: sel_iter_def run_bind_Ret_conv)
    then show ?thesis using socket [OF s1(1) True] stdin [of s1] assms(1) by (auto simp: sel_ready_def dest: less_trans)
  next
    case False
    then show ?thesis using assms stdin [of s] by (auto simp: sel_iter_def sel_ready_def)
  qed
qed

lemma sel_next_keeps:
  assumes "sel_inv bs s" and "sel_next cu cd s s'"
  shows "sel_inv bs s' \<and> weight s' < weight s"
  using assms(2)
proof cases
  case net
  then show ?thesis using assms(1) echo_step_keeps [OF net] echo_step_weight [OF net] echo_step_tidy [OF net]
    by (cases rule: echo_step.cases) (auto simp: sel_inv_def tidy_def)
qed (use sel_iter_keeps assms(1) in blast)

lemma sel_inv_init: "sel_inv bs (session_init bs)"
  by (simp add: sel_inv_def session_init_def tidy_def pipe_def)

lemma weight_init: "weight (session_init bs) = 7 * length bs + 3"
  by (simp add: weight_def session_init_def)

lemma sel_no_fatal:
  "sel_inv bs s \<Longrightarrow> sel_ready rs ri n1 n2 s \<Longrightarrow> sel_iter rs ri n1 n2 s \<noteq> Fatal m"
  by (auto simp: sel_inv_def sel_ready_def sel_iter_def sel_socket_def tidy_def run_bind_Fatal_conv split: if_splits)

text \<open>A session that rests is over, or both sides are writing against full buffers.\<close>

lemma sel_rests:
  assumes "sel_inv bs s" and "\<not> (\<exists>s'. sel_next cu cd s s')" and "0 < cu" and "0 < cd" and "length bs < cu + cd + 2"
  shows "ended s \<and> outp s = bs"
proof -
  have "\<not> (\<exists>s'. echo_step cu cd s s')" using assms(2) sel_next.net by blast
  moreover have t: "tidy s" using assms(1) by (simp add: sel_inv_def)
  ultimately have r: "cpend s \<noteq> [] \<longrightarrow> cu \<le> length (up s)" "spend s \<noteq> [] \<longrightarrow> cd \<le> length (down s)"
    "up s \<noteq> [] \<longrightarrow> spend s \<noteq> []" "up s = [] \<and> spend s = [] \<and> fin s \<longrightarrow> closed s"
    using echo_step_rests [OF _ assms(3,4)] by blast+
  have "length (down s) + length (spend s) + length (up s) + length (cpend s) \<le> length bs"
    using assms(1) by (auto simp: sel_inv_def pipe_def)
  then have c: "cpend s = []" using r(1-3) assms(3,5) by (cases "cpend s"; cases "spend s"; cases "up s") auto
  have e: "ended s"
  proof (rule ccontr)
    assume e: "\<not> ended s"
    show False
    proof (cases "eof s")
      case False
      then have "sel_ready False True 1 1 s" using e c by (simp add: sel_ready_def MAXLINE_def)
      then show False using assms(2) sel_next.iter [of False True 1 1 s] by (auto simp: sel_iter_def)
    next
      case True
      then have "down s \<noteq> [] \<or> closed s" using assms(1,4) r by (cases "spend s") (auto simp: sel_inv_def)
      then have "sel_ready True False 1 1 s" using e c by (simp add: sel_ready_def MAXLINE_def)
      moreover obtain s' where "sel_iter True False 1 1 s = Ret s'" using True by (cases "down s = []") (simp_all add: sel_iter_def sel_socket_def)
      ultimately show False using assms(2) sel_next.iter by blast
    qed
  qed
  then show ?thesis using assms(1) by (auto simp: sel_inv_def tidy_def pipe_def)
qed

text \<open>A session in its first phase, and how its bytes move on one by one.\<close>

definition sess :: "byte list \<Rightarrow> byte list \<Rightarrow> byte list \<Rightarrow> byte list \<Rightarrow> byte list \<Rightarrow> session" where
  "sess i c u p d = (session_init i)\<lparr>cpend := c, up := u, spend := p, down := d\<rparr>"

lemma sess_init: "sess bs [] [] [] [] = session_init bs"
  by (simp add: sess_def session_init_def)

lemma sel_one: "sel_next cu cd s s' \<Longrightarrow> reached (sel_next cu cd) s s'"
  by (rule reached_one)

lemma sel_more: "reached (sel_next cu cd) s0 s \<Longrightarrow> sel_next cu cd s s' \<Longrightarrow> reached (sel_next cu cd) s0 s'"
  by (rule reached.step)

lemma sess_in: "sel_next cu cd (sess (b # i) [] u p d) (sess i [b] u p d)"
proof (rule sel_next.iter [of False True 1 1])
  show "sel_ready False True 1 1 (sess (b # i) [] u p d)"
    by (simp add: sel_ready_def sess_def session_init_def MAXLINE_def)
qed (simp add: sel_iter_def sel_stdin_def sess_def session_init_def)

lemma sess_send: "length u < cu \<Longrightarrow> sel_next cu cd (sess i [b] u p d) (sess i [] (u @ [b]) p d)"
  using echo_step.send [of 1 "sess i [b] u p d" cu cd] by (intro sel_next.net) (simp add: sess_def session_init_def)

lemma sess_serve: "sel_next cu cd (sess i [] [b] [] d) (sess i [] [] [b] d)"
  using echo_step.serve [of "sess i [] [b] [] d" 1 cu cd]
  by (intro sel_next.net) (simp add: sess_def session_init_def MAXLINE_def)

lemma sess_reply: "length d < cd \<Longrightarrow> sel_next cu cd (sess i [] [] [b] d) (sess i [] [] [] (d @ [b]))"
  using echo_step.reply [of 1 "sess i [] [] [b] d" cd cu] by (intro sel_next.net) (simp add: sess_def session_init_def)

lemma sess_to_server: "0 < cu \<Longrightarrow> reached (sel_next cu cd) (sess (b # i) [] [] [] d) (sess i [] [] [b] d)"
  using sel_more [OF sel_more [OF sel_one [OF sess_in] sess_send [of "[]" cu, simplified]] sess_serve] by simp

lemma sess_fill_down:
  "0 < cu \<Longrightarrow> length d + length xs \<le> cd \<Longrightarrow> reached (sel_next cu cd) (sess (xs @ i) [] [] [] d) (sess i [] [] [] (d @ xs))"
proof (induction xs arbitrary: d)
  case (Cons x xs)
  then have "reached (sel_next cu cd) (sess (x # xs @ i) [] [] [] d) (sess (xs @ i) [] [] [] (d @ [x]))"
    using sel_more [OF sess_to_server sess_reply] by simp
  then show ?case using Cons.IH [of "d @ [x]"] Cons.prems reached_trans by fastforce
qed (simp add: reached.start)

lemma sess_fill_up:
  "length u + length xs \<le> cu \<Longrightarrow> reached (sel_next cu cd) (sess (xs @ i) [] u p d) (sess i [] (u @ xs) p d)"
proof (induction xs arbitrary: u)
  case (Cons x xs)
  then have "reached (sel_next cu cd) (sess (x # xs @ i) [] u p d) (sess (xs @ i) [] (u @ [x]) p d)"
    using sel_more [OF sel_one [OF sess_in] sess_send] by simp
  then show ?case using Cons.IH [of "u @ [x]"] Cons.prems reached_trans by fastforce
qed (simp add: reached.start)

lemma sess_full_rests: "\<not> sel_next (length u) (length d) (sess i [b] u [c] d) s'"
  by (auto simp: sess_def session_init_def sel_ready_def elim!: sel_next.cases echo_step.cases)

lemma sel_deadlock:
  assumes "0 < cu" and "cu + cd + 2 \<le> length bs"
  shows "\<exists>s. reached (sel_next cu cd) (session_init bs) s \<and> \<not> (\<exists>s'. sel_next cu cd s s') \<and> \<not> ended s"
proof -
  define d c u b r where "d = take cd bs" and "c = bs ! cd" and "u = take cu (drop (cd + 1) bs)"
    and "b = bs ! (cd + 1 + cu)" and "r = drop (cd + cu + 2) bs"
  have bs: "bs = d @ c # u @ b # r" and l: "length d = cd" "length u = cu"
    using assms(2) unfolding d_def c_def u_def b_def r_def
    by (auto simp: Cons_nth_drop_Suc append_eq_conv_conj take_drop add.commute intro!: nth_equalityI simp: nth_append nth_Cons')
  have "reached (sel_next cu cd) (session_init bs) (sess (c # u @ b # r) [] [] [] d)"
    using sess_fill_down [of cu "[]" d cd "c # u @ b # r"] assms(1) l by (simp add: bs sess_init)
  from reached_trans [OF sess_to_server [OF assms(1)] this]
  have "reached (sel_next cu cd) (session_init bs) (sess (u @ b # r) [] [] [c] d)" .
  from reached_trans [OF sess_fill_up this] have "reached (sel_next cu cd) (session_init bs) (sess (b # r) [] u [c] d)"
    using l by simp
  from sel_more [OF this sess_in] have "reached (sel_next cu cd) (session_init bs) (sess r [b] u [c] d)" .
  moreover have "\<not> ended (sess r [b] u [c] d)" by (simp add: sess_def session_init_def)
  ultimately show ?thesis using sess_full_rests [of u d r b c] l by blast
qed

text \<open>
  C2: A session of the \<open>select\<close> client with \<open>str_echo\<close> over buffers of \<open>cu\<close> and \<open>cd\<close> bytes.  Every run has at most
  \<open>7 * length bs + 3\<close> steps and never ends the client with an error.  If the input has fewer than \<open>cu + cd + 2\<close>
  bytes, every run that can go no further has returned with the whole input, in order, on standard output; if it
  has more, there is a run in which client and server wait for each other forever.
\<close>

theorem select_session:
  assumes "0 < cu" and "0 < cd"
  shows "(\<forall>n s. steps (sel_next cu cd) n (session_init bs) s \<longrightarrow> n \<le> 7 * length bs + 3 \<and>
      (\<forall>rs ri n1 n2 m. sel_ready rs ri n1 n2 s \<longrightarrow> sel_iter rs ri n1 n2 s \<noteq> Fatal m)) \<and>
    ((\<forall>s. reached (sel_next cu cd) (session_init bs) s \<and> \<not> (\<exists>s'. sel_next cu cd s s') \<longrightarrow> ended s \<and> outp s = bs)
      \<longleftrightarrow> length bs < cu + cd + 2)"
proof (intro conjI allI impI iffI)
  fix n s assume run: "steps (sel_next cu cd) n (session_init bs) s"
  have k: "sel_inv bs s \<and> n + weight s \<le> weight (session_init bs)"
    by (rule steps_measure [where I = "sel_inv bs", OF run sel_inv_init]) (rule sel_next_keeps)
  show "n \<le> 7 * length bs + 3" using k by (simp add: weight_init)
  show "sel_iter rs ri n1 n2 s \<noteq> Fatal m" if "sel_ready rs ri n1 n2 s" for rs ri n1 n2 m
    using sel_no_fatal that k by blast
next
  assume all: "\<forall>s. reached (sel_next cu cd) (session_init bs) s \<and> \<not> (\<exists>s'. sel_next cu cd s s') \<longrightarrow> ended s \<and> outp s = bs"
  show "length bs < cu + cd + 2" using sel_deadlock [OF assms(1), of cd bs] all by (meson not_less)
next
  fix s assume l: "length bs < cu + cd + 2" and s: "reached (sel_next cu cd) (session_init bs) s \<and> \<not> (\<exists>s'. sel_next cu cd s s')"
  have "sel_inv bs s" using reached_inv [OF conjunct1 [OF s], of "sel_inv bs"] sel_inv_init sel_next_keeps by blast
  then show "ended s" "outp s = bs" using sel_rests s assms l by blast+
qed

theorem select_session_witness:
  "\<not> (\<forall>s. reached (sel_next 1 1) (session_init [1, 2, 3, 4]) s \<and> \<not> (\<exists>s'. sel_next 1 1 s s') \<longrightarrow> ended s \<and> outp s = [1, 2, 3, 4])"
  using select_session [of 1 1 "[1, 2, 3, 4]"] by simp

section \<open>Two processes or threads\<close>

lemma c_str_plain: "0 \<notin> set bs \<Longrightarrow> c_str bs = bs"
  by (auto simp: c_str_def takeWhile_eq_all_conv)

lemma copyto_cases:
  assumes "0 \<notin> set (inp s)"
  obtains "inp s = []" "copyto s = s\<lparr>eof := True, fin := True\<rparr>"
  | l r where "inp s = l @ r" "l \<noteq> []" "copyto s = s\<lparr>inp := r, cpend := l\<rparr>"
proof (cases "Fgets MAXLINE (inp s)")
  case None
  then show ?thesis using that(1) by (simp add: copyto_def)
next
  case (Some p)
  then obtain l r where p: "Fgets MAXLINE (inp s) = Some (l, r)" by (cases p) auto
  note f = Fgets_Some [OF p]
  have "c_str l = l" using assms f(1) by (intro c_str_plain) (auto simp: MAXLINE_def)
  then show ?thesis using that(2) [of l r] f(1,2) p by (simp add: copyto_def MAXLINE_def)
qed

lemma rl_line_cases:
  assumes "0 \<notin> set (rbuf s)" and "rbuf s \<noteq> []"
  obtains l r where "rbuf s = l @ r" "l \<noteq> []" "rl_line s = s\<lparr>rbuf := r, outp := outp s @ l\<rparr>"
proof -
  obtain l r where p: "fgets_split (MAXLINE - 1) (rbuf s) = (l, r)" by (meson surj_pair)
  then have "Fgets MAXLINE (rbuf s) = Some (l, r)" using assms(2) by (simp add: Fgets_def)
  note f = Fgets_Some [OF this]
  have "c_str l = l" using assms(1) f(1) by (intro c_str_plain) (auto simp: MAXLINE_def)
  then show ?thesis using that [of l r] f(1,2) p by (simp add: rl_line_def MAXLINE_def)
qed

definition two_inv :: "byte list \<Rightarrow> session \<Rightarrow> bool" where
  "two_inv bs s \<longleftrightarrow> tidy s \<and> \<not> waiting s \<and> (fin s \<longleftrightarrow> eof s) \<and> outp s @ pipe s @ inp s = bs \<and>
     (ended s \<longrightarrow> closed s \<and> down s = [] \<and> rbuf s = [])"

lemma two_next_keeps:
  assumes "0 \<notin> set bs" and "two_inv bs s" and "two_next cu cd s s'"
  shows "two_inv bs s' \<and> weight s' < weight s"
  using assms(3)
proof cases
  case net
  then show ?thesis using assms(2) echo_step_keeps [OF net] echo_step_weight [OF net] echo_step_tidy [OF net]
    by (cases rule: echo_step.cases) (auto simp: two_inv_def tidy_def)
next
  case copyto
  have z: "0 \<notin> set (inp s)" using assms(1,2) by (auto simp: two_inv_def)
  show ?thesis
    by (rule copyto_cases [OF z]) (use assms(2) copyto in \<open>auto simp: two_inv_def tidy_def pipe_def weight_def\<close>)
next
  case (fill k)
  then show ?thesis using assms(2) by (cases "down s") (auto simp: rl_fill_def two_inv_def tidy_def pipe_def weight_def)
next
  case line
  have z: "0 \<notin> set (rbuf s)" using assms(1,2) by (auto simp: two_inv_def pipe_def)
  show ?thesis
    by (rule rl_line_cases [OF z line(3)]) (use assms(2) line in \<open>auto simp: two_inv_def tidy_def pipe_def weight_def\<close>)
next
  case return
  then show ?thesis using assms(2) by (auto simp: two_inv_def tidy_def pipe_def weight_def)
qed

lemma two_inv_init: "two_inv bs (session_init bs)"
  by (simp add: two_inv_def session_init_def tidy_def pipe_def)

lemma fill_possible: "\<not> line_done (rbuf s) \<Longrightarrow> down s \<noteq> [] \<Longrightarrow> \<exists>k>0. k \<le> length (down s) \<and> k \<le> MAXLINE"
  by (intro exI [of _ 1]) (auto simp: MAXLINE_def Suc_le_eq)

lemma two_rests:
  assumes "two_inv bs s" and "\<not> (\<exists>s'. two_next cu cd s s')" and "0 < cu" and "0 < cd"
  shows "ended s \<and> outp s = bs"
proof -
  have "\<not> (\<exists>s'. echo_step cu cd s s')" using assms(2) two_next.net by blast
  moreover have t: "tidy s" using assms(1) by (simp add: two_inv_def)
  ultimately have r: "cpend s \<noteq> [] \<longrightarrow> cu \<le> length (up s)" "spend s \<noteq> [] \<longrightarrow> cd \<le> length (down s)"
    "up s \<noteq> [] \<longrightarrow> spend s \<noteq> []" "up s = [] \<and> spend s = [] \<and> fin s \<longrightarrow> closed s"
    using echo_step_rests [OF _ assms(3,4)] by blast+
  have e: "ended s"
  proof (rule ccontr)
    assume e: "\<not> ended s"
    have nl: "\<not> line_done (rbuf s)" using two_next.line [OF e] assms(2) by (force simp: line_done_def MAXLINE_def)
    have d: "down s = []" using fill_possible [OF nl] two_next.fill [OF e nl] assms(2) by blast
    then have "spend s = []" "up s = []" "cpend s = []" using r assms(3,4) by auto
    moreover then have "eof s" using two_next.copyto [OF e] assms(2) by blast
    ultimately have "closed s" using r(4) assms(1) by (simp add: two_inv_def)
    then show False using two_next.line [OF e] two_next.return [OF e] d assms(2) by blast
  qed
  then show ?thesis using assms(1) by (auto simp: two_inv_def tidy_def pipe_def)
qed

text \<open>
  C9: A session of the client with two processes or two threads with \<open>str_echo\<close>, for input without NUL bytes.  In
  contrast to the \<open>select\<close> client it needs no room in the buffers: whatever their sizes, every run has at most
  \<open>7 * length bs + 3\<close> steps, and when it can go no further the client has returned with the whole input, in order,
  on standard output.
\<close>

theorem two_process_session:
  assumes "0 < cu" and "0 < cd" and "0 \<notin> set bs" and "steps (two_next cu cd) n (session_init bs) s"
  shows "n \<le> 7 * length bs + 3 \<and> (\<exists>rest. bs = outp s @ rest) \<and>
    ((\<exists>s'. two_next cu cd s s') \<or> ended s \<and> outp s = bs)"
proof -
  have k: "two_inv bs s \<and> n + weight s \<le> weight (session_init bs)"
    by (rule steps_measure [where I = "two_inv bs", OF assms(4) two_inv_init]) (rule two_next_keeps [OF assms(3)])
  moreover then have "\<exists>rest. bs = outp s @ rest" by (auto simp: two_inv_def)
  ultimately show ?thesis using two_rests [of bs s cu cd] assms(1,2) by (auto simp: weight_init)
qed

theorem two_process_session_witness:
  "\<exists>s'. two_next 1 1 (session_init [97, 10]) s'"
  using two_process_session [OF _ _ _ steps.none, of 1 1 "[97, 10]"] by (auto simp: session_init_def)

section \<open>Stop and wait\<close>

text \<open>A line as \<open>fgets\<close> returns it is complete only at its end.\<close>

lemma fgets_split_again: "fgets_split n bs = (l, r) \<Longrightarrow> fgets_split n l = (l, [])"
  by (induction n bs arbitrary: l r rule: fgets_split.induct) (auto split: if_splits prod.splits)

lemma fgets_split_whole:
  "fgets_split n (p @ q) = (p @ q, []) \<Longrightarrow> 10 \<in> set p \<or> n \<le> length p \<Longrightarrow> q = []"
  by (induction n p rule: fgets_split.induct) (auto split: if_splits prod.splits)

lemma fgets_split_rest: "fgets_split n bs = (l, r) \<Longrightarrow> 10 \<notin> set l \<Longrightarrow> length l < n \<Longrightarrow> r = []"
  by (induction n bs arbitrary: l r rule: fgets_split.induct) (auto split: if_splits prod.splits)

definition one_line :: "byte list \<Rightarrow> bool" where
  "one_line l \<longleftrightarrow> fgets_split (MAXLINE - 1) l = (l, []) \<and> length l < MAXLINE"

lemma one_line_done: "one_line (p @ q) \<Longrightarrow> line_done p \<Longrightarrow> q = []"
  by (auto simp: one_line_def line_done_def dest: fgets_split_whole)

lemma Fgets_one_line:
  assumes "Fgets MAXLINE bs = Some (l, r)"
  shows "one_line l" and "fgets_lines MAXLINE bs = l # fgets_lines MAXLINE r" and "bs = l @ r" and "l \<noteq> []"
proof -
  have m: "2 \<le> MAXLINE" by (simp add: MAXLINE_def)
  note f = Fgets_Some [OF assms m]
  show "one_line l" using assms f(3) fgets_split_again by (auto simp: one_line_def Fgets_def split: if_splits)
  show "fgets_lines MAXLINE bs = l # fgets_lines MAXLINE r" by (rule fgets_lines_step [OF m assms])
qed (use Fgets_Some [OF assms] in \<open>simp_all add: MAXLINE_def\<close>)

definition saw_inv :: "byte list \<Rightarrow> session \<Rightarrow> bool" where
  "saw_inv bs s \<longleftrightarrow> tidy s \<and> \<not> eof s \<and> (fin s \<longleftrightarrow> ended s) \<and> (ended s \<longrightarrow> \<not> waiting s) \<and>
     (if waiting s then one_line (pipe s) \<and> pipe s \<noteq> [] else pipe s = []) \<and> outp s @ pipe s @ inp s = bs \<and>
     (\<exists>ls. (\<forall>l \<in> set ls. line_done l) \<and> outp s = concat ls \<and>
        fgets_lines MAXLINE bs = ls @ (if waiting s then [pipe s] else []) @ fgets_lines MAXLINE (inp s))"

lemma saw_send_keeps:
  assumes "0 \<notin> set bs" and "saw_inv bs s" and "\<not> ended s" and "\<not> waiting s"
  shows "saw_inv bs (saw_send s) \<and> weight (saw_send s) < weight s"
proof (cases "Fgets MAXLINE (inp s)")
  case None
  then show ?thesis using assms by (auto simp: saw_send_def saw_inv_def tidy_def pipe_def weight_def)
next
  case (Some p)
  then obtain l r where p: "Fgets MAXLINE (inp s) = Some (l, r)" by (cases p) auto
  note f = Fgets_one_line [OF p]
  have "0 \<notin> set l" using assms(1,2) f(3) by (auto simp: saw_inv_def)
  then have s': "saw_send s = s\<lparr>inp := r, cpend := l, waiting := True\<rparr>" using p by (simp add: saw_send_def c_str_plain)
  show ?thesis unfolding s' using assms(2-4) f by (cases l) (auto simp: saw_inv_def tidy_def pipe_def weight_def)
qed

lemma saw_recv_keeps:
  assumes "0 \<notin> set bs" and "saw_inv bs s" and "waiting s" and "line_done (rbuf s) \<or> down s = [] \<and> closed s"
    and "saw_recv s = Ret s'"
  shows "saw_inv bs s' \<and> weight s' < weight s"
proof -
  have d: "line_done (rbuf s)" using assms(2-4) by (auto simp: saw_inv_def tidy_def)
  have o: "one_line (rbuf s @ down s @ spend s @ up s @ cpend s)" using assms(2,3) by (auto simp: saw_inv_def pipe_def)
  have e: "down s = []" "spend s = []" "up s = []" "cpend s = []" using one_line_done [OF o d] by auto
  then have sp: "fgets_split (MAXLINE - 1) (rbuf s) = (rbuf s, [])" using o by (simp add: one_line_def)
  have "0 \<notin> set (rbuf s)" using assms(1,2) by (auto simp: saw_inv_def pipe_def)
  then have s': "s' = s\<lparr>rbuf := [], outp := outp s @ rbuf s, waiting := False\<rparr>" and ne: "rbuf s \<noteq> []"
    using assms(5) sp by (auto simp: saw_recv_def rl_line_def c_str_plain split: if_splits)
  have p: "pipe s = rbuf s" using e by (simp add: pipe_def)
  obtain ls where ls: "\<forall>l \<in> set ls. line_done l" "outp s = concat ls"
    "fgets_lines MAXLINE bs = ls @ [rbuf s] @ fgets_lines MAXLINE (inp s)"
    using assms(2,3) p by (auto simp: saw_inv_def)
  have "\<exists>ls'. (\<forall>l \<in> set ls'. line_done l) \<and> outp s @ rbuf s = concat ls' \<and>
      fgets_lines MAXLINE bs = ls' @ fgets_lines MAXLINE (inp s)"
    by (rule exI [of _ "ls @ [rbuf s]"]) (use ls d in auto)
  then show ?thesis unfolding s' using assms(2,3) e ne by (auto simp: saw_inv_def tidy_def pipe_def weight_def)
qed

lemma saw_next_keeps:
  assumes "0 \<notin> set bs" and "saw_inv bs s" and "saw_next cu cd s s'"
  shows "saw_inv bs s' \<and> weight s' < weight s"
  using assms(3)
proof cases
  case net
  note k = echo_step_keeps [OF net] echo_step_weight [OF net] echo_step_tidy [OF net]
  have "saw_inv bs s'" using assms(2) k unfolding saw_inv_def by (simp split del: if_split cong: if_cong)
  then show ?thesis using k by blast
next
  case send
  then show ?thesis using saw_send_keeps [OF assms(1,2)] by simp
next
  case (fill k)
  have "pipe s' = pipe s" by (simp add: fill pipe_def rl_fill_def)
  then show ?thesis using assms(2) fill by (auto simp: rl_fill_def saw_inv_def tidy_def weight_def)
next
  case recv
  then show ?thesis using saw_recv_keeps [OF assms(1,2)] by simp
qed

lemma saw_inv_init: "saw_inv bs (session_init bs)"
  by (simp add: saw_inv_def session_init_def tidy_def pipe_def)

lemma saw_rests:
  assumes "saw_inv bs s" and "\<not> (\<exists>s'. saw_next cu cd s s')" and "0 < cu" and "0 < cd" and "MAXLINE \<le> cu + cd + 2"
  shows "ended s \<or> waiting s \<and> \<not> line_done (pipe s)"
proof (rule disjCI)
  assume "\<not> (waiting s \<and> \<not> line_done (pipe s))"
  then have cpl: "waiting s \<longrightarrow> line_done (pipe s)" by blast
  have "\<not> (\<exists>s'. echo_step cu cd s s')" using assms(2) saw_next.net by blast
  moreover have t: "tidy s" using assms(1) by (simp add: saw_inv_def)
  ultimately have r: "cpend s \<noteq> [] \<longrightarrow> cu \<le> length (up s)" "spend s \<noteq> [] \<longrightarrow> cd \<le> length (down s)"
    "up s \<noteq> [] \<longrightarrow> spend s \<noteq> []"
    using echo_step_rests [OF _ assms(3,4)] by blast+
  show "ended s"
  proof (rule ccontr)
    assume "\<not> ended s"
    then have w: "waiting s" using saw_next.send assms(2) by blast
    have "length (pipe s) < MAXLINE" using assms(1) w by (auto simp: saw_inv_def one_line_def)
    then have c: "cpend s = []" using r assms(3,5) by (cases "cpend s"; cases "spend s"; cases "up s") (auto simp: pipe_def)
    have nl: "\<not> line_done (rbuf s)"
    proof
      assume d: "line_done (rbuf s)"
      then have "rbuf s \<noteq> []" by (auto simp: line_done_def MAXLINE_def)
      then show False using saw_next.recv [OF w c disjI1 [OF d]] assms(2) by (auto simp: saw_recv_def)
    qed
    then have "down s = []" using fill_possible [OF nl] saw_next.fill [OF w c nl] assms(2) by blast
    then have "pipe s = rbuf s" using c r assms(3,4) by (auto simp: pipe_def)
    then show False using nl cpl w by simp
  qed
qed

text \<open>
  C10: A session of the stop-and-wait client with \<open>str_echo\<close>, for input without NUL bytes and buffers that hold a line.
  Every run is finite.  If every line that \<open>fgets\<close> reads is complete, a run that can go no further has returned with
  the whole input on standard output; if the last line has no newline (and is shorter than the buffer), it never
  returns: it ends in the \<open>Readline\<close> that waits for the newline the server will not send.
\<close>

theorem stop_and_wait_session:
  assumes "0 < cu" and "0 < cd" and "MAXLINE \<le> cu + cd + 2" and "0 \<notin> set bs"
    and "steps (saw_next cu cd) n (session_init bs) s"
  shows "n \<le> 7 * length bs + 3 \<and>
    ((\<exists>s'. saw_next cu cd s s') \<or>
     (if \<forall>l \<in> set (fgets_lines MAXLINE bs). line_done l then ended s \<and> outp s = bs else waiting s \<and> \<not> ended s))"
proof -
  have k: "saw_inv bs s \<and> n + weight s \<le> weight (session_init bs)"
    by (rule steps_measure [where I = "saw_inv bs", OF assms(5) saw_inv_init]) (rule saw_next_keeps [OF assms(4)])
  then have i: "saw_inv bs s" by blast
  have "ended s \<Longrightarrow> (\<forall>l \<in> set (fgets_lines MAXLINE bs). line_done l) \<and> outp s = bs"
    using i by (auto simp: saw_inv_def tidy_def)
  moreover have "waiting s \<Longrightarrow> pipe s \<in> set (fgets_lines MAXLINE bs) \<and> \<not> ended s" using i by (auto simp: saw_inv_def)
  moreover have "(\<exists>s'. saw_next cu cd s s') \<or> ended s \<or> waiting s \<and> \<not> line_done (pipe s)"
    using saw_rests [OF i _ assms(1-3)] by blast
  moreover have "n \<le> 7 * length bs + 3" using k by (simp add: weight_init)
  ultimately show ?thesis by (metis (no_types, lifting))
qed

theorem stop_and_wait_session_witness:
  "\<exists>s'. saw_next 4096 4096 (session_init [97, 98]) s'"
  using stop_and_wait_session [OF _ _ _ _ steps.none, of 4096 4096 "[97, 98]"]
  by (auto simp: session_init_def MAXLINE_def split: if_splits)

end
