(* ===== verification/Children.thy ===== *)
theory Children
  imports Runs Kernel
begin

text \<open>
  The forking echo server \<open>tcpcliserv/tcpserv04.c\<close> with its two signal handlers for \<open>SIGCHLD\<close>:
  \<open>sigchldwaitpid.c\<close>, which the server needs, and \<open>sigchldwait.c\<close>, which it must not use.
\<close>

section \<open>The server and its children\<close>

text \<open>
  \<open>fds\<close> are the parent's descriptors, the first of which is the listening socket; a child is its process id with
  its descriptors.  A child that has exited is a zombie until it is waited for.  A signal that is generated while one is pending,
  or blocked because the handler runs, is not queued.
\<close>

record forking =
  fds :: "int list"
  running :: "(nat \<times> int list) list"
  zombies :: "nat list"
  next_pid :: nat
  chld_pending :: bool
  in_handler :: bool
  reaped :: "nat list"

definition forking_init :: "int list \<Rightarrow> forking" where
  "forking_init os = \<lparr>fds = os, running = [], zombies = [], next_pid = 1, chld_pending = False, in_handler = False, reaped = []\<rparr>"

text \<open>
  One turn of the main loop, given what \<open>accept\<close> returned.  The child closes the listening socket at once, the
  parent the connected one.
\<close>

definition tcpserv_turn :: "errno + unit \<Rightarrow> forking \<Rightarrow> forking run" where
  "tcpserv_turn r s =
     (case r of
        Inl e \<Rightarrow> if e = EINTR then Ret s else Fatal ''accept error''
      | Inr _ \<Rightarrow>
          (let listenfd = hd (fds s); connfd = lowest_free (fds s); opened = connfd # fds s;
               child = (next_pid s, removeAll listenfd opened)
           in Ret (s\<lparr>fds := removeAll connfd opened, running := running s @ [child], next_pid := next_pid s + 1\<rparr>)))"

definition child_exit :: "nat \<Rightarrow> forking \<Rightarrow> forking" where
  "child_exit pid s =
     s\<lparr>running := filter (\<lambda>c. fst c \<noteq> pid) (running s), zombies := zombies s @ [pid], chld_pending := True\<rparr>"

text \<open>\<open>waitpid(-1, &stat, WNOHANG)\<close>: the process id of a zombie, or a value that is not positive.\<close>

definition reap :: "forking \<Rightarrow> forking option" where
  "reap s = (case zombies s of [] \<Rightarrow> None | z # zs \<Rightarrow> Some (s\<lparr>zombies := zs, reaped := reaped s @ [z]\<rparr>))"

inductive serv_step :: "forking \<Rightarrow> forking \<Rightarrow> bool" where
  turn: "\<not> in_handler s \<Longrightarrow> tcpserv_turn r s = Ret s' \<Longrightarrow> serv_step s s'"
| exit: "pid \<in> fst ` set (running s) \<Longrightarrow> serv_step s (child_exit pid s)"
| deliver: "chld_pending s \<Longrightarrow> \<not> in_handler s \<Longrightarrow> serv_step s (s\<lparr>chld_pending := False, in_handler := True\<rparr>)"

text \<open>The handler with \<open>waitpid\<close> in a loop, and the one with a single \<open>wait\<close>, one call per step.\<close>

inductive waitpid_step :: "forking \<Rightarrow> forking \<Rightarrow> bool" where
  serv: "serv_step s s' \<Longrightarrow> waitpid_step s s'"
| again: "in_handler s \<Longrightarrow> reap s = Some s' \<Longrightarrow> waitpid_step s s'"
| return: "in_handler s \<Longrightarrow> reap s = None \<Longrightarrow> waitpid_step s (s\<lparr>in_handler := False\<rparr>)"

inductive wait_step :: "forking \<Rightarrow> forking \<Rightarrow> bool" where
  serv: "serv_step s s' \<Longrightarrow> wait_step s s'"
| return: "in_handler s \<Longrightarrow> reap s = Some s' \<Longrightarrow> wait_step s (s'\<lparr>in_handler := False\<rparr>)"

section \<open>What stays true\<close>

definition known :: "forking \<Rightarrow> nat list" where
  "known s = map fst (running s) @ zombies s @ reaped s"

definition forking_ok :: "int list \<Rightarrow> forking \<Rightarrow> bool" where
  "forking_ok os s \<longleftrightarrow> fds s = os \<and> distinct (known s) \<and> set (known s) = {1 ..< next_pid s} \<and> 1 \<le> next_pid s \<and>
     (\<forall>c \<in> set (running s). snd c = lowest_free os # removeAll (hd os) os)"

lemma turn_ok:
  assumes "tcpserv_turn r s = Ret s'" and "forking_ok os s" and "os \<noteq> []"
  shows "forking_ok os s' \<and> zombies s' = zombies s \<and> chld_pending s' = chld_pending s \<and> in_handler s' = in_handler s"
proof (cases r)
  case (Inl e)
  then show ?thesis using assms by (auto simp: tcpserv_turn_def split: if_splits)
next
  case (Inr u)
  have l: "lowest_free os \<notin> set os" by (rule lowest_free_fresh)
  then have h: "lowest_free os \<noteq> hd os" using assms(3) by (metis list.set_sel(1))
  have n: "set (known s) = {1 ..< next_pid s}" "1 \<le> next_pid s" using assms(2) by (simp_all add: forking_ok_def)
  have s': "s' = s\<lparr>running := running s @ [(next_pid s, lowest_free os # removeAll (hd os) os)], next_pid := next_pid s + 1\<rparr>"
    using assms(1,2) Inr l h by (cases s) (simp add: tcpserv_turn_def Let_def forking_ok_def removeAll_id)
  have "set (known s') = insert (next_pid s) (set (known s))" by (auto simp: s' known_def)
  also have "\<dots> = {1 ..< next_pid s'}" using n by (auto simp: s')
  finally have "set (known s') = {1 ..< next_pid s'}" .
  moreover have "next_pid s \<notin> set (known s)" using n by simp
  then have "distinct (known s')" using assms(2) by (auto simp: forking_ok_def s' known_def)
  ultimately show ?thesis using assms(2) by (auto simp: forking_ok_def s')
qed

lemma exit_ok:
  assumes "pid \<in> fst ` set (running s)" and "forking_ok os s"
  shows "forking_ok os (child_exit pid s)"
proof -
  let ?r = "map fst (running s)"
  have m: "map fst (filter (\<lambda>c. fst c \<noteq> pid) (running s)) = filter (\<lambda>p. p \<noteq> pid) ?r"
    by (simp add: filter_map comp_def)
  have k: "known (child_exit pid s) = filter (\<lambda>p. p \<noteq> pid) ?r @ zombies s @ [pid] @ reaped s"
    by (simp add: known_def child_exit_def m)
  have "set (known (child_exit pid s)) = set (known s)" using assms(1) unfolding k by (auto simp: known_def)
  moreover have "distinct (known (child_exit pid s))" using assms unfolding k by (auto simp: known_def forking_ok_def)
  ultimately show ?thesis using assms(2) by (auto simp: forking_ok_def child_exit_def)
qed

lemma distinct_move: "distinct (ps @ (z # zs) @ rs) \<Longrightarrow> distinct (ps @ zs @ rs @ [z])"
  by auto

lemma reap_ok:
  assumes "reap s = Some s'" and "forking_ok os s"
  shows "forking_ok os s' \<and> in_handler s' = in_handler s \<and> chld_pending s' = chld_pending s \<and> fds s' = fds s"
proof -
  obtain z zs where z: "zombies s = z # zs" "s' = s\<lparr>zombies := zs, reaped := reaped s @ [z]\<rparr>"
    using assms(1) by (auto simp: reap_def split: list.splits)
  have "known s' = map fst (running s) @ zs @ reaped s @ [z]" by (simp add: z known_def)
  moreover have "distinct (map fst (running s) @ zs @ reaped s @ [z])"
    using assms(2) by (intro distinct_move) (simp add: forking_ok_def known_def z)
  moreover have "set (map fst (running s) @ zs @ reaped s @ [z]) = set (known s)" by (auto simp: known_def z)
  ultimately show ?thesis using assms(2) by (simp add: forking_ok_def z(2))
qed

lemma forking_ok_cong: "forking_ok os (s\<lparr>in_handler := b\<rparr>) = forking_ok os s" "forking_ok os (s\<lparr>chld_pending := c\<rparr>) = forking_ok os s"
  by (simp_all add: forking_ok_def known_def)

lemma serv_step_ok:
  assumes "serv_step s s'" and "forking_ok os s" and "os \<noteq> []"
  shows "forking_ok os s' \<and> (zombies s' \<noteq> [] \<longrightarrow> zombies s \<noteq> [] \<or> chld_pending s') \<and>
    (chld_pending s \<or> in_handler s \<longrightarrow> chld_pending s' \<or> in_handler s')"
  using assms
proof cases
  case turn
  then show ?thesis using turn_ok [OF turn(2) assms(2,3)] by auto
next
  case (exit pid)
  then show ?thesis using exit_ok [OF exit(2) assms(2)] by (auto simp: child_exit_def)
next
  case deliver
  then show ?thesis using assms(2) by (simp add: forking_ok_cong)
qed

text \<open>With a single \<open>wait\<close>: children that exit before the signal is delivered leave all but one zombie behind.\<close>

definition with_kids :: "int list \<Rightarrow> nat \<Rightarrow> nat \<Rightarrow> forking" where
  "with_kids os n m = (forking_init os)\<lparr>running := map (\<lambda>p. (p, lowest_free os # removeAll (hd os) os)) [m + 1 ..< n + 1],
     zombies := [1 ..< m + 1], next_pid := n + 1, chld_pending := 0 < m\<rparr>"

lemma kids_forked: "os \<noteq> [] \<Longrightarrow> reached wait_step (forking_init os) (with_kids os n 0)"
proof (induction n)
  case (Suc n)
  have l: "lowest_free os \<notin> set os" by (rule lowest_free_fresh)
  then have h: "lowest_free os \<noteq> hd os" using Suc.prems by (metis list.set_sel(1))
  have "tcpserv_turn (Inr ()) (with_kids os n 0) = Ret (with_kids os (Suc n) 0)"
    using l h by (simp add: tcpserv_turn_def with_kids_def forking_init_def Let_def removeAll_id)
  moreover have "\<not> in_handler (with_kids os n 0)" by (simp add: with_kids_def forking_init_def)
  ultimately show ?case using Suc reached.step wait_step.serv serv_step.turn by metis
qed (simp add: with_kids_def forking_init_def reached.start)

lemma kids_exited: "os \<noteq> [] \<Longrightarrow> m \<le> n \<Longrightarrow> reached wait_step (forking_init os) (with_kids os n m)"
proof (induction m)
  case (Suc m)
  have u: "[m + 1 ..< n + 1] = (m + 1) # [m + 2 ..< n + 1]" using Suc.prems by (simp add: upt_conv_Cons)
  have f: "filter (\<lambda>p. p \<noteq> m + 1) [m + 1 ..< n + 1] = [m + 2 ..< n + 1]"
    unfolding u by (simp del: upt_Suc)
  have "filter (\<lambda>c. fst c \<noteq> m + 1) (running (with_kids os n m)) = running (with_kids os n (Suc m))"
    using f by (simp add: with_kids_def filter_map comp_def del: upt_Suc)
  then have "child_exit (m + 1) (with_kids os n m) = with_kids os n (Suc m)"
    by (simp add: child_exit_def) (simp add: with_kids_def)
  moreover have "m + 1 \<in> fst ` set (running (with_kids os n m))"
    using Suc.prems by (force simp: with_kids_def image_image)
  ultimately show ?case using Suc reached.step wait_step.serv serv_step.exit by (metis Suc_leD)
qed (simp add: kids_forked)

lemma single_wait:
  assumes "os \<noteq> []"
  shows "\<exists>s. reached wait_step (forking_init os) s \<and> running s = [] \<and> \<not> chld_pending s \<and> \<not> in_handler s \<and> length (zombies s) = n"
proof -
  let ?s = "with_kids os (n + 1) (n + 1)"
  have z: "zombies ?s = 1 # [2 ..< n + 2]" by (simp add: with_kids_def upt_conv_Cons numeral_2_eq_2 del: upt_Suc)
  let ?h = "?s\<lparr>chld_pending := False, in_handler := True\<rparr>"
  have "reached wait_step (forking_init os) ?s" using kids_exited [OF assms] by simp
  moreover have "wait_step ?s ?h"
    by (intro wait_step.serv serv_step.deliver) (simp_all add: with_kids_def forking_init_def)
  moreover have r: "reap ?h = Some (?h\<lparr>zombies := [2 ..< n + 2], reaped := [1]\<rparr>)"
    using z by (simp add: reap_def del: upt_Suc) (simp add: with_kids_def forking_init_def)
  then have "wait_step ?h (?h\<lparr>zombies := [2 ..< n + 2], reaped := [1], in_handler := False\<rparr>)"
    using wait_step.return [of ?h] by simp
  ultimately have "reached wait_step (forking_init os) (?h\<lparr>zombies := [2 ..< n + 2], reaped := [1], in_handler := False\<rparr>)"
    using reached.step by metis
  then show ?thesis
    by (intro exI [of _ "?h\<lparr>zombies := [2 ..< n + 2], reaped := [1], in_handler := False\<rparr>"])
      (simp add: with_kids_def del: upt_Suc)
qed

text \<open>
  C19: The forking server with the \<open>waitpid\<close> handler, in every order of connections, exits of children, delivery of signals
  and steps of the handler: the parent keeps exactly the descriptors it started with, a child exactly these
  without the listening socket and with its connection; every child is running, a zombie, or reaped once; and no zombie is
  ever forgotten: one that exists will be reaped by the handler that runs or by the signal that is pending.
  With the handler that calls \<open>wait\<close> once, any number of zombies can be left with no signal pending.
\<close>

theorem forking_server:
  assumes "os \<noteq> []"
  shows "(\<forall>s. reached waitpid_step (forking_init os) s \<longrightarrow>
      fds s = os \<and> (\<forall>c \<in> set (running s). snd c = lowest_free os # removeAll (hd os) os) \<and>
      distinct (map fst (running s) @ zombies s @ reaped s) \<and>
      set (map fst (running s) @ zombies s @ reaped s) = {1 ..< next_pid s} \<and>
      (zombies s \<noteq> [] \<longrightarrow> chld_pending s \<or> in_handler s)) \<and>
    (\<forall>n. \<exists>s. reached wait_step (forking_init os) s \<and> running s = [] \<and> \<not> chld_pending s \<and> \<not> in_handler s \<and> length (zombies s) = n)"
proof (intro conjI allI impI)
  fix s assume run: "reached waitpid_step (forking_init os) s"
  let ?I = "\<lambda>s. forking_ok os s \<and> (zombies s \<noteq> [] \<longrightarrow> chld_pending s \<or> in_handler s)"
  have keep: "?I s'" if "?I s" "waitpid_step s s'" for s s'
    using that(2)
  proof cases
    case serv
    then show ?thesis using serv_step_ok [OF serv _ assms] that(1) by auto
  next
    case again
    then show ?thesis using reap_ok [OF again(2)] that(1) by auto
  next
    case return
    then show ?thesis using that(1) by (auto simp: forking_ok_cong reap_def split: list.splits)
  qed
  have "?I (forking_init os)" by (simp add: forking_init_def forking_ok_def known_def)
  then have I: "?I s" using reached_inv [where I = ?I, OF run] keep by blast
  then show "fds s = os" "\<forall>c \<in> set (running s). snd c = lowest_free os # removeAll (hd os) os"
    "distinct (map fst (running s) @ zombies s @ reaped s)" "set (map fst (running s) @ zombies s @ reaped s) = {1 ..< next_pid s}"
    by (simp_all add: forking_ok_def known_def)
  show "zombies s \<noteq> [] \<Longrightarrow> chld_pending s \<or> in_handler s" using I by blast
next
  show "\<exists>s. reached wait_step (forking_init os) s \<and> running s = [] \<and> \<not> chld_pending s \<and> \<not> in_handler s \<and> length (zombies s) = n" for n
    by (rule single_wait [OF assms])
qed

theorem forking_server_witness:
  "\<exists>s. reached waitpid_step (forking_init [3, 0, 1, 2]) s \<and> running s = [(1, [4, 0, 1, 2])] \<and> fds s = [3, 0, 1, 2]"
proof -
  have l: "lowest_free [3, 0, 1, 2] = 4" by (simp add: lowest_free_def eval_nat_numeral)
  define s where "s = (forking_init [3, 0, 1, 2])\<lparr>running := [(1, [4, 0, 1, 2])], next_pid := 2\<rparr>"
  have "tcpserv_turn (Inr ()) (forking_init [3, 0, 1, 2]) = Ret s"
    by (simp add: tcpserv_turn_def forking_init_def Let_def l s_def)
  then have r: "reached waitpid_step (forking_init [3, 0, 1, 2]) s"
    by (intro reached_one waitpid_step.serv serv_step.turn) (simp_all add: forking_init_def)
  have "fds s = [3, 0, 1, 2]" using forking_server [of "[3, 0, 1, 2]"] r by blast
  then show ?thesis using r by (intro exI [of _ s]) (simp add: s_def)
qed

end
