(* ===== verification/Route_Messages.thy ===== *)
theory Route_Messages
  imports Packet Stdio
begin

text \<open>
  \<open>libroute/\<close>: reading the messages that \<open>sysctl\<close> returns for the interface list.  \<open>get_rtaddrs.c\<close> finds the socket
  addresses behind a message header, \<open>if_nametoindex.c\<close>, \<open>if_indextoname.c\<close> and \<open>if_nameindex.c\<close> are the three
  functions on top of it.  The size \<open>hdr\<close> of \<open>struct if_msghdr\<close> is a parameter; \<open>u_long\<close> has 8 bytes.
\<close>

section \<open>Socket addresses behind a header\<close>

definition RTAX_MAX :: nat where "RTAX_MAX = 8"
definition RTAX_IFP :: nat where "RTAX_IFP = 4"
definition RTM_IFINFO :: byte where "RTM_IFINFO = 0xe"
definition FAMILY_LINK :: byte where "FAMILY_LINK = 18"

definition ROUNDUP :: "64 word \<Rightarrow> 64 word \<Rightarrow> 64 word" where
  "ROUNDUP a sz = (if a AND (sz - 1) \<noteq> 0 then 1 + (a OR (sz - 1)) else a)"

text \<open>Offsets into the buffer stand for pointers.\<close>

definition NEXT_SA :: "byte list \<Rightarrow> nat \<Rightarrow> nat" where
  "NEXT_SA mem p = p + (if byte_at mem p \<noteq> 0 then unat (ROUNDUP (ucast (byte_at mem p)) 8) else 8)"

fun rtaddrs_loop :: "byte list \<Rightarrow> u32 \<Rightarrow> nat list \<Rightarrow> nat \<Rightarrow> nat option list" where
  "rtaddrs_loop mem addrs [] sa = []"
| "rtaddrs_loop mem addrs (i # is) sa =
     (if bit addrs i then Some sa # rtaddrs_loop mem addrs is (NEXT_SA mem sa)
      else None # rtaddrs_loop mem addrs is sa)"

definition get_rtaddrs :: "byte list \<Rightarrow> u32 \<Rightarrow> nat \<Rightarrow> nat option list" where
  "get_rtaddrs mem addrs sa = rtaddrs_loop mem addrs [0 ..< RTAX_MAX] sa"

section \<open>The interface list\<close>

text \<open>What the two calls of \<open>sysctl\<close> and the allocation between them give.\<close>

record iflist_ans =
  first_len :: "nat option"
  mem_ok :: bool
  second_buf :: "byte list option"

text \<open>The result with the number of blocks that stay allocated.\<close>

definition net_rt_iflist :: "(nat \<Rightarrow> nat \<Rightarrow> iflist_ans) \<Rightarrow> nat \<Rightarrow> nat \<Rightarrow> byte list option \<times> int" where
  "net_rt_iflist sysctl family flags =
     (let a = sysctl family flags
      in case first_len a of
           None \<Rightarrow> (None, 0)
         | Some n \<Rightarrow>
             if \<not> mem_ok a then (None, 0)
             else (case second_buf a of None \<Rightarrow> (None, 1 - 1) | Some buf \<Rightarrow> (Some buf, 1)))"

text \<open>Fields of the message at the start of a buffer, and of the link address at an offset.\<close>

definition ifm_msglen :: "byte list \<Rightarrow> nat" where "ifm_msglen m = unat (u16_at m 0)"
definition ifm_type :: "byte list \<Rightarrow> byte" where "ifm_type m = byte_at m 3"
definition ifm_addrs :: "byte list \<Rightarrow> u32" where
  "ifm_addrs m = ucast (u16_at m 4) OR push_bit 16 (ucast (u16_at m 6))"
definition sdl_index :: "byte list \<Rightarrow> nat \<Rightarrow> nat" where "sdl_index m p = unat (u16_at m (p + 2))"
definition sdl_nlen :: "byte list \<Rightarrow> nat \<Rightarrow> nat" where "sdl_nlen m p = u8_at m (p + 5)"
definition sdl_data :: "byte list \<Rightarrow> nat \<Rightarrow> nat \<Rightarrow> byte list" where "sdl_data m p n = map (byte_at m) [p + 8 ..< p + 8 + n]"

text \<open>The tests that the three functions make on every message: the offset of its link address.\<close>

definition link_addr :: "nat \<Rightarrow> byte list \<Rightarrow> nat option" where
  "link_addr hdr m =
     (if ifm_type m = RTM_IFINFO then
        (case get_rtaddrs m (ifm_addrs m) hdr ! RTAX_IFP of
           None \<Rightarrow> None
         | Some p \<Rightarrow> if byte_at m (p + 1) = FAMILY_LINK then Some p else None)
      else None)"

text \<open>The loop over the messages; a message of length 0 would keep it where it is forever.\<close>

function msg_loop :: "(byte list \<Rightarrow> 's \<Rightarrow> 'r + 's) \<Rightarrow> byte list \<Rightarrow> 's \<Rightarrow> ('r + 's) run" where
  "msg_loop body m s =
     (if m = [] then Ret (Inr s)
      else case body m s of
        Inl r \<Rightarrow> Ret (Inl r)
      | Inr s1 \<Rightarrow> if ifm_msglen m = 0 then Blocked else msg_loop body (drop (ifm_msglen m) m) s1)"
  by pat_completeness auto
termination
  by (relation "measure (\<lambda>(body, m, s). length m)") auto

declare msg_loop.simps [simp del]

definition name_test :: "nat \<Rightarrow> byte list \<Rightarrow> byte list \<Rightarrow> unit \<Rightarrow> nat + unit" where
  "name_test hdr name m u =
     (case link_addr hdr m of
        None \<Rightarrow> Inr u
      | Some p \<Rightarrow> if sdl_nlen m p = length name \<and> sdl_data m p (sdl_nlen m p) = name then Inl (sdl_index m p) else Inr u)"

definition if_nametoindex :: "nat \<Rightarrow> (nat \<Rightarrow> nat \<Rightarrow> iflist_ans) \<Rightarrow> byte list \<Rightarrow> (nat \<times> int) run" where
  "if_nametoindex hdr sysctl name =
     (case net_rt_iflist sysctl 0 0 of
        (None, n) \<Rightarrow> Ret (0, n)
      | (Some buf, n) \<Rightarrow>
          run_bind (msg_loop (name_test hdr name) buf ())
            (\<lambda>r. Ret (case r of Inl idx \<Rightarrow> (idx, n - 1) | Inr _ \<Rightarrow> (0, n - 1))))"

definition IFNAMSIZ :: nat where "IFNAMSIZ = 16"

definition index_test :: "nat \<Rightarrow> nat \<Rightarrow> byte list \<Rightarrow> unit \<Rightarrow> byte list + unit" where
  "index_test hdr idx m u =
     (case link_addr hdr m of
        None \<Rightarrow> Inr u
      | Some p \<Rightarrow>
          if sdl_index m p = idx then Inl (c_str (sdl_data m p (min (IFNAMSIZ - 1) (sdl_nlen m p)))) else Inr u)"

definition if_indextoname :: "nat \<Rightarrow> (nat \<Rightarrow> nat \<Rightarrow> iflist_ans) \<Rightarrow> nat \<Rightarrow> (byte list option \<times> int) run" where
  "if_indextoname hdr sysctl idx =
     (case net_rt_iflist sysctl 0 idx of
        (None, n) \<Rightarrow> Ret (None, n)
      | (Some buf, n) \<Rightarrow>
          run_bind (msg_loop (index_test hdr idx) buf ())
            (\<lambda>r. Ret (case r of Inl name \<Rightarrow> (Some name, n - 1) | Inr _ \<Rightarrow> (None, n - 1))))"

text \<open>
  The block of \<open>if_nameindex\<close>: structures of 16 bytes from its start on, each with the offset of a name and an index,
  and the bytes of the names at its end.
\<close>

record nameindex =
  entries :: "(int \<times> nat) list"
  names :: "byte list"

definition strncpy :: "byte list \<Rightarrow> nat \<Rightarrow> byte list" where
  "strncpy src n = (let s = take n (c_str src) in s @ replicate (n - length s) 0)"

definition nameindex_add :: "nat \<Rightarrow> nat \<Rightarrow> byte list \<Rightarrow> nameindex \<Rightarrow> unit + nameindex" where
  "nameindex_add hdr len m s =
     (case link_addr hdr m of
        None \<Rightarrow> Inr s
      | Some p \<Rightarrow>
          (let nlen = sdl_nlen m p; names1 = strncpy (sdl_data m p nlen) nlen @ 0 # names s
           in Inr \<lparr>entries = entries s @ [(int len - int (length names1), sdl_index m p)], names = names1\<rparr>))"

text \<open>The last argument tells whether the second allocation succeeds.\<close>

definition if_nameindex :: "nat \<Rightarrow> (nat \<Rightarrow> nat \<Rightarrow> iflist_ans) \<Rightarrow> bool \<Rightarrow> (nameindex option \<times> nat \<times> int) run" where
  "if_nameindex hdr sysctl ok =
     (case net_rt_iflist sysctl 0 0 of
        (None, n) \<Rightarrow> Ret (None, 0, n)
      | (Some buf, n) \<Rightarrow>
          if \<not> ok then Ret (None, 0, n)
          else run_bind (msg_loop (nameindex_add hdr (length buf)) buf \<lparr>entries = [], names = []\<rparr>)
            (\<lambda>r. case r of Inr s \<Rightarrow> Ret (Some s, length buf, n) | Inl () \<Rightarrow> Blocked))"

text \<open>What the caller reads through the pointers of an entry.\<close>

definition nameindex_list :: "nat \<Rightarrow> nameindex \<Rightarrow> (byte list \<times> nat) list" where
  "nameindex_list len s =
     map (\<lambda>(off, idx). (c_str (drop (nat (off - (int len - int (length (names s))))) (names s)), idx)) (entries s)"

section \<open>Rounding up\<close>

lemma and_7: "(n :: nat) AND 7 = n mod 8"
  using take_bit_eq_mask [of 3 n] by (simp add: take_bit_eq_mod mask_eq_exp_minus_1)

lemma or_7: "(n :: nat) OR 7 = 8 * (n div 8) + 7"
proof -
  have "n OR mask 3 = push_bit 3 (drop_bit 3 n) OR mask 3"
    by (rule bit_eqI) (auto simp: bit_or_iff bit_push_bit_iff bit_drop_bit_eq bit_mask_iff not_le)
  then show ?thesis using push_bit_or_nat [of "mask 3" 3 "drop_bit 3 n"]
    by (simp add: mask_eq_exp_minus_1 drop_bit_eq_div)
qed

lemma ROUNDUP_8: "unat (ROUNDUP (ucast (b :: byte)) 8) = 8 * ((unat b + 7) div 8)"
proof -
  let ?a = "ucast b :: 64 word"
  have u: "unat ?a = unat b" by transfer (simp add: take_bit_eq_mod)
  have n: "unat (?a AND 7) = unat b mod 8" by (simp add: unsigned_and_eq u and_7)
  have o: "unat (?a OR 7) = 8 * (unat b div 8) + 7" by (simp add: unsigned_or_eq u or_7)
  have "unat (1 + (?a OR 7)) = 8 * (unat b div 8) + 8"
    using o unat_byte_less [of b] by (simp add: unat_word_ariths(1))
  then have r: "unat (ROUNDUP ?a 8) = (if unat b mod 8 \<noteq> 0 then 8 * (unat b div 8) + 8 else unat b)"
    using n u by (auto simp: ROUNDUP_def unat_eq_0)
  show ?thesis unfolding r by (auto simp: div_mult_mod_eq) presburger+
qed

lemma NEXT_SA_nat: "NEXT_SA mem p = p + (if byte_at mem p \<noteq> 0 then 8 * ((unat (byte_at mem p) + 7) div 8) else 8)"
  by (simp add: NEXT_SA_def ROUNDUP_8)

section \<open>Messages as the kernel lays them out\<close>

text \<open>A socket address with its length in the first byte, or an empty one; each takes a multiple of 8 bytes.\<close>

definition sa_ok :: "byte list \<Rightarrow> bool" where
  "sa_ok sa \<longleftrightarrow> sa = [] \<or> length sa < 256 \<and> hd sa = of_nat (length sa)"

definition slot_len :: "byte list \<Rightarrow> nat" where
  "slot_len sa = (if sa = [] then 8 else 8 * ((length sa + 7) div 8))"

definition slot :: "byte list \<Rightarrow> byte list" where
  "slot sa = sa @ replicate (slot_len sa - length sa) 0"

definition slots :: "byte list option list \<Rightarrow> byte list" where
  "slots sas = concat (map (case_option [] slot) sas)"

lemma slots_simps [simp]:
  "slots [] = []" "slots (None # sas) = slots sas" "slots (Some sa # sas) = slot sa @ slots sas"
  by (simp_all add: slots_def)

datatype rtmsg = IfInfo byte "byte list" "byte list option list" | OtherMsg byte byte "byte list"

definition addr_mask :: "byte list option list \<Rightarrow> byte" where
  "addr_mask sas = horner_sum of_bool 2 (map (\<lambda>x. x \<noteq> None) sas)"

fun rt_body :: "rtmsg \<Rightarrow> byte list" where
  "rt_body (IfInfo v f sas) = [v, RTM_IFINFO, addr_mask sas, 0, 0, 0] @ f @ slots sas"
| "rt_body (OtherMsg v t pl) = [v, t] @ pl"

definition rt_enc :: "rtmsg \<Rightarrow> byte list" where
  "rt_enc m = (let n = 2 + length (rt_body m) in [of_nat (n mod 256), of_nat (n div 256)] @ rt_body m)"

fun rt_ok :: "nat \<Rightarrow> rtmsg \<Rightarrow> bool" where
  "rt_ok hdr (IfInfo v f sas) \<longleftrightarrow> hdr = 8 + length f \<and> length sas = RTAX_MAX \<and> (\<forall>sa. Some sa \<in> set sas \<longrightarrow> sa_ok sa) \<and>
     length (slots sas) + hdr < 65536 \<and>
     (\<forall>sa. sas ! RTAX_IFP = Some sa \<and> byte_at sa 1 = FAMILY_LINK \<longrightarrow> 8 + u8_at sa 5 \<le> length sa \<and> 0 \<notin> set (take (u8_at sa 5) (drop 8 sa)))"
| "rt_ok hdr (OtherMsg v t pl) \<longleftrightarrow> t \<noteq> RTM_IFINFO \<and> length pl + 4 < 65536"

text \<open>The interface a message describes.\<close>

fun if_entry :: "rtmsg \<Rightarrow> (byte list \<times> nat) option" where
  "if_entry (IfInfo v f sas) =
     (case sas ! RTAX_IFP of
        None \<Rightarrow> None
      | Some sa \<Rightarrow> if byte_at sa 1 = FAMILY_LINK then Some (take (u8_at sa 5) (drop 8 sa), unat (u16_at sa 2)) else None)"
| "if_entry (OtherMsg v t pl) = None"

section \<open>What get\_rtaddrs finds\<close>

lemma slot_length [simp]: "length (slot sa) = slot_len sa"
  and slot_room: "length sa \<le> slot_len sa" "8 \<le> slot_len sa"
proof -
  have "n \<le> 8 * ((n + 7) div 8)" for n :: nat by presburger
  then show l: "length sa \<le> slot_len sa" by (simp add: slot_len_def)
  show "length (slot sa) = slot_len sa" using l by (simp add: slot_def)
  show "8 \<le> slot_len sa" by (cases sa) (simp_all add: slot_len_def)
qed

lemma byte_at_slot: "k < slot_len sa \<Longrightarrow> byte_at (xs @ slot sa @ zs) (length xs + k) = byte_at sa k"
  unfolding byte_at_mid by (simp add: byte_at_def slot_def nth_append)

lemma NEXT_SA_slot:
  assumes "sa_ok sa"
  shows "NEXT_SA (xs @ slot sa @ zs) (length xs) = length xs + slot_len sa"
proof -
  have b: "byte_at (xs @ slot sa @ zs) (length xs) = byte_at sa 0"
    using byte_at_slot [of 0 sa xs zs] slot_room(2) [of sa] by simp
  show ?thesis
  proof (cases sa)
    case (Cons x sa')
    then have x: "x = of_nat (length sa)" "0 < length sa" "length sa < 256" using assms by (auto simp: sa_ok_def)
    then have u: "unat x = length sa" by (simp add: unat_of_nat_byte)
    then have "x \<noteq> 0" using x(2) by auto
    then show ?thesis using b Cons u by (simp add: NEXT_SA_nat slot_len_def byte_at_def)
  qed (use b in \<open>simp add: NEXT_SA_nat slot_len_def byte_at_def\<close>)
qed

fun sa_offsets :: "nat \<Rightarrow> byte list option list \<Rightarrow> nat option list" where
  "sa_offsets p [] = []"
| "sa_offsets p (None # sas) = None # sa_offsets p sas"
| "sa_offsets p (Some sa # sas) = Some p # sa_offsets (p + slot_len sa) sas"

lemma rtaddrs_loop_slots:
  assumes "\<forall>sa. Some sa \<in> set sas \<longrightarrow> sa_ok sa" and "\<forall>j < length sas. bit addrs (i + j) \<longleftrightarrow> sas ! j \<noteq> None"
  shows "rtaddrs_loop (pre @ slots sas @ post) addrs [i ..< i + length sas] (length pre) = sa_offsets (length pre) sas"
  using assms
proof (induction sas arbitrary: pre i)
  case (Cons a sas)
  have u: "[i ..< i + length (a # sas)] = i # [i + 1 ..< (i + 1) + length sas]" by (simp add: upt_conv_Cons del: upt_Suc)
  have b: "bit addrs i \<longleftrightarrow> a \<noteq> None" using Cons.prems(2) by (metis add_0_right length_greater_0_conv list.simps(3) nth_Cons_0)
  have bs: "\<forall>j < length sas. bit addrs (i + 1 + j) \<longleftrightarrow> sas ! j \<noteq> None" using Cons.prems(2) by (auto dest: spec [of _ "Suc _"])
  have ok: "\<forall>sa. Some sa \<in> set sas \<longrightarrow> sa_ok sa" using Cons.prems(1) by simp
  show ?case
  proof (cases a)
    case None
    then show ?thesis using Cons.IH [OF ok bs, of pre] b unfolding u by simp
  next
    case (Some sa)
    have "rtaddrs_loop ((pre @ slot sa) @ slots sas @ post) addrs [i + 1 ..< i + 1 + length sas] (length (pre @ slot sa)) =
        sa_offsets (length (pre @ slot sa)) sas" by (rule Cons.IH [OF ok bs])
    moreover have "NEXT_SA (pre @ slot sa @ slots sas @ post) (length pre) = length pre + slot_len sa"
      using NEXT_SA_slot [of sa pre "slots sas @ post"] Cons.prems(1) Some by simp
    ultimately show ?thesis using b Some unfolding u by simp
  qed
qed simp

lemma sa_offsets_nth:
  "k < length sas \<Longrightarrow>
   (case sas ! k of None \<Rightarrow> sa_offsets p sas ! k = None
    | Some sa \<Rightarrow> \<exists>xs zs. slots sas = xs @ slot sa @ zs \<and> sa_offsets p sas ! k = Some (p + length xs))"
proof (induction p sas arbitrary: k rule: sa_offsets.induct)
  case (2 p sas)
  then show ?case by (cases k) (simp_all cong: option.case_cong)
next
  case (3 p sa sas)
  show ?case
  proof (cases k)
    case 0
    then show ?thesis by (auto intro: exI [of _ "[]"])
  next
    case (Suc j)
    then have IH: "case sas ! j of None \<Rightarrow> sa_offsets (p + slot_len sa) sas ! j = None
      | Some sb \<Rightarrow> \<exists>xs zs. slots sas = xs @ slot sb @ zs \<and> sa_offsets (p + slot_len sa) sas ! j = Some (p + slot_len sa + length xs)"
      using 3 by simp
    show ?thesis
    proof (cases "sas ! j")
      case (Some sb)
      then obtain xs zs where "slots sas = xs @ slot sb @ zs"
        "sa_offsets (p + slot_len sa) sas ! j = Some (p + slot_len sa + length xs)" using IH by auto
      then show ?thesis using Suc Some by (simp, intro exI [of _ "slot sa @ xs"]) simp
    qed (use IH Suc in simp)
  qed
qed simp

section \<open>The fields of a message\<close>

lemma u16_bytes: "n < 65536 \<Longrightarrow> unat ((ucast (of_nat (n mod 256) :: byte) :: u16) OR push_bit 8 (ucast (of_nat (n div 256) :: byte))) = n"
proof -
  assume n: "n < 65536"
  define l h where "l = (of_nat (n mod 256) :: byte)" and "h = (of_nat (n div 256) :: byte)"
  have u: "unat (ucast b :: u16) = unat b" for b :: byte by transfer (simp add: take_bit_eq_mod)
  have l: "unat l = n mod 256" and h: "unat h = n div 256" unfolding l_def h_def using n by (simp_all add: unat_of_nat_byte)
  have "unat (push_bit 8 (ucast h :: u16)) = push_bit 8 (unat h)"
    using unat_byte_less [of h] by (simp add: push_bit_eq_mult unat_word_ariths(2) u)
  then have "unat ((ucast l :: u16) OR push_bit 8 (ucast h)) = push_bit 8 (n div 256) OR (n mod 256)"
    by (simp add: unsigned_or_eq u l h or.commute)
  also have "\<dots> = n" using push_bit_or_nat [of "n mod 256" 8 "n div 256"] by simp
  finally show ?thesis by (simp add: l_def h_def)
qed

lemma rt_enc_msglen:
  assumes "length (rt_body m) + 2 < 65536"
  shows "ifm_msglen (rt_enc m @ rest) = length (rt_enc m)"
proof -
  let ?n = "2 + length (rt_body m)"
  have "u16_at (rt_enc m @ rest) 0 = ucast (of_nat (?n mod 256) :: byte) OR push_bit 8 (ucast (of_nat (?n div 256) :: byte))"
    by (simp add: u16_at_def byte_at_def rt_enc_def Let_def)
  then show ?thesis using u16_bytes [of ?n] assms by (simp add: ifm_msglen_def rt_enc_def Let_def)
qed

lemma addr_mask_bit: "length sas = 8 \<Longrightarrow> j < 8 \<Longrightarrow> bit (addr_mask sas) j \<longleftrightarrow> sas ! j \<noteq> None"
  by (simp add: addr_mask_def bit_horner_sum_bit_word_iff)

lemma rt_enc_addrs:
  assumes "length sas = 8" and "j < 8"
  shows "bit (ifm_addrs (rt_enc (IfInfo v f sas) @ rest)) j \<longleftrightarrow> sas ! j \<noteq> None"
proof -
  let ?m = "rt_enc (IfInfo v f sas) @ rest"
  have "byte_at ?m 4 = addr_mask sas" "byte_at ?m 5 = 0" "byte_at ?m 6 = 0" "byte_at ?m 7 = 0"
    by (simp_all add: byte_at_def rt_enc_def Let_def)
  then have "ifm_addrs ?m = ucast (ucast (addr_mask sas) :: u16)" by (simp add: ifm_addrs_def u16_at_def)
  then show ?thesis using addr_mask_bit [OF assms] assms(2) by (simp add: bit_ucast_iff)
qed

text \<open>Where \<open>get_rtaddrs\<close> finds the link address, the bytes of that address are.\<close>

lemma rtaddrs_enc:
  assumes "rt_ok hdr (IfInfo v f sas)" and "mem = rt_enc (IfInfo v f sas) @ rest"
  shows "case sas ! RTAX_IFP of
      None \<Rightarrow> get_rtaddrs mem (ifm_addrs mem) hdr ! RTAX_IFP = None
    | Some sa \<Rightarrow> \<exists>p. get_rtaddrs mem (ifm_addrs mem) hdr ! RTAX_IFP = Some p \<and> (\<forall>j < slot_len sa. byte_at mem (p + j) = byte_at sa j)"
proof -
  define pre where "pre = (let n = 2 + length (rt_body (IfInfo v f sas)) in [of_nat (n mod 256), of_nat (n div 256)]) @
    [v, RTM_IFINFO, addr_mask sas, 0, 0, 0] @ f"
  have ok: "hdr = 8 + length f" "length sas = 8" "\<forall>sa. Some sa \<in> set sas \<longrightarrow> sa_ok sa"
    using assms(1) by (simp_all add: RTAX_MAX_def)
  have mem: "mem = pre @ slots sas @ rest" and pre: "length pre = hdr"
    unfolding assms(2) pre_def by (simp_all add: rt_enc_def Let_def ok(1))
  have b: "\<forall>j < length sas. bit (ifm_addrs mem) (0 + j) \<longleftrightarrow> sas ! j \<noteq> None"
    using rt_enc_addrs [of sas _ v f rest] ok(2) by (simp add: assms(2))
  have g: "get_rtaddrs mem (ifm_addrs mem) hdr = sa_offsets hdr sas"
    using rtaddrs_loop_slots [OF ok(3) b, of pre rest] ok(2) pre by (simp add: get_rtaddrs_def RTAX_MAX_def mem)
  have k: "RTAX_IFP < length sas" using ok(2) by (simp add: RTAX_IFP_def)
  note at = sa_offsets_nth [OF k, of hdr]
  show ?thesis
  proof (cases "sas ! RTAX_IFP")
    case (Some sa)
    then obtain xs zs where s: "slots sas = xs @ slot sa @ zs" "sa_offsets hdr sas ! RTAX_IFP = Some (hdr + length xs)" using at by auto
    have "byte_at mem (hdr + length xs + j) = byte_at sa j" if "j < slot_len sa" for j
      using byte_at_slot [OF that, of "pre @ xs" "zs @ rest"] pre by (simp add: mem s)
    then show ?thesis using Some s(2) g by simp
  qed (use at g in simp)
qed

lemma link_addr_enc:
  assumes "rt_ok hdr m"
  shows "case if_entry m of
      None \<Rightarrow> link_addr hdr (rt_enc m @ rest) = None
    | Some (n, i) \<Rightarrow> \<exists>p. link_addr hdr (rt_enc m @ rest) = Some p \<and> sdl_nlen (rt_enc m @ rest) p = length n \<and>
        sdl_data (rt_enc m @ rest) p (length n) = n \<and> sdl_index (rt_enc m @ rest) p = i"
proof (cases m)
  case (OtherMsg v t pl)
  then have "ifm_type (rt_enc m @ rest) \<noteq> RTM_IFINFO" using assms by (simp add: ifm_type_def byte_at_def rt_enc_def Let_def)
  then show ?thesis using OtherMsg by (simp add: link_addr_def)
next
  case (IfInfo v f sas)
  let ?mem = "rt_enc m @ rest"
  have t: "ifm_type ?mem = RTM_IFINFO" by (simp add: ifm_type_def byte_at_def rt_enc_def Let_def IfInfo)
  note at = rtaddrs_enc [OF assms [unfolded IfInfo] refl, of rest, folded IfInfo]
  show ?thesis
  proof (cases "sas ! RTAX_IFP")
    case None
    then show ?thesis using at t IfInfo by (simp add: link_addr_def)
  next
    case (Some sa)
    then obtain p where p: "get_rtaddrs ?mem (ifm_addrs ?mem) hdr ! RTAX_IFP = Some p"
      and f8: "\<And>j. j < slot_len sa \<Longrightarrow> byte_at ?mem (p + j) = byte_at sa j" using at by auto
    have f: "byte_at ?mem (p + j) = byte_at sa j" if "j < 8" for j using f8 [of j] that slot_room(2) [of sa] by simp
    show ?thesis
    proof (cases "byte_at sa 1 = FAMILY_LINK")
      case False
      then show ?thesis using Some p t f [of 1] IfInfo by (simp add: link_addr_def)
    next
      case True
      let ?l = "u8_at sa 5"
      have l: "8 + ?l \<le> length sa" using assms IfInfo Some True by simp
      have "sdl_data ?mem p ?l = take ?l (drop 8 sa)"
        using f8 slot_room(1) [of sa] l by (intro nth_equalityI) (auto simp: sdl_data_def byte_at_def add.assoc)
      moreover have "sdl_nlen ?mem p = ?l" using f [of 5] by (simp add: sdl_nlen_def u8_at_def)
      moreover have "sdl_index ?mem p = unat (u16_at sa 2)"
        using f [of 2] f [of 3] by (simp add: sdl_index_def u16_at_def numeral_3_eq_3)
      moreover have "link_addr hdr ?mem = Some p" using True p t f [of 1] by (simp add: link_addr_def)
      ultimately show ?thesis using l Some True IfInfo by simp
    qed
  qed
qed

section \<open>The loop over all messages\<close>

definition rt_encs :: "rtmsg list \<Rightarrow> byte list" where
  "rt_encs ms = concat (map rt_enc ms)"

fun entry_loop :: "((byte list \<times> nat) option \<Rightarrow> 's \<Rightarrow> 'r + 's) \<Rightarrow> (byte list \<times> nat) option list \<Rightarrow> 's \<Rightarrow> 'r + 's" where
  "entry_loop g [] s = Inr s"
| "entry_loop g (e # es) s = (case g e s of Inl r \<Rightarrow> Inl r | Inr s1 \<Rightarrow> entry_loop g es s1)"

lemma rt_ok_length: "rt_ok hdr m \<Longrightarrow> length (rt_body m) + 2 < 65536"
  by (cases m) auto

lemma msg_loop_encs:
  assumes "\<And>m rest s. rt_ok hdr m \<Longrightarrow> body (rt_enc m @ rest) s = g (if_entry m) s" and "\<forall>m \<in> set ms. rt_ok hdr m"
  shows "msg_loop body (rt_encs ms) s = Ret (entry_loop g (map if_entry ms) s)"
  using assms(2)
proof (induction ms arbitrary: s)
  case (Cons m ms)
  have m: "rt_ok hdr m" using Cons.prems by simp
  have e: "rt_encs (m # ms) = rt_enc m @ rt_encs ms" "rt_enc m \<noteq> []" by (simp_all add: rt_encs_def rt_enc_def Let_def)
  have l: "ifm_msglen (rt_enc m @ rt_encs ms) = length (rt_enc m)" by (rule rt_enc_msglen [OF rt_ok_length [OF m]])
  show ?case unfolding e(1) msg_loop.simps [of body "rt_enc m @ rt_encs ms"] assms(1) [OF m] l
    using Cons.IH Cons.prems e(2) by (auto split: sum.splits)
qed (simp add: rt_encs_def msg_loop.simps)

definition ifs :: "rtmsg list \<Rightarrow> (byte list \<times> nat) list" where
  "ifs ms = List.map_filter if_entry ms"

lemma ifs_simps [simp]: "ifs [] = []" "ifs (m # ms) = (case if_entry m of None \<Rightarrow> ifs ms | Some e \<Rightarrow> e # ifs ms)"
  by (simp_all add: ifs_def List.map_filter_simps split: option.splits)

text \<open>A search for the first entry with a property.\<close>

definition find_entry :: "(byte list \<times> nat \<Rightarrow> bool) \<Rightarrow> (byte list \<times> nat \<Rightarrow> 'v) \<Rightarrow> (byte list \<times> nat) option \<Rightarrow> unit \<Rightarrow> 'v + unit" where
  "find_entry P f x u = (case x of None \<Rightarrow> Inr () | Some e \<Rightarrow> if P e then Inl (f e) else Inr ())"

lemma find_entry_simps [simp]: "find_entry P f None u = Inr ()"
  "find_entry P f (Some e) u = (if P e then Inl (f e) else Inr ())"
  by (simp_all add: find_entry_def)

lemma entry_loop_search:
  assumes "\<exists>e \<in> set (ifs ms). P e" and "\<forall>e \<in> set (ifs ms). P e \<longrightarrow> f e = v"
  shows "entry_loop (find_entry P f) (map if_entry ms) u = Inl v"
  using assms
proof (induction ms)
  case (Cons m ms)
  show ?case
  proof (cases "if_entry m")
    case None
    then show ?thesis using Cons by simp
  next
    case (Some e')
    then show ?thesis using Cons by (cases "P e'") auto
  qed
qed simp

text \<open>The messages of all interfaces, and of one by its index.\<close>

definition lists_interfaces :: "nat \<Rightarrow> (nat \<Rightarrow> nat \<Rightarrow> iflist_ans) \<Rightarrow> (byte list \<times> nat) list \<Rightarrow> bool" where
  "lists_interfaces hdr sysctl es \<longleftrightarrow>
     (\<forall>i. \<exists>ms n. (\<forall>m \<in> set ms. rt_ok hdr m) \<and> ifs ms = (if i = 0 then es else filter (\<lambda>e. snd e = i) es) \<and>
        sysctl 0 i = \<lparr>first_len = Some n, mem_ok = True, second_buf = Some (rt_encs ms)\<rparr>)"

lemma name_body:
  assumes "rt_ok hdr m"
  shows "name_test hdr name (rt_enc m @ rest) u = find_entry (\<lambda>e. fst e = name) snd (if_entry m) u"
proof (cases "if_entry m")
  case None
  then show ?thesis unfolding name_test_def using link_addr_enc [OF assms, of rest] by simp
next
  case (Some e)
  obtain n i where e: "e = (n, i)" by (cases e)
  show ?thesis unfolding name_test_def using link_addr_enc [OF assms, of rest] Some e by auto
qed

lemma index_body:
  assumes "rt_ok hdr m"
  shows "index_test hdr idx (rt_enc m @ rest) u =
    find_entry (\<lambda>e. snd e = idx) (\<lambda>e. c_str (take (IFNAMSIZ - 1) (fst e))) (if_entry m) u"
proof (cases "if_entry m")
  case None
  then show ?thesis unfolding index_test_def using link_addr_enc [OF assms, of rest] by simp
next
  case (Some e)
  obtain n i where e: "e = (n, i)" by (cases e)
  have t: "sdl_data x p (min k (length n)) = take k n" if "sdl_data x p (length n) = n" for x p k
  proof -
    have "sdl_data x p (min k (length n)) = take (min k (length n)) (sdl_data x p (length n))"
      by (simp add: sdl_data_def take_map min_def)
    then show ?thesis unfolding index_test_def using that by (cases "k \<le> length n") (simp_all add: min_def)
  qed
  show ?thesis unfolding index_test_def using link_addr_enc [OF assms, of rest] Some e t by auto
qed

lemma listed:
  assumes "lists_interfaces hdr sysctl es"
  obtains ms n where "\<forall>m \<in> set ms. rt_ok hdr m" "ifs ms = (if i = 0 then es else filter (\<lambda>e. snd e = i) es)"
    "sysctl 0 i = \<lparr>first_len = Some n, mem_ok = True, second_buf = Some (rt_encs ms)\<rparr>"
  using assms unfolding lists_interfaces_def by blast

lemma nametoindex_found:
  assumes "lists_interfaces hdr sysctl es" and "distinct (map fst es)" and "(name, i) \<in> set es"
  shows "if_nametoindex hdr sysctl name = Ret (i, 0)"
proof -
  obtain ms n where ms: "\<forall>m \<in> set ms. rt_ok hdr m" "ifs ms = es"
    "sysctl 0 0 = \<lparr>first_len = Some n, mem_ok = True, second_buf = Some (rt_encs ms)\<rparr>"
    using listed [OF assms(1), of 0] by auto
  have "\<forall>e \<in> set (ifs ms). fst e = name \<longrightarrow> snd e = i"
    using assms(2,3) ms(2) by (metis eq_key_imp_eq_value surjective_pairing)
  then have "entry_loop (find_entry (\<lambda>e. fst e = name) snd) (map if_entry ms) () = Inl i"
    using assms(3) ms(2) by (intro entry_loop_search) force+
  moreover have "msg_loop (name_test hdr name) (rt_encs ms) () =
      Ret (entry_loop (find_entry (\<lambda>e. fst e = name) snd) (map if_entry ms) ())"
    by (rule msg_loop_encs [OF _ ms(1)]) (rule name_body)
  ultimately show ?thesis by (simp add: if_nametoindex_def net_rt_iflist_def ms(3))
qed

lemma indextoname_found:
  assumes "lists_interfaces hdr sysctl es" and "distinct (map snd es)" and "(name, i) \<in> set es" and "0 \<notin> set name"
  shows "if_indextoname hdr sysctl i = Ret (Some (take 15 name), 0)"
proof -
  obtain ms n where ms: "\<forall>m \<in> set ms. rt_ok hdr m" "ifs ms = (if i = 0 then es else filter (\<lambda>e. snd e = i) es)"
    "sysctl 0 i = \<lparr>first_len = Some n, mem_ok = True, second_buf = Some (rt_encs ms)\<rparr>"
    using listed [OF assms(1), of i] by auto
  have c: "c_str (take (IFNAMSIZ - 1) name) = take 15 name"
    using assms(4) by (auto simp: c_str_def takeWhile_eq_all_conv IFNAMSIZ_def dest: in_set_takeD)
  have "e = (name, i)" if "e \<in> set es" "snd e = i" for e
    using assms(2,3) that by (metis inj_onD distinct_map snd_conv)
  then have "\<forall>e \<in> set (ifs ms). snd e = i \<longrightarrow> c_str (take (IFNAMSIZ - 1) (fst e)) = take 15 name"
    using ms(2) c by (fastforce split: if_splits)
  moreover have "\<exists>e \<in> set (ifs ms). snd e = i" using assms(3) ms(2) by force
  ultimately have "entry_loop (find_entry (\<lambda>e. snd e = i) (\<lambda>e. c_str (take (IFNAMSIZ - 1) (fst e)))) (map if_entry ms) () =
      Inl (take 15 name)"
    by (intro entry_loop_search)
  moreover have "msg_loop (index_test hdr i) (rt_encs ms) () =
      Ret (entry_loop (find_entry (\<lambda>e. snd e = i) (\<lambda>e. c_str (take (IFNAMSIZ - 1) (fst e)))) (map if_entry ms) ())"
    by (rule msg_loop_encs [OF _ ms(1)]) (rule index_body)
  ultimately show ?thesis by (simp add: if_indextoname_def net_rt_iflist_def ms(3))
qed

section \<open>The block of if\_nameindex\<close>

lemma strncpy_plain: "0 \<notin> set bs \<Longrightarrow> strncpy bs (length bs) = bs"
proof -
  assume "0 \<notin> set bs"
  then have "c_str bs = bs" by (auto simp: c_str_def takeWhile_eq_all_conv)
  then show ?thesis by (simp add: strncpy_def)
qed

definition add_entry :: "nat \<Rightarrow> (byte list \<times> nat) option \<Rightarrow> nameindex \<Rightarrow> unit + nameindex" where
  "add_entry len x s =
     (case x of
        None \<Rightarrow> Inr s
      | Some (n, i) \<Rightarrow> Inr \<lparr>entries = entries s @ [(int len - int (length (n @ 0 # names s)), i)], names = n @ 0 # names s\<rparr>)"

text \<open>An entry that the kernel describes has a name without NUL bytes.\<close>

lemma entry_plain: "rt_ok hdr m \<Longrightarrow> if_entry m = Some (n, i) \<Longrightarrow> 0 \<notin> set n"
  by (cases m) (auto split: option.splits if_splits)

lemma add_body:
  assumes "rt_ok hdr m"
  shows "nameindex_add hdr len (rt_enc m @ rest) s = add_entry len (if_entry m) s"
proof (cases "if_entry m")
  case None
  then show ?thesis unfolding nameindex_add_def add_entry_def using link_addr_enc [OF assms, of rest] by simp
next
  case (Some e)
  obtain n i where e: "e = (n, i)" by (cases e)
  have "strncpy n (length n) = n" using entry_plain [OF assms] Some e by (simp add: strncpy_plain)
  then show ?thesis unfolding nameindex_add_def add_entry_def using link_addr_enc [OF assms, of rest] Some e
    by (auto simp: Let_def)
qed

definition offsets_ok :: "nat \<Rightarrow> nameindex \<Rightarrow> bool" where
  "offsets_ok len s \<longleftrightarrow> (\<forall>e \<in> set (entries s). int len - int (length (names s)) \<le> fst e)"

lemma add_entry_list:
  assumes "offsets_ok len s" and "0 \<notin> set n"
  shows "\<exists>s'. add_entry len (Some (n, i)) s = Inr s' \<and> offsets_ok len s' \<and>
    nameindex_list len s' = nameindex_list len s @ [(n, i)] \<and>
    length (entries s') = length (entries s) + 1 \<and> length (names s') = length (names s) + length n + 1"
proof -
  let ?l = "int len - int (length (names s))" and ?nm = "n @ 0 # names s"
  let ?s = "\<lparr>entries = entries s @ [(int len - int (length ?nm), i)], names = ?nm\<rparr>"
  have "drop (nat (off - (int len - int (length ?nm)))) ?nm = drop (nat (off - ?l)) (names s)" if "?l \<le> off" for off
  proof -
    have "nat (off - (int len - int (length ?nm))) = length n + 1 + nat (off - ?l)" using that by simp
    then show ?thesis by simp
  qed
  then have "map (\<lambda>(off, idx). (c_str (drop (nat (off - (int len - int (length ?nm)))) ?nm), idx)) (entries s) = nameindex_list len s"
    using assms(1) by (auto simp: nameindex_list_def offsets_ok_def)
  moreover have "c_str (n @ 0 # names s) = n" using assms(2) by (auto simp: c_str_def takeWhile_append)
  ultimately have "nameindex_list len ?s = nameindex_list len s @ [(n, i)]" by (simp add: nameindex_list_def)
  moreover have "offsets_ok len ?s" using assms(1) by (fastforce simp: offsets_ok_def)
  ultimately show ?thesis by (intro exI [of _ ?s]) (simp add: add_entry_def)
qed

definition names_size :: "(byte list \<times> nat) list \<Rightarrow> nat" where
  "names_size es = sum_list (map (\<lambda>e. length (fst e) + 1) es)"

lemma add_loop:
  assumes "\<forall>m \<in> set ms. rt_ok hdr m" and "offsets_ok len s"
  shows "\<exists>s'. entry_loop (add_entry len) (map if_entry ms) s = Inr s' \<and>
    nameindex_list len s' = nameindex_list len s @ ifs ms \<and>
    length (entries s') = length (entries s) + length (ifs ms) \<and> length (names s') = length (names s) + names_size (ifs ms)"
  using assms
proof (induction ms arbitrary: s)
  case (Cons m ms)
  show ?case
  proof (cases "if_entry m")
    case None
    then show ?thesis using Cons.IH [of s] Cons.prems by (simp add: add_entry_def)
  next
    case (Some e)
    obtain n i where e: "e = (n, i)" by (cases e)
    have z: "0 \<notin> set n" using entry_plain [of hdr m n i] Some e Cons.prems(1) by simp
    obtain s1 where s1: "add_entry len (Some (n, i)) s = Inr s1" "offsets_ok len s1"
      "nameindex_list len s1 = nameindex_list len s @ [(n, i)]"
      "length (entries s1) = length (entries s) + 1" "length (names s1) = length (names s) + length n + 1"
      using add_entry_list [OF Cons.prems(2) z, of i] by blast
    show ?thesis using Cons.IH [OF _ s1(2)] Cons.prems(1) Some e s1 by (auto simp: names_size_def)
  qed
qed (simp add: names_size_def)

text \<open>Every message is longer than what its interface needs in the block.\<close>

lemma encs_room:
  assumes "\<forall>m \<in> set ms. rt_ok hdr m" and "32 \<le> hdr"
  shows "32 * length (ifs ms) + names_size (ifs ms) \<le> length (rt_encs ms)"
  using assms(1)
proof (induction ms)
  case (Cons m ms)
  have r: "length (rt_encs (m # ms)) = length (rt_enc m) + length (rt_encs ms)" by (simp add: rt_encs_def)
  show ?case
  proof (cases "if_entry m")
    case None
    then show ?thesis using Cons r by simp
  next
    case (Some e)
    then obtain v f sas sa where m: "m = IfInfo v f sas" "sas ! RTAX_IFP = Some sa" "byte_at sa 1 = FAMILY_LINK"
      "e = (take (u8_at sa 5) (drop 8 sa), unat (u16_at sa 2))"
      by (cases m) (auto split: option.splits if_splits)
    have ok: "hdr = 8 + length f" "length sas = 8" "8 + u8_at sa 5 \<le> length sa"
      using Cons.prems m by (simp_all add: RTAX_MAX_def)
    obtain xs zs where "slots sas = xs @ slot sa @ zs"
      using sa_offsets_nth [of RTAX_IFP sas 0] ok(2) m(2) by (auto simp: RTAX_IFP_def)
    then have "length (fst e) + 8 \<le> length (slots sas)" using ok(3) slot_room(1) [of sa] m(4) by simp
    then have "32 + (length (fst e) + 1) \<le> length (rt_enc m)" using ok(1) assms(2) m(1) by (simp add: rt_enc_def Let_def)
    then show ?thesis using Cons r Some by (simp add: names_size_def)
  qed
qed (simp add: rt_encs_def names_size_def)

lemma nameindex_all:
  assumes "lists_interfaces hdr sysctl es"
  shows "\<exists>s len. if_nameindex hdr sysctl True = Ret (Some s, len, 1) \<and> nameindex_list len s = es \<and>
    (32 \<le> hdr \<and> es \<noteq> [] \<longrightarrow> 16 * (length (entries s) + 1) + length (names s) \<le> len)"
proof -
  let ?s0 = "\<lparr>entries = [], names = []\<rparr>"
  obtain ms n where ms: "\<forall>m \<in> set ms. rt_ok hdr m" "ifs ms = es"
    "sysctl 0 0 = \<lparr>first_len = Some n, mem_ok = True, second_buf = Some (rt_encs ms)\<rparr>"
    using listed [OF assms, of 0] by auto
  let ?len = "length (rt_encs ms)"
  have "offsets_ok ?len ?s0" by (simp add: offsets_ok_def)
  then obtain s where s: "entry_loop (add_entry ?len) (map if_entry ms) ?s0 = Inr s" "nameindex_list ?len s = es"
    "length (entries s) = length es" "length (names s) = names_size es"
    using add_loop [OF ms(1), of ?len ?s0] ms(2) by (auto simp: nameindex_list_def)
  have "msg_loop (nameindex_add hdr ?len) (rt_encs ms) ?s0 = Ret (entry_loop (add_entry ?len) (map if_entry ms) ?s0)"
    by (rule msg_loop_encs [OF _ ms(1)]) (rule add_body)
  then have "if_nameindex hdr sysctl True = Ret (Some s, ?len, 1)"
    using s(1) by (simp add: if_nameindex_def net_rt_iflist_def ms(3))
  moreover have "16 * (length (entries s) + 1) + length (names s) \<le> ?len" if "32 \<le> hdr" "es \<noteq> []"
    using encs_room [OF ms(1) that(1)] s(3,4) ms(2) that(2) by (cases es) auto
  ultimately show ?thesis using s(2) by blast
qed

lemma nameindex_leak: "second_buf (sysctl 0 0) = Some buf \<Longrightarrow> first_len (sysctl 0 0) = Some n \<Longrightarrow> mem_ok (sysctl 0 0) \<Longrightarrow>
    if_nameindex hdr sysctl False = Ret (None, 0, 1)"
  by (simp add: if_nameindex_def net_rt_iflist_def)

section \<open>Properties\<close>

text \<open>
  C17: The three interface functions over a kernel that lists the interfaces \<open>es\<close>, each in a message with any other socket
  addresses around its link address and any other messages between: name and index of every interface map to each
  other (a name to its first 15 bytes), \<open>if_nameindex\<close> returns all of them in order, its names
  never run into its array although both grow in one block, and no memory but that block stays allocated.
\<close>

theorem interface_functions:
  assumes "lists_interfaces hdr sysctl es" and "distinct (map fst es)" and "distinct (map snd es)" and "\<forall>e \<in> set es. 0 \<notin> set (fst e)"
  shows "(\<forall>(name, i) \<in> set es. if_nametoindex hdr sysctl name = Ret (i, 0) \<and>
      if_indextoname hdr sysctl i = Ret (Some (take 15 name), 0)) \<and>
    (\<exists>s len. if_nameindex hdr sysctl True = Ret (Some s, len, 1) \<and> nameindex_list len s = es \<and>
      (32 \<le> hdr \<and> es \<noteq> [] \<longrightarrow> 16 * (length (entries s) + 1) + length (names s) \<le> len))"
  using nametoindex_found [OF assms(1,2)] indextoname_found [OF assms(1,3)] nameindex_all [OF assms(1)] assms(4) by fastforce

text \<open>A kernel with the loopback interface, between an address message and nothing.\<close>

definition demo_ifs :: "nat \<Rightarrow> rtmsg list" where
  "demo_ifs i = (if i \<le> 1 then
     [OtherMsg 5 0xc [1, 2, 3], IfInfo 5 (replicate 104 0)
       [Some [], None, None, None, Some [10, 18, 1, 0, 0, 2, 0, 0, 108, 111], None, None, None]] else [])"

definition demo_sysctl :: "nat \<Rightarrow> nat \<Rightarrow> iflist_ans" where
  "demo_sysctl family i = \<lparr>first_len = Some 0, mem_ok = True, second_buf = Some (rt_encs (demo_ifs i))\<rparr>"

lemma demo_lists: "lists_interfaces 112 demo_sysctl [([108, 111], 1)]"
proof -
  have ok: "\<forall>m \<in> set (demo_ifs i). rt_ok 112 m" for i
    by (auto simp: demo_ifs_def RTAX_MAX_def RTAX_IFP_def RTM_IFINFO_def FAMILY_LINK_def sa_ok_def slot_def slot_len_def
        byte_at_def u8_at_def)
  have e: "ifs (demo_ifs i) = (if i \<le> 1 then [([108, 111], 1)] else [])" for i
    by (simp add: demo_ifs_def RTAX_IFP_def FAMILY_LINK_def byte_at_def u8_at_def u16_at_def)
  have "ifs (demo_ifs i) = (if i = 0 then [([108, 111], 1)] else filter (\<lambda>e. snd e = i) [([108, 111], 1)])" for i
    by (cases "i = 0"; cases "i = 1") (simp_all add: e)
  then have "\<exists>n. (\<forall>m \<in> set (demo_ifs i). rt_ok 112 m) \<and>
      ifs (demo_ifs i) = (if i = 0 then [([108, 111], 1)] else filter (\<lambda>e. snd e = i) [([108, 111], 1)]) \<and>
      demo_sysctl 0 i = \<lparr>first_len = Some n, mem_ok = True, second_buf = Some (rt_encs (demo_ifs i))\<rparr>" for i
    using ok [of i] by (simp add: demo_sysctl_def)
  then show ?thesis unfolding lists_interfaces_def by blast
qed

theorem interface_functions_witness:
  "if_nametoindex 112 demo_sysctl [108, 111] = Ret (1, 0) \<and> if_indextoname 112 demo_sysctl 1 = Ret (Some [108, 111], 0)"
  using interface_functions [OF demo_lists] by simp

end
