(* ===== verification/Ifi_Info.thy ===== *)
theory Ifi_Info
  imports Packet Stdio Kernel
begin

text \<open>
  \<open>lib/get_ifi_info.c\<close>: the list of interfaces from \<open>ioctl(SIOCGIFCONF)\<close>, in the configuration of \<open>config.h\<close>
  (socket addresses with a length, link addresses before the others, IPv6).
\<close>

section \<open>Data\<close>

definition FAM_INET :: nat where "FAM_INET = 2"
definition FAM_INET6 :: nat where "FAM_INET6 = 28"
definition FAM_LINK :: nat where "FAM_LINK = 18"

definition IFF_UP :: u16 where "IFF_UP = 1"
definition IFF_BROADCAST :: u16 where "IFF_BROADCAST = 2"
definition IFF_POINTOPOINT :: u16 where "IFF_POINTOPOINT = 0x10"

record ifi_info =
  ifi_name :: "byte list"
  ifi_index :: int
  ifi_mtu :: int
  ifi_haddr :: "byte list"
  ifi_hlen :: nat
  ifi_flags :: u16
  ifi_alias :: bool
  ifi_addr :: "byte list option"
  ifi_brdaddr :: "byte list option"
  ifi_dstaddr :: "byte list option"

text \<open>What the \<open>ioctl\<close> calls for one interface give, by its name; \<open>None\<close> is an error.\<close>

record ioctls =
  io_flags :: "byte list \<Rightarrow> u16 option"
  io_mtu :: "byte list \<Rightarrow> int option"
  io_brd :: "byte list \<Rightarrow> byte list option"
  io_dst :: "byte list \<Rightarrow> byte list option"

text \<open>Index and MTU are stored in fields of type \<open>short\<close>.\<close>

definition to_short :: "int \<Rightarrow> int" where "to_short i = sint (word_of_int i :: u16)"

section \<open>The buffer\<close>

text \<open>
  \<open>conf n\<close> is the answer to a buffer of \<open>n\<close> bytes.  Nothing in the code bounds the loop, so the model is partial.
\<close>

partial_function (option) ifconf_loop :: "(nat \<Rightarrow> errno + byte list) \<Rightarrow> nat \<Rightarrow> nat \<Rightarrow> byte list run option" where
  "ifconf_loop conf lastlen len =
     (case conf len of
        Inl e \<Rightarrow> if e \<noteq> EINVAL \<or> lastlen \<noteq> 0 then Some (Fatal ''ioctl error'') else ifconf_loop conf lastlen (len + 320)
      | Inr buf \<Rightarrow> if length buf = lastlen then Some (Ret buf) else ifconf_loop conf (length buf) (len + 320))"

section \<open>One entry\<close>

definition ifr_name :: "byte list \<Rightarrow> byte list" where "ifr_name mem = c_str (map (byte_at mem) [0 ..< 16])"
definition sa_len :: "byte list \<Rightarrow> nat" where "sa_len mem = max 16 (u8_at mem 16)"
definition sa_family :: "byte list \<Rightarrow> nat" where "sa_family mem = u8_at mem 17"
definition sa_copy :: "byte list \<Rightarrow> nat \<Rightarrow> byte list" where "sa_copy mem n = map (byte_at mem) [16 ..< 16 + n]"

record ifi_state =
  lastname :: "byte list"
  sdlname :: "byte list option"
  idx :: nat
  hlen :: nat
  haddr :: "byte list"
  ifis :: "ifi_info list"
  blocks_live :: int

definition opt_fatal :: "string \<Rightarrow> 'a option \<Rightarrow> 'a run" where
  "opt_fatal msg r = (case r of None \<Rightarrow> Fatal msg | Some x \<Rightarrow> Ret x)"

definition ifi_link :: "byte list \<Rightarrow> ifi_state \<Rightarrow> ifi_state" where
  "ifi_link mem s =
     (if sa_family mem = FAM_LINK then
        s\<lparr>sdlname := Some (ifr_name mem), idx := unat (u16_at mem 18), hlen := u8_at mem 22,
          haddr := map (byte_at mem) [24 + u8_at mem 21 ..< 24 + u8_at mem 21 + u8_at mem 22]\<rparr>
      else s)"

text \<open>The optional addresses of a new structure.\<close>

definition ifi_addrs :: "ioctls \<Rightarrow> u16 \<Rightarrow> byte list \<Rightarrow> byte list \<Rightarrow> ifi_info \<Rightarrow> int \<Rightarrow> (ifi_info \<times> int) run" where
  "ifi_addrs io flags base mem ifi n =
     (if sa_family mem = FAM_INET then
        run_bind (if flags AND IFF_BROADCAST \<noteq> 0
            then run_bind (opt_fatal ''ioctl error'' (io_brd io base)) (\<lambda>b. Ret (ifi\<lparr>ifi_addr := Some (sa_copy mem 16), ifi_brdaddr := Some b\<rparr>, n + 2))
            else Ret (ifi\<lparr>ifi_addr := Some (sa_copy mem 16)\<rparr>, n + 1)) (\<lambda>(ifi1, n1).
          if flags AND IFF_POINTOPOINT \<noteq> 0
          then run_bind (opt_fatal ''ioctl error'' (io_dst io base)) (\<lambda>d. Ret (ifi1\<lparr>ifi_dstaddr := Some d\<rparr>, n1 + 1))
          else Ret (ifi1, n1))
      else if sa_family mem = FAM_INET6 then
        (if flags AND IFF_POINTOPOINT \<noteq> 0
         then run_bind (opt_fatal ''ioctl error'' (io_dst io base)) (\<lambda>d. Ret (ifi\<lparr>ifi_addr := Some (sa_copy mem 28), ifi_dstaddr := Some d\<rparr>, n + 2))
         else Ret (ifi\<lparr>ifi_addr := Some (sa_copy mem 28)\<rparr>, n + 1))
      else Ret (ifi, n))"

definition ifi_entry :: "ioctls \<Rightarrow> nat \<Rightarrow> bool \<Rightarrow> byte list \<Rightarrow> ifi_state \<Rightarrow> ifi_state run" where
  "ifi_entry io family doaliases mem s0 =
     (let s = ifi_link mem s0
      in if sa_family mem \<noteq> family then Ret s
         else let base = takeWhile (\<lambda>c. c \<noteq> 58) (ifr_name mem); alias = (lastname s = base)
           in if alias \<and> \<not> doaliases then Ret s
              else let s1 = s\<lparr>lastname := base\<rparr>
                in run_bind (opt_fatal ''ioctl error'' (io_flags io base)) (\<lambda>flags.
                     if flags AND IFF_UP = 0 then Ret s1
                     else run_bind (opt_fatal ''ioctl error'' (io_mtu io base)) (\<lambda>mtu.
                       let s2 = (if sdlname s1 \<noteq> Some base then s1\<lparr>idx := 0, hlen := 0\<rparr> else s1);
                           ifi = \<lparr>ifi_name = take 15 base, ifi_index = to_short (int (idx s2)), ifi_mtu = to_short mtu,
                             ifi_haddr = (if hlen s2 \<noteq> 0 then take (min 8 (hlen s2)) (haddr s2) else []),
                             ifi_hlen = min 8 (hlen s2), ifi_flags = flags, ifi_alias = alias,
                             ifi_addr = None, ifi_brdaddr = None, ifi_dstaddr = None\<rparr>
                       in run_bind (ifi_addrs io flags base mem ifi (blocks_live s2 + 1)) (\<lambda>(ifi1, n).
                            Ret (s2\<lparr>ifis := ifis s2 @ [ifi1], blocks_live := n\<rparr>)))))"

function ifi_loop :: "ioctls \<Rightarrow> nat \<Rightarrow> bool \<Rightarrow> byte list \<Rightarrow> ifi_state \<Rightarrow> ifi_state run" where
  "ifi_loop io family doaliases mem s =
     (if mem = [] then Ret s
      else run_bind (ifi_entry io family doaliases mem s) (\<lambda>s1. ifi_loop io family doaliases (drop (16 + sa_len mem) mem) s1))"
  by pat_completeness auto
termination
  by (relation "measure (\<lambda>(io, f, d, mem, s). length mem)") (auto simp: sa_len_def)

declare ifi_loop.simps [simp del]

definition ifi_state_init :: "int \<Rightarrow> ifi_state" where
  "ifi_state_init n = \<lparr>lastname = [], sdlname = None, idx = 0, hlen = 0, haddr = [], ifis = [], blocks_live = n\<rparr>"

text \<open>The descriptors, the number of allocated blocks and the list; \<open>None\<close>: the first loop does not end.\<close>

definition get_ifi_info ::
  "(nat \<Rightarrow> errno + byte list) \<Rightarrow> ioctls \<Rightarrow> nat \<Rightarrow> bool \<Rightarrow> int list \<Rightarrow> int \<Rightarrow> (ifi_info list \<times> int list \<times> int) run option" where
  "get_ifi_info conf io family doaliases fds n =
     map_option (\<lambda>r. run_bind r (\<lambda>buf.
       run_bind (ifi_loop io family doaliases buf (ifi_state_init (n + 1))) (\<lambda>s.
         Ret (ifis s, lowest_free fds # fds, blocks_live s - 1)))) (ifconf_loop conf 0 3200)"

definition free_opt :: "'a option \<Rightarrow> int \<Rightarrow> int" where
  "free_opt p n = (if p \<noteq> None then n - 1 else n)"

fun free_ifi_info :: "ifi_info list \<Rightarrow> int \<Rightarrow> int" where
  "free_ifi_info [] n = n"
| "free_ifi_info (ifi # l) n =
     free_ifi_info l (free_opt (ifi_dstaddr ifi) (free_opt (ifi_brdaddr ifi) (free_opt (ifi_addr ifi) n)) - 1)"

section \<open>The growing buffer\<close>

text \<open>
  What kernels do when the buffer is too small: some report an error, some return as many whole entries as fit.
  The length of a socket address is a byte, so that an entry has at most 16 + 255 bytes, and a reply leaves less than
  that unused; the loop only needs that it leaves less than the 320 bytes by which the next buffer is longer.
\<close>

definition ifconf_kernel :: "(nat \<Rightarrow> errno + byte list) \<Rightarrow> byte list \<Rightarrow> bool" where
  "ifconf_kernel conf full \<longleftrightarrow> (\<forall>n \<ge> length full. conf n = Inr full) \<and>
     ((\<forall>n < length full. conf n = Inl EINVAL) \<or>
      (\<forall>n < length full. \<exists>buf. conf n = Inr buf \<and> length buf \<le> n \<and> n < length buf + 320))"

lemma ifconf_big:
  assumes "ifconf_kernel conf full" and "length full \<le> n"
  shows "ifconf_loop conf l n = Some (Ret full)"
proof -
  have c: "conf m = Inr full" if "length full \<le> m" for m using assms(1) that by (simp add: ifconf_kernel_def)
  have "ifconf_loop conf (length full) (n + 320) = Some (Ret full)"
    using c [of "n + 320"] assms(2) by (simp add: ifconf_loop.simps)
  then show ?thesis using c [OF assms(2)] by (simp add: ifconf_loop.simps [of conf l n])
qed

lemma ifconf_einval:
  assumes "ifconf_kernel conf full" and "\<forall>n < length full. conf n = Inl EINVAL"
  shows "ifconf_loop conf 0 n = Some (Ret full)"
proof (induction "length full - n" arbitrary: n rule: less_induct)
  case less
  show ?case
  proof (cases "length full \<le> n")
    case False
    then have "ifconf_loop conf 0 (n + 320) = Some (Ret full)" using less [of "n + 320"] by simp
    then show ?thesis using assms(2) False by (simp add: ifconf_loop.simps [of conf 0 n])
  qed (rule ifconf_big [OF assms(1)])
qed

lemma ifconf_truncate:
  assumes "ifconf_kernel conf full" and "\<forall>n < length full. \<exists>buf. conf n = Inr buf \<and> length buf \<le> n \<and> n < length buf + 320"
    and "l + 320 \<le> n"
  shows "ifconf_loop conf l n = Some (Ret full)"
  using assms(3)
proof (induction "length full - n" arbitrary: l n rule: less_induct)
  case less
  show ?case
  proof (cases "length full \<le> n")
    case False
    then obtain buf where b: "conf n = Inr buf" "length buf \<le> n" "n < length buf + 320" using assms(2) by (meson not_le)
    have "ifconf_loop conf (length buf) (n + 320) = Some (Ret full)" using less(1) [of "n + 320" "length buf"] False b by simp
    moreover have "length buf \<noteq> l" using b(3) less.prems by simp
    ultimately show ?thesis using b(1) by (simp add: ifconf_loop.simps [of conf l n])
  qed (rule ifconf_big [OF assms(1)])
qed

lemma ifconf_all: "ifconf_kernel conf full \<Longrightarrow> ifconf_loop conf 0 3200 = Some (Ret full)"
  using ifconf_einval ifconf_truncate [of conf full 0 3200] by (auto simp: ifconf_kernel_def)

text \<open>The loop has no end on a kernel that reports the error for every length.\<close>

lemma ifconf_never:
  assumes "\<forall>n. conf n = Inl EINVAL"
  shows "ifconf_loop conf 0 n = None"
proof -
  have "conf' = conf \<longrightarrow> l \<noteq> 0" if ret: "ifconf_loop conf' l m = Some r" for conf' l m r
  proof (rule ifconf_loop.raw_induct [where P = "\<lambda>conf' l m r. conf' = conf \<longrightarrow> l \<noteq> 0", OF _ ret])
    fix f conf' l m r
    assume IH: "\<And>conf' l m r. f conf' l m = Some r \<Longrightarrow> conf' = conf \<longrightarrow> l \<noteq> 0"
      and eq: "(case conf' m of
          Inl e \<Rightarrow> if e \<noteq> EINVAL \<or> l \<noteq> 0 then Some (Fatal ''ioctl error'') else f conf' l (m + 320)
        | Inr buf \<Rightarrow> if length buf = l then Some (Ret buf) else f conf' (length buf) (m + 320)) = Some r"
    show "conf' = conf \<longrightarrow> l \<noteq> 0"
    proof (intro impI notI)
      assume "conf' = conf" and "l = 0"
      then have "f conf 0 (m + 320) = Some r" using eq assms by simp
      then show False using IH by blast
    qed
  qed
  then show ?thesis by (cases "ifconf_loop conf 0 n") auto
qed

text \<open>The kernel that returns the whole entries that fit is one of those that the loop copes with.\<close>

fun fitting :: "nat \<Rightarrow> byte list list \<Rightarrow> byte list" where
  "fitting n [] = []"
| "fitting n (e # es) = (if length e \<le> n then e @ fitting (n - length e) es else [])"

lemma fitting_all: "length (concat es) \<le> n \<Longrightarrow> fitting n es = concat es"
  by (induction es arbitrary: n) auto

lemma fitting_length:
  "n < length (concat es) \<Longrightarrow> \<forall>e \<in> set es. length e \<le> 271 \<Longrightarrow> length (fitting n es) \<le> n \<and> n < length (fitting n es) + 320"
proof (induction es arbitrary: n)
  case (Cons e es)
  show ?case
  proof (cases "length e \<le> n")
    case True
    then show ?thesis using Cons.IH [of "n - length e"] Cons.prems by fastforce
  qed (use Cons.prems in auto)
qed simp

lemma fitting_kernel:
  assumes "\<forall>e \<in> set es. length e \<le> 271"
  shows "ifconf_kernel (\<lambda>n. Inr (fitting n es)) (concat es)"
  using fitting_all fitting_length assms by (auto simp: ifconf_kernel_def)

section \<open>Entries as the kernel lays them out\<close>

definition enc_entry :: "byte list \<Rightarrow> byte list \<Rightarrow> byte list" where
  "enc_entry nm sa = (nm @ replicate (16 - length nm) 0) @ sa @ replicate (16 - length sa) 0"

definition entry_ok :: "byte list \<Rightarrow> byte list \<Rightarrow> bool" where
  "entry_ok nm sa \<longleftrightarrow> 0 \<notin> set nm \<and> length nm \<le> 15 \<and> 2 \<le> length sa \<and> length sa < 256 \<and> hd sa = of_nat (length sa)"

lemma map_byte_at: "map (byte_at (xs @ ys @ zs)) [length xs ..< length xs + length ys] = ys"
  by (intro nth_equalityI) (auto simp: byte_at_def nth_append)

lemma entry_at:
  assumes "entry_ok nm sa" and "j < length sa"
  shows "byte_at (enc_entry nm sa @ rest) (16 + j) = byte_at sa j"
proof -
  have "enc_entry nm sa @ rest = (nm @ replicate (16 - length nm) 0) @ sa @ (replicate (16 - length sa) 0 @ rest)"
    by (simp add: enc_entry_def)
  moreover have "16 = length (nm @ replicate (16 - length nm) (0 :: byte))" using assms(1) by (simp add: entry_ok_def)
  ultimately show ?thesis using assms(2) by (metis byte_at_mid)
qed

lemma entry_fields:
  assumes "entry_ok nm sa"
  shows "ifr_name (enc_entry nm sa @ rest) = nm" and "sa_len (enc_entry nm sa @ rest) = max 16 (length sa)"
    and "sa_family (enc_entry nm sa @ rest) = u8_at sa 1" and "drop (16 + max 16 (length sa)) (enc_entry nm sa @ rest) = rest"
    and "sa_copy (enc_entry nm sa @ rest) (length sa) = sa"
proof -
  let ?nm = "nm @ replicate (16 - length nm) (0 :: byte)" and ?m = "enc_entry nm sa @ rest"
  have l: "length ?nm = 16" using assms by (simp add: entry_ok_def)
  have m: "?m = [] @ ?nm @ (sa @ replicate (16 - length sa) 0 @ rest)" by (simp add: enc_entry_def)
  have "map (byte_at ?m) [0 ..< 16] = ?nm" using map_byte_at [of "[]" ?nm] l m by simp
  moreover have "takeWhile (\<lambda>b. b \<noteq> 0) ?nm = nm"
    using assms by (simp add: entry_ok_def takeWhile_append takeWhile_replicate)
  ultimately show "ifr_name ?m = nm" by (simp add: ifr_name_def c_str_def)
  have "byte_at ?m 16 = hd sa" using entry_at [OF assms, of 0 rest] assms by (cases sa) (auto simp: entry_ok_def byte_at_def)
  then show "sa_len ?m = max 16 (length sa)" using assms by (simp add: sa_len_def u8_at_def entry_ok_def unat_of_nat_byte)
  show "sa_family ?m = u8_at sa 1" using entry_at [OF assms, of 1 rest] assms by (simp add: sa_family_def u8_at_def entry_ok_def)
  show "drop (16 + max 16 (length sa)) ?m = rest" using l by (simp add: enc_entry_def max_def)
  show "sa_copy ?m (length sa) = sa"
    using entry_at [OF assms, of _ rest] by (intro nth_equalityI) (auto simp: sa_copy_def byte_at_def)
qed

section \<open>Interfaces\<close>

text \<open>
  An interface: its name, its link address, and its addresses, each with what its entry adds to the name (nothing, or a
  colon and more).
\<close>

record ifgroup =
  g_name :: "byte list"
  g_link :: "byte list"
  g_addrs :: "(byte list \<times> byte list) list"

definition enc_group :: "ifgroup \<Rightarrow> byte list" where
  "enc_group g = enc_entry (g_name g) (g_link g) @ concat (map (\<lambda>(sfx, sa). enc_entry (g_name g @ sfx) sa) (g_addrs g))"

definition addr_ok :: "byte list \<Rightarrow> byte list \<times> byte list \<Rightarrow> bool" where
  "addr_ok nm a \<longleftrightarrow> entry_ok (nm @ fst a) (snd a) \<and> (fst a = [] \<or> hd (fst a) = 58) \<and> u8_at (snd a) 1 \<noteq> FAM_LINK \<and>
     (u8_at (snd a) 1 = FAM_INET \<longrightarrow> length (snd a) = 16) \<and> (u8_at (snd a) 1 = FAM_INET6 \<longrightarrow> length (snd a) = 28)"

definition link_hlen :: "ifgroup \<Rightarrow> nat" where "link_hlen g = u8_at (g_link g) 6"
definition link_hw :: "ifgroup \<Rightarrow> byte list" where
  "link_hw g = take (link_hlen g) (drop (8 + u8_at (g_link g) 5) (g_link g))"

definition group_ok :: "ifgroup \<Rightarrow> bool" where
  "group_ok g \<longleftrightarrow> g_name g \<noteq> [] \<and> 58 \<notin> set (g_name g) \<and> entry_ok (g_name g) (g_link g) \<and> u8_at (g_link g) 1 = FAM_LINK \<and>
     8 + u8_at (g_link g) 5 + link_hlen g \<le> length (g_link g) \<and> (\<forall>a \<in> set (g_addrs g). addr_ok (g_name g) a)"

text \<open>What is known about every interface.\<close>

record if_table =
  t_flags :: "byte list \<Rightarrow> u16"
  t_mtu :: "byte list \<Rightarrow> int"
  t_brd :: "byte list \<Rightarrow> byte list"
  t_dst :: "byte list \<Rightarrow> byte list"

definition io_of :: "if_table \<Rightarrow> ioctls" where
  "io_of t = \<lparr>io_flags = (\<lambda>n. Some (t_flags t n)), io_mtu = (\<lambda>n. Some (t_mtu t n)), io_brd = (\<lambda>n. Some (t_brd t n)),
     io_dst = (\<lambda>n. Some (t_dst t n))\<rparr>"

text \<open>The structure for an address of an interface, and the list for the addresses of one family.\<close>

definition ifi_of :: "if_table \<Rightarrow> ifgroup \<Rightarrow> bool \<Rightarrow> byte list \<Rightarrow> ifi_info" where
  "ifi_of t g alias sa =
     (let nm = g_name g; fl = t_flags t nm; inet = (u8_at sa 1 = FAM_INET); inet6 = (u8_at sa 1 = FAM_INET6)
      in \<lparr>ifi_name = nm, ifi_index = to_short (int (unat (u16_at (g_link g) 2))), ifi_mtu = to_short (t_mtu t nm),
          ifi_haddr = take 8 (link_hw g), ifi_hlen = min 8 (link_hlen g), ifi_flags = fl, ifi_alias = alias,
          ifi_addr = (if inet \<or> inet6 then Some sa else None),
          ifi_brdaddr = (if inet \<and> fl AND IFF_BROADCAST \<noteq> 0 then Some (t_brd t nm) else None),
          ifi_dstaddr = (if (inet \<or> inet6) \<and> fl AND IFF_POINTOPOINT \<noteq> 0 then Some (t_dst t nm) else None)\<rparr>)"

fun alias_ifis :: "if_table \<Rightarrow> bool \<Rightarrow> ifgroup \<Rightarrow> byte list list \<Rightarrow> ifi_info list" where
  "alias_ifis t doaliases g [] = []"
| "alias_ifis t doaliases g (sa # sas) = ifi_of t g False sa # (if doaliases then map (ifi_of t g True) sas else [])"

definition group_ifis :: "if_table \<Rightarrow> nat \<Rightarrow> bool \<Rightarrow> ifgroup \<Rightarrow> ifi_info list" where
  "group_ifis t family doaliases g =
     (if t_flags t (g_name g) AND IFF_UP = 0 then []
      else alias_ifis t doaliases g (filter (\<lambda>sa. u8_at sa 1 = family) (map snd (g_addrs g))))"

definition ifi_blocks :: "ifi_info list \<Rightarrow> int" where
  "ifi_blocks l = (\<Sum>ifi \<leftarrow> l. 1 + (if ifi_addr ifi = None then 0 else 1) + (if ifi_brdaddr ifi = None then 0 else 1) +
     (if ifi_dstaddr ifi = None then 0 else 1))"

lemma ifi_blocks_simps [simp]: "ifi_blocks [] = 0" "ifi_blocks (k @ l) = ifi_blocks k + ifi_blocks l"
  by (simp_all add: ifi_blocks_def)

lemma free_ifis: "free_ifi_info l n = n - ifi_blocks l"
  by (induction l arbitrary: n) (auto simp: ifi_blocks_def free_opt_def)

section \<open>One interface\<close>

text \<open>The state while the addresses of an interface are read: its link address has been seen.\<close>

definition in_group :: "ifgroup \<Rightarrow> ifi_state \<Rightarrow> bool" where
  "in_group g s \<longleftrightarrow> sdlname s = Some (g_name g) \<and> idx s = unat (u16_at (g_link g) 2) \<and> hlen s = link_hlen g \<and> haddr s = link_hw g"

definition add_ifi :: "if_table \<Rightarrow> bool \<Rightarrow> ifgroup \<Rightarrow> byte list \<Rightarrow> ifi_state \<Rightarrow> ifi_state" where
  "add_ifi t doaliases g sa s =
     (let nm = g_name g; ifi = ifi_of t g (lastname s = nm) sa
      in if lastname s = nm \<and> \<not> doaliases then s
         else if t_flags t nm AND IFF_UP = 0 then s\<lparr>lastname := nm\<rparr>
         else s\<lparr>lastname := nm, ifis := ifis s @ [ifi], blocks_live := blocks_live s + ifi_blocks [ifi]\<rparr>)"

lemma base_name:
  assumes "58 \<notin> set nm" and "sfx = [] \<or> hd sfx = 58"
  shows "takeWhile (\<lambda>c. c \<noteq> (58 :: byte)) (nm @ sfx) = nm"
proof -
  have "takeWhile (\<lambda>c. c \<noteq> 58) sfx = []" using assms(2) by (cases sfx) auto
  then show ?thesis using assms(1) by (metis (mono_tags, lifting) append_Nil2 takeWhile_append2)
qed

definition with_addrs :: "if_table \<Rightarrow> byte list \<Rightarrow> bool \<Rightarrow> bool \<Rightarrow> bool \<Rightarrow> bool \<Rightarrow> byte list \<Rightarrow> ifi_info \<Rightarrow> ifi_info" where
  "with_addrs t nm inet inet6 b p sa ifi =
     ifi\<lparr>ifi_addr := (if inet \<or> inet6 then Some sa else None), ifi_brdaddr := (if inet \<and> b then Some (t_brd t nm) else None),
       ifi_dstaddr := (if (inet \<or> inet6) \<and> p then Some (t_dst t nm) else None)\<rparr>"

lemma ifi_addrs_io:
  assumes "ifi_addr ifi = None" "ifi_brdaddr ifi = None" "ifi_dstaddr ifi = None"
    and "sa_family mem = FAM_INET \<Longrightarrow> sa_copy mem 16 = sa" and "sa_family mem = FAM_INET6 \<Longrightarrow> sa_copy mem 28 = sa"
    and "r = with_addrs t nm (sa_family mem = FAM_INET) (sa_family mem = FAM_INET6) (fl AND IFF_BROADCAST \<noteq> 0) (fl AND IFF_POINTOPOINT \<noteq> 0) sa ifi"
  shows "ifi_addrs (io_of t) fl nm mem ifi n = Ret (r, n - 1 + ifi_blocks [r])"
proof -
  define b p where "b = (fl AND IFF_BROADCAST \<noteq> 0)" and "p = (fl AND IFF_POINTOPOINT \<noteq> 0)"
  have ne: "FAM_INET \<noteq> FAM_INET6" by (simp add: FAM_INET_def FAM_INET6_def)
  have ifi: "ifi\<lparr>ifi_addr := None, ifi_brdaddr := None, ifi_dstaddr := None\<rparr> = ifi"
    "ifi\<lparr>ifi_brdaddr := None, ifi_dstaddr := None\<rparr> = ifi" "ifi\<lparr>ifi_dstaddr := None\<rparr> = ifi" "ifi\<lparr>ifi_brdaddr := None\<rparr> = ifi"
    using assms(1-3) by (cases ifi; simp)+
  have bl: "ifi_blocks [x] = 1 + (if ifi_addr x = None then 0 else 1) + (if ifi_brdaddr x = None then 0 else 1) +
      (if ifi_dstaddr x = None then 0 else 1)" for x by (simp add: ifi_blocks_def)
  note unf = assms(6) ifi_addrs_def with_addrs_def bl b_def [symmetric] p_def [symmetric]
  show ?thesis
  proof (cases "sa_family mem = FAM_INET")
    case True
    then show ?thesis unfolding unf
      using assms(4) ne ifi assms(1-3) by (cases b; cases p) (simp_all add: io_of_def opt_fatal_def)
  next
    case False
    then show ?thesis unfolding unf
      using assms(5) ifi assms(1-3) by (cases "sa_family mem = FAM_INET6"; cases p) (simp_all add: io_of_def opt_fatal_def)
  qed
qed

text \<open>An address entry of the requested family, and one of another family.\<close>

lemma ifi_entry_other:
  assumes "addr_ok nm (sfx, sa)" and "u8_at sa 1 \<noteq> family"
  shows "ifi_entry io family doaliases (enc_entry (nm @ sfx) sa @ rest) s = Ret s"
  using assms entry_fields(3) [of "nm @ sfx" sa rest] by (simp add: ifi_entry_def ifi_link_def addr_ok_def)

lemma ifi_entry_addr:
  assumes "addr_ok (g_name g) (sfx, sa)" and "u8_at sa 1 = family" and "group_ok g" and "in_group g s"
  shows "ifi_entry (io_of t) family doaliases (enc_entry (g_name g @ sfx) sa @ rest) s = Ret (add_ifi t doaliases g sa s) \<and>
    in_group g (add_ifi t doaliases g sa s)"
proof -
  let ?nm = "g_name g" and ?m = "enc_entry (g_name g @ sfx) sa @ rest"
  let ?al = "lastname s = ?nm" and ?fl = "t_flags t (g_name g)"
  have ok: "entry_ok (?nm @ sfx) sa" using assms(1) by (simp add: addr_ok_def)
  note f = entry_fields [OF ok, of rest]
  have base: "takeWhile (\<lambda>c. c \<noteq> 58) (ifr_name ?m) = ?nm"
    unfolding f(1) using base_name [of ?nm sfx] assms(1,3) by (simp add: addr_ok_def group_ok_def)
  have link: "ifi_link ?m s = s" using f(3) assms(1) by (simp add: ifi_link_def addr_ok_def)
  have g: "in_group g (add_ifi t doaliases g sa s)" using assms(4) by (simp add: add_ifi_def in_group_def Let_def)
  define ifi where "ifi = \<lparr>ifi_name = take 15 ?nm, ifi_index = to_short (int (idx s)), ifi_mtu = to_short (t_mtu t ?nm),
    ifi_haddr = (if hlen s \<noteq> 0 then take (min 8 (hlen s)) (haddr s) else []), ifi_hlen = min 8 (hlen s), ifi_flags = ?fl,
    ifi_alias = ?al, ifi_addr = None, ifi_brdaddr = None, ifi_dstaddr = None\<rparr>"
  have nm15: "take 15 ?nm = ?nm" using assms(3) by (simp add: group_ok_def entry_ok_def)
  have hw: "take (min 8 (link_hlen g)) (link_hw g) = take 8 (link_hw g)" "link_hlen g = 0 \<Longrightarrow> link_hw g = []"
    by (simp_all add: link_hw_def min_def)
  have "ifi_of t g ?al sa = with_addrs t ?nm (sa_family ?m = FAM_INET) (sa_family ?m = FAM_INET6) (?fl AND IFF_BROADCAST \<noteq> 0)
      (?fl AND IFF_POINTOPOINT \<noteq> 0) sa ifi"
    using assms(4) hw nm15 by (simp add: ifi_of_def with_addrs_def ifi_def in_group_def f(3) Let_def)
  then have a: "ifi_addrs (io_of t) ?fl ?nm ?m ifi n = Ret (ifi_of t g ?al sa, n - 1 + ifi_blocks [ifi_of t g ?al sa])" for n
    by (intro ifi_addrs_io) (use f assms(1) in \<open>simp_all add: ifi_def addr_ok_def\<close>)
  have io: "io_flags (io_of t) ?nm = Some ?fl" "io_mtu (io_of t) ?nm = Some (t_mtu t ?nm)" by (simp_all add: io_of_def)
  have sdl: "sdlname s = Some ?nm" using assms(4) by (simp add: in_group_def)
  have "ifi_entry (io_of t) family doaliases ?m s = Ret (add_ifi t doaliases g sa s)"
    unfolding ifi_entry_def add_ifi_def Let_def link base io opt_fatal_def option.case run_bind.simps f(3)
    using assms(2) sdl a [unfolded ifi_def, of "blocks_live s + 1"] by auto
  then show ?thesis using g by blast
qed

lemma ifi_loop_entry:
  assumes "entry_ok nm sa" and "ifi_entry io family doaliases (enc_entry nm sa @ rest) s = Ret s1"
  shows "ifi_loop io family doaliases (enc_entry nm sa @ rest) s = ifi_loop io family doaliases rest s1"
proof -
  have "enc_entry nm sa @ rest \<noteq> []" using assms(1) by (auto simp: enc_entry_def entry_ok_def)
  then show ?thesis
    using assms(2) entry_fields(2,4) [OF assms(1), of rest] by (subst ifi_loop.simps) (simp del: append_is_Nil_conv drop_append)
qed

lemma ifi_loop_addrs:
  assumes "group_ok g" and "\<forall>a \<in> set as. addr_ok (g_name g) a" and "in_group g s"
  shows "ifi_loop (io_of t) family doaliases (concat (map (\<lambda>(sfx, sa). enc_entry (g_name g @ sfx) sa) as) @ rest) s =
    ifi_loop (io_of t) family doaliases rest (fold (add_ifi t doaliases g) (filter (\<lambda>sa. u8_at sa 1 = family) (map snd as)) s)"
  using assms(2,3)
proof (induction as arbitrary: s)
  case (Cons a as)
  obtain sfx sa where a: "a = (sfx, sa)" by (cases a)
  then have ok: "addr_ok (g_name g) (sfx, sa)" "entry_ok (g_name g @ sfx) sa" using Cons.prems(1) by (auto simp: addr_ok_def)
  define more where "more = concat (map (\<lambda>(sfx, sa). enc_entry (g_name g @ sfx) sa) as) @ rest"
  show ?case
  proof (cases "u8_at sa 1 = family")
    case True
    note e = ifi_entry_addr [OF ok(1) True assms(1) Cons.prems(2), of t doaliases more]
    then show ?thesis using ifi_loop_entry [OF ok(2) conjunct1 [OF e]] Cons.IH [OF _ conjunct2 [OF e]] Cons.prems(1) True
      by (simp add: a more_def)
  next
    case False
    then show ?thesis using ifi_loop_entry [OF ok(2) ifi_entry_other [OF ok(1) False]] Cons by (simp add: a)
  qed
qed simp

definition log_ifis :: "ifi_state \<Rightarrow> ifi_info list \<Rightarrow> ifi_state" where
  "log_ifis s l = s\<lparr>ifis := ifis s @ l, blocks_live := blocks_live s + ifi_blocks l\<rparr>"

lemma log_ifis_simps [simp]: "log_ifis s [] = s" "log_ifis (log_ifis s k) l = log_ifis s (k @ l)" "lastname (log_ifis s l) = lastname s"
  by (simp_all add: log_ifis_def)

lemma fold_alias:
  "lastname s = g_name g \<Longrightarrow> fold (add_ifi t doaliases g) sas s =
     log_ifis s (if t_flags t (g_name g) AND IFF_UP = 0 \<or> \<not> doaliases then [] else map (ifi_of t g True) sas)"
proof (induction sas arbitrary: s)
  case (Cons sa sas)
  let ?u = "t_flags t (g_name g) AND IFF_UP = 0"
  have "add_ifi t doaliases g sa s = log_ifis s (if ?u \<or> \<not> doaliases then [] else [ifi_of t g True sa])"
    using Cons.prems by (cases s) (simp add: add_ifi_def log_ifis_def Let_def)
  then show ?case using Cons.IH [of "log_ifis s (if ?u \<or> \<not> doaliases then [] else [ifi_of t g True sa])"] Cons.prems by simp
qed simp

lemma fold_first:
  assumes "lastname s \<noteq> g_name g"
  shows "fold (add_ifi t doaliases g) sas s =
    (if sas = [] then s
     else log_ifis (s\<lparr>lastname := g_name g\<rparr>) (if t_flags t (g_name g) AND IFF_UP = 0 then [] else alias_ifis t doaliases g sas))"
proof (cases sas)
  case (Cons sa sas')
  let ?u = "t_flags t (g_name g) AND IFF_UP = 0"
  have "add_ifi t doaliases g sa s = log_ifis (s\<lparr>lastname := g_name g\<rparr>) (if ?u then [] else [ifi_of t g False sa])"
    using assms by (simp add: add_ifi_def log_ifis_def Let_def)
  then show ?thesis
    using fold_alias [of "log_ifis (s\<lparr>lastname := g_name g\<rparr>) (if ?u then [] else [ifi_of t g False sa])" g t doaliases sas'] Cons
    by simp
qed simp

definition enter :: "ifgroup \<Rightarrow> ifi_state \<Rightarrow> ifi_state" where
  "enter g s = s\<lparr>sdlname := Some (g_name g), idx := unat (u16_at (g_link g) 2), hlen := link_hlen g, haddr := link_hw g\<rparr>"

lemma ifi_entry_link:
  assumes "group_ok g" and "family \<noteq> FAM_LINK"
  shows "ifi_entry io family doaliases (enc_entry (g_name g) (g_link g) @ rest) s = Ret (enter g s)"
proof -
  let ?m = "enc_entry (g_name g) (g_link g) @ rest" and ?l = "g_link g"
  have ok: "entry_ok (g_name g) ?l" and l: "8 + u8_at ?l 5 + link_hlen g \<le> length ?l" and fam: "u8_at ?l 1 = FAM_LINK"
    using assms(1) by (simp_all add: group_ok_def)
  have at: "byte_at ?m (16 + j) = byte_at ?l j" if "j < length ?l" for j by (rule entry_at [OF ok that])
  have b: "byte_at ?m 18 = byte_at ?l 2" "byte_at ?m 19 = byte_at ?l 3" "byte_at ?m 21 = byte_at ?l 5" "byte_at ?m 22 = byte_at ?l 6"
    using at [of 2] at [of 3] at [of 5] at [of 6] l by simp_all
  have hw: "map (byte_at ?m) [24 + u8_at ?l 5 ..< 24 + u8_at ?l 5 + u8_at ?l 6] = link_hw g"
  proof (rule nth_equalityI)
    show "length (map (byte_at ?m) [24 + u8_at ?l 5 ..< 24 + u8_at ?l 5 + u8_at ?l 6]) = length (link_hw g)"
      using l by (simp add: link_hw_def link_hlen_def)
    fix i assume "i < length (map (byte_at ?m) [24 + u8_at ?l 5 ..< 24 + u8_at ?l 5 + u8_at ?l 6])"
    then have i: "i < link_hlen g" by (simp add: link_hlen_def)
    then show "map (byte_at ?m) [24 + u8_at ?l 5 ..< 24 + u8_at ?l 5 + u8_at ?l 6] ! i = link_hw g ! i"
      using at [of "8 + u8_at ?l 5 + i"] l by (simp add: link_hw_def link_hlen_def byte_at_def add.commute add.left_commute)
  qed
  have "ifi_link ?m s = enter g s"
    using b hw fam unfolding ifi_link_def enter_def entry_fields(1,3) [OF ok] link_hlen_def
    by (simp add: u16_at_def u8_at_def)
  then show ?thesis using fam assms(2) entry_fields(3) [OF ok, of rest] by (simp add: ifi_entry_def)
qed

text \<open>A whole interface.\<close>

lemma ifi_loop_group:
  assumes "group_ok g" and "family \<noteq> FAM_LINK" and "lastname s \<noteq> g_name g"
  shows "\<exists>s1. ifi_loop (io_of t) family doaliases (enc_group g @ rest) s = ifi_loop (io_of t) family doaliases rest s1 \<and>
    lastname s1 \<in> {lastname s, g_name g} \<and> ifis s1 = ifis s @ group_ifis t family doaliases g \<and>
    blocks_live s1 = blocks_live s + ifi_blocks (group_ifis t family doaliases g)"
proof -
  let ?fam = "filter (\<lambda>sa. u8_at sa 1 = family) (map snd (g_addrs g))"
  have ok: "entry_ok (g_name g) (g_link g)" "\<forall>a \<in> set (g_addrs g). addr_ok (g_name g) a" using assms(1) by (auto simp: group_ok_def)
  have "in_group g (enter g s)" by (simp add: in_group_def enter_def)
  then have "ifi_loop (io_of t) family doaliases (enc_group g @ rest) s =
      ifi_loop (io_of t) family doaliases rest (fold (add_ifi t doaliases g) ?fam (enter g s))"
    using ifi_loop_entry [OF ok(1) ifi_entry_link [OF assms(1,2)]] ifi_loop_addrs [OF assms(1) ok(2)] by (simp add: enc_group_def)
  moreover have "lastname (enter g s) \<noteq> g_name g" using assms(3) by (simp add: enter_def)
  note fold_first [OF this, of t doaliases ?fam]
  ultimately show ?thesis
    by (intro exI [of _ "fold (add_ifi t doaliases g) ?fam (enter g s)"]) (auto simp: log_ifis_def enter_def group_ifis_def)
qed

lemma ifi_loop_groups:
  assumes "\<forall>g \<in> set gs. group_ok g" and "family \<noteq> FAM_LINK" and "distinct (map g_name gs)" and "lastname s \<notin> g_name ` set gs"
  shows "\<exists>s1. ifi_loop (io_of t) family doaliases (concat (map enc_group gs)) s = Ret s1 \<and>
    ifis s1 = ifis s @ concat (map (group_ifis t family doaliases) gs) \<and>
    blocks_live s1 = blocks_live s + ifi_blocks (concat (map (group_ifis t family doaliases) gs))"
  using assms(1,3,4)
proof (induction gs arbitrary: s)
  case (Cons g gs)
  have g: "group_ok g" "lastname s \<noteq> g_name g" using Cons.prems by auto
  obtain s1 where s1: "ifi_loop (io_of t) family doaliases (enc_group g @ concat (map enc_group gs)) s =
      ifi_loop (io_of t) family doaliases (concat (map enc_group gs)) s1"
    "lastname s1 \<in> {lastname s, g_name g}" "ifis s1 = ifis s @ group_ifis t family doaliases g"
    "blocks_live s1 = blocks_live s + ifi_blocks (group_ifis t family doaliases g)"
    using ifi_loop_group [OF g(1) assms(2) g(2)] by blast
  have "lastname s1 \<notin> g_name ` set gs" using s1(2) Cons.prems(2,3) by auto
  then show ?case using Cons.IH [of s1] Cons.prems(1,2) s1 by auto
qed (simp add: ifi_loop.simps)

section \<open>Calls of ioctl that fail\<close>

definition table_of :: "ioctls \<Rightarrow> if_table" where
  "table_of io = \<lparr>t_flags = the \<circ> io_flags io, t_mtu = the \<circ> io_mtu io, t_brd = the \<circ> io_brd io, t_dst = the \<circ> io_dst io\<rparr>"

definition io_fails :: "ioctls \<Rightarrow> byte list \<Rightarrow> bool" where
  "io_fails io nm \<longleftrightarrow> io_flags io nm = None \<or> io_mtu io nm = None \<or> io_brd io nm = None \<or> io_dst io nm = None"

definition base_of :: "byte list \<Rightarrow> byte list" where
  "base_of mem = takeWhile (\<lambda>c. c \<noteq> 58) (ifr_name mem)"

lemma ifi_addrs_fail:
  "ifi_addrs io fl nm mem ifi n = ifi_addrs (io_of (table_of io)) fl nm mem ifi n \<or>
   ifi_addrs io fl nm mem ifi n = Fatal ''ioctl error'' \<and> io_fails io nm"
  by (cases "io_brd io nm"; cases "io_dst io nm")
    (simp_all add: ifi_addrs_def opt_fatal_def io_of_def table_of_def io_fails_def)

lemma ifi_entry_fail:
  "ifi_entry io family doaliases mem s = ifi_entry (io_of (table_of io)) family doaliases mem s \<or>
   ifi_entry io family doaliases mem s = Fatal ''ioctl error'' \<and> io_fails io (base_of mem)"
proof (cases "io_flags io (base_of mem)")
  case None
  then show ?thesis
    by (auto simp: ifi_entry_def Let_def opt_fatal_def io_fails_def base_of_def [symmetric])
next
  case f: (Some fl)
  have tf: "io_flags (io_of (table_of io)) (base_of mem) = Some fl" using f by (simp add: io_of_def table_of_def)
  show ?thesis
  proof (cases "io_mtu io (base_of mem)")
    case None
    then show ?thesis
      unfolding ifi_entry_def Let_def opt_fatal_def base_of_def [symmetric] f tf option.case run_bind.simps
      by (auto simp: io_fails_def)
  next
    case m: (Some mtu)
    have tm: "io_mtu (io_of (table_of io)) (base_of mem) = Some mtu" using m by (simp add: io_of_def table_of_def)
    show ?thesis
      unfolding ifi_entry_def Let_def opt_fatal_def base_of_def [symmetric] f tf m tm option.case run_bind.simps
      using ifi_addrs_fail [of io fl "base_of mem" mem] by (smt (verit) run_bind.simps)
  qed
qed

lemma ifi_loop_fail_entry:
  assumes "entry_ok nm sa" and "io_fails io (takeWhile (\<lambda>c. c \<noteq> 58) nm) \<longrightarrow> Q"
    and "\<And>s. ifi_loop io family doaliases rest s = ifi_loop (io_of (table_of io)) family doaliases rest s \<or>
      ifi_loop io family doaliases rest s = Fatal ''ioctl error'' \<and> Q"
  shows "ifi_loop io family doaliases (enc_entry nm sa @ rest) s = ifi_loop (io_of (table_of io)) family doaliases (enc_entry nm sa @ rest) s \<or>
      ifi_loop io family doaliases (enc_entry nm sa @ rest) s = Fatal ''ioctl error'' \<and> Q"
proof -
  let ?m = "enc_entry nm sa @ rest"
  have step: "ifi_loop i family doaliases ?m s = run_bind (ifi_entry i family doaliases ?m s) (ifi_loop i family doaliases rest)" for i
  proof -
    have "?m \<noteq> []" using assms(1) by (auto simp: enc_entry_def entry_ok_def)
    then show ?thesis using entry_fields(2,4) [OF assms(1), of rest]
      by (subst ifi_loop.simps) (simp del: append_is_Nil_conv drop_append)
  qed
  have b: "base_of ?m = takeWhile (\<lambda>c. c \<noteq> 58) nm" by (simp add: base_of_def entry_fields(1) [OF assms(1)])
  show ?thesis
  proof (cases "ifi_entry (io_of (table_of io)) family doaliases ?m s")
    case (Ret s1)
    then show ?thesis using ifi_entry_fail [of io family doaliases ?m s] assms(2) assms(3) [of s1] unfolding step b by auto
  qed (use ifi_entry_fail [of io family doaliases ?m s] assms(2) in \<open>auto simp: step b\<close>)
qed

lemma ifi_loop_fail_addrs:
  assumes "\<forall>a \<in> set as. addr_ok nm a" and "58 \<notin> set nm" and "io_fails io nm \<longrightarrow> Q"
    and "\<And>s. ifi_loop io family doaliases rest s = ifi_loop (io_of (table_of io)) family doaliases rest s \<or>
      ifi_loop io family doaliases rest s = Fatal ''ioctl error'' \<and> Q"
  shows "ifi_loop io family doaliases (concat (map (\<lambda>(sfx, sa). enc_entry (nm @ sfx) sa) as) @ rest) s =
      ifi_loop (io_of (table_of io)) family doaliases (concat (map (\<lambda>(sfx, sa). enc_entry (nm @ sfx) sa) as) @ rest) s \<or>
    ifi_loop io family doaliases (concat (map (\<lambda>(sfx, sa). enc_entry (nm @ sfx) sa) as) @ rest) s = Fatal ''ioctl error'' \<and> Q"
  using assms(1)
proof (induction as arbitrary: s)
  case (Cons a as)
  obtain sfx sa where a: "a = (sfx, sa)" by (cases a)
  have ok: "entry_ok (nm @ sfx) sa" "sfx = [] \<or> hd sfx = 58" using Cons.prems by (auto simp: a addr_ok_def)
  have "takeWhile (\<lambda>c. c \<noteq> 58) (nm @ sfx) = nm" by (rule base_name [OF assms(2) ok(2)])
  then have "io_fails io (takeWhile (\<lambda>c. c \<noteq> 58) (nm @ sfx)) \<longrightarrow> Q" using assms(3) by simp
  from ifi_loop_fail_entry [OF ok(1) this Cons.IH] Cons.prems show ?case by (simp add: a)
qed (use assms(4) in simp)

lemma ifi_loop_fail:
  assumes "\<forall>g \<in> set gs. group_ok g"
  shows "ifi_loop io family doaliases (concat (map enc_group gs)) s =
      ifi_loop (io_of (table_of io)) family doaliases (concat (map enc_group gs)) s \<or>
    ifi_loop io family doaliases (concat (map enc_group gs)) s = Fatal ''ioctl error'' \<and> (\<exists>g \<in> set gs. io_fails io (g_name g))"
  using assms
proof (induction gs arbitrary: s)
  case (Cons g gs)
  let ?Q = "\<exists>h \<in> set (g # gs). io_fails io (g_name h)"
  have ok: "entry_ok (g_name g) (g_link g)" "58 \<notin> set (g_name g)" "\<forall>a \<in> set (g_addrs g). addr_ok (g_name g) a"
    using Cons.prems by (simp_all add: group_ok_def)
  have "takeWhile (\<lambda>c. c \<noteq> 58) (g_name g) = g_name g" using base_name [OF ok(2), of "[]"] by simp
  then have base: "io_fails io (takeWhile (\<lambda>c. c \<noteq> 58) (g_name g)) \<longrightarrow> ?Q" by (metis list.set_intros(1))
  have rest: "ifi_loop io family doaliases (concat (map enc_group gs)) s =
      ifi_loop (io_of (table_of io)) family doaliases (concat (map enc_group gs)) s \<or>
    ifi_loop io family doaliases (concat (map enc_group gs)) s = Fatal ''ioctl error'' \<and> ?Q" for s
    using Cons.IH [of s] Cons.prems by auto
  have "io_fails io (g_name g) \<longrightarrow> ?Q" by simp
  from ifi_loop_fail_entry [OF ok(1) base ifi_loop_fail_addrs [OF ok(3,2) this rest]] show ?case
    unfolding list.map concat.simps enc_group_def append_assoc .
qed (simp add: ifi_loop.simps)

section \<open>Properties\<close>

text \<open>
  C18: \<open>get_ifi_info\<close>, for a family other than that of the link addresses and interfaces of different names, on a kernel that
  fills a buffer that is long enough and answers a shorter one either always with \<open>EINVAL\<close> or always with a reply that leaves less
  than 320 bytes unused (as one of whole entries does, \<open>fitting_kernel\<close>): its first loop ends, and it returns, for
  each interface that is up and in the kernel's order, the addresses of the family with their flags, MTU, index and hardware
  address: all of them, the ones behind the first marked as aliases, or the first alone; or else the process exits with the
  message, and then one of the \<open>ioctl\<close> calls fails for one of the interfaces.
  \<open>free_ifi_info\<close> gives back exactly what was allocated; but each call that returns leaves one more descriptor open.
\<close>

theorem get_ifi_info_lists:
  assumes "ifconf_kernel conf (concat (map enc_group gs))" and "\<forall>g \<in> set gs. group_ok g" and "distinct (map g_name gs)"
    and "family \<noteq> FAM_LINK"
  shows "(\<exists>n1. get_ifi_info conf io family doaliases fds n =
        Some (Ret (concat (map (group_ifis (table_of io) family doaliases) gs), lowest_free fds # fds, n1)) \<and>
      free_ifi_info (concat (map (group_ifis (table_of io) family doaliases) gs)) n1 = n) \<or>
    get_ifi_info conf io family doaliases fds n = Some (Fatal ''ioctl error'') \<and> (\<exists>g \<in> set gs. io_fails io (g_name g))"
proof -
  let ?t = "table_of io"
  have "lastname (ifi_state_init (n + 1)) \<notin> g_name ` set gs" using assms(2) by (auto simp: ifi_state_init_def group_ok_def)
  then obtain s1 where s1: "ifi_loop (io_of ?t) family doaliases (concat (map enc_group gs)) (ifi_state_init (n + 1)) = Ret s1"
    "ifis s1 = concat (map (group_ifis ?t family doaliases) gs)"
    "blocks_live s1 = n + 1 + ifi_blocks (concat (map (group_ifis ?t family doaliases) gs))"
    using ifi_loop_groups [OF assms(2,4,3)] by (force simp: ifi_state_init_def)
  from ifi_loop_fail [OF assms(2), of io family doaliases "ifi_state_init (n + 1)"] show ?thesis
    using ifconf_all [OF assms(1)] s1 by (auto simp: get_ifi_info_def free_ifis)
qed

text \<open>A kernel with one interface that has an address, an alias and an IPv6 address.\<close>

definition demo_group :: ifgroup where
  "demo_group = \<lparr>g_name = [101, 109, 48], g_link = [12, 18, 1, 0, 6, 0, 2, 0, 7, 9, 0, 0],
     g_addrs = [([], [16, 2] @ replicate 14 1), ([58, 49], [16, 2] @ replicate 14 2), ([], [28, 28] @ replicate 26 3)]\<rparr>"

definition demo_table :: if_table where
  "demo_table = \<lparr>t_flags = (\<lambda>n. 1), t_mtu = (\<lambda>n. 1500), t_brd = (\<lambda>n. []), t_dst = (\<lambda>n. [])\<rparr>"

definition demo_conf :: "nat \<Rightarrow> errno + byte list" where
  "demo_conf n = (if length (enc_group demo_group) \<le> n then Inr (enc_group demo_group) else Inl EINVAL)"

theorem get_ifi_info_lists_witness:
  "\<exists>n1 l. get_ifi_info demo_conf (io_of demo_table) FAM_INET True [0, 1, 2] 0 = Some (Ret (l, [3, 0, 1, 2], n1)) \<and>
     map ifi_alias l = [False, True] \<and> map ifi_index l = [1, 1]"
proof -
  have g: "group_ok demo_group"
    by (simp add: group_ok_def demo_group_def entry_ok_def addr_ok_def link_hlen_def u8_at_def byte_at_def
        FAM_INET_def FAM_INET6_def FAM_LINK_def)
  have k: "ifconf_kernel demo_conf (concat (map enc_group [demo_group]))" by (simp add: ifconf_kernel_def demo_conf_def)
  have l: "lowest_free [0, 1, 2] = 3" by (simp add: lowest_free_def eval_nat_numeral)
  have i: "map ifi_alias (group_ifis demo_table FAM_INET True demo_group) = [False, True]"
    "map ifi_index (group_ifis demo_table FAM_INET True demo_group) = [1, 1]"
    by (simp_all add: group_ifis_def demo_table_def demo_group_def IFF_UP_def ifi_of_def Let_def u8_at_def u16_at_def byte_at_def
        FAM_INET_def FAM_INET6_def to_short_def)
  have "FAM_INET \<noteq> FAM_LINK" by (simp add: FAM_INET_def FAM_LINK_def)
  moreover have "table_of (io_of demo_table) = demo_table" "\<not> io_fails (io_of demo_table) nm" for nm
    by (simp_all add: table_of_def io_of_def io_fails_def demo_table_def comp_def)
  ultimately show ?thesis using get_ifi_info_lists [OF k, of FAM_INET "io_of demo_table" True "[0, 1, 2]" 0] g i l by auto
qed

end
