(* ===== verification/Crlf.thy ===== *)
theory Crlf
  imports Prelude
begin

text \<open>
  \<open>sock/crlf.c\<close>: newlines to carriage return and newline, and back, with the limits on the destination.
\<close>

text \<open>The source bytes still to copy, the length of the result so far counted ahead, and the bytes stored.\<close>

fun crlf_add_loop :: "nat \<Rightarrow> byte list \<Rightarrow> nat \<Rightarrow> byte list \<Rightarrow> (nat \<times> byte list) run" where
  "crlf_add_loop dstsize [] lenout dst = Ret (lenout, dst)"
| "crlf_add_loop dstsize (c # src) lenout dst =
     (if c = 10 then
        if lenout + 1 \<ge> dstsize then Fatal ''crlf_add: destination not big enough''
        else crlf_add_loop dstsize src (lenout + 1) (dst @ [13, c])
      else crlf_add_loop dstsize src lenout (dst @ [c]))"

definition crlf_add :: "nat \<Rightarrow> byte list \<Rightarrow> (nat \<times> byte list) run" where
  "crlf_add dstsize src =
     (if length src > dstsize then Fatal ''crlf_add: destination not big enough''
      else crlf_add_loop dstsize src (length src) [])"

fun crlf_strip_loop :: "nat \<Rightarrow> byte list \<Rightarrow> nat \<Rightarrow> byte list \<Rightarrow> (nat \<times> byte list) run" where
  "crlf_strip_loop dstsize [] lenout dst = Ret (lenout, dst)"
| "crlf_strip_loop dstsize (c # src) lenout dst =
     (if c \<noteq> 13 then
        if lenout + 1 \<ge> dstsize then Fatal ''crlf_strip: destination not big enough''
        else crlf_strip_loop dstsize src (lenout + 1) (dst @ [c])
      else crlf_strip_loop dstsize src lenout dst)"

definition crlf_strip :: "nat \<Rightarrow> byte list \<Rightarrow> (nat \<times> byte list) run" where
  "crlf_strip dstsize src = crlf_strip_loop dstsize src 0 []"

section \<open>What the loops store\<close>

definition with_cr :: "byte list \<Rightarrow> byte list" where
  "with_cr bs = concat (map (\<lambda>c. if c = 10 then [13, c] else [c]) bs)"

definition newlines :: "byte list \<Rightarrow> nat" where
  "newlines bs = length (filter (\<lambda>c. c = 10) bs)"

lemma with_cr_simps [simp]: "with_cr [] = []" "with_cr (c # bs) = (if c = 10 then [13, c] else [c]) @ with_cr bs"
  by (simp_all add: with_cr_def)

lemma newlines_simps [simp]: "newlines [] = 0" "newlines (c # bs) = (if c = 10 then 1 else 0) + newlines bs"
  by (simp_all add: newlines_def)

lemma with_cr_length: "length (with_cr bs) = length bs + newlines bs"
  by (induction bs) auto

lemma add_loop_Ret:
  "crlf_add_loop n src lenout dst =
     (if newlines src = 0 \<or> lenout + newlines src < n then Ret (lenout + newlines src, dst @ with_cr src)
      else Fatal ''crlf_add: destination not big enough'')"
  by (induction n src lenout dst rule: crlf_add_loop.induct) auto

lemma strip_loop_Ret:
  "crlf_strip_loop n src lenout dst =
     (let kept = filter (\<lambda>c. c \<noteq> 13) src
      in if kept = [] \<or> lenout + length kept < n then Ret (lenout + length kept, dst @ kept)
         else Fatal ''crlf_strip: destination not big enough'')"
  by (induction n src lenout dst rule: crlf_strip_loop.induct) (auto simp: Let_def)

lemma strip_with_cr: "13 \<notin> set bs \<Longrightarrow> filter (\<lambda>c. c \<noteq> 13) (with_cr bs) = bs"
  by (induction bs) auto

text \<open>
  C47: \<open>crlf_add\<close> succeeds exactly when the result fits (a result with newlines even has to leave one byte free); it
  stores as many bytes as it returns, never more than the size of the destination; and for text
  without carriage returns \<open>crlf_strip\<close> into a destination with one byte to spare restores the source.
\<close>

lemma crlf_roundtrip:
  "((\<exists>r. crlf_add n src = Ret r) \<longleftrightarrow> (if newlines src = 0 then length src \<le> n else length src + newlines src < n)) \<and>
   (crlf_add n src = Ret (len, out) \<longrightarrow> length out = len \<and> len \<le> n \<and>
      (13 \<notin> set src \<and> length src < m \<longrightarrow> crlf_strip m out = Ret (length src, src)))"
  by (auto simp: crlf_add_def crlf_strip_def add_loop_Ret strip_loop_Ret with_cr_length strip_with_cr Let_def)

lemma crlf_roundtrip_witness: "crlf_strip 4 [97, 13, 10, 98] = Ret (3, [97, 10, 98])"
proof -
  have "crlf_add 5 [97, 10, 98] = Ret (4, [97, 13, 10, 98])" by (simp add: crlf_add_def)
  then show ?thesis using crlf_roundtrip [of 5 "[97, 10, 98]" 4 "[97, 13, 10, 98]" 4] by simp
qed

end
