(* ===== verification/Heartbeat.thy ===== *)
theory Heartbeat
  imports Prelude
begin

text \<open>
  \<open>oob/heartbeatcli.c\<close> and \<open>oob/heartbeatserv.c\<close>: two processes that watch each other with out-of-band bytes.
\<close>

section \<open>The two sides\<close>

text \<open>The static variables; the byte each side sends is recorded, \<open>alive\<close> is false after \<open>exit\<close>.\<close>

record heartbeat =
  nsec :: int
  maxn :: int
  nprobes :: int
  sent_oob :: "byte list"
  alive :: bool

definition heartbeat_cli :: "int \<Rightarrow> int \<Rightarrow> heartbeat \<Rightarrow> heartbeat" where
  "heartbeat_cli nsec_arg maxnprobes_arg s =
     (let s1 = s\<lparr>nsec := if nsec_arg < 1 then 1 else nsec_arg\<rparr>;
          s2 = s1\<lparr>maxn := if maxnprobes_arg < nsec s1 then nsec s1 else maxnprobes_arg\<rparr>
      in s2\<lparr>nprobes := 0\<rparr>)"

text \<open>\<open>heartbeat_serv\<close> does not touch the counter.\<close>

definition heartbeat_serv :: "int \<Rightarrow> int \<Rightarrow> heartbeat \<Rightarrow> heartbeat" where
  "heartbeat_serv nsec_arg maxnalarms_arg s =
     (let s1 = s\<lparr>nsec := if nsec_arg < 1 then 1 else nsec_arg\<rparr>
      in s1\<lparr>maxn := if maxnalarms_arg < nsec s1 then nsec s1 else maxnalarms_arg\<rparr>)"

text \<open>What \<open>recv\<close> with \<open>MSG_OOB\<close> gives; \<open>c\<close> is what the local variable holds before it.\<close>

definition cli_urg :: "errno + byte \<Rightarrow> heartbeat \<Rightarrow> heartbeat run" where
  "cli_urg r s =
     (case r of Inl e \<Rightarrow> if e \<noteq> EWOULDBLOCK then Fatal ''recv error'' else Ret (s\<lparr>nprobes := 0\<rparr>)
      | Inr b \<Rightarrow> Ret (s\<lparr>nprobes := 0\<rparr>))"

definition serv_urg :: "byte \<Rightarrow> errno + byte \<Rightarrow> heartbeat \<Rightarrow> heartbeat run" where
  "serv_urg c r s =
     (case r of
        Inl e \<Rightarrow> if e \<noteq> EWOULDBLOCK then Fatal ''recv error'' else Ret (s\<lparr>sent_oob := sent_oob s @ [c], nprobes := 0\<rparr>)
      | Inr b \<Rightarrow> Ret (s\<lparr>sent_oob := sent_oob s @ [b], nprobes := 0\<rparr>))"

definition cli_alrm :: "heartbeat \<Rightarrow> heartbeat" where
  "cli_alrm s =
     (let s1 = s\<lparr>nprobes := nprobes s + 1\<rparr>
      in if nprobes s1 > maxn s1 then s1\<lparr>alive := False\<rparr> else s1\<lparr>sent_oob := sent_oob s1 @ [49]\<rparr>)"

definition serv_alrm :: "heartbeat \<Rightarrow> heartbeat" where
  "serv_alrm s =
     (let s1 = s\<lparr>nprobes := nprobes s + 1\<rparr> in if nprobes s1 > maxn s1 then s1\<lparr>alive := False\<rparr> else s1)"

section \<open>A session\<close>

text \<open>
  A round: the client's alarm goes off and sends a probe; if the network is up the server gets it and echoes it, and the client
  gets the echo; then the server's alarm goes off.  A process that has exited does nothing.
\<close>

definition hb_round :: "bool \<Rightarrow> heartbeat \<times> heartbeat \<Rightarrow> (heartbeat \<times> heartbeat) run" where
  "hb_round net = (\<lambda>(c, s).
     let c1 = (if alive c then cli_alrm c else c)
     in run_bind (if net \<and> alive c1 \<and> alive s then serv_urg 0 (Inr 49) s else Ret s) (\<lambda>s1.
        run_bind (if net \<and> alive c1 \<and> alive s1 then cli_urg (Inr (last (sent_oob s1))) c1 else Ret c1) (\<lambda>c2.
          Ret (c2, if alive s1 then serv_alrm s1 else s1))))"

fun hb_rounds :: "bool list \<Rightarrow> heartbeat \<times> heartbeat \<Rightarrow> (heartbeat \<times> heartbeat) run" where
  "hb_rounds [] p = Ret p"
| "hb_rounds (net # nets) p = run_bind (hb_round net p) (hb_rounds nets)"

definition fresh_hb :: heartbeat where
  "fresh_hb = \<lparr>nsec = 0, maxn = 0, nprobes = 0, sent_oob = [], alive = True\<rparr>"

text \<open>The longest stretch of rounds without network, counted from \<open>k\<close> such rounds before.\<close>

fun silence :: "nat \<Rightarrow> bool list \<Rightarrow> nat" where
  "silence k [] = k"
| "silence k (net # nets) = (if net then max k (silence 0 nets) else silence (k + 1) nets)"

lemma silence_ge: "k \<le> silence k nets"
  by (induction k nets rule: silence.induct) auto

text \<open>Both alive: the counters are the rounds without network since the last exchange, and one more at the server.\<close>

definition hb_ok :: "nat \<Rightarrow> heartbeat \<Rightarrow> heartbeat \<Rightarrow> bool" where
  "hb_ok k c s \<longleftrightarrow> alive c \<and> alive s \<and> nprobes c = int k \<and> nprobes s \<le> int k + 1 \<and> int k \<le> nprobes s"

lemma hb_round_ok:
  assumes "hb_ok k c s" and "int k + 1 < m \<or> net \<and> int k < m" and "maxn c = m" and "maxn s = m" and "1 \<le> m"
  shows "\<exists>c' s'. hb_round net (c, s) = Ret (c', s') \<and> hb_ok (if net then 0 else k + 1) c' s' \<and> maxn c' = m \<and> maxn s' = m"
  using assms by (auto simp: hb_ok_def hb_round_def cli_alrm_def serv_alrm_def cli_urg_def serv_urg_def Let_def)

lemma hb_rounds_ok:
  assumes "hb_ok k c s" and "int (silence k nets) < m" and "maxn c = m" and "maxn s = m" and "1 \<le> m"
  shows "\<exists>c' s' k'. hb_rounds nets (c, s) = Ret (c', s') \<and> hb_ok k' c' s' \<and> maxn c' = m \<and> maxn s' = m"
  using assms(1-4)
proof (induction nets arbitrary: k c s)
  case (Cons net nets)
  have "int k + 1 < m \<or> net \<and> int k < m" using Cons.prems(2) silence_ge [of "k + 1" nets] by (auto split: if_splits)
  then obtain c' s' where r: "hb_round net (c, s) = Ret (c', s')" "hb_ok (if net then 0 else k + 1) c' s'" "maxn c' = m" "maxn s' = m"
    using hb_round_ok [OF Cons.prems(1) _ Cons.prems(3,4) assms(5)] by blast
  have "int (silence (if net then 0 else k + 1) nets) < m" using Cons.prems(2) by (cases net) auto
  then show ?case using Cons.IH [OF r(2) _ r(3,4)] r(1) by simp
qed auto

text \<open>The network has gone: each side counts up and ends when it passes its limit.\<close>

definition hb_due :: "nat \<Rightarrow> heartbeat \<Rightarrow> bool" where
  "hb_due n h \<longleftrightarrow> (alive h \<longrightarrow> maxn h < nprobes h + int n)"

lemma hb_round_silent:
  "hb_due (Suc n) c \<Longrightarrow> hb_due (Suc n) s \<Longrightarrow> \<exists>c' s'. hb_round False (c, s) = Ret (c', s') \<and> hb_due n c' \<and> hb_due n s' \<and>
     (alive c' \<longrightarrow> nprobes c' \<le> maxn c') \<and> (alive s' \<longrightarrow> nprobes s' \<le> maxn s')"
  by (auto simp: hb_due_def hb_round_def cli_alrm_def serv_alrm_def Let_def)

lemma hb_rounds_silent:
  "hb_due n c \<Longrightarrow> hb_due n s \<Longrightarrow> 0 < n \<Longrightarrow> \<exists>c' s'. hb_rounds (replicate n False) (c, s) = Ret (c', s') \<and> \<not> alive c' \<and> \<not> alive s'"
proof (induction n arbitrary: c s)
  case (Suc n)
  obtain c' s' where r: "hb_round False (c, s) = Ret (c', s')" "hb_due n c'" "hb_due n s'"
    "alive c' \<longrightarrow> nprobes c' \<le> maxn c'" "alive s' \<longrightarrow> nprobes s' \<le> maxn s'"
    using hb_round_silent [OF Suc.prems(1,2)] by blast
  show ?case
  proof (cases "n = 0")
    case True
    then have "\<not> alive c'" "\<not> alive s'" using r by (auto simp: hb_due_def)
    then show ?thesis using r(1) True by simp
  qed (use Suc.IH [OF r(2,3)] r(1) in simp)
qed simp

lemma hb_rounds_append: "hb_rounds (xs @ ys) p = run_bind (hb_rounds xs p) (hb_rounds ys)"
proof (induction xs arbitrary: p)
  case (Cons x xs)
  then show ?case by (cases "hb_round x p") simp_all
qed simp

section \<open>Properties\<close>

text \<open>
  The two sides, started with the same limit \<open>m\<close>.  As long as the network is never away for \<open>m\<close> rounds in a
  row, both stay alive; when it then goes away for good, both have ended \<open>m + 1\<close> rounds later.
\<close>

lemma heartbeat_session:
  assumes "m = maxn (heartbeat_cli ns mp fresh_hb)" and "int (silence 0 nets) < m"
  shows "\<exists>c s. hb_rounds nets (heartbeat_cli ns mp fresh_hb, heartbeat_serv ns mp fresh_hb) = Ret (c, s) \<and> alive c \<and> alive s \<and>
    (\<exists>c' s'. hb_rounds (nets @ replicate (nat m + 1) False) (heartbeat_cli ns mp fresh_hb, heartbeat_serv ns mp fresh_hb) = Ret (c', s') \<and>
      \<not> alive c' \<and> \<not> alive s')"
proof -
  let ?c = "heartbeat_cli ns mp fresh_hb" and ?s = "heartbeat_serv ns mp fresh_hb"
  have 0: "hb_ok 0 ?c ?s" by (simp add: heartbeat_cli_def heartbeat_serv_def fresh_hb_def hb_ok_def Let_def)
  have m: "maxn ?s = maxn ?c" "1 \<le> maxn ?c" by (simp_all add: heartbeat_cli_def heartbeat_serv_def fresh_hb_def Let_def)
  obtain c s k where r: "hb_rounds nets (?c, ?s) = Ret (c, s)" "hb_ok k c s" "maxn c = m" "maxn s = m"
    using hb_rounds_ok [OF 0 assms(2)] m unfolding assms(1) by auto
  have due: "hb_due (nat m + 1) c" "hb_due (nat m + 1) s" using r(2-4) by (auto simp: hb_due_def hb_ok_def)
  have n: "0 < nat m + 1" by simp
  obtain c' s' where "hb_rounds (replicate (nat m + 1) False) (c, s) = Ret (c', s')" "\<not> alive c'" "\<not> alive s'"
    using hb_rounds_silent [OF due n] by (elim exE conjE)
  then show ?thesis using r(1,2) by (simp add: hb_rounds_append hb_ok_def del: replicate_Suc)
qed

lemma heartbeat_session_witness:
  "\<exists>c s. hb_rounds [True, False, True] (heartbeat_cli 1 3 fresh_hb, heartbeat_serv 1 3 fresh_hb) = Ret (c, s) \<and> alive c \<and> alive s"
proof -
  have "(3 :: int) = maxn (heartbeat_cli 1 3 fresh_hb)" by (simp add: heartbeat_cli_def Let_def)
  from heartbeat_session [OF this, of "[True, False, True]"] show ?thesis by auto
qed

end
