(* ===== verification/Web_Threads.thy ===== *)
theory Web_Threads
  imports Web_Client Runs
begin

text \<open>
  The threaded web clients: \<open>threads/web03.c\<close>, whose main thread waits with a condition variable for a thread
  to finish, and \<open>threads/web01.c\<close>, which waits with \<open>thr_join\<close>.  The main thread and the threads it creates
  share the table of files, the count of finished threads and its mutex; a step is a piece of code with one
  access to them.
\<close>

section \<open>State\<close>

text \<open>
  Where a thread is in \<open>do_get_read\<close>: before \<open>Tcp_connect\<close>, \<open>write_get_cmd\<close>, the next \<open>Read\<close>, \<open>Close\<close>, the store
  of \<open>F_DONE\<close>, \<open>Pthread_mutex_lock\<close>, \<open>ndone++\<close>, \<open>Pthread_cond_signal\<close> and \<open>Pthread_mutex_unlock\<close>.  \<open>T_None\<close>
  is a thread not created, \<open>T_Ended\<close> one that has returned, \<open>T_Gone\<close> one that has been joined.
\<close>

datatype tpos = T_None | T_Connect | T_Write | T_Read | T_Close | T_Flag | T_Lock | T_Count | T_Signal | T_Unlock
  | T_Ended | T_Gone

definition F_JOINED :: nat where "F_JOINED = 8"

text \<open>\<open>struct file\<close>, with the sizes \<open>Read\<close> will return on the connection and those it has returned.\<close>

record tfile =
  t_name :: string
  t_fd :: int
  t_flags :: nat
  t_pos :: tpos
  t_reply :: "nat list"
  t_seen :: "nat list"

text \<open>The main thread: the two loops, the critical section with its search for finished threads, and the end.\<close>

datatype mpos = M_Loop | M_Conn | M_Lock | M_Test | M_Wait | M_Wake | M_Scan nat | M_Unlock | M_Exit | M_Failed

datatype party = Main | Thread nat

record webt =
  tfiles :: "tfile list"
  mpos :: mpos
  mutex :: "party option"
  ndone :: int
  t_nconn :: int
  t_nlefttoconn :: int
  t_nlefttoread :: int
  t_open :: "int set"

definition webt_init :: "int set \<Rightarrow> string list \<Rightarrow> (nat \<Rightarrow> nat list) \<Rightarrow> webt" where
  "webt_init base names replies =
     (let nfiles = min (length names) MAXFILES in
      \<lparr>tfiles = map (\<lambda>i. \<lparr>t_name = names ! i, t_fd = 0, t_flags = 0, t_pos = T_None, t_reply = replies i, t_seen = []\<rparr>)
         [0 ..< nfiles],
       mpos = M_Loop, mutex = None, ndone = 0, t_nconn = 0, t_nlefttoconn = int nfiles, t_nlefttoread = int nfiles,
       t_open = base\<rparr>)"

section \<open>The threads\<close>

definition set_tfile :: "nat \<Rightarrow> (tfile \<Rightarrow> tfile) \<Rightarrow> webt \<Rightarrow> webt" where
  "set_tfile i f s = s\<lparr>tfiles := (tfiles s)[i := f (tfiles s ! i)]\<rparr>"

text \<open>
  \<open>write_get_cmd\<close>: as in the single-threaded client the length \<open>snprintf\<close> returns can exceed \<open>line\<close>; then nothing
  is known of the program any more.
\<close>

definition t_write_get_cmd :: "nat \<Rightarrow> webt \<Rightarrow> webt" where
  "t_write_get_cmd i s =
     (if MAXLINE \<le> length (get_cmd (t_name (tfiles s ! i))) then s\<lparr>mpos := M_Failed\<rparr>
      else set_tfile i (\<lambda>t. t\<lparr>t_flags := F_READING, t_pos := T_Read\<rparr>) s)"

text \<open>One \<open>Read\<close>; 0 is the end of the reply.\<close>

definition t_read :: "nat \<Rightarrow> webt \<Rightarrow> webt" where
  "t_read i s =
     (case t_reply (tfiles s ! i) of
        [] \<Rightarrow> set_tfile i (\<lambda>t. t\<lparr>t_pos := T_Close\<rparr>) s
      | n # ns \<Rightarrow>
          if n = 0 then set_tfile i (\<lambda>t. t\<lparr>t_pos := T_Close\<rparr>) s
          else set_tfile i (\<lambda>t. t\<lparr>t_reply := ns, t_seen := t_seen t @ [n]\<rparr>) s)"

text \<open>One step of the thread for file \<open>i\<close>, where \<open>Tcp_connect\<close> returns \<open>fd\<close>; \<open>None\<close> when it waits or has ended.\<close>

definition do_get_read :: "int \<Rightarrow> nat \<Rightarrow> webt \<Rightarrow> webt option" where
  "do_get_read fd i s =
     (case t_pos (tfiles s ! i) of
        T_Connect \<Rightarrow>
          if fd \<in> t_open s then None
          else Some ((set_tfile i (\<lambda>t. t\<lparr>t_fd := fd, t_pos := T_Write\<rparr>) s)\<lparr>t_open := insert fd (t_open s)\<rparr>)
      | T_Write \<Rightarrow> Some (t_write_get_cmd i s)
      | T_Read \<Rightarrow> Some (t_read i s)
      | T_Close \<Rightarrow> Some ((set_tfile i (\<lambda>t. t\<lparr>t_pos := T_Flag\<rparr>) s)\<lparr>t_open := t_open s - {t_fd (tfiles s ! i)}\<rparr>)
      | T_Flag \<Rightarrow> Some (set_tfile i (\<lambda>t. t\<lparr>t_flags := F_DONE, t_pos := T_Lock\<rparr>) s)
      | T_Lock \<Rightarrow>
          if mutex s = None then Some ((set_tfile i (\<lambda>t. t\<lparr>t_pos := T_Count\<rparr>) s)\<lparr>mutex := Some (Thread i)\<rparr>) else None
      | T_Count \<Rightarrow> Some ((set_tfile i (\<lambda>t. t\<lparr>t_pos := T_Signal\<rparr>) s)\<lparr>ndone := ndone s + 1\<rparr>)
      | T_Signal \<Rightarrow>
          Some ((set_tfile i (\<lambda>t. t\<lparr>t_pos := T_Unlock\<rparr>) s)\<lparr>mpos := (if mpos s = M_Wait then M_Wake else mpos s)\<rparr>)
      | T_Unlock \<Rightarrow> Some ((set_tfile i (\<lambda>t. t\<lparr>t_pos := T_Ended\<rparr>) s)\<lparr>mutex := None\<rparr>)
      | T_None \<Rightarrow> None | T_Ended \<Rightarrow> None | T_Gone \<Rightarrow> None)"

text \<open>The thread of \<open>web01.c\<close> returns after it has set its flag.\<close>

definition do_get_read1 :: "int \<Rightarrow> nat \<Rightarrow> webt \<Rightarrow> webt option" where
  "do_get_read1 fd i s =
     (if t_pos (tfiles s ! i) = T_Flag then Some (set_tfile i (\<lambda>t. t\<lparr>t_flags := F_DONE, t_pos := T_Ended\<rparr>) s)
      else do_get_read fd i s)"

section \<open>The main thread\<close>

text \<open>The search for a file to read.\<close>

definition next_tfile :: "tfile list \<Rightarrow> nat" where
  "next_tfile fs = length (takeWhile (\<lambda>t. t_flags t \<noteq> 0) fs)"

definition thread_start :: "webt \<Rightarrow> webt" where
  "thread_start s =
     (let i = next_tfile (tfiles s) in
      if i = length (tfiles s) then s\<lparr>mpos := M_Failed\<rparr>
      else (set_tfile i (\<lambda>t. t\<lparr>t_flags := F_CONNECTING, t_pos := T_Connect\<rparr>) s)
        \<lparr>t_nconn := t_nconn s + 1, t_nlefttoconn := t_nlefttoconn s - 1\<rparr>)"

text \<open>
  The search for finished threads at index \<open>i\<close>.  \<open>Pthread_join\<close> waits until the thread has returned; what it
  returns is the pointer it was given, so that the comparison with \<open>&file[i]\<close> never fails.
\<close>

definition join_file :: "nat \<Rightarrow> webt \<Rightarrow> webt option" where
  "join_file i s =
     (if i = length (tfiles s) then Some (s\<lparr>mpos := M_Unlock\<rparr>)
      else if t_flags (tfiles s ! i) AND F_DONE = 0 then Some (s\<lparr>mpos := M_Scan (Suc i)\<rparr>)
      else if t_pos (tfiles s ! i) \<noteq> T_Ended then None
      else Some ((set_tfile i (\<lambda>t. t\<lparr>t_flags := F_JOINED, t_pos := T_Gone\<rparr>) s)
        \<lparr>mpos := M_Scan (Suc i), ndone := ndone s - 1, t_nconn := t_nconn s - 1, t_nlefttoread := t_nlefttoread s - 1\<rparr>))"

definition web03_main :: "int \<Rightarrow> webt \<Rightarrow> webt option" where
  "web03_main maxnconn s =
     (case mpos s of
        M_Loop \<Rightarrow> Some (s\<lparr>mpos := (if 0 < t_nlefttoread s then M_Conn else M_Exit)\<rparr>)
      | M_Conn \<Rightarrow>
          Some (if t_nconn s < maxnconn \<and> 0 < t_nlefttoconn s then thread_start s else s\<lparr>mpos := M_Lock\<rparr>)
      | M_Lock \<Rightarrow> if mutex s = None then Some (s\<lparr>mpos := M_Test, mutex := Some Main\<rparr>) else None
      | M_Test \<Rightarrow> Some (if ndone s = 0 then s\<lparr>mpos := M_Wait, mutex := None\<rparr> else s\<lparr>mpos := M_Scan 0\<rparr>)
      | M_Wait \<Rightarrow> None
      | M_Wake \<Rightarrow> if mutex s = None then Some (s\<lparr>mpos := M_Test, mutex := Some Main\<rparr>) else None
      | M_Scan i \<Rightarrow> join_file i s
      | M_Unlock \<Rightarrow> Some (s\<lparr>mpos := M_Loop, mutex := None\<rparr>)
      | M_Exit \<Rightarrow> None
      | M_Failed \<Rightarrow> None)"

text \<open>
  The main thread of \<open>web01.c\<close>: \<open>M_Wait\<close> is \<open>thr_join\<close>, which takes any thread that has returned, here \<open>j\<close>, waits
  for one when there are threads, and fails when there is none.
\<close>

definition web01_main :: "int \<Rightarrow> nat \<Rightarrow> webt \<Rightarrow> webt option" where
  "web01_main maxnconn j s =
     (case mpos s of
        M_Loop \<Rightarrow> Some (s\<lparr>mpos := (if 0 < t_nlefttoread s then M_Conn else M_Exit)\<rparr>)
      | M_Conn \<Rightarrow>
          Some (if t_nconn s < maxnconn \<and> 0 < t_nlefttoconn s then thread_start s else s\<lparr>mpos := M_Wait\<rparr>)
      | M_Wait \<Rightarrow>
          if \<forall>t \<in> set (tfiles s). t_pos t \<in> {T_None, T_Gone} then Some (s\<lparr>mpos := M_Failed\<rparr>)
          else if j < length (tfiles s) \<and> t_pos (tfiles s ! j) = T_Ended then
            Some ((set_tfile j (\<lambda>t. t\<lparr>t_pos := T_Gone\<rparr>) s)
              \<lparr>mpos := M_Loop, t_nconn := t_nconn s - 1, t_nlefttoread := t_nlefttoread s - 1\<rparr>)
          else None
      | _ \<Rightarrow> None)"

section \<open>Runs\<close>

abbreviation running :: "webt \<Rightarrow> bool" where
  "running s \<equiv> mpos s \<noteq> M_Exit \<and> mpos s \<noteq> M_Failed"

text \<open>
  One step of the process.  A call that fails ends it through its wrapper, and so does the end of the main thread.
  With \<open>spurious\<close> the wait for the condition may also end without a signal.
\<close>

inductive web03_step :: "bool \<Rightarrow> int \<Rightarrow> webt \<Rightarrow> webt \<Rightarrow> bool" for spurious maxnconn where
  main: "web03_main maxnconn s = Some s' \<Longrightarrow> web03_step spurious maxnconn s s'"
| thread: "running s \<Longrightarrow> i < length (tfiles s) \<Longrightarrow> do_get_read fd i s = Some s' \<Longrightarrow> web03_step spurious maxnconn s s'"
| fail: "running s \<Longrightarrow> i < length (tfiles s) \<Longrightarrow> t_pos (tfiles s ! i) \<in> {T_Connect, T_Write, T_Read} \<Longrightarrow>
    web03_step spurious maxnconn s (s\<lparr>mpos := M_Failed\<rparr>)"
| create: "mpos s = M_Conn \<Longrightarrow> web03_step spurious maxnconn s (s\<lparr>mpos := M_Failed\<rparr>)"
| wake: "spurious \<Longrightarrow> mpos s = M_Wait \<Longrightarrow> web03_step spurious maxnconn s (s\<lparr>mpos := M_Wake\<rparr>)"

inductive web01_step :: "int \<Rightarrow> webt \<Rightarrow> webt \<Rightarrow> bool" for maxnconn where
  main: "web01_main maxnconn j s = Some s' \<Longrightarrow> web01_step maxnconn s s'"
| thread: "running s \<Longrightarrow> i < length (tfiles s) \<Longrightarrow> do_get_read1 fd i s = Some s' \<Longrightarrow> web01_step maxnconn s s'"
| fail: "running s \<Longrightarrow> i < length (tfiles s) \<Longrightarrow> t_pos (tfiles s ! i) \<in> {T_Connect, T_Write, T_Read} \<Longrightarrow>
    web01_step maxnconn s (s\<lparr>mpos := M_Failed\<rparr>)"
| create: "mpos s = M_Conn \<Longrightarrow> web01_step maxnconn s (s\<lparr>mpos := M_Failed\<rparr>)"

section \<open>What both clients keep\<close>

abbreviation t_pending :: "tfile \<Rightarrow> bool" where
  "t_pending t \<equiv> t_pos t = T_None"

definition t_active :: "tfile \<Rightarrow> bool" where
  "t_active t \<longleftrightarrow> t_pos t \<noteq> T_None \<and> t_pos t \<noteq> T_Gone"

definition t_conn :: "tfile \<Rightarrow> bool" where
  "t_conn t \<longleftrightarrow> t_pos t \<in> {T_Write, T_Read, T_Close}"

fun pos_flag :: "nat \<Rightarrow> tpos \<Rightarrow> nat" where
  "pos_flag g T_None = 0"
| "pos_flag g T_Connect = F_CONNECTING"
| "pos_flag g T_Write = F_CONNECTING"
| "pos_flag g T_Read = F_READING"
| "pos_flag g T_Close = F_READING"
| "pos_flag g T_Flag = F_READING"
| "pos_flag g T_Gone = g"
| "pos_flag g _ = F_DONE"

text \<open>The sizes of a reply up to its end, and how much of it a thread has read.\<close>

definition reply_part :: "nat list \<Rightarrow> nat list" where
  "reply_part ns = takeWhile (\<lambda>n. n \<noteq> 0) ns"

definition tfile_ok :: "nat \<Rightarrow> nat list \<Rightarrow> tfile \<Rightarrow> bool" where
  "tfile_ok g ns t \<longleftrightarrow> t_flags t = pos_flag g (t_pos t) \<and> t_seen t @ reply_part (t_reply t) = reply_part ns \<and>
     (t_pos t \<notin> {T_None, T_Connect, T_Write, T_Read} \<longrightarrow> t_seen t = reply_part ns)"

definition cnt :: "(tfile \<Rightarrow> bool) \<Rightarrow> tfile list \<Rightarrow> int" where
  "cnt P ts = int (length (filter P ts))"

definition files_ok :: "nat \<Rightarrow> (nat \<Rightarrow> nat list) \<Rightarrow> webt \<Rightarrow> bool" where
  "files_ok g r s \<longleftrightarrow> (\<forall>i < length (tfiles s). tfile_ok g (r i) (tfiles s ! i))"

definition counters_ok :: "int \<Rightarrow> webt \<Rightarrow> bool" where
  "counters_ok mx s \<longleftrightarrow> t_nconn s = cnt t_active (tfiles s) \<and> t_nlefttoconn s = cnt t_pending (tfiles s) \<and>
     t_nlefttoread s = t_nconn s + t_nlefttoconn s \<and> t_nconn s \<le> mx"

definition fds_ok :: "int set \<Rightarrow> webt \<Rightarrow> bool" where
  "fds_ok base s \<longleftrightarrow> (\<forall>i < length (tfiles s). t_conn (tfiles s ! i) \<longrightarrow> t_fd (tfiles s ! i) \<notin> base) \<and>
     (\<forall>i < length (tfiles s). \<forall>j < length (tfiles s). i \<noteq> j \<longrightarrow> t_conn (tfiles s ! i) \<longrightarrow> t_conn (tfiles s ! j) \<longrightarrow>
        t_fd (tfiles s ! i) \<noteq> t_fd (tfiles s ! j)) \<and>
     t_open s = base \<union> {t_fd (tfiles s ! i) |i. i < length (tfiles s) \<and> t_conn (tfiles s ! i)}"

definition web_common :: "nat \<Rightarrow> int set \<Rightarrow> int \<Rightarrow> (nat \<Rightarrow> nat list) \<Rightarrow> webt \<Rightarrow> bool" where
  "web_common g base mx r s \<longleftrightarrow> files_ok g r s \<and> counters_ok mx s \<and> fds_ok base s"

lemma cnt_update:
  assumes "i < length ts"
  shows "cnt P (ts[i := t]) = cnt P ts - of_bool (P (ts ! i)) + of_bool (P t)"
proof -
  have "cnt P ts = cnt P (take i ts) + of_bool (P (ts ! i)) + cnt P (drop (Suc i) ts)"
    using arg_cong [OF id_take_nth_drop [OF assms], of "cnt P"] by (simp add: cnt_def)
  moreover have "cnt P (ts[i := t]) = cnt P (take i ts) + of_bool (P t) + cnt P (drop (Suc i) ts)"
    by (simp add: cnt_def upd_conv_take_nth_drop assms)
  ultimately show ?thesis by simp
qed

lemma cnt_pos: "i < length ts \<Longrightarrow> P (ts ! i) \<Longrightarrow> 0 < cnt P ts"
  by (auto simp: cnt_def filter_empty_conv)

lemma cnt_nonneg: "0 \<le> cnt P ts"
  by (simp add: cnt_def)

lemma cnt_zero: "cnt P ts = 0 \<longleftrightarrow> (\<forall>i < length ts. \<not> P (ts ! i))"
  by (auto simp: cnt_def filter_empty_conv all_set_conv_all_nth)

lemma cnt_mono: "(\<And>t. P t \<Longrightarrow> Q t) \<Longrightarrow> cnt P ts \<le> cnt Q ts"
  by (induction ts) (auto simp: cnt_def)

lemma set_tfile_fields [simp]:
  "tfiles (set_tfile i f s) = (tfiles s)[i := f (tfiles s ! i)]" "mpos (set_tfile i f s) = mpos s"
  "mutex (set_tfile i f s) = mutex s" "ndone (set_tfile i f s) = ndone s" "t_nconn (set_tfile i f s) = t_nconn s"
  "t_nlefttoconn (set_tfile i f s) = t_nlefttoconn s" "t_nlefttoread (set_tfile i f s) = t_nlefttoread s"
  "t_open (set_tfile i f s) = t_open s"
  by (simp_all add: set_tfile_def)

lemma reply_part_simps [simp]: "reply_part [] = []" "reply_part (n # ns) = (if n = 0 then [] else n # reply_part ns)"
  by (simp_all add: reply_part_def)

lemma files_ok_update:
  assumes "files_ok g r s" and "tfiles s' = (tfiles s)[i := t]" and "i < length (tfiles s) \<Longrightarrow> tfile_ok g (r i) t"
  shows "files_ok g r s'"
proof (unfold files_ok_def, intro allI impI)
  fix j assume "j < length (tfiles s')"
  then show "tfile_ok g (r j) (tfiles s' ! j)" using assms by (cases "j = i") (simp_all add: files_ok_def)
qed

lemma fds_ok_same:
  assumes "fds_ok base s" and "tfiles s' = (tfiles s)[i := t]" and "t_open s' = t_open s" and "i < length (tfiles s)"
    and "t_conn t = t_conn (tfiles s ! i)" and "t_conn t \<Longrightarrow> t_fd t = t_fd (tfiles s ! i)"
  shows "fds_ok base s'"
proof -
  have c: "\<forall>j < length (tfiles s). t_conn (tfiles s' ! j) = t_conn (tfiles s ! j)"
    and f: "\<forall>j < length (tfiles s). t_conn (tfiles s ! j) \<longrightarrow> t_fd (tfiles s' ! j) = t_fd (tfiles s ! j)"
    and l: "length (tfiles s') = length (tfiles s)"
    using assms by (auto simp: nth_list_update)
  have "{t_fd (tfiles s' ! j) |j. j < length (tfiles s') \<and> t_conn (tfiles s' ! j)} =
      {t_fd (tfiles s ! j) |j. j < length (tfiles s) \<and> t_conn (tfiles s ! j)}"
    using c f l by (intro Collect_cong ex_cong1) auto
  then show ?thesis using assms(1,3) c f l unfolding fds_ok_def by simp
qed

lemma fds_ok_connect:
  assumes "fds_ok base s" and "tfiles s' = (tfiles s)[i := t]" and "t_open s' = insert (t_fd t) (t_open s)"
    and "i < length (tfiles s)" and "\<not> t_conn (tfiles s ! i)" and "t_conn t" and "t_fd t \<notin> t_open s"
  shows "fds_ok base s'"
  using assms unfolding fds_ok_def by (auto simp: nth_list_update)

lemma fds_ok_close:
  assumes "fds_ok base s" and "tfiles s' = (tfiles s)[i := t]" and "t_open s' = t_open s - {t_fd (tfiles s ! i)}"
    and "i < length (tfiles s)" and "t_conn (tfiles s ! i)" and "\<not> t_conn t"
  shows "fds_ok base s'"
  using assms unfolding fds_ok_def by (auto simp: nth_list_update)

lemmas thread_step_defs = do_get_read_def do_get_read1_def t_write_get_cmd_def t_read_def

lemma thread_step_file:
  assumes "do_get_read fd i s = Some s' \<or> do_get_read1 fd i s = Some s'" and "i < length (tfiles s)"
  shows "tfiles s' = (tfiles s)[i := tfiles s' ! i]" and "t_nconn s' = t_nconn s" and "t_nlefttoconn s' = t_nlefttoconn s"
    and "t_nlefttoread s' = t_nlefttoread s" and "t_pos (tfiles s ! i) \<notin> {T_None, T_Ended, T_Gone}"
    and "t_pos (tfiles s' ! i) \<notin> {T_None, T_Gone}"
  using assms by (cases "t_pos (tfiles s ! i)"; auto simp: thread_step_defs split: if_splits list.splits)+

lemma thread_step_ok:
  assumes "do_get_read fd i s = Some s' \<or> do_get_read1 fd i s = Some s'" and "i < length (tfiles s)"
    and "tfile_ok g ns (tfiles s ! i)"
  shows "tfile_ok g ns (tfiles s' ! i)"
  using assms
  by (cases "t_pos (tfiles s ! i)") (auto simp: thread_step_defs tfile_ok_def split: if_splits list.splits)

lemma thread_step_fds:
  assumes "do_get_read fd i s = Some s' \<or> do_get_read1 fd i s = Some s'" and "i < length (tfiles s)" and "fds_ok base s"
  shows "fds_ok base s'"
proof -
  note tf = thread_step_file(1) [OF assms(1,2)]
  consider "t_pos (tfiles s ! i) = T_Connect" | "t_pos (tfiles s ! i) = T_Close"
    | "t_pos (tfiles s ! i) \<notin> {T_Connect, T_Close}" by auto
  then show ?thesis
  proof cases
    case 1
    show ?thesis by (rule fds_ok_connect [OF assms(3) tf])
      (use 1 assms(1,2) in \<open>auto simp: thread_step_defs t_conn_def split: if_splits\<close>)
  next
    case 2
    show ?thesis by (rule fds_ok_close [OF assms(3) tf])
      (use 2 assms(1,2) in \<open>auto simp: thread_step_defs t_conn_def split: if_splits\<close>)
  next
    case 3
    then have "t_open s' = t_open s \<and> t_conn (tfiles s' ! i) = t_conn (tfiles s ! i) \<and> t_fd (tfiles s' ! i) = t_fd (tfiles s ! i)"
      using assms(1,2)
      by (cases "t_pos (tfiles s ! i)") (auto simp: thread_step_defs t_conn_def split: if_splits list.splits)
    then show ?thesis using fds_ok_same [OF assms(3) tf] assms(2) by simp
  qed
qed

lemma web_common_thread:
  assumes "do_get_read fd i s = Some s' \<or> do_get_read1 fd i s = Some s'" and "i < length (tfiles s)"
    and "web_common g base mx r s"
  shows "web_common g base mx r s'"
proof -
  note tf = thread_step_file [OF assms(1,2)]
  have "files_ok g r s'"
    using files_ok_update [OF _ tf(1)] thread_step_ok [OF assms(1,2)] assms(2,3) by (simp add: web_common_def files_ok_def)
  moreover have "counters_ok mx s'"
  proof -
    have "cnt P (tfiles s') = cnt P (tfiles s)" if "P (tfiles s' ! i) = P (tfiles s ! i)" for P
      using that by (subst tf(1)) (simp add: cnt_update [OF assms(2)])
    from this [of t_active] this [of t_pending] show ?thesis
      using tf(2-) assms(3) by (simp add: web_common_def counters_ok_def t_active_def)
  qed
  ultimately show ?thesis using thread_step_fds [OF assms(1,2)] assms(3) by (simp add: web_common_def)
qed

lemma web_common_mono:
  assumes "web_common g base mx r s" and "tfiles s' = tfiles s" and "t_open s' = t_open s" and "t_nconn s' = t_nconn s"
    and "t_nlefttoconn s' = t_nlefttoconn s" and "t_nlefttoread s' = t_nlefttoread s"
  shows "web_common g base mx r s'"
  using assms by (simp add: web_common_def files_ok_def counters_ok_def fds_ok_def)

text \<open>The main thread creates a thread while a file is pending, so that its search finds one.\<close>

lemma next_tfile_pending:
  assumes "files_ok g r s" and "0 < g" and "0 < cnt t_pending (tfiles s)"
  shows "next_tfile (tfiles s) < length (tfiles s)" and "t_pos (tfiles s ! next_tfile (tfiles s)) = T_None"
proof -
  have flag: "t_flags (tfiles s ! i) = 0 \<longleftrightarrow> t_pos (tfiles s ! i) = T_None" if "i < length (tfiles s)" for i
    using assms(1,2) that by (cases "t_pos (tfiles s ! i)") (auto simp: files_ok_def tfile_ok_def f_flag_defs)
  have "\<exists>i < length (tfiles s). t_pending (tfiles s ! i)"
    using assms(3) cnt_zero [of t_pending "tfiles s"] by auto
  then have "\<exists>t \<in> set (tfiles s). \<not> t_flags t \<noteq> 0" using flag by (metis nth_mem)
  then have "takeWhile (\<lambda>t. t_flags t \<noteq> 0) (tfiles s) \<noteq> tfiles s" by (auto simp: takeWhile_eq_all_conv)
  then have *: "next_tfile (tfiles s) < length (tfiles s)"
    using takeWhile_eq_take [of "\<lambda>t. t_flags t \<noteq> 0" "tfiles s"] by (metis next_tfile_def not_less take_all)
  then have "t_flags (tfiles s ! next_tfile (tfiles s)) = 0"
    using nth_length_takeWhile [of "\<lambda>t. t_flags t \<noteq> 0" "tfiles s"] by (simp add: next_tfile_def)
  with * flag show "next_tfile (tfiles s) < length (tfiles s)" "t_pos (tfiles s ! next_tfile (tfiles s)) = T_None" by auto
qed

lemma thread_start_file:
  assumes "web_common g base mx r s" and "0 < g" and "0 < t_nlefttoconn s"
  obtains i where "i < length (tfiles s)" and "t_pos (tfiles s ! i) = T_None"
    and "thread_start s = (set_tfile i (\<lambda>t. t\<lparr>t_flags := F_CONNECTING, t_pos := T_Connect\<rparr>) s)
      \<lparr>t_nconn := t_nconn s + 1, t_nlefttoconn := t_nlefttoconn s - 1\<rparr>"
proof
  let ?i = "next_tfile (tfiles s)"
  show i: "?i < length (tfiles s)" and "t_pos (tfiles s ! ?i) = T_None"
    using next_tfile_pending [of g r s] assms by (auto simp: web_common_def counters_ok_def)
  show "thread_start s = (set_tfile ?i (\<lambda>t. t\<lparr>t_flags := F_CONNECTING, t_pos := T_Connect\<rparr>) s)
      \<lparr>t_nconn := t_nconn s + 1, t_nlefttoconn := t_nlefttoconn s - 1\<rparr>"
    using i by (simp add: thread_start_def Let_def)
qed

lemma web_common_start:
  assumes "web_common g base mx r s" and "0 < g" and "t_nconn s < mx" and "0 < t_nlefttoconn s"
  shows "web_common g base mx r (thread_start s)"
proof -
  have inv: "files_ok g r s" "counters_ok mx s" "fds_ok base s" using assms(1) by (auto simp: web_common_def)
  obtain i where i: "i < length (tfiles s)" "t_pos (tfiles s ! i) = T_None"
    and st: "thread_start s = (set_tfile i (\<lambda>t. t\<lparr>t_flags := F_CONNECTING, t_pos := T_Connect\<rparr>) s)
      \<lparr>t_nconn := t_nconn s + 1, t_nlefttoconn := t_nlefttoconn s - 1\<rparr>"
    using thread_start_file [OF assms(1,2,4)] .
  then have ts: "tfiles (thread_start s) = (tfiles s)[i := (tfiles s ! i)\<lparr>t_flags := F_CONNECTING, t_pos := T_Connect\<rparr>]" by simp
  have "files_ok g r (thread_start s)"
    using files_ok_update [OF inv(1) ts] inv(1) i by (auto simp: files_ok_def tfile_ok_def)
  moreover have "fds_ok base (thread_start s)"
    using fds_ok_same [OF inv(3) ts] i st by (simp add: t_conn_def)
  moreover have "counters_ok mx (thread_start s)"
    using inv(2) i assms(3) st by (simp add: counters_ok_def cnt_update t_active_def)
  ultimately show ?thesis by (simp add: web_common_def)
qed

text \<open>A thread that has returned is joined.\<close>

lemma web_common_join:
  assumes "web_common g base mx r s" and "i < length (tfiles s)" and "t_pos (tfiles s ! i) = T_Ended"
    and "tfiles s' = (tfiles s)[i := (tfiles s ! i)\<lparr>t_flags := g, t_pos := T_Gone\<rparr>]"
    and "t_open s' = t_open s" and "t_nconn s' = t_nconn s - 1" and "t_nlefttoconn s' = t_nlefttoconn s"
    and "t_nlefttoread s' = t_nlefttoread s - 1"
  shows "web_common g base mx r s'"
proof -
  have inv: "files_ok g r s" "counters_ok mx s" "fds_ok base s" using assms(1) by (auto simp: web_common_def)
  have "files_ok g r s'"
    using files_ok_update [OF inv(1) assms(4)] inv(1) assms(2,3) by (auto simp: files_ok_def tfile_ok_def)
  moreover have "fds_ok base s'"
    using fds_ok_same [OF inv(3) assms(4,5,2)] assms(3) by (simp add: t_conn_def)
  moreover have "counters_ok mx s'"
    using inv(2) assms by (simp add: counters_ok_def cnt_update t_active_def)
  ultimately show ?thesis by (simp add: web_common_def)
qed

lemma t_read_fields:
  "mpos (t_read i s) = mpos s" "mutex (t_read i s) = mutex s" "ndone (t_read i s) = ndone s"
  "i < length (tfiles s) \<Longrightarrow> t_pos (tfiles s ! i) = T_Read \<Longrightarrow> t_pos (tfiles (t_read i s) ! i) \<in> {T_Read, T_Close}"
  by (auto simp: t_read_def split: list.splits)

lemma t_write_fields:
  "mutex (t_write_get_cmd i s) = mutex s" "ndone (t_write_get_cmd i s) = ndone s"
  "mpos (t_write_get_cmd i s) \<noteq> M_Failed \<Longrightarrow> mpos (t_write_get_cmd i s) = mpos s"
  "i < length (tfiles s) \<Longrightarrow> t_pos (tfiles s ! i) = T_Write \<Longrightarrow> t_pos (tfiles (t_write_get_cmd i s) ! i) \<in> {T_Write, T_Read}"
  by (auto simp: t_write_get_cmd_def)

definition t_counted :: "tfile \<Rightarrow> bool" where
  "t_counted t \<longleftrightarrow> t_pos t \<in> {T_Signal, T_Unlock, T_Ended}"

text \<open>What is left to connect and to read is never negative, and finished threads are active ones.\<close>

lemma web_common_counts:
  assumes "web_common g base mx r s"
  shows "0 \<le> t_nconn s" "0 \<le> t_nlefttoconn s" "t_nconn s \<le> mx" "t_nlefttoread s = t_nconn s + t_nlefttoconn s"
    and "t_nconn s = cnt t_active (tfiles s)" "t_nlefttoconn s = cnt t_pending (tfiles s)"
    and "cnt t_counted (tfiles s) \<le> t_nconn s" "t_nconn s \<le> int (length (tfiles s))"
proof -
  have c: "t_nconn s = cnt t_active (tfiles s)" "t_nlefttoconn s = cnt t_pending (tfiles s)" "t_nconn s \<le> mx"
    "t_nlefttoread s = t_nconn s + t_nlefttoconn s"
    using assms by (auto simp: web_common_def counters_ok_def)
  moreover have "cnt t_counted (tfiles s) \<le> cnt t_active (tfiles s)"
    by (rule cnt_mono) (auto simp: t_counted_def t_active_def)
  moreover have "cnt t_active (tfiles s) \<le> int (length (tfiles s))" by (simp add: cnt_def)
  ultimately show "0 \<le> t_nconn s" "0 \<le> t_nlefttoconn s" "t_nconn s \<le> mx" "t_nlefttoread s = t_nconn s + t_nlefttoconn s"
    "t_nconn s = cnt t_active (tfiles s)" "t_nlefttoconn s = cnt t_pending (tfiles s)"
    "cnt t_counted (tfiles s) \<le> t_nconn s" "t_nconn s \<le> int (length (tfiles s))"
    by (simp_all add: cnt_nonneg)
qed

lemma web_common_finite: "web_common g base mx r s \<Longrightarrow> finite base \<Longrightarrow> finite (t_open s)"
  by (auto simp: web_common_def fds_ok_def)

lemma web_common_init:
  assumes "0 \<le> mx"
  shows "web_common g base mx r (webt_init base names r)" and "length (tfiles (webt_init base names r)) = min (length names) MAXFILES"
proof -
  have "cnt t_active (tfiles (webt_init base names r)) = 0"
    by (simp add: cnt_def webt_init_def Let_def t_active_def filter_empty_conv)
  moreover have "cnt t_pending (tfiles (webt_init base names r)) = int (min (length names) MAXFILES)"
    by (simp add: cnt_def webt_init_def Let_def filter_map o_def)
  ultimately show "web_common g base mx r (webt_init base names r)" using assms
    by (auto simp: web_common_def files_ok_def counters_ok_def fds_ok_def tfile_ok_def t_conn_def webt_init_def Let_def)
qed (simp add: webt_init_def Let_def)

lemma thread_can_step:
  assumes "finite (t_open s)" and "t_pos (tfiles s ! i) \<notin> {T_None, T_Ended, T_Gone}"
    and "t_pos (tfiles s ! i) = T_Lock \<Longrightarrow> mutex s = None"
  shows "\<exists>fd s'. do_get_read fd i s = Some s'"
proof -
  obtain fd where "fd \<notin> t_open s" using ex_new_if_finite [OF infinite_UNIV_int assms(1)] by blast
  then show ?thesis using assms(2,3) by (intro exI [of _ fd]) (cases "t_pos (tfiles s ! i)"; simp add: do_get_read_def)
qed

text \<open>When nothing is left to read every reply has been read to its end and every descriptor closed.\<close>

definition all_fetched :: "int set \<Rightarrow> (nat \<Rightarrow> nat list) \<Rightarrow> webt \<Rightarrow> bool" where
  "all_fetched base r s \<longleftrightarrow> t_open s = base \<and>
     (\<forall>i < length (tfiles s). t_pos (tfiles s ! i) = T_Gone \<and> t_seen (tfiles s ! i) = reply_part (r i))"

lemma web_common_done:
  assumes "web_common g base mx r s" and "t_nlefttoread s \<le> 0"
  shows "all_fetched base r s"
proof -
  have "cnt t_active (tfiles s) = 0" "cnt t_pending (tfiles s) = 0"
    using assms cnt_nonneg [of t_active "tfiles s"] cnt_nonneg [of t_pending "tfiles s"]
    by (auto simp: web_common_def counters_ok_def)
  then have gone: "t_pos (tfiles s ! i) = T_Gone" if "i < length (tfiles s)" for i
    using that by (auto simp: cnt_zero t_active_def)
  then have "\<not> t_conn (tfiles s ! i)" if "i < length (tfiles s)" for i using that by (simp add: t_conn_def)
  then have "t_open s = base" using assms(1) by (auto simp: web_common_def fds_ok_def)
  then show ?thesis using gone assms(1) by (auto simp: all_fetched_def web_common_def files_ok_def tfile_ok_def)
qed

text \<open>A bound of the steps a thread has left; \<open>k\<close> pays for those of the main thread that joins it.\<close>

definition file_steps :: "nat \<Rightarrow> tfile \<Rightarrow> nat" where
  "file_steps k t =
     (case t_pos t of
        T_None \<Rightarrow> k + 13 + length (t_reply t) | T_Connect \<Rightarrow> k + 12 + length (t_reply t)
      | T_Write \<Rightarrow> k + 11 + length (t_reply t) | T_Read \<Rightarrow> k + 10 + length (t_reply t) | T_Close \<Rightarrow> k + 9 | T_Flag \<Rightarrow> k + 8
      | T_Lock \<Rightarrow> k + 7 | T_Count \<Rightarrow> k + 6 | T_Signal \<Rightarrow> k + 5 | T_Unlock \<Rightarrow> k + 1 | T_Ended \<Rightarrow> k | T_Gone \<Rightarrow> 0)"

lemma sum_list_update_file:
  assumes "k < length xs"
  shows "sum_list (map f (xs[k := x])) + f (xs ! k) = sum_list (map f xs) + (f x :: nat)"
  using arg_cong [OF id_take_nth_drop [OF assms], of "\<lambda>xs. sum_list (map f xs)"] by (simp add: upd_conv_take_nth_drop assms)

end
