(* ===== verification/Web_Cond.thy ===== *)
theory Web_Cond
  imports Web_Threads
begin

text \<open>
  The runs of \<open>threads/web03.c\<close>: its mutex, counters and main thread in every interleaving, how many steps it takes,
  and the deadlock that it can end in.
\<close>

section \<open>The client with a condition variable\<close>

definition t_crit :: "tfile \<Rightarrow> bool" where
  "t_crit t \<longleftrightarrow> t_pos t \<in> {T_Count, T_Signal, T_Unlock}"

fun main_holds :: "mpos \<Rightarrow> bool" where
  "main_holds M_Test = True"
| "main_holds (M_Scan i) = True"
| "main_holds M_Unlock = True"
| "main_holds _ = False"

definition mutex_ok :: "webt \<Rightarrow> bool" where
  "mutex_ok s \<longleftrightarrow> (mutex s = Some Main \<longleftrightarrow> main_holds (mpos s)) \<and>
     (\<forall>i. mutex s = Some (Thread i) \<longleftrightarrow> i < length (tfiles s) \<and> t_crit (tfiles s ! i))"

definition main_ok :: "int \<Rightarrow> webt \<Rightarrow> bool" where
  "main_ok mx s \<longleftrightarrow> ndone s = cnt t_counted (tfiles s) \<and>
     (mpos s \<in> {M_Conn, M_Lock, M_Test, M_Wait, M_Wake} \<longrightarrow> 0 < t_nlefttoread s) \<and>
     (mpos s \<in> {M_Lock, M_Test, M_Wait, M_Wake} \<longrightarrow> mx \<le> t_nconn s \<or> t_nlefttoconn s = 0) \<and>
     (mpos s = M_Wait \<longrightarrow> ndone s = 0 \<or> (\<exists>i < length (tfiles s). t_pos (tfiles s ! i) = T_Signal)) \<and>
     (\<forall>i. mpos s = M_Scan i \<longrightarrow> i \<le> length (tfiles s) \<and>
        (mx \<le> 1 \<or> length (tfiles s) \<le> 1 \<longrightarrow> ndone s = t_nconn s)) \<and>
     (mpos s = M_Exit \<longrightarrow> t_nlefttoread s \<le> 0)"

definition web03_inv :: "int set \<Rightarrow> int \<Rightarrow> (nat \<Rightarrow> nat list) \<Rightarrow> nat \<Rightarrow> webt \<Rightarrow> bool" where
  "web03_inv base mx r n s \<longleftrightarrow> length (tfiles s) = n \<and> web_common F_JOINED base mx r s \<and>
     (mpos s \<noteq> M_Failed \<longrightarrow> mutex_ok s \<and> main_ok mx s)"

text \<open>Every step of a thread but those that change the mutex, the count or the waiting main thread.\<close>

lemma thread_step_private:
  assumes "do_get_read fd i s = Some s'" and "i < length (tfiles s)" and "mpos s' \<noteq> M_Failed"
  shows "t_pos (tfiles s ! i) \<notin> {T_Lock, T_Unlock} \<Longrightarrow> t_crit (tfiles s' ! i) = t_crit (tfiles s ! i)"
    and "t_pos (tfiles s ! i) \<notin> {T_Lock, T_Unlock} \<Longrightarrow> mutex s' = mutex s"
    and "main_holds (mpos s') = main_holds (mpos s)"
    and "t_pos (tfiles s ! i) \<noteq> T_Count \<Longrightarrow> t_counted (tfiles s' ! i) = t_counted (tfiles s ! i)"
    and "t_pos (tfiles s ! i) \<noteq> T_Signal \<Longrightarrow> mpos s' = mpos s"
    and "t_pos (tfiles s ! i) \<noteq> T_Count \<Longrightarrow> ndone s' = ndone s"
  using assms t_read_fields(4) [of i s] t_write_fields(3,4) [of i s]
  by (cases "t_pos (tfiles s ! i)"; force simp: do_get_read_def t_crit_def t_counted_def t_read_fields(1-3) t_write_fields(1,2)
    split: if_splits)+

lemma mutex_ok_keep:
  assumes "mutex_ok s" and "tfiles s' = (tfiles s)[i := t]" and "t_crit t = t_crit (tfiles s ! i)"
    and "mutex s' = mutex s" and "main_holds (mpos s') = main_holds (mpos s)"
  shows "mutex_ok s'"
proof -
  have "length (tfiles s') = length (tfiles s)" "\<And>j. j < length (tfiles s) \<Longrightarrow> t_crit (tfiles s' ! j) = t_crit (tfiles s ! j)"
    using assms(2,3) by (simp, metis assms(2) nth_list_update_eq nth_list_update_neq)
  then show ?thesis using assms(1,4,5) by (simp add: mutex_ok_def cong: conj_cong)
qed

lemma main_ok_keep:
  assumes "main_ok mx s" and "tfiles s' = (tfiles s)[i := t]" and "i < length (tfiles s)"
    and "t_counted t = t_counted (tfiles s ! i)" and "t_pos (tfiles s ! i) \<noteq> T_Signal"
    and "mpos s' = mpos s" "ndone s' = ndone s" "t_nconn s' = t_nconn s" "t_nlefttoconn s' = t_nlefttoconn s"
    "t_nlefttoread s' = t_nlefttoread s"
  shows "main_ok mx s'"
proof -
  have "cnt t_counted (tfiles s') = cnt t_counted (tfiles s)" using assms(2-4) by (simp add: cnt_update)
  moreover have "\<exists>j < length (tfiles s'). t_pos (tfiles s' ! j) = T_Signal"
    if "j < length (tfiles s)" "t_pos (tfiles s ! j) = T_Signal" for j
    using that assms(2,3,5) by (intro exI [of _ j]) (auto simp: nth_list_update)
  ultimately show ?thesis using assms(1,2,6-) unfolding main_ok_def by (metis length_list_update)
qed

lemma thread_step_mutex:
  assumes "do_get_read fd i s = Some s'" and "i < length (tfiles s)" and "mutex_ok s" and "mpos s' \<noteq> M_Failed"
  shows "mutex_ok s'"
proof -
  note tf = thread_step_file(1) [OF disjI1 [OF assms(1)] assms(2)]
  consider "t_pos (tfiles s ! i) = T_Lock" | "t_pos (tfiles s ! i) = T_Unlock" | "t_pos (tfiles s ! i) \<notin> {T_Lock, T_Unlock}"
    by auto
  then show ?thesis
  proof cases
    case 1
    then show ?thesis using assms(1-3) by (auto simp: do_get_read_def mutex_ok_def t_crit_def nth_list_update split: if_splits)
  next
    case 2
    then have m: "mutex s = Some (Thread i)" using assms(2,3) by (simp add: mutex_ok_def t_crit_def)
    have s': "s' = (set_tfile i (\<lambda>t. t\<lparr>t_pos := T_Ended\<rparr>) s)\<lparr>mutex := None\<rparr>" using assms(1) 2 by (simp add: do_get_read_def)
    have c: "j < length (tfiles s) \<and> t_crit (tfiles s ! j) \<longleftrightarrow> i = j" for j
      using m assms(3) unfolding mutex_ok_def by (metis option.inject party.inject)
    have "\<not> t_crit (tfiles s' ! j)" if "j < length (tfiles s')" for j
      using that c [of j] by (cases "j = i") (simp_all add: s' t_crit_def)
    moreover have "\<not> main_holds (mpos s)" using m assms(3) by (simp add: mutex_ok_def)
    ultimately show ?thesis by (simp add: mutex_ok_def s')
  next
    case 3
    then show ?thesis using mutex_ok_keep [OF assms(3) tf] thread_step_private [OF assms(1,2,4)] by blast
  qed
qed

lemma thread_step_main:
  assumes "do_get_read fd i s = Some s'" and "i < length (tfiles s)" and "mutex_ok s" and "main_ok mx s"
    and "mpos s' \<noteq> M_Failed"
  shows "main_ok mx s'"
proof -
  note tf = thread_step_file [OF disjI1 [OF assms(1)] assms(2)]
  consider "t_pos (tfiles s ! i) = T_Count" | "t_pos (tfiles s ! i) = T_Signal" | "t_pos (tfiles s ! i) \<notin> {T_Count, T_Signal}"
    by auto
  then show ?thesis
  proof cases
    case 1
    then have "mutex s = Some (Thread i)" using assms(2,3) by (simp add: mutex_ok_def t_crit_def)
    then have "\<not> main_holds (mpos s)" using assms(3) by (simp add: mutex_ok_def)
    moreover have s': "s' = (set_tfile i (\<lambda>t. t\<lparr>t_pos := T_Signal\<rparr>) s)\<lparr>ndone := ndone s + 1\<rparr>"
      using assms(1) 1 by (simp add: do_get_read_def)
    moreover have "cnt t_counted (tfiles s') = cnt t_counted (tfiles s) + 1"
      and "\<exists>j < length (tfiles s'). t_pos (tfiles s' ! j) = T_Signal"
      using assms(2) 1 by (auto simp: s' cnt_update t_counted_def)
    ultimately show ?thesis using assms(4) s' unfolding main_ok_def by (cases "mpos s") simp_all
  next
    case 2
    have s': "s' = (set_tfile i (\<lambda>t. t\<lparr>t_pos := T_Unlock\<rparr>) s)\<lparr>mpos := (if mpos s = M_Wait then M_Wake else mpos s)\<rparr>"
      using assms(1) 2 by (simp add: do_get_read_def)
    moreover have "cnt t_counted (tfiles s') = cnt t_counted (tfiles s)"
      using assms(2) 2 by (simp add: s' cnt_update t_counted_def)
    ultimately show ?thesis using assms(4) unfolding main_ok_def by (cases "mpos s"; elim conjE; simp)
  next
    case 3
    then show ?thesis
      using main_ok_keep [OF assms(4) tf(1) assms(2)] tf(2-4) thread_step_private [OF assms(1,2,5)] by blast
  qed
qed

text \<open>Both invariants depend on few fields.\<close>

lemma mutex_ok_main:
  assumes "mutex_ok s" and "map t_pos (tfiles s') = map t_pos (tfiles s)"
    and "mutex s' = mutex s \<and> main_holds (mpos s') = main_holds (mpos s) \<or>
      mutex s = None \<and> mutex s' = Some Main \<and> main_holds (mpos s') \<or>
      mutex s = Some Main \<and> mutex s' = None \<and> \<not> main_holds (mpos s')"
  shows "mutex_ok s'"
proof -
  have "length (tfiles s') = length (tfiles s)" using assms(2) by (metis length_map)
  moreover from this have "j < length (tfiles s) \<Longrightarrow> t_crit (tfiles s' ! j) = t_crit (tfiles s ! j)" for j
    using assms(2) unfolding t_crit_def by (metis nth_map)
  ultimately have "(\<forall>i. mutex s = Some (Thread i) \<longleftrightarrow> i < length (tfiles s') \<and> t_crit (tfiles s' ! i))"
    using assms(1) by (auto simp: mutex_ok_def)
  then show ?thesis using assms(1,3) unfolding mutex_ok_def by (elim disjE conjE) auto
qed

lemma thread_start_inv:
  assumes "web_common F_JOINED base mx r s" and "mutex_ok s" and "main_ok mx s" and "mpos s = M_Conn" and "0 < t_nlefttoconn s"
  shows "mutex_ok (thread_start s)" and "main_ok mx (thread_start s)" and "length (tfiles (thread_start s)) = length (tfiles s)"
proof -
  obtain i where i: "i < length (tfiles s)" "t_pos (tfiles s ! i) = T_None"
    and st: "thread_start s = (set_tfile i (\<lambda>t. t\<lparr>t_flags := F_CONNECTING, t_pos := T_Connect\<rparr>) s)
      \<lparr>t_nconn := t_nconn s + 1, t_nlefttoconn := t_nlefttoconn s - 1\<rparr>"
    using thread_start_file [OF assms(1) _ assms(5)] by (auto simp: F_JOINED_def)
  show "mutex_ok (thread_start s)"
    by (rule mutex_ok_keep [OF assms(2), of _ i "(tfiles s ! i)\<lparr>t_flags := F_CONNECTING, t_pos := T_Connect\<rparr>"])
      (use i st in \<open>simp_all add: t_crit_def\<close>)
  show "main_ok mx (thread_start s)" using assms(3,4) i st by (simp add: main_ok_def cnt_update t_counted_def)
  show "length (tfiles (thread_start s)) = length (tfiles s)" using st by simp
qed

lemma join_file_inv:
  assumes "web03_inv base mx r n s" and "mpos s = M_Scan i" and "join_file i s = Some s'"
  shows "web03_inv base mx r n s'"
proof -
  have inv: "length (tfiles s) = n" "web_common F_JOINED base mx r s" "mutex_ok s" "main_ok mx s"
    using assms(1,2) by (simp_all add: web03_inv_def)
  then have i: "i \<le> n" "mutex s = Some Main" using assms(2) by (auto simp: main_ok_def mutex_ok_def)
  consider "i = n" "s' = s\<lparr>mpos := M_Unlock\<rparr>" | "i < n" "s' = s\<lparr>mpos := M_Scan (Suc i)\<rparr>"
    | "i < n" "t_pos (tfiles s ! i) = T_Ended"
      "s' = (set_tfile i (\<lambda>t. t\<lparr>t_flags := F_JOINED, t_pos := T_Gone\<rparr>) s)
        \<lparr>mpos := M_Scan (Suc i), ndone := ndone s - 1, t_nconn := t_nconn s - 1, t_nlefttoread := t_nlefttoread s - 1\<rparr>"
    using assms(3) inv(1) i by (auto simp: join_file_def split: if_splits)
  then show ?thesis
  proof cases
    case 3
    have "web_common F_JOINED base mx r s'" by (rule web_common_join [OF inv(2), of i]) (use 3 inv(1) in auto)
    moreover have "mutex_ok s'"
      by (rule mutex_ok_keep [OF inv(3), of _ i "(tfiles s ! i)\<lparr>t_flags := F_JOINED, t_pos := T_Gone\<rparr>"])
        (use 3 assms(2) in \<open>auto simp: t_crit_def\<close>)
    moreover have "main_ok mx s'"
      using 3 inv(1,4) assms(2) unfolding main_ok_def by (elim conjE) (simp add: cnt_update t_counted_def)
    ultimately show ?thesis using 3 inv(1) by (simp add: web03_inv_def)
  qed (use inv assms(2) web_common_mono [OF inv(2), of s'] mutex_ok_main [OF inv(3), of s'] in
      \<open>auto simp: web03_inv_def main_ok_def\<close>)
qed

lemma web03_main_inv:
  assumes "web03_inv base mx r n s" and "web03_main mx s = Some s'"
  shows "web03_inv base mx r n s'"
proof -
  have run: "mpos s \<noteq> M_Failed" using assms(2) by (auto simp: web03_main_def)
  then have inv: "length (tfiles s) = n" "web_common F_JOINED base mx r s" "mutex_ok s" "main_ok mx s"
    using assms(1) by (simp_all add: web03_inv_def)
  note counts = web_common_counts [OF inv(2)]
  have simple: "web03_inv base mx r n (s\<lparr>mpos := p, mutex := m\<rparr>)"
    if "m = mutex s \<and> main_holds p = main_holds (mpos s) \<or> mutex s = None \<and> m = Some Main \<and> main_holds p \<or>
      mutex s = Some Main \<and> m = None \<and> \<not> main_holds p" and "main_ok mx (s\<lparr>mpos := p, mutex := m\<rparr>)" for p m
    using that inv(1) web_common_mono [OF inv(2)] mutex_ok_main [OF inv(3)] by (simp add: web03_inv_def)
  have stay: "web03_inv base mx r n (s\<lparr>mpos := p\<rparr>)"
    if "main_holds p = main_holds (mpos s)" and "main_ok mx (s\<lparr>mpos := p\<rparr>)" for p
    using simple [of "mutex s" p] that by simp
  have held: "main_holds (mpos s) \<Longrightarrow> mutex s = Some Main" using inv(3) by (simp add: mutex_ok_def)
  show ?thesis
  proof (cases "mpos s")
    case M_Conn
    show ?thesis
    proof (cases "t_nconn s < mx \<and> 0 < t_nlefttoconn s")
      case True
      then show ?thesis using web_common_start [OF inv(2)] thread_start_inv [OF inv(2-4) M_Conn] inv(1) M_Conn assms(2)
        by (simp add: web03_inv_def web03_main_def F_JOINED_def)
    next
      case False
      then have "s' = s\<lparr>mpos := M_Lock\<rparr>" using assms(2) M_Conn by (auto simp: web03_main_def split: if_splits)
      moreover have "main_ok mx (s\<lparr>mpos := M_Lock\<rparr>)"
        using False inv(4) M_Conn counts(2) by (auto simp: main_ok_def)
      ultimately show ?thesis using stay [of M_Lock] M_Conn by simp
    qed
  next
    case M_Loop
    then show ?thesis using assms(2) inv(4) stay [of M_Conn] stay [of M_Exit]
      by (cases "0 < t_nlefttoread s") (auto simp: web03_main_def main_ok_def)
  next
    case M_Lock
    then show ?thesis using assms(2) inv(4) by (auto simp: web03_main_def main_ok_def intro!: simple split: if_splits)
  next
    case M_Wake
    then show ?thesis using assms(2) inv(4) by (auto simp: web03_main_def main_ok_def intro!: simple split: if_splits)
  next
    case M_Test
    show ?thesis
    proof (cases "ndone s = 0")
      case True
      then show ?thesis using M_Test assms(2) inv(4) held by (auto simp: web03_main_def main_ok_def intro!: simple)
    next
      case False
      then have "mx \<le> 1 \<or> length (tfiles s) \<le> 1 \<longrightarrow> ndone s = t_nconn s"
        using inv(4) counts(3,7,8) cnt_nonneg [of t_counted "tfiles s"] by (simp add: main_ok_def)
      then have "main_ok mx (s\<lparr>mpos := M_Scan 0\<rparr>)" using inv(4) M_Test by (simp add: main_ok_def)
      then show ?thesis using False M_Test assms(2) stay [of "M_Scan 0"] by (auto simp: web03_main_def)
    qed
  next
    case (M_Scan i)
    then show ?thesis using join_file_inv [OF assms(1)] assms(2) by (simp add: web03_main_def)
  next
    case M_Unlock
    then show ?thesis using assms(2) inv(4) held by (auto simp: web03_main_def main_ok_def intro!: simple)
  qed (use assms(2) in \<open>auto simp: web03_main_def\<close>)
qed

lemma web03_failed: "web03_inv base mx r n s \<Longrightarrow> web03_inv base mx r n (s\<lparr>mpos := M_Failed\<rparr>)"
  using web_common_mono [of _ base mx r s "s\<lparr>mpos := M_Failed\<rparr>"] by (simp add: web03_inv_def)

lemma web03_step_inv:
  assumes "web03_inv base mx r n s" and "web03_step sp mx s s'"
  shows "web03_inv base mx r n s'"
  using assms(2)
proof cases
  case (thread i fd)
  have tf: "tfiles s' = (tfiles s)[i := tfiles s' ! i]" by (rule thread_step_file(1) [OF disjI1 [OF thread(3)] thread(2)])
  have "length (tfiles s') = n" using assms(1) by (subst tf) (simp add: web03_inv_def)
  moreover have "web_common F_JOINED base mx r s'"
    using web_common_thread [OF disjI1 [OF thread(3)] thread(2)] assms(1) by (simp add: web03_inv_def)
  ultimately show ?thesis
    using thread_step_mutex [OF thread(3,2)] thread_step_main [OF thread(3,2)] assms(1) thread(1) by (simp add: web03_inv_def)
next
  case wake
  then have "mutex_ok s'" using assms(1) mutex_ok_main [of s s'] by (simp add: web03_inv_def)
  moreover have "main_ok mx s'" using assms(1) wake by (simp add: web03_inv_def main_ok_def)
  ultimately show ?thesis using assms(1) wake web_common_mono [of _ base mx r s s'] by (simp add: web03_inv_def)
next
  case main
  then show ?thesis using web03_main_inv [OF assms(1)] by blast
next
  case fail
  then show ?thesis using web03_failed [OF assms(1)] by simp
next
  case create
  then show ?thesis using web03_failed [OF assms(1)] by simp
qed

lemma web03_inv_init: "0 \<le> mx \<Longrightarrow> web03_inv base mx r (min (length names) MAXFILES) (webt_init base names r)"
  using web_common_init(1) [of mx F_JOINED base r names] web_common_init(2) [of mx base names r]
  by (simp add: web03_inv_def mutex_ok_def main_ok_def)
    (auto simp: webt_init_def Let_def t_crit_def t_counted_def cnt_def filter_empty_conv)

lemma web03_reached_inv:
  "0 \<le> mx \<Longrightarrow> reached (web03_step sp mx) (webt_init base names r) s \<Longrightarrow>
   web03_inv base mx r (min (length names) MAXFILES) s"
  by (erule reached_inv [where I = "web03_inv base mx r (min (length names) MAXFILES)"])
    (rule web03_inv_init, assumption, rule web03_step_inv)

section \<open>Where the client stops\<close>

text \<open>
  The main thread holds the mutex and waits in \<open>Pthread_join\<close> for a thread that has set its flag and waits for the
  mutex.
\<close>

definition join_deadlock :: "webt \<Rightarrow> bool" where
  "join_deadlock s \<longleftrightarrow> mutex s = Some Main \<and>
     (\<exists>i < length (tfiles s). mpos s = M_Scan i \<and> t_flags (tfiles s ! i) = F_DONE \<and> t_pos (tfiles s ! i) = T_Lock)"

lemma pos_flag_done: "tfile_ok g ns t \<Longrightarrow> t_flags t AND F_DONE \<noteq> 0 \<Longrightarrow> g AND F_DONE = 0 \<Longrightarrow>
    t_pos t \<in> {T_Lock, T_Count, T_Signal, T_Unlock, T_Ended}"
  by (cases "t_pos t") (auto simp: tfile_ok_def f_flag_defs)

lemma web03_progress:
  assumes "web03_inv base mx r n s" and "1 \<le> mx" and "finite base" and "\<nexists>s'. web03_step sp mx s s'" and "running s"
  shows "join_deadlock s"
proof -
  have inv: "length (tfiles s) = n" "web_common F_JOINED base mx r s" "mutex_ok s" "main_ok mx s"
    using assms(1,5) by (simp_all add: web03_inv_def)
  note counts = web_common_counts [OF inv(2)]
  have main: "web03_main mx s = None" using assms(4) web03_step.main [of mx s _ sp] by (cases "web03_main mx s") auto
  have pos: "t_pos (tfiles s ! i) \<in> {T_None, T_Lock, T_Ended, T_Gone}" "t_pos (tfiles s ! i) = T_Lock \<Longrightarrow> mutex s \<noteq> None"
    if "i < n" for i
  proof -
    have "\<not> (t_pos (tfiles s ! i) \<notin> {T_None, T_Ended, T_Gone} \<and> (t_pos (tfiles s ! i) = T_Lock \<longrightarrow> mutex s = None))"
      using thread_can_step [OF web_common_finite [OF inv(2) assms(3)], of i] web03_step.thread [OF assms(5), of i] that assms(4) inv(1)
      by blast
    then show "t_pos (tfiles s ! i) \<in> {T_None, T_Lock, T_Ended, T_Gone}" "t_pos (tfiles s ! i) = T_Lock \<Longrightarrow> mutex s \<noteq> None"
      by auto
  qed
  then have "\<not> t_crit (tfiles s ! i)" if "i < n" for i using that by (fastforce simp: t_crit_def)
  then have "mutex s \<noteq> Some (Thread i)" for i using inv(1,3) unfolding mutex_ok_def by metis
  then have mu: "mutex s = (if main_holds (mpos s) then Some Main else None)"
    using inv(3) by (cases "mutex s") (auto simp: mutex_ok_def intro: party.exhaust)
  show ?thesis
  proof (cases "mpos s")
    case (M_Scan i)
    then have i: "i < n" "t_flags (tfiles s ! i) AND F_DONE \<noteq> 0" "t_pos (tfiles s ! i) \<noteq> T_Ended"
      using main inv(1,4) by (auto simp: web03_main_def join_file_def main_ok_def split: if_splits)
    moreover have "tfile_ok F_JOINED (r i) (tfiles s ! i)" using inv(1,2) i(1) by (simp add: web_common_def files_ok_def)
    ultimately have "t_pos (tfiles s ! i) = T_Lock \<and> t_flags (tfiles s ! i) = F_DONE"
      using pos(1) [OF i(1)] pos_flag_done [of F_JOINED "r i" "tfiles s ! i"]
      by (auto simp: tfile_ok_def F_JOINED_def F_DONE_def)
    then show ?thesis using i(1) inv(1) mu M_Scan by (auto simp: join_deadlock_def)
  next
    case M_Wait
    have "\<not> t_active (tfiles s ! i)" if "i < n" for i
    proof -
      have "\<nexists>i. i < n \<and> t_pos (tfiles s ! i) = T_Signal" using pos(1) by fastforce
      then have "cnt t_counted (tfiles s) = 0" using inv(1,4) M_Wait by (auto simp: main_ok_def)
      then have "\<not> t_counted (tfiles s ! i)" using cnt_zero that inv(1) by blast
      then show ?thesis using pos [OF that] mu M_Wait by (auto simp: t_counted_def t_active_def)
    qed
    then have "t_nconn s = 0" using counts(5) cnt_zero [of t_active "tfiles s"] inv(1) by simp
    then show ?thesis using inv(4) M_Wait counts(4) assms(2) by (auto simp: main_ok_def)
  qed (use main mu assms(5) in \<open>auto simp: web03_main_def split: if_splits\<close>)
qed

text \<open>The deadlock is for good, unless another thread ends the process.\<close>

lemma join_deadlock_step:
  assumes "web03_inv base mx r n s" and "join_deadlock s" and "web03_step sp mx s s'"
  shows "join_deadlock s' \<or> mpos s' = M_Failed"
proof -
  obtain i where i: "mutex s = Some Main" "i < length (tfiles s)" "mpos s = M_Scan i" "t_flags (tfiles s ! i) = F_DONE"
    "t_pos (tfiles s ! i) = T_Lock"
    using assms(2) by (auto simp: join_deadlock_def)
  from assms(3) show ?thesis
  proof cases
    case main
    then show ?thesis using i by (simp add: web03_main_def join_file_def F_DONE_def)
  next
    case (thread j fd)
    have tf: "tfiles s' = (tfiles s)[j := tfiles s' ! j]" by (rule thread_step_file(1) [OF disjI1 [OF thread(3)] thread(2)])
    have "mutex_ok s" using assms(1) thread(1) by (simp add: web03_inv_def)
    then have "\<not> t_crit (tfiles s ! j)" using i(1) thread(2) unfolding mutex_ok_def by (metis option.inject party.distinct(1))
    moreover have "j \<noteq> i" using thread(3) i by (auto simp: do_get_read_def)
    moreover have "t_pos (tfiles s ! j) \<noteq> T_Lock" using thread(3) i(1) by (auto simp: do_get_read_def)
    ultimately have "mpos s' = M_Failed \<or> mpos s' = mpos s \<and> mutex s' = mutex s"
      using thread_step_private(2,5) [OF thread(3,2)] by (auto simp: t_crit_def)
    moreover have "length (tfiles s') = length (tfiles s)" "tfiles s' ! i = tfiles s ! i"
      using \<open>j \<noteq> i\<close> by (subst tf, simp)+
    ultimately show ?thesis using i unfolding join_deadlock_def by auto
  qed (use i in auto)
qed

lemma join_deadlock_forever:
  assumes "reached (web03_step sp mx) s s'" and "web03_inv base mx r n s" and "join_deadlock s"
  shows "join_deadlock s' \<or> mpos s' = M_Failed"
proof -
  have "web03_inv base mx r n s' \<and> (join_deadlock s' \<or> mpos s' = M_Failed)"
    using assms(1)
  proof induction
    case (step t u)
    then show ?case using web03_step_inv [of base mx r n t sp u] join_deadlock_step [of base mx r n t sp u]
      by (auto elim: web03_step.cases simp: web03_main_def)
  qed (use assms in simp)
  then show ?thesis by simp
qed

text \<open>With one connection at a time the thread that is joined is the one that was counted.\<close>

lemma join_deadlock_two:
  assumes "web03_inv base mx r n s" and "join_deadlock s"
  shows "2 \<le> mx" and "2 \<le> n"
proof -
  obtain i where i: "i < length (tfiles s)" "mpos s = M_Scan i" "t_pos (tfiles s ! i) = T_Lock"
    using assms(2) by (auto simp: join_deadlock_def)
  then have inv: "length (tfiles s) = n" "web_common F_JOINED base mx r s" "main_ok mx s"
    using assms(1) by (simp_all add: web03_inv_def)
  have "cnt (\<lambda>t. t_active t \<and> \<not> t_counted t) (tfiles s) > 0"
    by (rule cnt_pos [OF i(1)]) (simp add: i(3) t_active_def t_counted_def)
  moreover have "cnt t_active ts = cnt (\<lambda>t. t_active t \<and> \<not> t_counted t) ts + cnt t_counted ts" for ts
    by (induction ts) (auto simp: cnt_def t_active_def t_counted_def)
  ultimately have "ndone s \<noteq> t_nconn s" using inv(3) web_common_counts(5) [OF inv(2)] by (simp add: main_ok_def)
  then have "\<not> (mx \<le> 1 \<or> n \<le> 1)" using inv i(2) by (auto simp: main_ok_def)
  then show "2 \<le> mx" "2 \<le> n" by auto
qed

section \<open>How long it runs\<close>

text \<open>The steps of the main thread until it has joined one more thread.\<close>

definition some_ended :: "nat \<Rightarrow> nat \<Rightarrow> webt \<Rightarrow> bool" where
  "some_ended i n s \<longleftrightarrow> (\<exists>j \<ge> i. j < n \<and> t_pos (tfiles s ! j) = T_Ended)"

definition main_steps :: "nat \<Rightarrow> webt \<Rightarrow> nat" where
  "main_steps n s =
     (case mpos s of
        M_Loop \<Rightarrow> n + 8 | M_Conn \<Rightarrow> n + 7 | M_Lock \<Rightarrow> n + 6 | M_Wake \<Rightarrow> n + 5 | M_Test \<Rightarrow> n + 4 | M_Wait \<Rightarrow> n + 3
      | M_Scan i \<Rightarrow> (n - i) + 2 + (if some_ended i n s then 0 else n + 8)
      | M_Unlock \<Rightarrow> n + 9 | M_Exit \<Rightarrow> 0 | M_Failed \<Rightarrow> 0)"

definition steps_left :: "nat \<Rightarrow> webt \<Rightarrow> nat" where
  "steps_left n s = sum_list (map (file_steps (n + 8)) (tfiles s)) + main_steps n s"

lemma thread_steps_left:
  assumes "do_get_read fd i s = Some s'" and "i < n" and "web03_inv base mx r n s" and "running s"
  shows "steps_left n s' < steps_left n s"
proof -
  have inv: "length (tfiles s) = n" "mutex_ok s" using assms(3,4) by (simp_all add: web03_inv_def)
  note tf = thread_step_file(1) [OF disjI1 [OF assms(1)], unfolded inv(1), OF assms(2)]
  show ?thesis
  proof (cases "mpos s' = M_Failed")
    case True
    then have "t_pos (tfiles s ! i) = T_Write \<and> tfiles s' = tfiles s"
      using assms(1,4) by (cases "t_pos (tfiles s ! i)") (auto simp: do_get_read_def t_write_get_cmd_def t_read_fields split: if_splits)
    moreover have "0 < main_steps n s" using assms(4) by (cases "mpos s") (simp_all add: main_steps_def)
    ultimately show ?thesis using True by (simp add: steps_left_def main_steps_def)
  next
    case False
    note priv = thread_step_private [OF assms(1) _ False, unfolded inv(1), OF assms(2)]
    have "file_steps (n + 8) (tfiles s' ! i) + (if t_pos (tfiles s ! i) = T_Signal then 4 else 1) \<le>
        file_steps (n + 8) (tfiles s ! i)"
      using assms(1,2) False inv(1)
      by (cases "t_pos (tfiles s ! i)")
        (auto simp: do_get_read_def t_write_get_cmd_def t_read_def file_steps_def split: if_splits list.splits)
    moreover have "main_steps n s' \<le> main_steps n s + (if t_pos (tfiles s ! i) = T_Signal then 2 else 0)"
    proof (cases "t_pos (tfiles s ! i) = T_Signal")
      case True
      then have "s' = (set_tfile i (\<lambda>t. t\<lparr>t_pos := T_Unlock\<rparr>) s)\<lparr>mpos := (if mpos s = M_Wait then M_Wake else mpos s)\<rparr>"
        using assms(1) by (simp add: do_get_read_def)
      moreover have "\<not> main_holds (mpos s)"
        using True inv assms(2) unfolding mutex_ok_def by (metis t_crit_def insertCI option.inject party.distinct(1))
      ultimately show ?thesis using True by (cases "mpos s") (simp_all add: main_steps_def)
    next
      case False
      then have "mpos s' = mpos s" by (rule priv(5))
      moreover have "t_pos (tfiles s' ! j) = T_Ended" if "t_pos (tfiles s ! j) = T_Ended" for j
        using that thread_step_file(5) [OF disjI1 [OF assms(1)]] inv(1) assms(2) by (subst tf) (auto simp: nth_list_update)
      then have "some_ended j n s \<Longrightarrow> some_ended j n s'" for j by (auto simp: some_ended_def)
      ultimately show ?thesis using False by (cases "mpos s") (auto simp: main_steps_def)
    qed
    moreover have "sum_list (map (file_steps (n + 8)) (tfiles s')) + file_steps (n + 8) (tfiles s ! i) =
        sum_list (map (file_steps (n + 8)) (tfiles s)) + file_steps (n + 8) (tfiles s' ! i)"
      using sum_list_update_file [of i "tfiles s"] assms(2) inv(1) by (subst tf) simp
    ultimately show ?thesis by (auto simp: steps_left_def split: if_splits)
  qed
qed

lemma join_steps_left:
  assumes "join_file i s = Some s'" and "mpos s = M_Scan i" and "web03_inv base mx r n s"
  shows "steps_left n s' < steps_left n s"
proof -
  have inv: "length (tfiles s) = n" "i \<le> n" using assms(2,3) by (auto simp: web03_inv_def main_ok_def)
  consider "i = n" "s' = s\<lparr>mpos := M_Unlock\<rparr>" | "i < n" "s' = s\<lparr>mpos := M_Scan (Suc i)\<rparr>" "t_flags (tfiles s ! i) AND F_DONE = 0"
    | "i < n" "t_pos (tfiles s ! i) = T_Ended"
      "s' = (set_tfile i (\<lambda>t. t\<lparr>t_flags := F_JOINED, t_pos := T_Gone\<rparr>) s)
        \<lparr>mpos := M_Scan (Suc i), ndone := ndone s - 1, t_nconn := t_nconn s - 1, t_nlefttoread := t_nlefttoread s - 1\<rparr>"
    using assms(1) inv by (auto simp: join_file_def split: if_splits)
  then show ?thesis
  proof cases
    case 1
    then show ?thesis using assms(2) by (simp add: steps_left_def main_steps_def some_ended_def)
  next
    case 2
    have "t_pos (tfiles s ! i) \<noteq> T_Ended"
      using 2 assms(3) inv(1) by (auto simp: web03_inv_def web_common_def files_ok_def tfile_ok_def F_DONE_def)
    then have "some_ended i n s \<Longrightarrow> some_ended (Suc i) n s'"
      unfolding some_ended_def 2(2) by simp (metis Suc_leI le_neq_implies_less)
    then have "main_steps n s' < main_steps n s" using 2(1,2) assms(2) by (auto simp: main_steps_def)
    then show ?thesis using 2 by (simp add: steps_left_def)
  next
    case 3
    have "sum_list (map (file_steps (n + 8)) (tfiles s')) + (n + 8) = sum_list (map (file_steps (n + 8)) (tfiles s))"
      using sum_list_update_file [of i "tfiles s" "file_steps (n + 8)" "(tfiles s ! i)\<lparr>t_flags := F_JOINED, t_pos := T_Gone\<rparr>"]
        3 inv(1) by (simp add: file_steps_def)
    moreover have "some_ended i n s" using 3 by (auto simp: some_ended_def)
    then have "main_steps n s = (n - i) + 2" using assms(2) by (simp add: main_steps_def)
    moreover have "mpos s' = M_Scan (Suc i)" using 3 by simp
    then have "main_steps n s' \<le> (n - Suc i) + 2 + (n + 8)" by (auto simp: main_steps_def)
    ultimately show ?thesis using 3(1) by (simp add: steps_left_def)
  qed
qed

lemma main_steps_pos: "running s \<Longrightarrow> 0 < main_steps n s"
  by (cases "mpos s") (simp_all add: main_steps_def)

lemma main_steps_left:
  assumes "web03_main mx s = Some s'" and "web03_inv base mx r n s"
  shows "steps_left n s' < steps_left n s"
proof -
  have run: "mpos s \<noteq> M_Failed" using assms(1) by (auto simp: web03_main_def)
  then have inv: "length (tfiles s) = n" "web_common F_JOINED base mx r s" "mutex_ok s" "main_ok mx s"
    using assms(2) by (simp_all add: web03_inv_def)
  show ?thesis
  proof (cases "mpos s")
    case M_Conn
    show ?thesis
    proof (cases "t_nconn s < mx \<and> 0 < t_nlefttoconn s")
      case True
      obtain i where i: "i < length (tfiles s)" "t_pos (tfiles s ! i) = T_None"
        and st: "thread_start s = (set_tfile i (\<lambda>t. t\<lparr>t_flags := F_CONNECTING, t_pos := T_Connect\<rparr>) s)
          \<lparr>t_nconn := t_nconn s + 1, t_nlefttoconn := t_nlefttoconn s - 1\<rparr>"
        using thread_start_file [OF inv(2)] True by (auto simp: F_JOINED_def)
      have "main_steps n s' = main_steps n s" using True M_Conn assms(1) st by (auto simp: web03_main_def main_steps_def)
      then show ?thesis using True M_Conn assms(1) i st
          sum_list_update_file [of i "tfiles s" "file_steps (n + 8)" "(tfiles s ! i)\<lparr>t_flags := F_CONNECTING, t_pos := T_Connect\<rparr>"]
        by (auto simp: web03_main_def steps_left_def file_steps_def)
    next
      case False
      then show ?thesis using M_Conn assms(1) by (auto simp: web03_main_def steps_left_def main_steps_def split: if_splits)
    qed
  next
    case (M_Scan i)
    then show ?thesis using join_steps_left [OF _ M_Scan assms(2)] assms(1) by (simp add: web03_main_def)
  next
    case M_Test
    have "some_ended 0 n s" if "ndone s \<noteq> 0"
    proof -
      have "cnt t_counted (tfiles s) \<noteq> 0" using that inv(4) unfolding main_ok_def by metis
      then obtain j where j: "j < n" "t_counted (tfiles s ! j)" using cnt_zero [of t_counted "tfiles s"] inv(1) by metis
      moreover have "mutex s = Some Main" using inv(3) M_Test by (simp add: mutex_ok_def)
      then have "\<not> t_crit (tfiles s ! j)" using inv(1,3) j(1) unfolding mutex_ok_def by (metis option.inject party.distinct(1))
      ultimately show ?thesis by (auto simp: some_ended_def t_counted_def t_crit_def)
    qed
    then have "ndone s \<noteq> 0 \<Longrightarrow> some_ended 0 n (s\<lparr>mpos := M_Scan 0\<rparr>)" by (simp add: some_ended_def)
    then show ?thesis using M_Test assms(1)
      by (cases "ndone s = 0") (auto simp: web03_main_def steps_left_def main_steps_def)
  qed (use assms(1) run in \<open>auto simp: web03_main_def steps_left_def main_steps_def split: if_splits\<close>)
qed

lemma step_steps_left:
  assumes "web03_step False mx s s'" and "web03_inv base mx r n s"
  shows "steps_left n s' < steps_left n s"
  using assms(1)
proof cases
  case main
  then show ?thesis by (rule main_steps_left) (rule assms(2))
next
  case (thread i fd)
  have "length (tfiles s) = n" using assms(2) by (simp add: web03_inv_def)
  then show ?thesis using thread_steps_left [OF thread(3) _ assms(2) thread(1)] thread(2) by simp
next
  case fail
  then show ?thesis using main_steps_pos [OF fail(2)] by (simp add: steps_left_def main_steps_def)
next
  case create
  then show ?thesis using main_steps_pos [of s n] by (simp add: steps_left_def main_steps_def)
qed simp

lemma web03_steps_bound:
  assumes "0 \<le> mx" and "steps (web03_step False mx) k (webt_init base names r) s" and "n = min (length names) MAXFILES"
  shows "k \<le> n * (n + 21) + sum_list (map (\<lambda>i. length (r i)) [0 ..< n]) + n + 8"
proof -
  let ?s = "webt_init base names r"
  have "k + steps_left n s \<le> steps_left n ?s"
    using steps_measure [of "web03_step False mx" k ?s s "web03_inv base mx r n" "steps_left n", OF assms(2)]
      web03_inv_init [OF assms(1)] web03_step_inv step_steps_left assms(3) by blast
  moreover have "sum_list (map (file_steps (n + 8)) (tfiles ?s)) = n * (n + 21) + sum_list (map (\<lambda>i. length (r i)) [0 ..< n])"
    by (simp add: webt_init_def Let_def assms(3) [symmetric] o_def file_steps_def sum_list_addf sum_list_triv
        algebra_simps)
  moreover have "main_steps n ?s = n + 8" by (simp add: webt_init_def Let_def main_steps_def)
  ultimately show ?thesis by (simp add: steps_left_def)
qed

end
