(* ===== verification/Web_Deadlock.thy ===== *)
theory Web_Deadlock
  imports Web_Cond
begin

text \<open>
  A schedule of \<open>threads/web03.c\<close> that ends in its deadlock, for any two files and two connections, and what can be
  said of all its runs.
\<close>

section \<open>The deadlock is reached\<close>

text \<open>A state with another file at \<open>i\<close> and other open descriptors.\<close>

abbreviation at_file :: "nat \<Rightarrow> tfile \<Rightarrow> int set \<Rightarrow> webt \<Rightarrow> webt" where
  "at_file i t ofds s \<equiv> s\<lparr>tfiles := (tfiles s)[i := t], t_open := ofds\<rparr>"

lemma thread_moves:
  assumes "running s" and "i < length (tfiles s)" and "do_get_read fd i (at_file i t ofds s) = Some (at_file i t' ofds' s)"
    and "reached (web03_step sp mx) s0 (at_file i t ofds s)"
  shows "reached (web03_step sp mx) s0 (at_file i t' ofds' s)"
  by (rule reached.step [OF assms(4)], rule web03_step.thread [of _ i fd]) (use assms(1-3) in simp_all)

lemma thread_reads:
  assumes "running s" and "i < length (tfiles s)" and "t_pos t = T_Read"
    and "reached (web03_step sp mx) s0 (at_file i t ofds s)"
  shows "\<exists>t'. reached (web03_step sp mx) s0 (at_file i t' ofds s) \<and> t_pos t' = T_Close \<and> t_fd t' = t_fd t"
  using assms(3,4)
proof (induction "t_reply t" arbitrary: t)
  case Nil
  have "reached (web03_step sp mx) s0 (at_file i (t\<lparr>t_pos := T_Close\<rparr>) ofds s)"
    by (rule thread_moves [OF assms(1,2) _ Nil(3), of 0])
      (use assms(2) Nil in \<open>simp add: do_get_read_def t_read_def set_tfile_def\<close>)
  then show ?case by (intro exI [of _ "t\<lparr>t_pos := T_Close\<rparr>"]) simp
next
  case (Cons n ns)
  show ?case
  proof (cases "n = 0")
    case True
    have "reached (web03_step sp mx) s0 (at_file i (t\<lparr>t_pos := T_Close\<rparr>) ofds s)"
      by (rule thread_moves [OF assms(1,2) _ Cons(4), of 0])
        (use assms(2) Cons True in \<open>simp add: do_get_read_def t_read_def set_tfile_def flip: Cons(2)\<close>)
    then show ?thesis by (intro exI [of _ "t\<lparr>t_pos := T_Close\<rparr>"]) simp
  next
    case False
    have "reached (web03_step sp mx) s0 (at_file i (t\<lparr>t_reply := ns, t_seen := t_seen t @ [n]\<rparr>) ofds s)"
      by (rule thread_moves [OF assms(1,2) _ Cons(4), of 0])
        (use assms(2) Cons False in \<open>simp add: do_get_read_def t_read_def set_tfile_def flip: Cons(2)\<close>)
    then show ?thesis using Cons(1) [of "t\<lparr>t_reply := ns, t_seen := t_seen t @ [n]\<rparr>"] Cons(3) by simp
  qed
qed

lemma thread_to_lock:
  assumes "running s" and "i < length (tfiles s)" and "t_pos (tfiles s ! i) = T_Connect"
    and "length (get_cmd (t_name (tfiles s ! i))) < MAXLINE" and "finite (t_open s)"
  shows "\<exists>t. reached (web03_step sp mx) s (s\<lparr>tfiles := (tfiles s)[i := t]\<rparr>) \<and> t_pos t = T_Lock \<and> t_flags t = F_DONE"
proof -
  let ?R = "\<lambda>t ofds. reached (web03_step sp mx) s (at_file i t ofds s)" and ?o = "t_open s"
  obtain fd where fd: "fd \<notin> ?o" using ex_new_if_finite [OF infinite_UNIV_int assms(5)] by blast
  define t where "t = tfiles s ! i"
  note move = thread_moves [OF assms(1,2)]
  have "?R t ?o" by (simp add: t_def reached.start)
  then have "?R (t\<lparr>t_fd := fd, t_pos := T_Write\<rparr>) (insert fd ?o)"
    by (rule move [rotated, of _ _ _ _ _ fd]) (use assms(2,3) fd in \<open>simp add: do_get_read_def set_tfile_def t_def\<close>)
  then have "?R (t\<lparr>t_fd := fd, t_flags := F_READING, t_pos := T_Read\<rparr>) (insert fd ?o)"
    by (rule move [rotated, of _ _ _ _ _ 0])
      (use assms(2,4) in \<open>simp add: do_get_read_def t_write_get_cmd_def set_tfile_def t_def\<close>)
  from thread_reads [OF assms(1,2) _ this]
  obtain u where u: "?R u (insert fd ?o)" "t_pos u = T_Close" "t_fd u = fd" by auto
  have "?R (u\<lparr>t_pos := T_Flag\<rparr>) ?o"
    by (rule move [OF _ u(1), of 0]) (use assms(2) u fd in \<open>simp add: do_get_read_def set_tfile_def\<close>)
  then have "?R (u\<lparr>t_flags := F_DONE, t_pos := T_Lock\<rparr>) ?o"
    by (rule move [rotated, of _ _ _ _ _ 0]) (use assms(2) in \<open>simp add: do_get_read_def set_tfile_def\<close>)
  then show ?thesis by (intro exI [of _ "u\<lparr>t_flags := F_DONE, t_pos := T_Lock\<rparr>"]) simp
qed

lemma thread_to_end:
  assumes "mpos s = M_Lock" and "i < length (tfiles s)" and "t_pos (tfiles s ! i) = T_Lock" and "mutex s = None"
  shows "reached (web03_step sp mx) s (s\<lparr>tfiles := (tfiles s)[i := (tfiles s ! i)\<lparr>t_pos := T_Ended\<rparr>], ndone := ndone s + 1\<rparr>)"
proof -
  let ?f = "\<lambda>p. (tfiles s)[i := (tfiles s ! i)\<lparr>t_pos := p\<rparr>]"
  have step: "reached (web03_step sp mx) s u"
    if "reached (web03_step sp mx) s t" "do_get_read 0 i t = Some u" "mpos t = M_Lock" "length (tfiles t) = length (tfiles s)" for t u
    by (rule reached.step [OF that(1)], rule web03_step.thread [of _ i 0]) (use that assms(2) in simp_all)
  have "reached (web03_step sp mx) s (s\<lparr>tfiles := ?f T_Count, mutex := Some (Thread i)\<rparr>)"
    by (rule step [OF reached.start]) (use assms in \<open>simp_all add: do_get_read_def set_tfile_def\<close>)
  then have "reached (web03_step sp mx) s (s\<lparr>tfiles := ?f T_Signal, mutex := Some (Thread i), ndone := ndone s + 1\<rparr>)"
    by (rule step) (use assms in \<open>simp_all add: do_get_read_def set_tfile_def\<close>)
  then have "reached (web03_step sp mx) s (s\<lparr>tfiles := ?f T_Unlock, mutex := Some (Thread i), ndone := ndone s + 1\<rparr>)"
    by (rule step) (use assms in \<open>simp_all add: do_get_read_def set_tfile_def\<close>)
  then show ?thesis by (rule step) (use assms in \<open>simp_all add: do_get_read_def set_tfile_def\<close>)
qed

lemma scan_skip:
  assumes "mpos s = M_Scan a" and "a \<le> b" and "b \<le> length (tfiles s)"
    and "\<And>k. a \<le> k \<Longrightarrow> k < b \<Longrightarrow> t_flags (tfiles s ! k) AND F_DONE = 0"
  shows "reached (web03_step sp mx) s (s\<lparr>mpos := M_Scan b\<rparr>)"
  using assms(2-4)
proof (induction b rule: dec_induct)
  case base
  have "s\<lparr>mpos := M_Scan a\<rparr> = s" using assms(1) by simp
  then show ?case by (simp add: reached.start)
next
  case (step b)
  then have "reached (web03_step sp mx) s (s\<lparr>mpos := M_Scan b\<rparr>)" by simp
  then show ?case
    by (rule reached.step, intro web03_step.main) (use step in \<open>simp add: web03_main_def join_file_def\<close>)
qed

lemma cnt_started:
  "\<forall>t \<in> set ts. t_pos t \<in> {T_None, T_Connect} \<Longrightarrow> cnt t_active ts + cnt t_pending ts = int (length ts)"
  by (induction ts) (auto simp: cnt_def t_active_def)

text \<open>The threads are created before any of them runs.\<close>

lemma threads_created:
  assumes "1 \<le> mx" and "0 < min (length names) MAXFILES" and "k \<le> nat mx" and "k \<le> min (length names) MAXFILES"
  shows "\<exists>s. reached (web03_step sp mx) (webt_init base names r) s \<and> mpos s = M_Conn \<and> mutex s = None \<and> ndone s = 0 \<and>
    t_nconn s = int k \<and> map t_name (tfiles s) = take (min (length names) MAXFILES) names \<and>
    (\<forall>t \<in> set (tfiles s). t_pos t \<in> {T_None, T_Connect})"
  using assms(3,4)
proof (induction k)
  case 0
  let ?s = "webt_init base names r"
  have "web03_step sp mx ?s (?s\<lparr>mpos := M_Conn\<rparr>)"
    by (rule web03_step.main) (use assms(2) in \<open>simp add: web03_main_def webt_init_def Let_def\<close>)
  moreover have "map t_name (tfiles ?s) = take (min (length names) MAXFILES) names"
    by (rule nth_equalityI) (simp_all add: webt_init_def Let_def)
  ultimately show ?case
    by (intro exI [of _ "?s\<lparr>mpos := M_Conn\<rparr>"] conjI reached_one) (auto simp: webt_init_def Let_def)
next
  case (Suc k)
  then obtain s where s: "reached (web03_step sp mx) (webt_init base names r) s" "mpos s = M_Conn" "mutex s = None" "ndone s = 0"
    "t_nconn s = int k" "map t_name (tfiles s) = take (min (length names) MAXFILES) names"
    "\<forall>t \<in> set (tfiles s). t_pos t \<in> {T_None, T_Connect}" by auto
  have inv: "length (tfiles s) = min (length names) MAXFILES" "web_common F_JOINED base mx r s"
    using web03_reached_inv [OF _ s(1)] assms(1) by (auto simp: web03_inv_def)
  have "cnt t_active (tfiles s) + cnt t_pending (tfiles s) = int (length (tfiles s))" by (rule cnt_started [OF s(7)])
  then have left: "0 < t_nlefttoconn s" using web_common_counts(5,6) [OF inv(2)] inv(1) s(5) Suc.prems(2) by linarith
  obtain i where i: "i < length (tfiles s)" "t_pos (tfiles s ! i) = T_None"
    and st: "thread_start s = (set_tfile i (\<lambda>t. t\<lparr>t_flags := F_CONNECTING, t_pos := T_Connect\<rparr>) s)
      \<lparr>t_nconn := t_nconn s + 1, t_nlefttoconn := t_nlefttoconn s - 1\<rparr>"
    using thread_start_file [OF inv(2) _ left] by (auto simp: F_JOINED_def)
  have "web03_step sp mx s (thread_start s)"
    by (rule web03_step.main) (use s(2,5) left Suc.prems(1) in \<open>simp add: web03_main_def\<close>)
  moreover have "map t_name (tfiles (thread_start s)) = map t_name (tfiles s)"
    by (rule nth_equalityI) (use i st in \<open>auto simp: nth_list_update\<close>)
  moreover have "\<forall>t \<in> set (tfiles (thread_start s)). t_pos t \<in> {T_None, T_Connect}"
    using s(7) st set_update_subset_insert [of "tfiles s" i] by fastforce
  ultimately show ?case
    using s by (intro exI [of _ "thread_start s"] conjI) (auto intro: reached.step simp: st)
qed

lemma cnt_two:
  assumes "2 \<le> cnt P ts"
  shows "\<exists>i j. i < j \<and> j < length ts \<and> P (ts ! i) \<and> P (ts ! j)"
proof -
  have "2 \<le> card {i. i < length ts \<and> P (ts ! i)}" using assms by (simp add: cnt_def length_filter_conv_card)
  then obtain i j where "i \<noteq> j" "i < length ts" "P (ts ! i)" "j < length ts" "P (ts ! j)"
    using card_2_iff' by (metis (mono_tags, lifting) card_le_Suc0_iff_eq finite_nat_set_iff_bounded mem_Collect_eq not_less_eq_eq numeral_2_eq_2)
  then show ?thesis by (cases "i < j") (auto dest: linorder_neqE_nat)
qed

lemma two_started:
  assumes "2 \<le> mx" and "2 \<le> length names" and "\<forall>x \<in> set names. length (get_cmd x) < MAXLINE" and "finite base"
  obtains s i j where "reached (web03_step sp mx) (webt_init base names r) s" and "mpos s = M_Lock" and "mutex s = None"
    and "ndone s = 0" and "i < j" and "j < length (tfiles s)" and "finite (t_open s)"
    and "\<forall>k \<in> {i, j}. t_pos (tfiles s ! k) = T_Connect \<and> length (get_cmd (t_name (tfiles s ! k))) < MAXLINE"
    and "\<forall>k < length (tfiles s). t_flags (tfiles s ! k) AND F_DONE = 0"
proof -
  let ?R = "reached (web03_step sp mx) (webt_init base names r)" and ?n = "min (length names) MAXFILES"
  let ?c = "min (nat mx) ?n"
  have c: "2 \<le> ?c" using assms(1,2) by (simp add: MAXFILES_def)
  have "\<exists>s. ?R s \<and> mpos s = M_Conn \<and> mutex s = None \<and> ndone s = 0 \<and>
    t_nconn s = int ?c \<and> map t_name (tfiles s) = take ?n names \<and> (\<forall>t \<in> set (tfiles s). t_pos t \<in> {T_None, T_Connect})"
    by (rule threads_created) (use assms(1) c in auto)
  then obtain s where s: "?R s" "mpos s = M_Conn" "mutex s = None" "ndone s = 0" "t_nconn s = int ?c"
    "map t_name (tfiles s) = take ?n names" "\<forall>t \<in> set (tfiles s). t_pos t \<in> {T_None, T_Connect}" by blast
  have inv: "length (tfiles s) = ?n" "web_common F_JOINED base mx r s"
    using web03_reached_inv [OF _ s(1)] assms(1) by (auto simp: web03_inv_def)
  note counts = web_common_counts [OF inv(2)]
  have "2 \<le> cnt t_active (tfiles s)" using counts(5) s(5) c by linarith
  then obtain i j where ij: "i < j" "j < length (tfiles s)" "t_active (tfiles s ! i)" "t_active (tfiles s ! j)"
    using cnt_two by blast
  show thesis
  proof (rule that [of "s\<lparr>mpos := M_Lock\<rparr>" i j])
    have "\<not> (t_nconn s < mx \<and> 0 < t_nlefttoconn s)"
      using cnt_started [OF s(7)] counts(5,6) inv(1) s(5) assms(1) by linarith
    then have "web03_step sp mx s (s\<lparr>mpos := M_Lock\<rparr>)" by (intro web03_step.main) (auto simp: web03_main_def s(2))
    then show "?R (s\<lparr>mpos := M_Lock\<rparr>)" by (rule reached.step [OF s(1)])
    show "\<forall>k \<in> {i, j}. t_pos (tfiles (s\<lparr>mpos := M_Lock\<rparr>) ! k) = T_Connect \<and>
        length (get_cmd (t_name (tfiles (s\<lparr>mpos := M_Lock\<rparr>) ! k))) < MAXLINE"
    proof
      fix k assume "k \<in> {i, j}"
      then have k: "k < length (tfiles s)" "t_active (tfiles s ! k)" using ij by auto
      then have "t_name (tfiles s ! k) = names ! k" using arg_cong [OF s(6), of "\<lambda>xs. xs ! k"] inv(1) by simp
      then show "t_pos (tfiles (s\<lparr>mpos := M_Lock\<rparr>) ! k) = T_Connect \<and>
          length (get_cmd (t_name (tfiles (s\<lparr>mpos := M_Lock\<rparr>) ! k))) < MAXLINE"
        using k s(7) assms(3) inv(1) by (auto simp: t_active_def)
    qed
    show "\<forall>k < length (tfiles (s\<lparr>mpos := M_Lock\<rparr>)). t_flags (tfiles (s\<lparr>mpos := M_Lock\<rparr>) ! k) AND F_DONE = 0"
    proof (intro allI impI)
      fix k assume "k < length (tfiles (s\<lparr>mpos := M_Lock\<rparr>))"
      then have "tfile_ok F_JOINED (r k) (tfiles s ! k)" "t_pos (tfiles s ! k) \<in> {T_None, T_Connect}"
        using inv(2) s(7) by (simp_all add: web_common_def files_ok_def)
      then show "t_flags (tfiles (s\<lparr>mpos := M_Lock\<rparr>) ! k) AND F_DONE = 0" by (auto simp: tfile_ok_def f_flag_defs)
    qed
  qed (use s ij web_common_finite [OF inv(2) assms(4)] in auto)
qed

lemma scan_deadlock:
  assumes "mpos s = M_Lock" and "mutex s = None" and "ndone s = 1" and "i < j" and "j < length (tfiles s)"
    and "t_pos (tfiles s ! i) = T_Ended" "t_flags (tfiles s ! i) = F_DONE" "t_pos (tfiles s ! j) = T_Lock" "t_flags (tfiles s ! j) = F_DONE"
    and idle: "\<And>k. k < length (tfiles s) \<Longrightarrow> k \<notin> {i, j} \<Longrightarrow> t_flags (tfiles s ! k) AND F_DONE = 0"
  shows "\<exists>u. reached (web03_step sp mx) s u \<and> join_deadlock u"
proof -
  let ?R = "reached (web03_step sp mx) s" and ?s = "\<lambda>p. s\<lparr>mutex := Some Main, mpos := p\<rparr>"
  have "?R (?s M_Test)" by (rule reached_one, intro web03_step.main) (simp add: web03_main_def assms(1,2))
  moreover have "web03_step sp mx (?s M_Test) (?s (M_Scan 0))"
    by (intro web03_step.main) (simp add: web03_main_def assms(3))
  ultimately have "?R (?s (M_Scan 0))" by (rule reached.step)
  moreover have "reached (web03_step sp mx) (?s (M_Scan 0)) ((?s (M_Scan 0))\<lparr>mpos := M_Scan i\<rparr>)"
    by (rule scan_skip [of _ 0]) (use idle assms(4,5) in auto)
  ultimately have "?R ((?s (M_Scan 0))\<lparr>mpos := M_Scan i\<rparr>)" using reached_trans by metis
  then have ri: "?R (?s (M_Scan i))" by simp
  define u where "u = (set_tfile i (\<lambda>t. t\<lparr>t_flags := F_JOINED, t_pos := T_Gone\<rparr>) (?s (M_Scan i)))
      \<lparr>mpos := M_Scan (Suc i), ndone := 0, t_nconn := t_nconn s - 1, t_nlefttoread := t_nlefttoread s - 1\<rparr>"
  have "web03_step sp mx (?s (M_Scan i)) u"
    by (rule web03_step.main) (use assms(3-7) in \<open>simp add: web03_main_def join_file_def F_DONE_def set_tfile_def u_def\<close>)
  then have "?R u" by (rule reached.step [OF ri])
  moreover have "reached (web03_step sp mx) u (u\<lparr>mpos := M_Scan j\<rparr>)"
    by (rule scan_skip [of _ "Suc i"]) (use assms(4,5) idle in \<open>auto simp: u_def\<close>)
  ultimately have "?R (u\<lparr>mpos := M_Scan j\<rparr>)" using reached_trans by metis
  moreover have "join_deadlock (u\<lparr>mpos := M_Scan j\<rparr>)" using assms(4,5,8,9) by (simp add: join_deadlock_def u_def)
  ultimately show ?thesis by blast
qed

text \<open>
  The schedule of the deadlock: all threads are created; one of them runs to its end, a later one up to its wait for
  the mutex, and then the main thread takes the mutex and goes through the files.
\<close>

lemma deadlock_reached:
  assumes "2 \<le> mx" and "2 \<le> length names" and "\<forall>x \<in> set names. length (get_cmd x) < MAXLINE" and "finite base"
  shows "\<exists>s. reached (web03_step sp mx) (webt_init base names r) s \<and> join_deadlock s"
proof -
  let ?R = "reached (web03_step sp mx) (webt_init base names r)"
  obtain s i j where s: "?R s" "mpos s = M_Lock" "mutex s = None" "ndone s = 0" "i < j" "j < length (tfiles s)"
    "finite (t_open s)"
    and start: "\<forall>k \<in> {i, j}. t_pos (tfiles s ! k) = T_Connect \<and> length (get_cmd (t_name (tfiles s ! k))) < MAXLINE"
    and idle: "\<forall>k < length (tfiles s). t_flags (tfiles s ! k) AND F_DONE = 0"
    using two_started [OF assms, where r = r and sp = sp] .
  obtain t where t: "reached (web03_step sp mx) s (s\<lparr>tfiles := (tfiles s)[i := t]\<rparr>)" "t_pos t = T_Lock" "t_flags t = F_DONE"
    using thread_to_lock [of s i sp mx] start s by auto
  define s2 where "s2 = s\<lparr>tfiles := (tfiles s)[i := t\<lparr>t_pos := T_Ended\<rparr>], ndone := 1\<rparr>"
  have "reached (web03_step sp mx) (s\<lparr>tfiles := (tfiles s)[i := t]\<rparr>) s2"
    using thread_to_end [of "s\<lparr>tfiles := (tfiles s)[i := t]\<rparr>" i sp mx] s t(2) by (simp add: s2_def)
  then have r2: "?R s2" using reached_trans t(1) s(1) by metis
  have "\<exists>u. reached (web03_step sp mx) s2 (s2\<lparr>tfiles := (tfiles s2)[j := u]\<rparr>) \<and> t_pos u = T_Lock \<and> t_flags u = F_DONE"
    by (rule thread_to_lock) (use start s in \<open>simp_all add: s2_def\<close>)
  then obtain u where u: "reached (web03_step sp mx) s2 (s2\<lparr>tfiles := (tfiles s2)[j := u]\<rparr>)" "t_pos u = T_Lock" "t_flags u = F_DONE"
    by blast
  have "\<exists>v. reached (web03_step sp mx) (s2\<lparr>tfiles := (tfiles s2)[j := u]\<rparr>) v \<and> join_deadlock v"
    by (rule scan_deadlock [of _ i j]) (use s t u idle in \<open>simp_all add: s2_def\<close>)
  then show ?thesis using reached_trans u(1) r2 by metis
qed

section \<open>All runs\<close>

text \<open>
  C11: The web client with a condition variable, in every interleaving of its threads and with replies of any length:
  without spurious wake-ups every run is finite, with the bound given.  At every turn at most \<open>maxnconn\<close> threads
  are alive; if the program exits normally then every reply has been read to its end and every descriptor
  closed; and it stops only there, when a call fails, or in the deadlock of a main thread that joins a thread while it
  holds the mutex that thread needs.  This deadlock can happen exactly when two connections are allowed and
  two files are asked for, and then the program never exits normally.
\<close>

theorem web03_outcomes:
  assumes "1 \<le> maxnconn" and "finite base" and "n = min (length names) MAXFILES"
    and "\<forall>x \<in> set names. length (get_cmd x) < MAXLINE"
  shows "(\<forall>k s. steps (web03_step False maxnconn) k (webt_init base names r) s \<longrightarrow>
      k \<le> n * (n + 21) + sum_list (map (\<lambda>i. length (r i)) [0 ..< n]) + n + 8) \<and>
    (\<forall>s. reached (web03_step spurious maxnconn) (webt_init base names r) s \<longrightarrow>
      t_nconn s \<le> maxnconn \<and> (mpos s = M_Exit \<longrightarrow> all_fetched base r s) \<and>
      ((\<exists>s'. web03_step spurious maxnconn s s') \<or> mpos s \<in> {M_Exit, M_Failed} \<or> join_deadlock s)) \<and>
    ((\<exists>s. reached (web03_step spurious maxnconn) (webt_init base names r) s \<and> join_deadlock s) \<longleftrightarrow>
      2 \<le> maxnconn \<and> 2 \<le> length names) \<and>
    (\<forall>s s'. reached (web03_step spurious maxnconn) (webt_init base names r) s \<longrightarrow> join_deadlock s \<longrightarrow>
      reached (web03_step spurious maxnconn) s s' \<longrightarrow> join_deadlock s' \<or> mpos s' = M_Failed)"
    (is "?bound \<and> (\<forall>s. ?R s \<longrightarrow> ?safe s) \<and> (?dead \<longleftrightarrow> ?two) \<and> ?forever")
proof (intro conjI)
  have inv: "web03_inv base maxnconn r n s" if "?R s" for s using web03_reached_inv [OF _ that] assms(1,3) by simp
  show ?bound using web03_steps_bound [of maxnconn _ base names r _ n] assms(1,3) by auto
  show "\<forall>s. ?R s \<longrightarrow> ?safe s"
  proof (intro allI impI conjI)
    fix s assume "?R s"
    note I = inv [OF this]
    then have com: "web_common F_JOINED base maxnconn r s" by (simp add: web03_inv_def)
    show "t_nconn s \<le> maxnconn" by (rule web_common_counts(3) [OF com])
    show "all_fetched base r s" if "mpos s = M_Exit"
      using I that web_common_done [OF com] by (simp add: web03_inv_def main_ok_def)
    show "(\<exists>s'. web03_step spurious maxnconn s s') \<or> mpos s \<in> {M_Exit, M_Failed} \<or> join_deadlock s"
      using web03_progress [OF I assms(1,2)] by blast
  qed
  have "2 \<le> n \<longleftrightarrow> 2 \<le> length names" using assms(3) by (simp add: MAXFILES_def)
  then show "?dead \<longleftrightarrow> ?two"
    using deadlock_reached [OF _ _ assms(4,2)] join_deadlock_two inv by metis
  show ?forever using join_deadlock_forever inv by metis
qed

theorem web03_outcomes_witness:
  "\<exists>s. reached (web03_step False 2) (webt_init {0, 1, 2} [''index.html'', ''unp.gif''] (\<lambda>i. [4096, 17])) s \<and> join_deadlock s"
  using web03_outcomes [of 2 "{0, 1, 2}" 2 "[''index.html'', ''unp.gif'']" "\<lambda>i. [4096, 17]" False]
  by (simp add: get_cmd_def text_bytes_def MAXLINE_def MAXFILES_def)

end
