(* ===== verification/Web_Join.thy ===== *)
theory Web_Join
  imports Web_Threads
begin

text \<open>The runs of \<open>threads/web01.c\<close>, where the main thread joins whichever thread returns.\<close>

definition web01_inv :: "int set \<Rightarrow> int \<Rightarrow> (nat \<Rightarrow> nat list) \<Rightarrow> nat \<Rightarrow> webt \<Rightarrow> bool" where
  "web01_inv base mx r n s \<longleftrightarrow> length (tfiles s) = n \<and> web_common F_DONE base mx r s \<and>
     (\<forall>i < n. t_pos (tfiles s ! i) \<notin> {T_Lock, T_Count, T_Signal, T_Unlock}) \<and>
     mpos s \<in> {M_Loop, M_Conn, M_Wait, M_Exit, M_Failed} \<and>
     (mpos s \<in> {M_Conn, M_Wait} \<longrightarrow> 0 < t_nlefttoread s) \<and>
     (mpos s = M_Wait \<longrightarrow> mx \<le> t_nconn s \<or> t_nlefttoconn s = 0) \<and>
     (mpos s = M_Exit \<longrightarrow> t_nlefttoread s \<le> 0)"

lemma thread_step1_mpos:
  assumes "do_get_read1 fd i s = Some s'" and "i < length (tfiles s)"
    and "t_pos (tfiles s ! i) \<notin> {T_Lock, T_Count, T_Signal, T_Unlock}"
  shows "t_pos (tfiles s' ! i) \<notin> {T_Lock, T_Count, T_Signal, T_Unlock}" and "mpos s' = mpos s \<or> mpos s' = M_Failed"
proof -
  consider "t_pos (tfiles s ! i) = T_Connect" | "t_pos (tfiles s ! i) = T_Write" "s' = t_write_get_cmd i s"
    | "t_pos (tfiles s ! i) = T_Read" "s' = t_read i s" | "t_pos (tfiles s ! i) = T_Close" | "t_pos (tfiles s ! i) = T_Flag"
    using assms by (cases "t_pos (tfiles s ! i)") (auto simp: do_get_read1_def do_get_read_def)
  note st = this
  show "t_pos (tfiles s' ! i) \<notin> {T_Lock, T_Count, T_Signal, T_Unlock}"
    using st by cases (use assms(1,2) t_read_fields(4) [of i s] t_write_fields(4) [of i s] in
      \<open>auto simp: do_get_read1_def do_get_read_def split: if_splits\<close>)
  show "mpos s' = mpos s \<or> mpos s' = M_Failed"
    using st by cases (use assms(1,2) t_write_fields(3) [of i s] in
      \<open>auto simp: do_get_read1_def do_get_read_def t_read_fields(1) split: if_splits\<close>)
qed

lemma web01_join:
  assumes "web01_inv base mx r n s" and "j < n" and "t_pos (tfiles s ! j) = T_Ended"
    and "s' = (set_tfile j (\<lambda>t. t\<lparr>t_pos := T_Gone\<rparr>) s)
      \<lparr>mpos := M_Loop, t_nconn := t_nconn s - 1, t_nlefttoread := t_nlefttoread s - 1\<rparr>"
  shows "web01_inv base mx r n s'"
proof -
  have inv: "length (tfiles s) = n" "web_common F_DONE base mx r s" using assms(1) by (simp_all add: web01_inv_def)
  have "t_flags (tfiles s ! j) = F_DONE"
    using inv assms(2,3) by (auto simp: web_common_def files_ok_def tfile_ok_def)
  then have "(tfiles s ! j)\<lparr>t_pos := T_Gone\<rparr> = (tfiles s ! j)\<lparr>t_flags := F_DONE, t_pos := T_Gone\<rparr>" by simp
  then have "web_common F_DONE base mx r s'"
    using web_common_join [OF inv(2), of j s'] assms(2-4) inv(1) by simp
  then show ?thesis using assms inv(1) by (simp add: web01_inv_def nth_list_update)
qed

lemma web01_main_inv:
  assumes "web01_inv base mx r n s" and "web01_main mx j s = Some s'"
  shows "web01_inv base mx r n s'"
proof -
  have inv: "length (tfiles s) = n" "web_common F_DONE base mx r s" using assms(1) by (simp_all add: web01_inv_def)
  note counts = web_common_counts [OF inv(2)]
  have stay: "web01_inv base mx r n (s\<lparr>mpos := p\<rparr>)"
    if "p \<in> {M_Loop, M_Conn, M_Wait, M_Exit, M_Failed}" "p \<in> {M_Conn, M_Wait} \<longrightarrow> 0 < t_nlefttoread s"
      "p = M_Wait \<longrightarrow> mx \<le> t_nconn s \<or> t_nlefttoconn s = 0" "p = M_Exit \<longrightarrow> t_nlefttoread s \<le> 0" for p
    using that assms(1) web_common_mono [OF inv(2), of "s\<lparr>mpos := p\<rparr>"] by (simp add: web01_inv_def)
  show ?thesis
  proof (cases "mpos s")
    case M_Loop
    then show ?thesis using assms(2) stay [of M_Conn] stay [of M_Exit]
      by (cases "0 < t_nlefttoread s") (auto simp: web01_main_def)
  next
    case M_Conn
    then have left: "0 < t_nlefttoread s" using assms(1) by (simp add: web01_inv_def)
    show ?thesis
    proof (cases "t_nconn s < mx \<and> 0 < t_nlefttoconn s")
      case True
      obtain i where i: "i < length (tfiles s)" "t_pos (tfiles s ! i) = T_None"
        and st: "thread_start s = (set_tfile i (\<lambda>t. t\<lparr>t_flags := F_CONNECTING, t_pos := T_Connect\<rparr>) s)
          \<lparr>t_nconn := t_nconn s + 1, t_nlefttoconn := t_nlefttoconn s - 1\<rparr>"
        using thread_start_file [OF inv(2)] True by (auto simp: F_DONE_def)
      have "\<forall>k < n. t_pos (tfiles (thread_start s) ! k) \<notin> {T_Lock, T_Count, T_Signal, T_Unlock}"
        using assms(1) inv(1) i st by (auto simp: web01_inv_def nth_list_update)
      moreover have "s' = thread_start s" using True M_Conn assms(2) by (simp add: web01_main_def)
      ultimately show ?thesis
        using web_common_start [OF inv(2)] True st M_Conn left inv(1) by (simp add: web01_inv_def F_DONE_def)
    next
      case False
      then show ?thesis using stay [of M_Wait] M_Conn assms(2) left counts(2) by (auto simp: web01_main_def)
    qed
  next
    case M_Wait
    then show ?thesis using assms(2) stay [of M_Failed] web01_join [OF assms(1) _ _ refl, of j] inv(1)
      by (auto simp: web01_main_def split: if_splits)
  qed (use assms(2) in \<open>auto simp: web01_main_def\<close>)
qed

lemma web01_step_inv:
  assumes "web01_inv base mx r n s" and "web01_step mx s s'"
  shows "web01_inv base mx r n s'"
  using assms(2)
proof cases
  case (main j)
  then show ?thesis using web01_main_inv [OF assms(1)] by blast
next
  case (thread i fd)
  have tf: "tfiles s' = (tfiles s)[i := tfiles s' ! i]" by (rule thread_step_file(1) [OF disjI2 [OF thread(3)] thread(2)])
  have n: "length (tfiles s) = n" using assms(1) by (simp add: web01_inv_def)
  have len: "length (tfiles s') = n" using n by (subst tf) simp
  have "web_common F_DONE base mx r s'"
    using web_common_thread [OF disjI2 [OF thread(3)] thread(2)] assms(1) by (simp add: web01_inv_def)
  moreover have pos: "t_pos (tfiles s ! i) \<notin> {T_Lock, T_Count, T_Signal, T_Unlock}"
    using assms(1) thread(2) n by (simp add: web01_inv_def)
  have st: "t_pos (tfiles s' ! i) \<notin> {T_Lock, T_Count, T_Signal, T_Unlock}" "mpos s' = mpos s \<or> mpos s' = M_Failed"
    using thread_step1_mpos [OF thread(3,2) pos] by auto
  have "t_pos (tfiles s' ! k) \<notin> {T_Lock, T_Count, T_Signal, T_Unlock}" if "k < n" for k
  proof (cases "k = i")
    case False
    then have "tfiles s' ! k = tfiles s ! k" by (subst tf) simp
    then show ?thesis using assms(1) that by (simp add: web01_inv_def)
  qed (use st(1) in simp)
  moreover note thread_step_file(2-4) [OF disjI2 [OF thread(3)] thread(2)]
  ultimately show ?thesis using assms(1) len st(2) by (auto simp: web01_inv_def)
qed (use assms(1) web_common_mono [of F_DONE base mx r s s'] in \<open>simp_all add: web01_inv_def\<close>)

text \<open>The steps left, with one round of the main loop for each thread.\<close>

definition join_left :: "webt \<Rightarrow> nat" where
  "join_left s = sum_list (map (file_steps 4) (tfiles s)) +
     (case mpos s of M_Loop \<Rightarrow> 3 | M_Conn \<Rightarrow> 2 | M_Wait \<Rightarrow> 1 | _ \<Rightarrow> 0)"

lemma thread1_file_steps:
  assumes "do_get_read1 fd i s = Some s'" and "i < length (tfiles s)" and "mpos s' \<noteq> M_Failed"
  shows "file_steps k (tfiles s' ! i) < file_steps k (tfiles s ! i)"
  using assms
  by (cases "t_pos (tfiles s ! i)") (auto simp: thread_step_defs file_steps_def split: if_splits list.splits)

lemma web01_step_left:
  assumes "web01_step mx s s'" and "web01_inv base mx r n s"
  shows "join_left s' < join_left s"
proof -
  have inv: "length (tfiles s) = n" "web_common F_DONE base mx r s" "mpos s \<in> {M_Loop, M_Conn, M_Wait, M_Exit, M_Failed}"
    using assms(2) by (simp_all add: web01_inv_def)
  have fail: "join_left (s\<lparr>mpos := M_Failed\<rparr>) < join_left s" if "running s" using that inv(3) by (auto simp: join_left_def)
  from assms(1) show ?thesis
  proof cases
    case (main j)
    consider "mpos s = M_Conn" "t_nconn s < mx" "0 < t_nlefttoconn s" "s' = thread_start s"
      | "j < n" "t_pos (tfiles s ! j) = T_Ended" "mpos s = M_Wait" "s' = (set_tfile j (\<lambda>t. t\<lparr>t_pos := T_Gone\<rparr>) s)
        \<lparr>mpos := M_Loop, t_nconn := t_nconn s - 1, t_nlefttoread := t_nlefttoread s - 1\<rparr>"
      | "tfiles s' = tfiles s" "mpos s = M_Loop \<and> mpos s' \<in> {M_Conn, M_Exit} \<or> mpos s = M_Conn \<and> mpos s' = M_Wait \<or>
          mpos s = M_Wait \<and> mpos s' = M_Failed"
      using main inv(1) by (cases "mpos s") (auto simp: web01_main_def split: if_splits)
    then show ?thesis
    proof cases
      case 1
      obtain i where i: "i < length (tfiles s)" "t_pos (tfiles s ! i) = T_None"
        and st: "thread_start s = (set_tfile i (\<lambda>t. t\<lparr>t_flags := F_CONNECTING, t_pos := T_Connect\<rparr>) s)
          \<lparr>t_nconn := t_nconn s + 1, t_nlefttoconn := t_nlefttoconn s - 1\<rparr>"
        using thread_start_file [OF inv(2) _ 1(3)] by (auto simp: F_DONE_def)
      then show ?thesis using 1
          sum_list_update_file [of i "tfiles s" "file_steps 4" "(tfiles s ! i)\<lparr>t_flags := F_CONNECTING, t_pos := T_Connect\<rparr>"]
        by (simp add: join_left_def file_steps_def)
    next
      case 2
      then show ?thesis using sum_list_update_file [of j "tfiles s" "file_steps 4" "(tfiles s ! j)\<lparr>t_pos := T_Gone\<rparr>"] inv(1)
        by (simp add: join_left_def file_steps_def)
    next
      case 3
      then show ?thesis by (auto simp: join_left_def)
    qed
  next
    case (thread i fd)
    note tf = thread_step_file(1) [OF disjI2 [OF thread(3)] thread(2)]
    have pos: "t_pos (tfiles s ! i) \<notin> {T_Lock, T_Count, T_Signal, T_Unlock}" using assms(2) thread(2) inv(1) by (simp add: web01_inv_def)
    show ?thesis
    proof (cases "mpos s' = M_Failed")
      case True
      then have "tfiles s' = tfiles s" using thread(1,3) pos
        by (cases "t_pos (tfiles s ! i)") (auto simp: do_get_read1_def do_get_read_def t_write_get_cmd_def t_read_fields split: if_splits)
      then show ?thesis using True fail [OF thread(1)] by (simp add: join_left_def)
    next
      case False
      then have "mpos s' = mpos s" using thread_step1_mpos(2) [OF thread(3,2) pos] by simp
      moreover have "sum_list (map (file_steps 4) (tfiles s')) + file_steps 4 (tfiles s ! i) =
          sum_list (map (file_steps 4) (tfiles s)) + file_steps 4 (tfiles s' ! i)"
        using sum_list_update_file [OF thread(2)] by (subst tf) simp
      ultimately show ?thesis using thread1_file_steps [OF thread(3,2) False, of 4] by (simp add: join_left_def)
    qed
  qed (use fail in auto)
qed

lemma web01_progress:
  assumes "web01_inv base mx r n s" and "1 \<le> mx" and "finite base" and "running s"
  shows "\<exists>s'. web01_step mx s s'"
proof (rule ccontr)
  assume stuck: "\<nexists>s'. web01_step mx s s'"
  have inv: "length (tfiles s) = n" "web_common F_DONE base mx r s" using assms(1) by (simp_all add: web01_inv_def)
  note counts = web_common_counts [OF inv(2)]
  have "web01_main mx j s = None" for j using stuck web01_step.main [of mx j s] by (cases "web01_main mx j s") auto
  note none = this
  have wait: "mpos s = M_Wait" using none [of 0] assms(1,4) by (auto simp: web01_main_def web01_inv_def)
  then have main: "mpos s = M_Wait" "\<not> (\<forall>t \<in> set (tfiles s). t_pos t \<in> {T_None, T_Gone})"
    "j < n \<Longrightarrow> t_pos (tfiles s ! j) \<noteq> T_Ended" for j
    using none [of j] inv(1) by (simp_all add: web01_main_def split: if_splits)
  obtain i where i: "i < n" "t_pos (tfiles s ! i) \<notin> {T_None, T_Gone}" using main(2) inv(1) by (metis in_set_conv_nth)
  then have pos: "t_pos (tfiles s ! i) \<notin> {T_None, T_Gone, T_Ended, T_Lock}" using main(3) assms(1) by (auto simp: web01_inv_def)
  then obtain fd s' where "do_get_read fd i s = Some s'"
    using thread_can_step [OF web_common_finite [OF inv(2) assms(3)], of i] by auto
  then have "\<exists>s'. do_get_read1 fd i s = Some s'" by (simp add: do_get_read1_def)
  then show False using stuck web01_step.thread [OF assms(4), of i] i(1) inv(1) by blast
qed

lemma web01_inv_init: "0 \<le> mx \<Longrightarrow> web01_inv base mx r (min (length names) MAXFILES) (webt_init base names r)"
  using web_common_init(1) [of mx F_DONE base r names] web_common_init(2) [of mx base names r]
  by (simp add: web01_inv_def) (simp add: webt_init_def Let_def)

lemma web01_reached_inv:
  "0 \<le> mx \<Longrightarrow> reached (web01_step mx) (webt_init base names r) s \<Longrightarrow>
   web01_inv base mx r (min (length names) MAXFILES) s"
  by (erule reached_inv [where I = "web01_inv base mx r (min (length names) MAXFILES)"])
    (rule web01_inv_init, assumption, rule web01_step_inv)

lemma web01_steps_bound:
  assumes "0 \<le> mx" and "steps (web01_step mx) k (webt_init base names r) s" and "n = min (length names) MAXFILES"
  shows "k \<le> n * 17 + sum_list (map (\<lambda>i. length (r i)) [0 ..< n]) + 3"
proof -
  let ?s = "webt_init base names r"
  have "k + join_left s \<le> join_left ?s"
    using steps_measure [of "web01_step mx" k ?s s "web01_inv base mx r n" join_left, OF assms(2)]
      web01_inv_init [OF assms(1)] web01_step_inv web01_step_left assms(3) by blast
  moreover have "join_left ?s = n * 17 + sum_list (map (\<lambda>i. length (r i)) [0 ..< n]) + 3"
    by (simp add: join_left_def webt_init_def Let_def assms(3) [symmetric] o_def file_steps_def sum_list_addf sum_list_triv)
  ultimately show ?thesis by simp
qed

text \<open>
  The web client that joins whichever thread returns: every run is finite, with the bound given; at every turn at
  most \<open>maxnconn\<close> threads are alive; if it exits normally then every reply has been read to its end and every
  descriptor closed; and it stops only there or when a call fails, so that it has no deadlock.
\<close>

lemma web01_outcomes:
  assumes "1 \<le> maxnconn" and "finite base" and "n = min (length names) MAXFILES"
  shows "(\<forall>k s. steps (web01_step maxnconn) k (webt_init base names r) s \<longrightarrow>
      k \<le> n * 17 + sum_list (map (\<lambda>i. length (r i)) [0 ..< n]) + 3) \<and>
    (\<forall>s. reached (web01_step maxnconn) (webt_init base names r) s \<longrightarrow>
      t_nconn s \<le> maxnconn \<and> (mpos s = M_Exit \<longrightarrow> all_fetched base r s) \<and>
      ((\<exists>s'. web01_step maxnconn s s') \<or> mpos s \<in> {M_Exit, M_Failed}))"
proof (intro conjI allI impI)
  show "k \<le> n * 17 + sum_list (map (\<lambda>i. length (r i)) [0 ..< n]) + 3"
    if "steps (web01_step maxnconn) k (webt_init base names r) s" for k s
    using web01_steps_bound [OF _ that assms(3)] assms(1) by simp
  fix s assume "reached (web01_step maxnconn) (webt_init base names r) s"
  then have I: "web01_inv base maxnconn r n s" using web01_reached_inv assms(1,3) by simp
  then have com: "web_common F_DONE base maxnconn r s" by (simp add: web01_inv_def)
  show "t_nconn s \<le> maxnconn" by (rule web_common_counts(3) [OF com])
  show "all_fetched base r s" if "mpos s = M_Exit" using I that web_common_done [OF com] by (simp add: web01_inv_def)
  show "(\<exists>s'. web01_step maxnconn s s') \<or> mpos s \<in> {M_Exit, M_Failed}" using web01_progress [OF I assms(1,2)] by blast
qed

lemma web01_outcomes_witness:
  "\<exists>s'. web01_step 2 (webt_init {0, 1, 2} [''index.html''] (\<lambda>i. [4096, 17])) s'"
proof -
  let ?s = "webt_init {0, 1, 2} [''index.html''] (\<lambda>i. [4096, 17])"
  have "(\<exists>s'. web01_step 2 ?s s') \<or> mpos ?s \<in> {M_Exit, M_Failed}"
    using web01_outcomes [of 2 "{0, 1, 2}" 1 "[''index.html'']" "\<lambda>i. [4096, 17]"] reached.start [of "web01_step 2" ?s]
    by (simp add: MAXFILES_def)
  then show ?thesis by (simp add: webt_init_def Let_def)
qed

end
