(* ===== verification/Broadcast.thy ===== *)
theory Broadcast
  imports Prelude Runs
begin

text \<open>
  \<open>bcast/dgclibcast1.c\<close> to \<open>dgclibcast6.c\<close>: the broadcast client sends each line of its input and prints the replies
  until an alarm goes off.  The versions differ in how the alarm ends the loop; here they run with the signal
  delivered at any point of the program.
\<close>

section \<open>State\<close>

text \<open>
  Positions in \<open>dg_cli\<close>: the call that comes next.  \<open>B_Sleep\<close> is a process asleep in \<open>recvfrom\<close>; \<open>B_Pipe\<close> is the
  test of the pipe; \<open>B_Break\<close> is the second \<open>Sigprocmask\<close> of version 3 after an interrupted call; \<open>B_Undefined\<close> is
  a jump through a buffer that was never set.
\<close>

datatype bpos = B_Fgets | B_Block | B_Alarm | B_Unblock | B_Setjmp | B_Pselect | B_Select | B_Recvfrom | B_Sleep
  | B_Mask | B_Break | B_Print | B_Pipe | B_Done | B_Undefined

text \<open>
  The input still to read and the lines sent; the alarm clock, whether \<open>SIGALRM\<close> is pending and whether it is blocked;
  the bytes in the pipe, the two bits of \<open>rset\<close>, whether \<open>jmpbuf\<close> is set; the replies that have not arrived, wait at
  the socket, are in \<open>recvline\<close>, and have been printed.
\<close>

record bcast =
  bpc :: bpos
  todo :: "string list"
  sent_lines :: "string list"
  armed :: bool
  pending :: bool
  masked :: bool
  pipe :: nat
  rset_pipe :: bool
  jmp_set :: bool
  net :: "byte list list"
  queue :: "byte list list"
  recvline :: "byte list list"
  printed :: "byte list list"

definition bcast_init :: "string list \<Rightarrow> byte list list \<Rightarrow> bcast" where
  "bcast_init input replies =
     \<lparr>bpc = B_Fgets, todo = input, sent_lines = [], armed = False, pending = False, masked = False, pipe = 0,
      rset_pipe = False, jmp_set = False, net = replies, queue = [], recvline = [], printed = []\<rparr>"

section \<open>The versions\<close>

text \<open>\<open>Fgets\<close> and \<open>Sendto\<close>; \<open>p\<close> is what follows.\<close>

definition next_line :: "bpos \<Rightarrow> bcast \<Rightarrow> bcast" where
  "next_line p s =
     (case todo s of [] \<Rightarrow> s\<lparr>bpc := B_Done\<rparr>
      | l # ls \<Rightarrow> s\<lparr>bpc := p, todo := ls, sent_lines := sent_lines s @ [l]\<rparr>)"

text \<open>\<open>recvfrom\<close>: a reply that waits at the socket, or sleep.\<close>

definition recv_reply :: "bpos \<Rightarrow> bcast \<Rightarrow> bcast option" where
  "recv_reply p s =
     (case queue s of
        r # rs \<Rightarrow> Some (s\<lparr>bpc := p, queue := rs, recvline := [r]\<rparr>)
      | [] \<Rightarrow> if bpc s = B_Sleep then None else Some (s\<lparr>bpc := B_Sleep\<rparr>))"

definition print_reply :: "bpos \<Rightarrow> bcast \<Rightarrow> bcast" where
  "print_reply p s = s\<lparr>bpc := p, printed := printed s @ recvline s, recvline := []\<rparr>"

text \<open>Each version: one step of the program (\<open>None\<close> when it waits or has ended) and what the handler does.\<close>

definition bcast1 :: "bcast \<Rightarrow> bcast option" where
  "bcast1 s =
     (case bpc s of
        B_Fgets \<Rightarrow> Some (next_line B_Alarm s)
      | B_Alarm \<Rightarrow> Some (s\<lparr>bpc := B_Recvfrom, armed := True\<rparr>)
      | B_Recvfrom \<Rightarrow> recv_reply B_Print s
      | B_Sleep \<Rightarrow> recv_reply B_Print s
      | B_Print \<Rightarrow> Some (print_reply B_Recvfrom s)
      | _ \<Rightarrow> None)"

definition alarm1 :: "bcast \<Rightarrow> bcast" where
  "alarm1 s = (if bpc s = B_Sleep then s\<lparr>bpc := B_Fgets\<rparr> else s)"

definition bcast3 :: "bcast \<Rightarrow> bcast option" where
  "bcast3 s =
     (case bpc s of
        B_Fgets \<Rightarrow> Some (next_line B_Alarm s)
      | B_Alarm \<Rightarrow> Some (s\<lparr>bpc := B_Unblock, armed := True\<rparr>)
      | B_Unblock \<Rightarrow> Some (s\<lparr>bpc := B_Recvfrom, masked := False\<rparr>)
      | B_Recvfrom \<Rightarrow> recv_reply B_Mask s
      | B_Sleep \<Rightarrow> recv_reply B_Mask s
      | B_Mask \<Rightarrow> Some (s\<lparr>bpc := B_Print, masked := True\<rparr>)
      | B_Break \<Rightarrow> Some (s\<lparr>bpc := B_Fgets, masked := True\<rparr>)
      | B_Print \<Rightarrow> Some (print_reply B_Unblock s)
      | _ \<Rightarrow> None)"

definition alarm3 :: "bcast \<Rightarrow> bcast" where
  "alarm3 s = (if bpc s = B_Sleep then s\<lparr>bpc := B_Break\<rparr> else s)"

definition bcast4 :: "bcast \<Rightarrow> bcast option" where
  "bcast4 s =
     (case bpc s of
        B_Fgets \<Rightarrow> Some (next_line B_Block s)
      | B_Block \<Rightarrow> Some (s\<lparr>bpc := B_Alarm, masked := True\<rparr>)
      | B_Alarm \<Rightarrow> Some (s\<lparr>bpc := B_Pselect, armed := True\<rparr>)
      | B_Pselect \<Rightarrow> if queue s = [] then None else Some (s\<lparr>bpc := B_Recvfrom\<rparr>)
      | B_Recvfrom \<Rightarrow> recv_reply B_Print s
      | B_Sleep \<Rightarrow> recv_reply B_Print s
      | B_Print \<Rightarrow> Some (print_reply B_Pselect s)
      | _ \<Rightarrow> None)"

definition alarm4 :: "bcast \<Rightarrow> bcast" where
  "alarm4 s = (if bpc s = B_Pselect then s\<lparr>bpc := B_Fgets\<rparr> else s)"

definition bcast5 :: "bcast \<Rightarrow> bcast option" where
  "bcast5 s =
     (case bpc s of
        B_Fgets \<Rightarrow> Some (next_line B_Alarm s)
      | B_Alarm \<Rightarrow> Some (s\<lparr>bpc := B_Setjmp, armed := True\<rparr>)
      | B_Setjmp \<Rightarrow> Some (s\<lparr>bpc := B_Recvfrom, jmp_set := True\<rparr>)
      | B_Recvfrom \<Rightarrow> recv_reply B_Print s
      | B_Sleep \<Rightarrow> recv_reply B_Print s
      | B_Print \<Rightarrow> Some (print_reply B_Setjmp s)
      | _ \<Rightarrow> None)"

text \<open>\<open>siglongjmp\<close> leaves the loop from wherever it is; what is in \<open>recvline\<close> is not printed any more.\<close>

definition alarm5 :: "bcast \<Rightarrow> bcast" where
  "alarm5 s = (if jmp_set s then s\<lparr>bpc := B_Fgets, recvline := []\<rparr> else s\<lparr>bpc := B_Undefined\<rparr>)"

text \<open>
  In version 6 an interrupted \<open>select\<close> is called again, so that it is at the same position; when it returns it goes on
  with the socket or the pipe.
\<close>

definition bcast6 :: "bcast \<Rightarrow> bcast option" where
  "bcast6 s =
     (case bpc s of
        B_Fgets \<Rightarrow> Some (next_line B_Alarm s)
      | B_Alarm \<Rightarrow> Some (s\<lparr>bpc := B_Select, armed := True\<rparr>)
      | B_Select \<Rightarrow>
          if queue s = [] \<and> pipe s = 0 then None
          else Some (s\<lparr>bpc := (if queue s \<noteq> [] then B_Recvfrom else B_Pipe), rset_pipe := 0 < pipe s\<rparr>)
      | B_Recvfrom \<Rightarrow> recv_reply B_Print s
      | B_Sleep \<Rightarrow> recv_reply B_Print s
      | B_Print \<Rightarrow> Some (print_reply B_Pipe s)
      | B_Pipe \<Rightarrow> Some (if rset_pipe s then s\<lparr>bpc := B_Fgets, pipe := pipe s - 1\<rparr> else s\<lparr>bpc := B_Select\<rparr>)
      | _ \<Rightarrow> None)"

definition alarm6 :: "bcast \<Rightarrow> bcast" where
  "alarm6 s = s\<lparr>pipe := pipe s + 1\<rparr>"

section \<open>Runs\<close>

text \<open>
  The program, the clock, the delivery of the signal (while it is not blocked, or in \<open>pselect\<close> with its empty mask), and
  replies from the network, in any order.
\<close>

inductive bcast_step :: "(bcast \<Rightarrow> bcast option) \<Rightarrow> (bcast \<Rightarrow> bcast) \<Rightarrow> bcast \<Rightarrow> bcast \<Rightarrow> bool" for prog handler where
  run: "prog s = Some s' \<Longrightarrow> bcast_step prog handler s s'"
| expire: "armed s \<Longrightarrow> bcast_step prog handler s (s\<lparr>armed := False, pending := True\<rparr>)"
| deliver: "pending s \<Longrightarrow> \<not> masked s \<or> bpc s = B_Pselect \<Longrightarrow> bcast_step prog handler s (handler (s\<lparr>pending := False\<rparr>))"
| arrive: "net s = r # rs \<Longrightarrow> bcast_step prog handler s (s\<lparr>net := rs, queue := queue s @ [r]\<rparr>)"

section \<open>Versions that keep the alarm\<close>

text \<open>A bound of the steps left.\<close>

definition bpos_rank :: "bool \<Rightarrow> bpos \<Rightarrow> nat" where
  "bpos_rank rp p =
     (case p of B_Fgets \<Rightarrow> 1 | B_Block \<Rightarrow> 10 | B_Alarm \<Rightarrow> 9 | B_Setjmp \<Rightarrow> 5 | B_Pselect \<Rightarrow> 4 | B_Select \<Rightarrow> 4 | B_Recvfrom \<Rightarrow> 3
      | B_Sleep \<Rightarrow> 2 | B_Print \<Rightarrow> 7 | B_Pipe \<Rightarrow> if rp then 3 else 6 | _ \<Rightarrow> 0)"

definition bcast_left :: "bcast \<Rightarrow> nat" where
  "bcast_left s = 12 * length (todo s) + 7 * length (net s) + 6 * length (queue s) +
     (if armed s then 3 else 0) + (if pending s then 2 else 0) + pipe s + bpos_rank (rset_pipe s) (bpc s)"

text \<open>The replies in the order they arrive, and the lines in the order they are sent.\<close>

definition replies_of :: "bcast \<Rightarrow> byte list list" where
  "replies_of s = printed s @ recvline s @ queue s @ net s"

definition lines_of :: "bcast \<Rightarrow> string list" where
  "lines_of s = sent_lines s @ todo s"

text \<open>
  What such a version has to show: its own steps and its handler keep an invariant, shorten what is left, and keep the
  lines; and where it waits the alarm is still to come.
\<close>

locale alarm_loop =
  fixes prog :: "bcast \<Rightarrow> bcast option" and handler :: "bcast \<Rightarrow> bcast" and inv :: "bcast \<Rightarrow> bool"
  assumes inv_init: "inv (bcast_init input replies)"
    and prog_inv: "inv s \<Longrightarrow> prog s = Some s' \<Longrightarrow> inv s' \<and> bcast_left s' < bcast_left s \<and> lines_of s' = lines_of s"
    and alarm_inv: "inv s \<Longrightarrow> pending s \<Longrightarrow> \<not> masked s \<or> bpc s = B_Pselect \<Longrightarrow>
      inv (handler (s\<lparr>pending := False\<rparr>)) \<and> bcast_left (handler (s\<lparr>pending := False\<rparr>)) < bcast_left s \<and>
      lines_of (handler (s\<lparr>pending := False\<rparr>)) = lines_of s"
    and expire_inv: "inv s \<Longrightarrow> armed s \<Longrightarrow> inv (s\<lparr>armed := False, pending := True\<rparr>) \<and> \<not> pending s"
    and arrive_inv: "inv s \<Longrightarrow> inv (s\<lparr>net := rs, queue := queue s @ [r]\<rparr>)"
    and waits: "inv s \<Longrightarrow> prog s = None \<Longrightarrow>
      bpc s = B_Done \<and> todo s = [] \<or> bpc s = B_Undefined \<or> armed s \<or> pending s \<and> (\<not> masked s \<or> bpc s = B_Pselect)"
begin

lemma step_inv:
  assumes "bcast_step prog handler s s'" and "inv s"
  shows "inv s' \<and> bcast_left s' < bcast_left s \<and> lines_of s' = lines_of s"
  using assms(1)
proof cases
  case run
  then show ?thesis using prog_inv [OF assms(2)] by auto
next
  case expire
  then show ?thesis
    using expire_inv [OF assms(2)] by (auto simp: bcast_left_def lines_of_def)
next
  case deliver
  then show ?thesis using alarm_inv [OF assms(2)] by auto
next
  case (arrive r rs)
  then show ?thesis
    using arrive_inv [OF assms(2)] by (auto simp: bcast_left_def lines_of_def)
qed

lemma reached_inv_lines:
  assumes "reached (bcast_step prog handler) (bcast_init input replies) s"
  shows "inv s \<and> lines_of s = input"
  using assms
proof induction
  case start
  then show ?case using inv_init [of input replies] by (simp add: lines_of_def bcast_init_def)
next
  case (step s s')
  then show ?case using step_inv [of s s'] by simp
qed

lemma run_bound:
  assumes "steps (bcast_step prog handler) k (bcast_init input replies) s"
  shows "k \<le> 12 * length input + 7 * length replies + 1"
proof -
  have "k + bcast_left s \<le> bcast_left (bcast_init input replies)"
    using steps_measure [of "bcast_step prog handler" k "bcast_init input replies" s inv bcast_left, OF assms] inv_init
      step_inv by blast
  then show ?thesis by (simp add: bcast_left_def bcast_init_def bpos_rank_def)
qed

lemma stuck_done:
  assumes "reached (bcast_step prog handler) (bcast_init input replies) s" and "\<nexists>s'. bcast_step prog handler s s'"
  shows "bpc s = B_Undefined \<or> bpc s = B_Done \<and> sent_lines s = input \<and> net s = []"
proof -
  have I: "inv s" "lines_of s = input" using reached_inv_lines [OF assms(1)] by auto
  have "prog s = None" using assms(2) bcast_step.run by (cases "prog s") blast+
  moreover have "\<not> armed s" "\<not> (pending s \<and> (\<not> masked s \<or> bpc s = B_Pselect))" using assms(2) bcast_step.expire bcast_step.deliver by blast+
  moreover have "net s = []" using assms(2) bcast_step.arrive by (cases "net s") blast+
  ultimately show ?thesis using waits [OF I(1)] I(2) by (auto simp: lines_of_def)
qed

end

text \<open>A version that in addition drops no reply it has taken from the socket.\<close>

locale keeping_loop = alarm_loop +
  assumes prog_keeps: "inv s \<Longrightarrow> prog s = Some s' \<Longrightarrow> replies_of s' = replies_of s"
    and alarm_keeps: "inv s \<Longrightarrow> pending s \<Longrightarrow> \<not> masked s \<or> bpc s = B_Pselect \<Longrightarrow>
      replies_of (handler (s\<lparr>pending := False\<rparr>)) = replies_of s"
    and done_held: "inv s \<Longrightarrow> bpc s = B_Done \<Longrightarrow> recvline s = []"
begin

lemma reached_replies:
  assumes "reached (bcast_step prog handler) (bcast_init input replies) s"
  shows "replies_of s = replies"
  using assms
proof induction
  case start
  then show ?case by (simp add: replies_of_def bcast_init_def)
next
  case (step s s')
  have I: "inv s" using reached_inv_lines [OF step.hyps(1)] by simp
  from step.hyps(2) show ?case
  proof cases
    case run
    then show ?thesis using prog_keeps [OF I] step.IH by simp
  next
    case deliver
    then show ?thesis using alarm_keeps [OF I] step.IH by simp
  qed (use step.IH in \<open>auto simp: replies_of_def\<close>)
qed

lemma stuck_printed:
  assumes "reached (bcast_step prog handler) (bcast_init input replies) s" and "bpc s = B_Done" and "net s = []"
  shows "printed s @ queue s = replies"
  using reached_replies [OF assms(1)] reached_inv_lines [OF assms(1)] done_held assms(2,3) by (simp add: replies_of_def)

end

text \<open>The positions in the loop, where the alarm has been set, and those that each version uses.\<close>

fun in_loop :: "bpos \<Rightarrow> bool" where
  "in_loop B_Fgets = False" | "in_loop B_Block = False" | "in_loop B_Alarm = False" | "in_loop B_Break = False"
| "in_loop B_Done = False" | "in_loop B_Undefined = False" | "in_loop _ = True"

fun used4 :: "bpos \<Rightarrow> bool" where
  "used4 B_Fgets = True" | "used4 B_Block = True" | "used4 B_Alarm = True" | "used4 B_Pselect = True"
| "used4 B_Recvfrom = True" | "used4 B_Print = True" | "used4 B_Done = True" | "used4 _ = False"

fun used5 :: "bpos \<Rightarrow> bool" where
  "used5 B_Fgets = True" | "used5 B_Alarm = True" | "used5 B_Setjmp = True" | "used5 B_Recvfrom = True"
| "used5 B_Sleep = True" | "used5 B_Print = True" | "used5 B_Done = True" | "used5 B_Undefined = True" | "used5 _ = False"

fun used6 :: "bpos \<Rightarrow> bool" where
  "used6 B_Fgets = True" | "used6 B_Alarm = True" | "used6 B_Select = True" | "used6 B_Recvfrom = True"
| "used6 B_Print = True" | "used6 B_Pipe = True" | "used6 B_Done = True" | "used6 _ = False"

definition inv4 :: "bcast \<Rightarrow> bool" where
  "inv4 s \<longleftrightarrow> used4 (bpc s) \<and>
     (if in_loop (bpc s) then masked s \<and> armed s = (\<not> pending s) else \<not> armed s \<and> \<not> pending s) \<and>
     (bpc s = B_Alarm \<longrightarrow> masked s) \<and> (bpc s = B_Recvfrom \<longrightarrow> queue s \<noteq> []) \<and> (bpc s = B_Done \<longrightarrow> todo s = []) \<and>
     (recvline s \<noteq> [] \<longrightarrow> bpc s = B_Print)"

definition inv5 :: "bcast \<Rightarrow> bool" where
  "inv5 s \<longleftrightarrow> used5 (bpc s) \<and> \<not> masked s \<and>
     (if in_loop (bpc s) then armed s = (\<not> pending s) else \<not> armed s \<and> \<not> pending s) \<and>
     (bpc s = B_Done \<longrightarrow> todo s = []) \<and> (in_loop (bpc s) \<longrightarrow> bpc s = B_Setjmp \<or> jmp_set s) \<and>
     (\<not> jmp_set s \<longrightarrow> length (sent_lines s) = (if bpc s = B_Fgets \<or> bpc s = B_Done then 0 else 1)) \<and>
     (bpc s = B_Undefined \<longrightarrow> \<not> jmp_set s)"

definition inv6 :: "bcast \<Rightarrow> bool" where
  "inv6 s \<longleftrightarrow> used6 (bpc s) \<and> \<not> masked s \<and> \<not> (armed s \<and> pending s) \<and>
     pipe s = (if in_loop (bpc s) \<and> \<not> armed s \<and> \<not> pending s then 1 else 0) \<and>
     (armed s \<or> pending s \<longrightarrow> in_loop (bpc s)) \<and>
     (bpc s = B_Recvfrom \<longrightarrow> queue s \<noteq> []) \<and> (bpc s = B_Done \<longrightarrow> todo s = []) \<and>
     (in_loop (bpc s) \<longrightarrow> bpc s = B_Select \<or> (rset_pipe s \<longrightarrow> \<not> armed s \<and> \<not> pending s)) \<and>
     (recvline s \<noteq> [] \<longrightarrow> bpc s = B_Print)"

lemmas bcast_defs = next_line_def recv_reply_def print_reply_def bcast_left_def bpos_rank_def lines_of_def replies_of_def
  bcast_init_def

lemma bcast4_inv:
  assumes "inv4 s" and "bcast4 s = Some s'"
  shows "inv4 s' \<and> bcast_left s' < bcast_left s \<and> lines_of s' = lines_of s \<and> replies_of s' = replies_of s"
  using assms
  by (cases "bpc s"; simp add: inv4_def bcast4_def bcast_defs split: list.splits if_splits; clarsimp)

lemma bcast5_inv:
  assumes "inv5 s" and "bcast5 s = Some s'"
  shows "inv5 s' \<and> bcast_left s' < bcast_left s \<and> lines_of s' = lines_of s"
  using assms
  by (cases "bpc s"; simp add: inv5_def bcast5_def bcast_defs split: list.splits if_splits; clarsimp)

lemma bcast6_inv:
  assumes "inv6 s" and "bcast6 s = Some s'"
  shows "inv6 s' \<and> bcast_left s' < bcast_left s \<and> lines_of s' = lines_of s \<and> replies_of s' = replies_of s"
  using assms
  by (cases "bpc s"; simp add: inv6_def bcast6_def bcast_defs split: list.splits if_splits; (clarsimp, blast?))

lemma alarm4_inv:
  assumes "inv4 s" and "pending s" and "\<not> masked s \<or> bpc s = B_Pselect"
  shows "inv4 (alarm4 (s\<lparr>pending := False\<rparr>)) \<and> bcast_left (alarm4 (s\<lparr>pending := False\<rparr>)) < bcast_left s \<and>
    lines_of (alarm4 (s\<lparr>pending := False\<rparr>)) = lines_of s \<and>
    replies_of (alarm4 (s\<lparr>pending := False\<rparr>)) = replies_of s"
  using assms
  by (cases "bpc s"; simp add: inv4_def alarm4_def bcast_defs; (elim conjE)?; clarsimp)

lemma wait4_inv:
  assumes "inv4 s" and "bcast4 s = None"
  shows "bpc s = B_Done \<and> todo s = [] \<or> bpc s = B_Undefined \<or> armed s \<or> pending s \<and> (\<not> masked s \<or> bpc s = B_Pselect)"
  using assms
  by (cases "bpc s"; cases "queue s"; cases "armed s"; cases "pending s"; simp add: inv4_def bcast4_def bcast_defs)

lemma event4_inv:
  "inv4 s \<Longrightarrow> armed s \<Longrightarrow> inv4 (s\<lparr>armed := False, pending := True\<rparr>) \<and> \<not> pending s"
  "inv4 s \<Longrightarrow> inv4 (s\<lparr>net := rs, queue := queue s @ [r]\<rparr>)"
  by (cases "bpc s"; simp add: inv4_def; fail?; auto)+

lemma alarm5_inv:
  assumes "inv5 s" and "pending s" and "\<not> masked s \<or> bpc s = B_Pselect"
  shows "inv5 (alarm5 (s\<lparr>pending := False\<rparr>)) \<and> bcast_left (alarm5 (s\<lparr>pending := False\<rparr>)) < bcast_left s \<and>
    lines_of (alarm5 (s\<lparr>pending := False\<rparr>)) = lines_of s"
  using assms
  by (cases "bpc s"; simp add: inv5_def alarm5_def bcast_defs; (elim conjE)?; clarsimp)

lemma wait5_inv:
  assumes "inv5 s" and "bcast5 s = None"
  shows "bpc s = B_Done \<and> todo s = [] \<or> bpc s = B_Undefined \<or> armed s \<or> pending s \<and> (\<not> masked s \<or> bpc s = B_Pselect)"
  using assms
  by (cases "bpc s"; cases "queue s"; cases "armed s"; cases "pending s"; simp add: inv5_def bcast5_def bcast_defs)

lemma event5_inv:
  "inv5 s \<Longrightarrow> armed s \<Longrightarrow> inv5 (s\<lparr>armed := False, pending := True\<rparr>) \<and> \<not> pending s"
  "inv5 s \<Longrightarrow> inv5 (s\<lparr>net := rs, queue := queue s @ [r]\<rparr>)"
  by (cases "bpc s"; simp add: inv5_def; fail?; auto)+

lemma alarm6_inv:
  assumes "inv6 s" and "pending s" and "\<not> masked s \<or> bpc s = B_Pselect"
  shows "inv6 (alarm6 (s\<lparr>pending := False\<rparr>)) \<and> bcast_left (alarm6 (s\<lparr>pending := False\<rparr>)) < bcast_left s \<and>
    lines_of (alarm6 (s\<lparr>pending := False\<rparr>)) = lines_of s \<and>
    replies_of (alarm6 (s\<lparr>pending := False\<rparr>)) = replies_of s"
  using assms
  by (cases "bpc s"; simp add: inv6_def alarm6_def bcast_defs; (elim conjE)?; clarsimp)

lemma wait6_inv:
  assumes "inv6 s" and "bcast6 s = None"
  shows "bpc s = B_Done \<and> todo s = [] \<or> bpc s = B_Undefined \<or> armed s \<or> pending s \<and> (\<not> masked s \<or> bpc s = B_Pselect)"
  using assms
  by (cases "bpc s"; cases "queue s"; cases "armed s"; cases "pending s"; simp add: inv6_def bcast6_def bcast_defs)

lemma event6_inv:
  "inv6 s \<Longrightarrow> armed s \<Longrightarrow> inv6 (s\<lparr>armed := False, pending := True\<rparr>) \<and> \<not> pending s"
  "inv6 s \<Longrightarrow> inv6 (s\<lparr>net := rs, queue := queue s @ [r]\<rparr>)"
  by (cases "bpc s"; simp add: inv6_def; fail?; auto)+

lemmas bcast_laws = bcast4_inv bcast5_inv bcast6_inv alarm4_inv alarm5_inv alarm6_inv wait4_inv wait5_inv wait6_inv
  event4_inv event5_inv event6_inv

lemma bcast_init_inv:
  "inv4 (bcast_init input replies)" "inv5 (bcast_init input replies)" "inv6 (bcast_init input replies)"
  "inv4 s \<Longrightarrow> bpc s = B_Done \<Longrightarrow> recvline s = []" "inv6 s \<Longrightarrow> bpc s = B_Done \<Longrightarrow> recvline s = []"
  by (auto simp: inv4_def inv5_def inv6_def bcast_init_def)

interpretation v4: keeping_loop bcast4 alarm4 inv4
  by unfold_locales (blast intro: bcast_init_inv dest: bcast_laws)+

interpretation v5: alarm_loop bcast5 alarm5 inv5
  by unfold_locales (blast intro: bcast_init_inv dest: bcast_laws)+

interpretation v6: keeping_loop bcast6 alarm6 inv6
  by unfold_locales (blast intro: bcast_init_inv dest: bcast_laws)+

section \<open>Versions that can lose the alarm\<close>

text \<open>In the loop with the alarm gone: nothing but a reply will ever wake the process.\<close>

definition alarm_lost :: "bcast \<Rightarrow> bool" where
  "alarm_lost s \<longleftrightarrow> in_loop (bpc s) \<and> \<not> armed s \<and> \<not> pending s"

lemma alarm_lost_step:
  assumes "bcast_step prog handler s s'" and "alarm_lost s" and "prog = bcast1 \<or> prog = bcast3"
  shows "alarm_lost s' \<and> sent_lines s' = sent_lines s"
  using assms(1)
proof cases
  case run
  then show ?thesis using assms(2,3)
    by (cases "bpc s") (auto simp: alarm_lost_def bcast1_def bcast3_def bcast_defs split: list.splits if_splits)
qed (use assms(2) in \<open>auto simp: alarm_lost_def\<close>)

lemma alarm_lost_forever:
  assumes "reached (bcast_step prog handler) s s'" and "alarm_lost s" and "prog = bcast1 \<or> prog = bcast3"
  shows "alarm_lost s' \<and> sent_lines s' = sent_lines s"
  using assms(1)
proof induction
  case (step t u)
  then show ?case using alarm_lost_step [OF step.hyps(2) _ assms(3)] by simp
qed (use assms(2) in simp)

text \<open>The alarm goes off, and the handler runs, before the process is asleep in \<open>recvfrom\<close>.\<close>

lemma alarm_lost_reached:
  shows "\<exists>s. reached (bcast_step bcast1 alarm1) (bcast_init (l # ls) replies) s \<and> alarm_lost s \<and> sent_lines s = [l]"
    and "\<exists>s. reached (bcast_step bcast3 alarm3) (bcast_init (l # ls) replies) s \<and> alarm_lost s \<and> sent_lines s = [l]"
proof -
  let ?s = "bcast_init (l # ls) replies"
  let ?t = "\<lambda>p a q. ?s\<lparr>bpc := p, todo := ls, sent_lines := [l], armed := a, pending := q\<rparr>"
  have "reached (bcast_step bcast1 alarm1) ?s (?t B_Alarm False False)"
    by (rule reached_one, rule bcast_step.run) (simp add: bcast1_def bcast_defs)
  then have "reached (bcast_step bcast1 alarm1) ?s (?t B_Recvfrom True False)"
    by (rule reached.step, intro bcast_step.run) (simp add: bcast1_def bcast_defs)
  then have "reached (bcast_step bcast1 alarm1) ?s (?t B_Recvfrom False True)"
    by (rule reached.step) (use bcast_step.expire [of "?t B_Recvfrom True False" bcast1 alarm1] in simp)
  then have "reached (bcast_step bcast1 alarm1) ?s (?t B_Recvfrom False False)"
    by (rule reached.step)
      (use bcast_step.deliver [of "?t B_Recvfrom False True" bcast1 alarm1] in \<open>simp add: alarm1_def bcast_init_def\<close>)
  then show "\<exists>s. reached (bcast_step bcast1 alarm1) ?s s \<and> alarm_lost s \<and> sent_lines s = [l]"
    by (intro exI [of _ "?t B_Recvfrom False False"]) (simp add: alarm_lost_def)
  have "reached (bcast_step bcast3 alarm3) ?s (?t B_Alarm False False)"
    by (rule reached_one, rule bcast_step.run) (simp add: bcast3_def bcast_defs)
  then have "reached (bcast_step bcast3 alarm3) ?s (?t B_Unblock True False)"
    by (rule reached.step, intro bcast_step.run) (simp add: bcast3_def bcast_defs)
  then have "reached (bcast_step bcast3 alarm3) ?s (?t B_Recvfrom True False)"
    by (rule reached.step, intro bcast_step.run) (simp add: bcast3_def bcast_defs)
  then have "reached (bcast_step bcast3 alarm3) ?s (?t B_Recvfrom False True)"
    by (rule reached.step) (use bcast_step.expire [of "?t B_Recvfrom True False" bcast3 alarm3] in simp)
  then have "reached (bcast_step bcast3 alarm3) ?s (?t B_Recvfrom False False)"
    by (rule reached.step)
      (use bcast_step.deliver [of "?t B_Recvfrom False True" bcast3 alarm3] in \<open>simp add: alarm3_def bcast_init_def\<close>)
  then show "\<exists>s. reached (bcast_step bcast3 alarm3) ?s s \<and> alarm_lost s \<and> sent_lines s = [l]"
    by (intro exI [of _ "?t B_Recvfrom False False"]) (simp add: alarm_lost_def)
qed

text \<open>Version 5 takes the reply from the socket, and the handler jumps away before it is printed.\<close>

lemma jump_drops_reply:
  "\<exists>s. reached (bcast_step bcast5 alarm5) (bcast_init [l] [r]) s \<and> bpc s = B_Done \<and>
     printed s = [] \<and> queue s = [] \<and> net s = []"
proof -
  let ?t = "\<lambda>p a q j n m v. \<lparr>bpc = p, todo = [], sent_lines = [l], armed = a, pending = q, masked = False, pipe = 0,
    rset_pipe = False, jmp_set = j, net = n, queue = m, recvline = v, printed = []\<rparr>"
  let ?R = "reached (bcast_step bcast5 alarm5) (bcast_init [l] [r])"
  have "?R (?t B_Alarm False False False [r] [] [])"
    by (rule reached_one, rule bcast_step.run) (simp add: bcast5_def bcast_defs)
  then have "?R (?t B_Setjmp True False False [r] [] [])"
    by (rule reached.step, intro bcast_step.run) (simp add: bcast5_def bcast_defs)
  then have "?R (?t B_Recvfrom True False True [r] [] [])"
    by (rule reached.step, intro bcast_step.run) (simp add: bcast5_def bcast_defs)
  then have "?R (?t B_Recvfrom True False True [] [r] [])"
    by (rule reached.step) (use bcast_step.arrive [of "?t B_Recvfrom True False True [r] [] []" r "[]" bcast5 alarm5] in simp)
  then have "?R (?t B_Print True False True [] [] [r])"
    by (rule reached.step, intro bcast_step.run) (simp add: bcast5_def bcast_defs)
  then have "?R (?t B_Print False True True [] [] [r])"
    by (rule reached.step) (use bcast_step.expire [of "?t B_Print True False True [] [] [r]" bcast5 alarm5] in simp)
  then have "?R (?t B_Fgets False False True [] [] [])"
    by (rule reached.step)
      (use bcast_step.deliver [of "?t B_Print False True True [] [] [r]" bcast5 alarm5] in \<open>simp add: alarm5_def\<close>)
  then have "?R (?t B_Done False False True [] [] [])"
    by (rule reached.step, intro bcast_step.run) (simp add: bcast5_def bcast_defs)
  then show "\<exists>s. ?R s \<and> bpc s = B_Done \<and> printed s = [] \<and> queue s = [] \<and> net s = []"
    by (intro exI [of _ "?t B_Done False False True [] [] []"]) simp
qed

section \<open>All runs\<close>

text \<open>
  C20: The broadcast clients that wait in \<open>pselect\<close> (version 4) or tell themselves through a pipe (version 6), whenever the
  alarm goes off and whenever replies come in: every run is finite, with the bound given, and where it stops all lines have
  been sent, and the replies have been printed in the order they came, but for those still waiting at the socket.
\<close>

theorem broadcast_completes:
  assumes "(prog, handler) \<in> {(bcast4, alarm4), (bcast6, alarm6)}"
  shows "(\<forall>k s. steps (bcast_step prog handler) k (bcast_init input replies) s \<longrightarrow> k \<le> 12 * length input + 7 * length replies + 1) \<and>
    (\<forall>s. reached (bcast_step prog handler) (bcast_init input replies) s \<longrightarrow> (\<nexists>s'. bcast_step prog handler s s') \<longrightarrow>
      bpc s = B_Done \<and> sent_lines s = input \<and> printed s @ queue s = replies)"
proof -
  have "bpc s \<noteq> B_Undefined" if "inv4 s \<or> inv6 s" for s using that by (auto simp: inv4_def inv6_def)
  then show ?thesis
    using assms v4.run_bound v4.stuck_done v4.stuck_printed v4.reached_inv_lines
      v6.run_bound v6.stuck_done v6.stuck_printed v6.reached_inv_lines
    by (auto; blast)
qed

theorem broadcast_completes_witness:
  "\<forall>s. \<not> steps (bcast_step bcast6 alarm6) 28 (bcast_init [''who''] [[1], [2]]) s"
  using broadcast_completes [of bcast6 alarm6 "[''who'']" "[[1], [2]]"] by auto

text \<open>
  C32: The broadcast clients that only let the signal interrupt \<open>recvfrom\<close>, with and without blocking it in between
  (versions 1 and 3): for any input there is a schedule in which the alarm goes off between two calls, and after it
  the client never ends and never sends its next line, whatever replies arrive.  The client that jumps out of the
  handler (version 5) is finite and sends all lines, unless the alarm of the first line comes before its buffer is
  set; but it can drop a reply that it has received and not yet printed.
\<close>

theorem broadcast_alarm_lost:
  "(\<forall>(prog, handler) \<in> {(bcast1, alarm1), (bcast3, alarm3)}.
      \<exists>s. reached (bcast_step prog handler) (bcast_init (l # ls) replies) s \<and>
        (\<forall>s'. reached (bcast_step prog handler) s s' \<longrightarrow> bpc s' \<noteq> B_Done \<and> sent_lines s' = [l])) \<and>
   (\<forall>s. reached (bcast_step bcast5 alarm5) (bcast_init input replies) s \<longrightarrow> (\<nexists>s'. bcast_step bcast5 alarm5 s s') \<longrightarrow>
      bpc s = B_Done \<and> sent_lines s = input \<or> bpc s = B_Undefined \<and> length (sent_lines s) = 1) \<and>
   (\<exists>s. reached (bcast_step bcast5 alarm5) (bcast_init [l] [r]) s \<and> bpc s = B_Done \<and>
      printed s = [] \<and> queue s = [] \<and> net s = [])"
proof (intro conjI)
  have "bpc s' \<noteq> B_Done" if "alarm_lost s'" for s' using that by (auto simp: alarm_lost_def)
  then show "\<forall>(prog, handler) \<in> {(bcast1, alarm1), (bcast3, alarm3)}.
      \<exists>s. reached (bcast_step prog handler) (bcast_init (l # ls) replies) s \<and>
        (\<forall>s'. reached (bcast_step prog handler) s s' \<longrightarrow> bpc s' \<noteq> B_Done \<and> sent_lines s' = [l])"
    using alarm_lost_reached [of l ls replies] alarm_lost_forever [of bcast1 alarm1] alarm_lost_forever [of bcast3 alarm3]
    by simp metis
  show "\<forall>s. reached (bcast_step bcast5 alarm5) (bcast_init input replies) s \<longrightarrow> (\<nexists>s'. bcast_step bcast5 alarm5 s s') \<longrightarrow>
      bpc s = B_Done \<and> sent_lines s = input \<or> bpc s = B_Undefined \<and> length (sent_lines s) = 1"
  proof (intro allI impI)
    fix s assume "reached (bcast_step bcast5 alarm5) (bcast_init input replies) s" "\<nexists>s'. bcast_step bcast5 alarm5 s s'"
    with v5.stuck_done [OF this] v5.reached_inv_lines [OF this(1)]
    show "bpc s = B_Done \<and> sent_lines s = input \<or> bpc s = B_Undefined \<and> length (sent_lines s) = 1"
      by (auto simp: inv5_def)
  qed
qed (rule jump_drops_reply)

theorem broadcast_alarm_lost_witness:
  "\<exists>s. reached (bcast_step bcast1 alarm1) (bcast_init [''who'', ''what''] []) s \<and> sent_lines s = [''who''] \<and> bpc s \<noteq> B_Done"
  using broadcast_alarm_lost [of "''who''" "[''what'']" "[]" "[]" "[]"] reached.start [of "bcast_step bcast1 alarm1"] by auto

end
