(* ===== verification/Web_Child.thy ===== *)
theory Web_Child
  imports Web_Client Echo
begin

text \<open>
  The servers of \<open>server/\<close> all run \<open>web_child\<close> on a connection: it reads lines with a number and answers each with that
  many bytes.  \<open>server/client.c\<close> is the client that measures them.  The copies in \<open>my-src/Chapter-30\<close> are modelled beside them.
\<close>

section \<open>Numbers\<close>

text \<open>
  \<open>atol\<close> on a text that ends with a byte that is not a digit: white space, a sign, digits; a value that does not fit a
  \<open>long\<close> becomes the nearest that does.
\<close>

fun atol_digits :: "int \<Rightarrow> byte list \<Rightarrow> int" where
  "atol_digits v [] = v"
| "atol_digits v (b # bs) = (if 48 \<le> b \<and> b \<le> 57 then atol_digits (v * 10 + (uint b - 48)) bs else v)"

definition atol :: "byte list \<Rightarrow> int" where
  "atol bs =
     (let ds = dropWhile (\<lambda>b. b = 32 \<or> 9 \<le> b \<and> b \<le> 13) bs;
          v = (if ds \<noteq> [] \<and> hd ds = 45 then - atol_digits 0 (tl ds)
               else if ds \<noteq> [] \<and> hd ds = 43 then atol_digits 0 (tl ds) else atol_digits 0 ds)
      in max (- (2 ^ 63)) (min (2 ^ 63 - 1) v))"

text \<open>A \<open>long\<close> stored in an \<open>int\<close>.\<close>

definition int_of_long :: "int \<Rightarrow> int" where
  "int_of_long v = sint (word_of_int v :: 32 word)"

definition MAXN :: int where "MAXN = 16384"

section \<open>The server\<close>

text \<open>What is left in the line buffer and the stream; every line that is returned takes something away.\<close>

definition rl_size :: "rl_state \<times> rd_event list \<Rightarrow> nat" where
  "rl_size = (\<lambda>(s, k). nat (read_cnt s) + rd_size k)"

lemma read_retry_size: "read_retry n k = Ret (Inr bs, k') \<Longrightarrow> length bs + rd_size k' \<le> rd_size k"
  by (induction k rule: rd_size.induct) (auto simp: read_retry_simps split: if_splits)

lemma read_retry_shorter: "read_retry n k = Ret (x, k') \<Longrightarrow> rd_size k' \<le> rd_size k"
  by (induction k rule: rd_size.induct) (auto simp: read_retry_simps split: if_splits)

lemma my_read_size:
  assumes "my_read s = Ret (x, s')"
  shows "rl_size s' \<le> rl_size s \<and> (\<forall>c. x = GByte c \<longrightarrow> rl_size s' < rl_size s)"
proof -
  obtain st k where s: "s = (st, k)" by (cases s)
  show ?thesis
  proof (cases "read_cnt st \<le> 0")
    case False
    with assms show ?thesis by (auto simp: my_read_def rl_take_def rl_size_def s)
  next
    case True
    with assms obtain y k1 where rr: "read_retry MAXLINE k = Ret (y, k1)"
      by (auto simp: my_read_def s split: run.splits)
    consider e where "y = Inl e" | "y = Inr []" | b bs where "y = Inr (b # bs)"
      by (metis (no_types) neq_Nil_conv old.sum.exhaust)
    then show ?thesis
      using assms True rr read_retry_shorter [OF rr] read_retry_size [of MAXLINE k _ k1]
      by cases (auto simp: my_read_def rl_take_def rl_size_def s)
  qed
qed

lemma readline_loop_size:
  "readline_loop my_read n m mem s = Ret (r, mem', s') \<Longrightarrow>
     rl_size s' \<le> rl_size s \<and> (0 < m \<longrightarrow> r \<noteq> int n - 1 \<longrightarrow> r \<noteq> -1 \<longrightarrow> rl_size s' < rl_size s)"
proof (induction m arbitrary: n mem s)
  case (Suc m)
  then obtain x s1 where g: "my_read s = Ret (x, s1)" by (auto split: run.splits)
  show ?case
  proof (cases x)
    case (GByte c)
    then have lt: "rl_size s1 < rl_size s" using my_read_size [OF g] by blast
    show ?thesis
    proof (cases "c = NL")
      case False
      with Suc.prems g GByte have "readline_loop my_read (Suc n) m (mem @ [c]) s1 = Ret (r, mem', s')" by simp
      from Suc.IH [OF this] lt show ?thesis by linarith
    qed (use Suc.prems g GByte lt in simp)
  qed (use Suc.prems g my_read_size [OF g] in auto)
qed simp

lemma Readline_size: "Readline MAXLINE s = Ret (r, mem, s') \<Longrightarrow> r \<noteq> 0 \<Longrightarrow> rl_size s' < rl_size s"
  using readline_loop_size [of 1 "MAXLINE - 1" "[]" s]
  by (auto simp: Readline_def readline_def run_bind_Ret_conv MAXLINE_def split: if_splits)

text \<open>
  The loop of \<open>web_child\<close>, for a test \<open>refuse\<close> of the number asked for.  The answer is taken from the local array
  \<open>result\<close>, which is never set.
\<close>

function web_child_loop ::
  "(int \<Rightarrow> bool) \<Rightarrow> byte list \<Rightarrow> rl_state \<times> rd_event list \<Rightarrow> wr_event list \<Rightarrow> byte list \<Rightarrow>
   ((rl_state \<times> rd_event list) \<times> wr_event list \<times> byte list) run" where
  "web_child_loop refuse result s w out =
     (case Readline MAXLINE s of
        Blocked \<Rightarrow> Blocked
      | Fatal m \<Rightarrow> Fatal m
      | Ret (nread, line, s') \<Rightarrow>
          if nread = 0 then Ret (s', w, out)
          else let ntowrite = int_of_long (atol line)
            in if refuse ntowrite then Fatal ''client request''
               else (case Writen (take (nat ntowrite) result) w of
                       Blocked \<Rightarrow> Blocked
                     | Fatal m \<Rightarrow> Fatal m
                     | Ret (bs, w') \<Rightarrow> web_child_loop refuse result s' w' (out @ bs)))"
  by pat_completeness auto
termination
  by (relation "measure (\<lambda>(refuse, result, s, w, out). rl_size s)") (auto dest: Readline_size)

declare web_child_loop.simps [simp del]

definition web_child where
  "web_child result s w = web_child_loop (\<lambda>n. n \<le> 0 \<or> n > MAXN) result s w []"

text \<open>The copy in \<open>my-src\<close>.\<close>

definition my_web_child where
  "my_web_child result s w = web_child_loop (\<lambda>n. n \<le> 0 \<or> n \<ge> MAXN) result s w []"

section \<open>The client\<close>

definition request :: "int \<Rightarrow> byte list" where
  "request nbytes = text_bytes ((if nbytes < 0 then ''-'' else '''') @ fmt_u (nat \<bar>nbytes\<bar>)) @ [NL]"

text \<open>One turn of the inner loop after the request has been written: \<open>Readn\<close> gets the number as a \<open>size_t\<close>.\<close>

definition client_turn :: "int \<Rightarrow> rd_event list \<Rightarrow> byte list run" where
  "client_turn nbytes k =
     run_bind (Readn (unat (word_of_int nbytes :: 64 word)) k)
       (\<lambda>(n, reply, k'). if n \<noteq> nbytes then Fatal ''server returned fewer bytes'' else Ret reply)"

section \<open>Numbers and back\<close>

lemma atol_digits_text:
  "\<forall>d \<in> set ds. d < 10 \<Longrightarrow>
     atol_digits (int v) (text_bytes (dec_text ds) @ NL # r) = int (digits_val 10 v ds)"
proof (induction ds arbitrary: v)
  case Nil
  then show ?case by (simp add: text_bytes_def NL_def)
next
  case (Cons d ds)
  then have d: "d < 10" by simp
  have "atol_digits (int v) (text_bytes (dec_text (d # ds)) @ NL # r) =
      atol_digits (int (v * 10 + d)) (text_bytes (dec_text ds) @ NL # r)"
    using less_10_cases [OF d] by (auto simp: text_bytes_def dec_digits_def)
  also have "\<dots> = int (digits_val 10 (v * 10 + d) ds)" using Cons by (intro Cons.IH) simp
  finally show ?case by simp
qed

lemma fmt_u_digits: "\<exists>ds. fmt_u n = dec_text ds \<and> ds \<noteq> [] \<and> (\<forall>d \<in> set ds. d < 10) \<and> digits_val 10 0 ds = n"
  using digits_of_less [of 10 _ n] by (intro exI [of _ "digits_of 10 n"]) (simp add: fmt_u_def digits_of_val)

lemma digit_byte: "d < 10 \<Longrightarrow> 48 \<le> (of_char (dec_digits ! d) :: byte) \<and> (of_char (dec_digits ! d) :: byte) \<le> 57"
  by (drule less_10_cases) (auto simp: dec_digits_def)

lemma text_bytes_digits: "\<forall>d \<in> set ds. d < 10 \<Longrightarrow> b \<in> set (text_bytes (dec_text ds)) \<Longrightarrow> 48 \<le> b \<and> b \<le> 57"
  using digit_byte by (auto simp: text_bytes_def dec_text_def)

lemma request_shape:
  "\<exists>l. request n = l @ [NL] \<and> NL \<notin> set l \<and> length l \<le> Suc (length (fmt_u (nat \<bar>n\<bar>)))"
proof -
  obtain ds where ds: "fmt_u (nat \<bar>n\<bar>) = dec_text ds" "\<forall>d \<in> set ds. d < 10" using fmt_u_digits by blast
  have "NL \<notin> set (text_bytes (dec_text ds))" using text_bytes_digits [OF ds(2), of NL] by (auto simp: NL_def)
  then show ?thesis
    by (intro exI [of _ "text_bytes ((if n < 0 then ''-'' else '''') @ fmt_u (nat \<bar>n\<bar>))"])
      (auto simp: request_def ds(1) text_bytes_def NL_def)
qed

lemma atol_request:
  assumes "\<bar>n\<bar> < 2 ^ 31"
  shows "atol (request n @ [0]) = n"
proof -
  obtain d ds where ds: "fmt_u (nat \<bar>n\<bar>) = dec_text (d # ds)" "\<forall>e \<in> set (d # ds). e < 10" "digits_val 10 0 (d # ds) = nat \<bar>n\<bar>"
    using fmt_u_digits [of "nat \<bar>n\<bar>"] by (metis neq_Nil_conv)
  have v: "atol_digits 0 (text_bytes (dec_text (d # ds)) @ NL # [0]) = \<bar>n\<bar>"
    using atol_digits_text [OF ds(2), of 0 "[0]"] ds(3) by simp
  define b where "b = (of_char (dec_digits ! d) :: byte)"
  define bs where "bs = text_bytes (dec_text ds) @ NL # [0]"
  have b: "text_bytes (dec_text (d # ds)) @ NL # [0] = b # bs" by (simp add: text_bytes_def b_def bs_def)
  have d: "48 \<le> b" "b \<le> 57" using digit_byte [of d] ds(2) by (simp_all add: b_def)
  then have nb: "b \<noteq> 32" "\<not> (9 \<le> b \<and> b \<le> 13)" "b \<noteq> 45" "b \<noteq> 43" using order_trans [of 48 b 13] by auto
  then have dw: "dropWhile (\<lambda>b. b = 32 \<or> 9 \<le> b \<and> b \<le> 13) (b # bs) = b # bs" by auto
  have r: "request n @ [0] = (if n < 0 then [45] else []) @ b # bs"
    using b by (simp add: request_def ds(1) text_bytes_def del: text_simps)
  have w: "max (- (2 ^ 63)) (min (2 ^ 63 - 1) n) = n" using assms by simp
  show ?thesis
  proof (cases "n < 0")
    case True
    then show ?thesis unfolding atol_def r using v w b by (simp add: Let_def)
  next
    case False
    then show ?thesis unfolding atol_def r using v w nb b dw by (simp add: Let_def del: dropWhile.simps)
  qed
qed

lemma int_of_long_id: "\<bar>n\<bar> < 2 ^ 31 \<Longrightarrow> int_of_long n = n"
  by (simp add: int_of_long_def int_word_sint)

text \<open>The value does not have to fit: \<open>4294967297\<close> is taken for 1.\<close>

lemma web_child_truncates: "int_of_long (atol (request 4294967297 @ [0])) = 1"
  by (simp add: int_of_long_def atol_def request_def text_bytes_def fmt_u_def digits_of.simps dec_digits_def NL_def)

section \<open>A stream that ends\<close>

text \<open>The line buffer over a stream that the client closes; another contract of \<open>calm_source\<close>.\<close>

definition rl_closed :: "rl_state \<times> rd_event list \<Rightarrow> bool" where
  "rl_closed s = closed_rd (snd s)"

lemma read_retry_closed:
  "closed_rd k \<Longrightarrow> rd_bytes k \<noteq> [] \<Longrightarrow> 0 < n \<Longrightarrow>
     \<exists>b bs k'. read_retry n k = Ret (Inr (b # bs), k') \<and> closed_rd k'"
proof (induction k rule: rd_size.induct)
  case (2 bs k)
  then obtain b bs' where bs: "bs = b # bs'" by (cases bs) auto
  obtain n' where n: "n = Suc n'" using 2(4) by (cases n) auto
  show ?case using 2(2) by (auto simp: read_retry_simps bs n)
qed (auto simp: read_retry_simps)

lemma read_retry_closed_end: "closed_rd k \<Longrightarrow> rd_bytes k = [] \<Longrightarrow> \<exists>k'. read_retry n k = Ret (Inr [], k')"
  by (induction k rule: rd_size.induct) (auto simp: read_retry_simps split: if_splits)

interpretation ended: calm_source my_read rl_pending rl_inv rl_closed
proof (unfold_locales, goal_cases)
  case (1 s)
  obtain st k where s: "s = (st, k)" by (cases s)
  show ?case
  proof (cases "read_cnt st \<le> 0")
    case True
    with 1 have "rd_bytes k \<noteq> []" by (auto simp: s rl_pending_def rl_left_def)
    with read_retry_closed [of k MAXLINE] 1 True show ?thesis
      by (auto simp: s my_read_def rl_closed_def rl_take_def)
  qed (use 1 in \<open>auto simp: s my_read_def rl_closed_def rl_take_def\<close>)
qed

lemma line_prefix_line: "NL \<notin> set l \<Longrightarrow> length l < m \<Longrightarrow> line_prefix m (l @ NL # r) = l @ [NL]"
proof (induction l arbitrary: m)
  case Nil
  then show ?case by (cases m) auto
next
  case (Cons b l)
  then show ?case by (cases m) auto
qed

lemma Readline_request:
  assumes "rl_inv s" and "rl_closed s" and "rl_pending s = request n @ rest" and "\<bar>n\<bar> < 2 ^ 31"
  shows "\<exists>r s'. Readline MAXLINE s = Ret (r, request n @ [0], s') \<and> r \<noteq> 0 \<and> rl_pending s' = rest \<and>
    rl_inv s' \<and> rl_closed s'"
proof -
  obtain l where l: "request n = l @ [NL]" "NL \<notin> set l" "length l \<le> Suc (length (fmt_u (nat \<bar>n\<bar>)))"
    using request_shape by blast
  have "nat \<bar>n\<bar> < 10 ^ Suc 9" using assms(4) by simp
  from fmt_u_length [OF this] l(3) have "length l < MAXLINE - 1" by (simp add: MAXLINE_def)
  define m where "m = MAXLINE - 1"
  have p: "line_prefix m (rl_pending s) = l @ [NL]"
    using line_prefix_line [OF l(2), of m] \<open>length l < MAXLINE - 1\<close> by (simp add: assms(3) l(1) m_def)
  have "NL \<in> set (rl_pending s)" by (simp add: assms(3) l(1))
  with ended.readline_loop_progress [OF assms(1,2), of m 1 "[]"] obtain s' where
    s': "readline MAXLINE s = Ret (line_ret AtNewline 1 (l @ [NL]), l @ [NL] @ [0], s')"
      "rl_pending s = (l @ [NL]) @ rl_pending s'" "rl_inv s'" "rl_closed s'"
    unfolding readline_def m_def [symmetric] p by auto
  have "rl_pending s' = rest" using s'(2) by (simp add: assms(3) l(1))
  with s' show ?thesis by (auto simp: Readline_def l(1))
qed

lemma Readline_end:
  assumes "rl_closed s" and "rl_inv s" and "rl_pending s = []"
  shows "\<exists>mem s'. Readline MAXLINE s = Ret (0, mem, s')"
proof -
  obtain st k where s: "s = (st, k)" by (cases s)
  have c: "read_cnt st \<le> 0"
  proof (rule ccontr)
    assume "\<not> read_cnt st \<le> 0"
    with assms show False by (auto simp: s rl_inv_def rl_pending_def rl_left_def)
  qed
  have "closed_rd k" "rd_bytes k = []" using assms by (simp_all add: s rl_closed_def rl_pending_def)
  with read_retry_closed_end obtain k' where "read_retry MAXLINE k = Ret (Inr [], k')" by blast
  with c have g: "my_read s = Ret (GEof, st\<lparr>read_cnt := 0\<rparr>, k')" by (simp add: s my_read_def)
  obtain m where "MAXLINE - 1 = Suc m" by (simp add: MAXLINE_def)
  with g show ?thesis by (simp add: Readline_def readline_def)
qed

section \<open>Serving\<close>

lemma web_child_step:
  assumes "rl_inv s" and "rl_closed s" and "rl_pending s = request n @ rest" and "\<bar>n\<bar> < 2 ^ 31"
    and "\<not> refuse n" and "calm_wr w" and "length (take (nat n) result) \<le> rooms w"
  shows "\<exists>s' w'. web_child_loop refuse result s w out = web_child_loop refuse result s' w' (out @ take (nat n) result) \<and>
    rl_inv s' \<and> rl_closed s' \<and> rl_pending s' = rest \<and> calm_wr w' \<and> rooms w \<le> rooms w' + length (take (nat n) result)"
proof -
  obtain r s' where r: "Readline MAXLINE s = Ret (r, request n @ [0], s')" "r \<noteq> 0" "rl_pending s' = rest"
    "rl_inv s'" "rl_closed s'" using Readline_request [OF assms(1-4)] by blast
  obtain w' where w: "Writen (take (nat n) result) w = Ret (take (nat n) result, w')" "calm_wr w'"
    "rooms w \<le> rooms w' + length (take (nat n) result)"
    using writen_loop_rooms [OF assms(6,7), of "length (take (nat n) result)" "[]"]
    by (auto simp: Writen_def writen_def)
  have "web_child_loop refuse result s w out = web_child_loop refuse result s' w' (out @ take (nat n) result)"
    using r w assms(5) by (subst web_child_loop.simps) (simp add: atol_request [OF assms(4)] int_of_long_id [OF assms(4)])
  with r w show ?thesis by blast
qed

lemma web_child_refusal:
  assumes "rl_inv s" and "rl_closed s" and "rl_pending s = request n @ rest" and "\<bar>n\<bar> < 2 ^ 31" and "refuse n"
  shows "web_child_loop refuse result s w out = Fatal ''client request''"
  using Readline_request [OF assms(1-4)] assms(5)
  by (subst web_child_loop.simps) (auto simp: atol_request [OF assms(4)] int_of_long_id [OF assms(4)])

lemma web_child_end:
  assumes "rl_inv s" and "rl_closed s" and "rl_pending s = []"
  shows "\<exists>s'. web_child_loop refuse result s w out = Ret (s', w, out)"
  using Readline_end [OF assms(2,1,3)] by (subst web_child_loop.simps) auto

text \<open>When the server returns, nothing is left in the line buffer of its process.\<close>

definition rl_idle :: "rl_state \<Rightarrow> bool" where
  "rl_idle b \<longleftrightarrow> length (read_buf b) = MAXLINE \<and> read_cnt b \<le> 0"

lemma rl_idle_init: "rl_idle rl_init"
  by (simp add: rl_idle_def rl_init_def)

lemma rl_idle_inv: "rl_idle b \<Longrightarrow> rl_inv (b, k)" and rl_idle_pending: "rl_idle b \<Longrightarrow> rl_pending (b, k) = rd_bytes k"
  by (simp_all add: rl_idle_def rl_inv_def rl_pending_def rl_left_def)

lemma readline_loop_least: "readline_loop get n m mem s = Ret (r, mem', s') \<Longrightarrow> r = -1 \<or> int n - 1 \<le> r"
proof (induction m arbitrary: n mem s)
  case (Suc m)
  then show ?case by (fastforce split: run.splits getc.splits if_splits)
qed simp

lemma Readline_zero:
  assumes "Readline MAXLINE s = Ret (0, mem, s')" and "rl_inv s"
  shows "rl_idle (fst s')"
proof -
  obtain m where m: "MAXLINE - 1 = Suc m" by (simp add: MAXLINE_def)
  have "readline MAXLINE s = Ret (0, mem, s')"
    using assms(1) by (auto simp: Readline_def run_bind_Ret_conv split: if_splits)
  then have r: "readline_loop my_read 1 (Suc m) [] s = Ret (0, mem, s')" unfolding readline_def m .
  then obtain x s1 where g: "my_read s = Ret (x, s1)" by (auto split: run.splits)
  have inv: "rl_inv s1" using my_read_cases [OF assms(2) g] by blast
  show ?thesis
  proof (cases x)
    case (GByte c)
    with r g readline_loop_least [of my_read 2 m "[c]" s1 0 mem s'] show ?thesis
      by (auto simp: numeral_2_eq_2 split: if_splits)
  next
    case GEof
    with r g have "s1 = s'" by simp
    moreover have "read_cnt (fst s1) \<le> 0"
      using g GEof by (cases s) (auto simp: my_read_def rl_take_def split: run.splits sum.splits if_splits prod.splits)
    ultimately show ?thesis using inv by (cases s') (auto simp: rl_idle_def rl_inv_def)
  qed (use r g in auto)
qed

lemma Readline_inv: "Readline MAXLINE s = Ret (r, mem, s') \<Longrightarrow> rl_inv s \<Longrightarrow> rl_inv s'"
  using lib.readline_loop_Ret [of s 1 "MAXLINE - 1" "[]" r mem s']
  by (auto simp: Readline_def readline_def run_bind_Ret_conv split: if_splits)

lemma web_child_loop_idle:
  "web_child_loop refuse result s w out = Ret (s', w', out') \<Longrightarrow> rl_inv s \<Longrightarrow> rl_idle (fst s')"
proof (induction refuse result s w out rule: web_child_loop.induct)
  case (1 refuse result s w out)
  note unf = web_child_loop.simps [of refuse result s w out]
  from 1(2) obtain r line s1 where r: "Readline MAXLINE s = Ret (r, line, s1)" by (auto simp: unf split: run.splits)
  note inv = Readline_inv [OF r 1(3)]
  show ?case
  proof (cases "r = 0")
    case True
    with 1(2) r have "s1 = s'" by (simp add: unf)
    with Readline_zero [of s line s1] r True 1(3) show ?thesis by simp
  next
    case False
    with 1(2) r obtain bs w1 where w: "\<not> refuse (int_of_long (atol line))"
      "Writen (take (nat (int_of_long (atol line))) result) w = Ret (bs, w1)"
      "web_child_loop refuse result s1 w1 (out @ bs) = Ret (s', w', out')"
      by (auto simp: unf Let_def split: run.splits if_splits)
    from 1(1) [OF r refl refl False refl w(1,2) refl w(3) inv] show ?thesis .
  qed
qed

definition answers_to :: "byte list \<Rightarrow> int list \<Rightarrow> byte list" where
  "answers_to result ns = concat (map (\<lambda>n. take (nat n) result) ns)"

text \<open>Served requests leave the loop in front of the rest of the stream.\<close>

lemma web_child_prefix:
  assumes "rl_inv s" and "rl_closed s" and "rl_pending s = concat (map request ns) @ rest"
    and "\<forall>n \<in> set ns. \<bar>n\<bar> < 2 ^ 31 \<and> \<not> refuse n" and "calm_wr w" and "length (answers_to result ns) \<le> rooms w"
  shows "\<exists>s' w'. web_child_loop refuse result s w out = web_child_loop refuse result s' w' (out @ answers_to result ns) \<and>
    rl_inv s' \<and> rl_closed s' \<and> rl_pending s' = rest"
  using assms
proof (induction ns arbitrary: s w out)
  case Nil
  then show ?case by (intro exI [of _ s] exI [of _ w]) (simp add: answers_to_def)
next
  case (Cons n ns)
  then obtain s1 w1 where s1: "web_child_loop refuse result s w out = web_child_loop refuse result s1 w1 (out @ take (nat n) result)"
    "rl_inv s1" "rl_closed s1" "rl_pending s1 = concat (map request ns) @ rest" "calm_wr w1"
    "rooms w \<le> rooms w1 + length (take (nat n) result)"
    using web_child_step [of s n "concat (map request ns) @ rest" refuse w result out] by (auto simp: answers_to_def)
  have "length (answers_to result ns) \<le> rooms w1" using s1(6) Cons.prems(6) by (simp add: answers_to_def)
  with Cons.IH [OF s1(2,3,4) _ s1(5), of "out @ take (nat n) result"] Cons.prems(4) s1(1) show ?case
    by (auto simp: answers_to_def)
qed

text \<open>The copy in \<open>my-src\<close> refuses the largest request that its client may make.\<close>

lemma my_web_child_largest:
  assumes "rl_inv s" and "rl_closed s" and "rl_pending s = request MAXN @ rest"
  shows "my_web_child result s w = Fatal ''client request''"
  unfolding my_web_child_def using web_child_refusal [OF assms] by (simp add: MAXN_def)

lemma client_turn_reply:
  assumes "calm_rd k" and "rd_bytes k = bs" and "int (length bs) = n" and "n \<le> MAXN"
  shows "client_turn n k = Ret bs"
proof -
  have u: "unat (word_of_int n :: 64 word) = length bs"
    using assms(3,4) by (auto simp: MAXN_def unat_of_nat take_bit_nat_eq_self simp flip: assms(3))
  have "length bs \<le> length (rd_bytes k)" using assms(2) by simp
  from readn_loop_progress [OF assms(1) this, of "length bs" "[]"] assms(2,3) show ?thesis
    by (auto simp: client_turn_def u Readn_def readn_def)
qed

section \<open>Properties\<close>

text \<open>
  C21: The server of one connection answers every request, in order.  Whatever is left in the line buffer and
  however the kernel cuts the stream, when the client sends requests from 1 to 16384 and closes, \<open>web_child\<close>
  returns, having written for each of them that many bytes and nothing else; the first request outside that
  range ends the server, whatever follows it.  A client that reads one of these answers, in any segments, gets
  the number of bytes it asked for.
\<close>
theorem web_child_serves:
  assumes "rl_inv s" and "rl_closed s" and "length result = nat MAXN" and "\<forall>n \<in> set ns. 0 < n \<and> n \<le> MAXN"
    and "calm_wr w" and "length (answers_to result ns) \<le> rooms w"
  shows "(rl_pending s = concat (map request ns) \<longrightarrow>
            (\<exists>s' w'. web_child result s w = Ret (s', w', answers_to result ns))) \<and>
    (\<forall>m rest. rl_pending s = concat (map request ns) @ request m @ rest \<and> \<bar>m\<bar> < 2 ^ 31 \<and> (m \<le> 0 \<or> MAXN < m) \<longrightarrow>
            web_child result s w = Fatal ''client request'') \<and>
    (\<forall>n \<in> set ns. \<forall>k. calm_rd k \<and> rd_bytes k = answers_to result [n] \<longrightarrow> client_turn n k = Ret (answers_to result [n]))"
proof -
  let ?refuse = "\<lambda>n. n \<le> 0 \<or> n > MAXN"
  have ok: "\<forall>n \<in> set ns. \<bar>n\<bar> < 2 ^ 31 \<and> \<not> ?refuse n" using assms(4) by (auto simp: MAXN_def)
  have w: "web_child result s w = web_child_loop ?refuse result s w []" by (simp add: web_child_def)
  note front = web_child_prefix [OF assms(1,2) _ ok assms(5,6), of _ "[]"]
  have "\<exists>s' w'. web_child result s w = Ret (s', w', answers_to result ns)"
    if "rl_pending s = concat (map request ns)"
    using front [of "[]"] that web_child_end unfolding w by fastforce
  moreover have "web_child result s w = Fatal ''client request''"
    if "rl_pending s = concat (map request ns) @ request m @ rest" "\<bar>m\<bar> < 2 ^ 31" "m \<le> 0 \<or> MAXN < m" for m rest
    using front [OF that(1)] web_child_refusal [where refuse = ?refuse, OF _ _ _ that(2,3)]
    unfolding w by fastforce
  moreover have "client_turn n k = Ret (answers_to result [n])"
    if "n \<in> set ns" "calm_rd k" "rd_bytes k = answers_to result [n]" for n k
    using client_turn_reply [OF that(2,3), of n] assms(3,4) that(1) by (auto simp: answers_to_def)
  ultimately show ?thesis by blast
qed

theorem web_child_serves_witness:
  "\<exists>s' w'. web_child (replicate 16384 7) (rl_init, [Seg [50], RdErr EINTR, Seg [10, 49], Seg [10], Seg []])
     [Room 1, Room 1, Room 1] = Ret (s', w', [7, 7, 7])"
proof -
  let ?s = "(rl_init, [Seg [50], RdErr EINTR, Seg [10, 49], Seg [10], Seg []])"
  have p: "rl_pending ?s = concat (map request [2, 1])"
    by (simp add: rl_init_pending request_def text_bytes_def fmt_u_def digits_of.simps dec_digits_def NL_def)
  have a: "answers_to (replicate 16384 7) [2, 1] = [7, 7, 7]"
    by (simp add: answers_to_def numeral_2_eq_2)
  show ?thesis
    using web_child_serves [of ?s "replicate 16384 7" "[2, 1]" "[Room 1, Room 1, Room 1]"] rl_init_inv p
    by (simp add: a rl_closed_def MAXN_def)
qed

end
