(* ===== verification/Accept_Pool.thy ===== *)
theory Accept_Pool
  imports Web_Child Runs "HOL-Library.Multiset"
begin

text \<open>
  The preforked servers whose children accept for themselves: \<open>server/child02m.c\<close> calls \<open>accept\<close> in every child,
  \<open>server/child03m.c\<close> puts a lock around it (\<open>server/lock_fcntl.c\<close>), and \<open>my-src/Chapter-30/Paradigm-2/child.c\<close>
  waits in \<open>select\<close> first.  The first two serve a connection with \<open>server/web_child.c\<close>, the last with
  \<open>my-src/Chapter-30/web_child.c\<close>, which does not grant the largest request.  The children run in any
  interleaving; the parent forks them once and then only waits for a signal.
\<close>

section \<open>State\<close>

text \<open>A connection is what will arrive on it and how the kernel will take what is written.\<close>

type_synonym conn = "rd_event list \<times> wr_event list"

text \<open>Where a child is in \<open>child_main\<close>: at the top of the loop, in \<open>accept\<close>, with a connection and the lock, serving it, or exited from \<open>err_quit\<close>.\<close>

datatype cpos = Top | Accepting | HasConn conn | Serving conn | Gone conn

text \<open>Every process has its own line buffer; \<open>cmeter\<close> is \<open>cptr[i]\<close>, in shared memory.\<close>

record child =
  cpos :: cpos
  cbuf :: rl_state
  cmeter :: nat

text \<open>\<open>taken\<close> lists the connections in the order \<open>accept\<close> returned them, \<open>answered\<close> those that were served to the end, with what was written.\<close>

record apool =
  childs :: "child list"
  accept_lock :: "nat option"
  arriving :: "conn list"
  taken :: "conn list"
  answered :: "(nat \<times> conn \<times> byte list) list"

text \<open>All children forked, \<open>my_lock_init\<close> done, and the connections that will arrive.\<close>

definition apool_init :: "nat \<Rightarrow> conn list \<Rightarrow> apool" where
  "apool_init nchildren cs =
     \<lparr>childs = replicate nchildren \<lparr>cpos = Top, cbuf = rl_init, cmeter = 0\<rparr>, accept_lock = None,
      arriving = cs, taken = [], answered = []\<rparr>"

section \<open>Operations\<close>

text \<open>The function that serves a connection: \<open>web_child\<close>, or its copy in \<open>my-src\<close>.\<close>

type_synonym web_fun = "byte list \<Rightarrow> rl_state \<times> rd_event list \<Rightarrow> wr_event list \<Rightarrow>
  ((rl_state \<times> rd_event list) \<times> wr_event list \<times> byte list) run"

definition set_child :: "nat \<Rightarrow> (child \<Rightarrow> child) \<Rightarrow> apool \<Rightarrow> apool" where
  "set_child i f s = s\<lparr>childs := (childs s)[i := f (childs s ! i)]\<rparr>"

text \<open>\<open>Accept\<close> by child \<open>i\<close>, which goes on as \<open>f\<close> says; it waits while nothing has arrived.\<close>

definition accept_conn :: "nat \<Rightarrow> (conn \<Rightarrow> child \<Rightarrow> child) \<Rightarrow> apool \<Rightarrow> apool option" where
  "accept_conn i f s =
     (case arriving s of
        [] \<Rightarrow> None
      | c # cs \<Rightarrow> Some ((set_child i (f c) s)\<lparr>arriving := cs, taken := taken s @ [c]\<rparr>))"

text \<open>\<open>cptr[i]++\<close>\<close>

definition count_conn :: "conn \<Rightarrow> child \<Rightarrow> child" where
  "count_conn c ch = ch\<lparr>cpos := Serving c, cmeter := Suc (cmeter ch)\<rparr>"

text \<open>\<open>web_child(connfd); Close(connfd);\<close> and back to the top, or out of the process.\<close>

definition serve_conn :: "web_fun \<Rightarrow> byte list \<Rightarrow> nat \<Rightarrow> conn \<Rightarrow> apool \<Rightarrow> apool option" where
  "serve_conn web result i c s =
     (case web result (cbuf (childs s ! i), fst c) (snd c) of
        Blocked \<Rightarrow> None
      | Fatal m \<Rightarrow> Some (set_child i (\<lambda>ch. ch\<lparr>cpos := Gone c\<rparr>) s)
      | Ret (src, w, out) \<Rightarrow>
          Some ((set_child i (\<lambda>ch. ch\<lparr>cpos := Top, cbuf := fst src\<rparr>) s)\<lparr>answered := answered s @ [(i, c, out)]\<rparr>))"

definition my_lock_wait :: "nat \<Rightarrow> apool \<Rightarrow> apool option" where
  "my_lock_wait i s = (if accept_lock s = None then Some (s\<lparr>accept_lock := Some i\<rparr>) else None)"

text \<open>A record lock belongs to a process: unlocking without it changes nothing.\<close>

definition my_lock_release :: "nat \<Rightarrow> apool \<Rightarrow> apool" where
  "my_lock_release i s = (if accept_lock s = Some i then s\<lparr>accept_lock := None\<rparr> else s)"

section \<open>The three loops\<close>

definition child02 :: "byte list \<Rightarrow> nat \<Rightarrow> apool \<Rightarrow> apool option" where
  "child02 result i s =
     (if i < length (childs s) then
        (case cpos (childs s ! i) of
           Top \<Rightarrow> accept_conn i count_conn s
         | Serving c \<Rightarrow> serve_conn web_child result i c s
         | _ \<Rightarrow> None)
      else None)"

definition child03 :: "byte list \<Rightarrow> nat \<Rightarrow> apool \<Rightarrow> apool option" where
  "child03 result i s =
     (if i < length (childs s) then
        (case cpos (childs s ! i) of
           Top \<Rightarrow> map_option (set_child i (\<lambda>ch. ch\<lparr>cpos := Accepting\<rparr>)) (my_lock_wait i s)
         | Accepting \<Rightarrow> accept_conn i (\<lambda>c ch. ch\<lparr>cpos := HasConn c\<rparr>) s
         | HasConn c \<Rightarrow> Some (set_child i (count_conn c) (my_lock_release i s))
         | Serving c \<Rightarrow> serve_conn web_child result i c s
         | Gone c \<Rightarrow> None)
      else None)"

text \<open>\<open>Select\<close> returns when the listening socket is readable; by the time of \<open>Accept\<close> another child may have taken the connection.\<close>

definition child_select :: "byte list \<Rightarrow> nat \<Rightarrow> apool \<Rightarrow> apool option" where
  "child_select result i s =
     (if i < length (childs s) then
        (case cpos (childs s ! i) of
           Top \<Rightarrow> if arriving s = [] then None else Some (set_child i (\<lambda>ch. ch\<lparr>cpos := Accepting\<rparr>) s)
         | Accepting \<Rightarrow> accept_conn i count_conn s
         | Serving c \<Rightarrow> serve_conn my_web_child result i c s
         | _ \<Rightarrow> None)
      else None)"

text \<open>Which program runs, and one step of one of its children.\<close>

datatype paradigm = Plain | Locked | Selecting

fun child_main :: "paradigm \<Rightarrow> byte list \<Rightarrow> nat \<Rightarrow> apool \<Rightarrow> apool option" where
  "child_main Plain = child02"
| "child_main Locked = child03"
| "child_main Selecting = child_select"

text \<open>The function that its children serve with, and the largest request that it grants.\<close>

fun web_of :: "paradigm \<Rightarrow> web_fun" where
  "web_of Plain = web_child"
| "web_of Locked = web_child"
| "web_of Selecting = my_web_child"

fun largest :: "paradigm \<Rightarrow> int" where
  "largest Plain = MAXN"
| "largest Locked = MAXN"
| "largest Selecting = MAXN - 1"

definition apool_step :: "(nat \<Rightarrow> apool \<Rightarrow> apool option) \<Rightarrow> apool \<Rightarrow> apool \<Rightarrow> bool" where
  "apool_step main s s' \<longleftrightarrow> (\<exists>i. main i s = Some s')"

definition stuck :: "(nat \<Rightarrow> apool \<Rightarrow> apool option) \<Rightarrow> apool \<Rightarrow> bool" where
  "stuck main s \<longleftrightarrow> (\<forall>i < length (childs s). main i s = None)"

section \<open>Clients\<close>

text \<open>
  What a client sends: requests that can be served, of \<open>lim\<close> bytes at most, then nothing more, or one that cannot and anything after
  it; and the connection that carries it.
\<close>

type_synonym client = "int list \<times> (int \<times> byte list) option \<times> conn"

definition sends :: "int \<Rightarrow> byte list \<Rightarrow> client \<Rightarrow> bool" where
  "sends lim result = (\<lambda>(ns, bad, k, w).
     closed_rd k \<and> calm_wr w \<and> length (answers_to result ns) \<le> rooms w \<and> list_all (\<lambda>n. 0 < n \<and> n \<le> lim) ns \<and>
     (case bad of
        None \<Rightarrow> rd_bytes k = concat (map request ns)
      | Some (m, rest) \<Rightarrow> rd_bytes k = concat (map request ns) @ request m @ rest \<and> \<bar>m\<bar> < 2 ^ 31 \<and> (m \<le> 0 \<or> lim < m)))"

definition on_conn :: "client \<Rightarrow> conn" where "on_conn = (\<lambda>(ns, bad, c). c)"
definition polite :: "client \<Rightarrow> bool" where "polite = (\<lambda>(ns, bad, c). bad = None)"

text \<open>Whether the serving function gives a connection up.\<close>

definition refused :: "web_fun \<Rightarrow> byte list \<Rightarrow> conn \<Rightarrow> bool" where
  "refused web result c = (case web result (rl_init, fst c) (snd c) of Fatal m \<Rightarrow> True | _ \<Rightarrow> False)"

section \<open>Serving one client\<close>

text \<open>Both functions are the same loop with different limits.\<close>

definition web_upto :: "int \<Rightarrow> web_fun" where
  "web_upto lim result s w = web_child_loop (\<lambda>n. n \<le> 0 \<or> n > lim) result s w []"

lemma web_of_upto: "web_of p = web_upto (largest p)" and largest_le: "largest p \<le> MAXN"
proof -
  have "n \<ge> MAXN \<longleftrightarrow> n > MAXN - 1" for n :: int by auto
  then show "web_of p = web_upto (largest p)"
    by (cases p) (simp_all add: fun_eq_iff web_upto_def web_child_def my_web_child_def)
qed (cases p; simp)

lemma web_upto_eq: "web_child = web_upto MAXN" "my_web_child = web_upto (MAXN - 1)"
  using web_of_upto [of Plain] web_of_upto [of Selecting] by simp_all

lemma serve_polite:
  assumes "sends lim result (ns, None, c)" and "rl_idle b" and "lim \<le> MAXN"
  shows "\<exists>src w. web_upto lim result (b, fst c) (snd c) = Ret (src, w, answers_to result ns) \<and> rl_idle (fst src)"
proof -
  obtain k w where c: "c = (k, w)" by (cases c)
  have ok: "\<forall>n \<in> set ns. \<bar>n\<bar> < 2 ^ 31 \<and> \<not> (n \<le> 0 \<or> n > lim)"
    using assms(1,3) by (auto simp: sends_def list_all_iff MAXN_def)
  have p: "rl_pending (b, k) = concat (map request ns) @ []" "rl_closed (b, k)" "calm_wr w"
    "length (answers_to result ns) \<le> rooms w"
    using assms(1,2) by (simp_all add: sends_def c rl_idle_pending rl_closed_def)
  from web_child_prefix [OF rl_idle_inv [OF assms(2)] p(2,1) ok p(3,4), of "[]"] web_child_end
  obtain s' w' where r: "web_upto lim result (b, k) w = Ret (s', w', answers_to result ns)"
    unfolding web_upto_def by fastforce
  with web_child_loop_idle [OF r [unfolded web_upto_def] rl_idle_inv [OF assms(2)]] show ?thesis by (simp add: c)
qed

lemma serve_rude:
  assumes "sends lim result (ns, Some (m, rest), c)" and "rl_idle b" and "lim \<le> MAXN"
  shows "web_upto lim result (b, fst c) (snd c) = Fatal ''client request''"
proof -
  obtain k w where c: "c = (k, w)" by (cases c)
  have ok: "\<forall>n \<in> set ns. \<bar>n\<bar> < 2 ^ 31 \<and> \<not> (n \<le> 0 \<or> n > lim)"
    using assms(1,3) by (auto simp: sends_def list_all_iff MAXN_def)
  have p: "rl_pending (b, k) = concat (map request ns) @ request m @ rest" "rl_closed (b, k)" "calm_wr w"
    "length (answers_to result ns) \<le> rooms w" "\<bar>m\<bar> < 2 ^ 31" "m \<le> 0 \<or> lim < m"
    using assms by (simp_all add: sends_def c rl_idle_pending rl_closed_def)
  from web_child_prefix [OF rl_idle_inv [OF assms(2)] p(2,1) ok p(3,4), of "[]"]
    web_child_refusal [where refuse = "\<lambda>n. n \<le> 0 \<or> n > lim", OF _ _ _ p(5,6)]
  show ?thesis unfolding web_upto_def c by fastforce
qed

lemma sends_refused:
  assumes "sends lim result cl" and "lim \<le> MAXN"
  shows "refused (web_upto lim) result (on_conn cl) \<longleftrightarrow> \<not> polite cl"
proof -
  obtain ns bad c where cl: "cl = (ns, bad, c)" by (metis prod_cases3)
  show ?thesis
  proof (cases bad)
    case None
    with serve_polite [OF _ rl_idle_init assms(2), of result ns c] assms(1) show ?thesis
      by (auto simp: cl on_conn_def polite_def refused_def)
  next
    case (Some a)
    then obtain m rest where "bad = Some (m, rest)" by (cases a) auto
    with serve_rude [OF _ rl_idle_init assms(2), of result ns m rest c] assms(1) show ?thesis
      by (simp add: cl on_conn_def polite_def refused_def)
  qed
qed

section \<open>The pool without a lock\<close>

text \<open>The loop of \<open>child02m.c\<close> for either function.\<close>

definition direct_child :: "web_fun \<Rightarrow> byte list \<Rightarrow> nat \<Rightarrow> apool \<Rightarrow> apool option" where
  "direct_child web result i s =
     (if i < length (childs s) then
        (case cpos (childs s ! i) of
           Top \<Rightarrow> accept_conn i count_conn s
         | Serving c \<Rightarrow> serve_conn web result i c s
         | _ \<Rightarrow> None)
      else None)"

lemma child02_direct: "child02 = direct_child (web_upto MAXN)"
  by (simp add: fun_eq_iff child02_def direct_child_def flip: web_upto_eq)

fun held_by :: "cpos \<Rightarrow> conn multiset" where
  "held_by (HasConn c) = {#c#}"
| "held_by (Serving c) = {#c#}"
| "held_by (Gone c) = {#c#}"
| "held_by _ = {#}"

definition held :: "apool \<Rightarrow> conn multiset" where
  "held s = sum_list (map (\<lambda>ch. held_by (cpos ch)) (childs s))"

lemma sum_list_update_map:
  "i < length xs \<Longrightarrow> sum_list (map f (xs[i := y])) + f (xs ! i) = sum_list (map f xs) + (f y :: 'a :: comm_monoid_add)"
proof (induction xs arbitrary: i)
  case (Cons x xs)
  then show ?case by (cases i) (auto simp: ac_simps)
qed simp

text \<open>Every connection is in one place, and what was answered was answered right.\<close>

definition pool_ok :: "int \<Rightarrow> byte list \<Rightarrow> client list \<Rightarrow> nat \<Rightarrow> apool \<Rightarrow> bool" where
  "pool_ok lim result clients n s \<longleftrightarrow>
     taken s @ arriving s = map on_conn clients \<and> length (childs s) = n \<and>
     mset (taken s) = image_mset (\<lambda>(i, c, out). c) (mset (answered s)) + held s \<and>
     sum_list (map cmeter (childs s)) = length (taken s) \<and>
     (\<forall>ch \<in> set (childs s). rl_idle (cbuf ch)) \<and>
     (\<forall>ch \<in> set (childs s). \<forall>c. cpos ch = Gone c \<longrightarrow> refused (web_upto lim) result c) \<and>
     (\<forall>(i, c, out) \<in> set (answered s). \<exists>ns. (ns, None, c) \<in> set clients \<and> out = answers_to result ns)"

lemma sum_list_empty: "sum_list (replicate n {#}) = {#}"
  by (induction n) simp_all

lemma pool_init_ok: "pool_ok lim result clients n (apool_init n (map on_conn clients))"
  by (simp add: pool_ok_def apool_init_def held_def rl_idle_init sum_list_replicate sum_list_empty)

definition pool_work :: "apool \<Rightarrow> nat" where
  "pool_work s = 2 * length (arriving s) + length (filter (\<lambda>ch. \<exists>c. cpos ch = Serving c) (childs s))"

lemma filter_update_length:
  "i < length xs \<Longrightarrow> length (filter P (xs[i := y])) + (if P (xs ! i) then 1 else 0) = length (filter P xs) + (if P y then 1 else 0)"
proof (induction xs arbitrary: i)
  case (Cons x xs)
  then show ?case by (cases i) auto
qed simp

lemma set_child_simps [simp]:
  "childs (set_child i f s) = (childs s)[i := f (childs s ! i)]" "accept_lock (set_child i f s) = accept_lock s"
  "arriving (set_child i f s) = arriving s" "taken (set_child i f s) = taken s" "answered (set_child i f s) = answered s"
  by (simp_all add: set_child_def)

lemma direct_accept:
  assumes "pool_ok lim result clients n s" and "i < length (childs s)" and "cpos (childs s ! i) = Top"
    and "accept_conn i count_conn s = Some s'"
  shows "pool_ok lim result clients n s' \<and> pool_work s' < pool_work s"
proof -
  obtain c cs where c: "arriving s = c # cs" using assms(4) by (auto simp: accept_conn_def split: list.splits)
  let ?ch = "count_conn c (childs s ! i)"
  have s': "s' = (set_child i (count_conn c) s)\<lparr>arriving := cs, taken := taken s @ [c]\<rparr>"
    using assms(4) by (simp add: accept_conn_def c)
  have h: "held s' = held s + {#c#}"
    using sum_list_update_map [OF assms(2), of "\<lambda>ch. held_by (cpos ch)" ?ch] assms(3)
    by (simp add: held_def s' count_conn_def)
  have m: "sum_list (map cmeter (childs s')) = Suc (sum_list (map cmeter (childs s)))"
    using sum_list_update_map [OF assms(2), of cmeter ?ch] by (simp add: s' count_conn_def)
  have w: "pool_work s' < pool_work s"
    using filter_update_length [OF assms(2), of "\<lambda>ch. \<exists>c. cpos ch = Serving c" ?ch] assms(3)
    by (simp add: pool_work_def s' c count_conn_def)
  have ch: "\<forall>x \<in> set (childs s'). x \<in> set (childs s) \<or> x = ?ch" using set_update_subset_insert [of "childs s" i ?ch] by (auto simp: s')
  moreover have "rl_idle (cbuf ?ch)" "\<forall>c'. cpos ?ch \<noteq> Gone c'"
    using assms(1,2) by (simp_all add: count_conn_def pool_ok_def)
  ultimately have "\<forall>x \<in> set (childs s'). rl_idle (cbuf x)"
    "\<forall>x \<in> set (childs s'). \<forall>c. cpos x = Gone c \<longrightarrow> refused (web_upto lim) result c"
    using assms(1) by (auto simp: pool_ok_def)
  with assms(1) h m w c show ?thesis by (simp add: pool_ok_def s')
qed

lemma taken_client:
  assumes "pool_ok lim result clients n s" and "c \<in># held s"
  shows "\<exists>cl \<in> set clients. on_conn cl = c"
proof -
  have "c \<in># mset (taken s)" using assms by (simp add: pool_ok_def)
  then have c: "c \<in> set (taken s)" by simp
  have e: "taken s @ arriving s = map on_conn clients" using assms(1) by (simp add: pool_ok_def)
  have "set (taken s @ arriving s) = on_conn ` set clients" unfolding e by simp
  with c have "c \<in> on_conn ` set clients" by (metis UnCI set_append)
  then show ?thesis by blast
qed

lemma sum_list_member: "x \<in> set xs \<Longrightarrow> c \<in># f x \<Longrightarrow> c \<in># sum_list (map f xs)"
  by (induction xs) auto

lemma held_serving:
  assumes "i < length (childs s)" and "cpos (childs s ! i) = Serving c"
  shows "c \<in># held s"
  using assms sum_list_member [of "childs s ! i" "childs s" c "\<lambda>ch. held_by (cpos ch)"] by (simp add: held_def)

lemma direct_serve:
  assumes "pool_ok lim result clients n s" and "i < length (childs s)" and "cpos (childs s ! i) = Serving c"
    and "\<forall>cl \<in> set clients. sends lim result cl" and "lim \<le> MAXN"
  shows "\<exists>s'. serve_conn (web_upto lim) result i c s = Some s' \<and> pool_ok lim result clients n s' \<and> pool_work s' < pool_work s"
proof -
  have b: "rl_idle (cbuf (childs s ! i))" using assms(1,2) by (simp add: pool_ok_def)
  obtain ns bad where cl: "(ns, bad, c) \<in> set clients"
    using taken_client [OF assms(1) held_serving [OF assms(2,3)]] by (auto simp: on_conn_def)
  have u: "held s' = held s - {#c#} + held_by p \<and> sum_list (map cmeter (childs s')) = sum_list (map cmeter (childs s)) \<and>
      pool_work s' < pool_work s" "\<forall>x \<in> set (childs s'). x \<in> set (childs s) \<or> x = ch"
    if s': "childs s' = (childs s)[i := ch]" "arriving s' = arriving s" and ch: "cmeter ch = cmeter (childs s ! i)"
      "cpos ch = p" "\<forall>c. p \<noteq> Serving c" for s' ch p
  proof -
    have "held s' + {#c#} = held s + held_by p"
      using sum_list_update_map [OF assms(2), of "\<lambda>ch. held_by (cpos ch)" ch] assms(3) ch by (simp add: held_def s')
    moreover have "c \<in># held s" by (rule held_serving [OF assms(2,3)])
    ultimately have "held s' = held s - {#c#} + held_by p"
      by (metis add_diff_cancel_right' add_mset_add_single insert_DiffM mset_subset_eq_single subset_mset.add_diff_assoc2)
    then show "held s' = held s - {#c#} + held_by p \<and> sum_list (map cmeter (childs s')) = sum_list (map cmeter (childs s)) \<and>
      pool_work s' < pool_work s"
      using sum_list_update_map [OF assms(2), of cmeter ch] ch s' assms(3)
        filter_update_length [OF assms(2), of "\<lambda>ch. \<exists>c. cpos ch = Serving c" ch] by (simp add: pool_work_def)
    show "\<forall>x \<in> set (childs s'). x \<in> set (childs s) \<or> x = ch"
      using set_update_subset_insert [of "childs s" i ch] by (auto simp: s')
  qed
  note hs = held_serving [OF assms(2,3)]
  show ?thesis
  proof (cases bad)
    case None
    obtain src w where r: "web_upto lim result (cbuf (childs s ! i), fst c) (snd c) = Ret (src, w, answers_to result ns)"
      "rl_idle (fst src)" using serve_polite [OF _ b assms(5), of result ns c] assms(4) cl None by blast
    let ?ch = "(childs s ! i)\<lparr>cpos := Top, cbuf := fst src\<rparr>"
    obtain s' where s': "serve_conn (web_upto lim) result i c s = Some s'" "childs s' = (childs s)[i := ?ch]" "arriving s' = arriving s"
      "taken s' = taken s" "answered s' = answered s @ [(i, c, answers_to result ns)]"
      using r by (simp add: serve_conn_def)
    from u [OF s'(2,3), of Top] have v: "held s' = held s - {#c#}"
      "sum_list (map cmeter (childs s')) = sum_list (map cmeter (childs s))" "pool_work s' < pool_work s"
      "\<forall>x \<in> set (childs s'). x \<in> set (childs s) \<or> x = ?ch" by simp_all
    have "\<forall>x \<in> set (childs s'). rl_idle (cbuf x)"
      "\<forall>x \<in> set (childs s'). \<forall>c. cpos x = Gone c \<longrightarrow> refused (web_upto lim) result c"
      using v(4) assms(1) r(2) by (auto simp: pool_ok_def)
    moreover have "length (childs s') = length (childs s)" by (simp add: s')
    moreover have "\<exists>ns'. (ns', None, c) \<in> set clients \<and> answers_to result ns = answers_to result ns'" using cl None by blast
    moreover have "mset (taken s') = image_mset (\<lambda>(i, c, out). c) (mset (answered s')) + held s'"
      using assms(1) hs by (simp add: pool_ok_def s' v(1))
    ultimately have "pool_ok lim result clients n s'"
      using assms(1) v(2) by (simp add: pool_ok_def s'(3-5))
    with s'(1) v(3) show ?thesis by blast
  next
    case (Some a)
    then obtain m rest where a: "bad = Some (m, rest)" by (cases a) auto
    have r: "web_upto lim result (cbuf (childs s ! i), fst c) (snd c) = Fatal ''client request''"
      using serve_rude [OF _ b assms(5), of result ns m rest c] assms(4) cl a by blast
    let ?ch = "(childs s ! i)\<lparr>cpos := Gone c\<rparr>"
    obtain s' where s': "serve_conn (web_upto lim) result i c s = Some s'" "childs s' = (childs s)[i := ?ch]" "arriving s' = arriving s"
      "taken s' = taken s" "answered s' = answered s"
      using r by (simp add: serve_conn_def)
    from u [OF s'(2,3), of "Gone c"] hs have v: "held s' = held s"
      "sum_list (map cmeter (childs s')) = sum_list (map cmeter (childs s))" "pool_work s' < pool_work s"
      "\<forall>x \<in> set (childs s'). x \<in> set (childs s) \<or> x = ?ch" by simp_all
    have "refused (web_upto lim) result c"
      using sends_refused [OF _ assms(5), of result "(ns, bad, c)"] assms(4) cl a by (auto simp: on_conn_def polite_def)
    with v(4) assms(1) b have "\<forall>x \<in> set (childs s'). rl_idle (cbuf x)"
      "\<forall>x \<in> set (childs s'). \<forall>c. cpos x = Gone c \<longrightarrow> refused (web_upto lim) result c" by (auto simp: pool_ok_def)
    moreover have "length (childs s') = length (childs s)" by (simp add: s')
    ultimately have "pool_ok lim result clients n s'"
      using assms(1) v(1,2) by (simp add: pool_ok_def s'(3-5))
    with s'(1) v(3) show ?thesis by blast
  qed
qed

lemma direct_ok:
  assumes "pool_ok lim result clients n s" and "direct_child (web_upto lim) result i s = Some s'"
    and "\<forall>cl \<in> set clients. sends lim result cl" and "lim \<le> MAXN"
  shows "pool_ok lim result clients n s' \<and> pool_work s' < pool_work s"
proof -
  have i: "i < length (childs s)" using assms(2) by (auto simp: direct_child_def split: if_splits)
  show ?thesis
  proof (cases "cpos (childs s ! i)")
    case Top
    with assms(2) i direct_accept [OF assms(1) i Top] show ?thesis by (simp add: direct_child_def)
  next
    case (Serving c)
    with assms(2) i direct_serve [OF assms(1) i Serving assms(3,4)] show ?thesis by (auto simp: direct_child_def)
  qed (use assms(2) i in \<open>auto simp: direct_child_def\<close>)
qed

text \<open>When no child can go on, every child has exited, or nothing is left to accept.\<close>

definition exited :: "child \<Rightarrow> bool" where
  "exited ch \<longleftrightarrow> (\<exists>c. cpos ch = Gone c)"

lemma direct_stuck:
  assumes "pool_ok lim result clients n s" and "\<forall>i. direct_child (web_upto lim) result i s = None" and "\<forall>ch \<in> set (childs s). cpos ch \<noteq> Accepting \<and> (\<forall>c. cpos ch \<noteq> HasConn c)"
    and "\<forall>cl \<in> set clients. sends lim result cl" and "lim \<le> MAXN"
  shows "\<forall>ch \<in> set (childs s). exited ch \<or> cpos ch = Top \<and> arriving s = []"
proof
  fix ch assume "ch \<in> set (childs s)"
  then obtain i where i: "i < length (childs s)" "ch = childs s ! i" by (auto simp: in_set_conv_nth)
  show "exited ch \<or> cpos ch = Top \<and> arriving s = []"
  proof (cases "cpos ch")
    case Top
    with assms(2) i have "accept_conn i count_conn s = None" by (auto simp: direct_child_def dest: spec [of _ i])
    with Top show ?thesis by (auto simp: accept_conn_def split: list.splits)
  next
    case (Serving c)
    with direct_serve [OF assms(1) i(1) _ assms(4,5), of c] i assms(2) show ?thesis
      by (auto simp: direct_child_def dest: spec [of _ i])
  qed (use assms(3) \<open>ch \<in> set (childs s)\<close> in \<open>auto simp: exited_def\<close>)
qed

lemma held_exited:
  "\<forall>ch \<in> set cs. exited ch \<or> cpos ch = Top \<Longrightarrow> \<forall>ch \<in> set cs. \<forall>c. cpos ch = Gone c \<longrightarrow> P c \<Longrightarrow>
     size (sum_list (map (\<lambda>ch. held_by (cpos ch)) cs)) = length (filter exited cs) \<and>
     (\<forall>c \<in># sum_list (map (\<lambda>ch. held_by (cpos ch)) cs). P c)"
  by (induction cs) (auto simp: exited_def)

lemma filter_parts:
  "\<forall>x \<in># A. \<not> P x \<Longrightarrow> \<forall>x \<in># B. P x \<Longrightarrow> filter_mset P (A + B) = B \<and> filter_mset (\<lambda>x. \<not> P x) (A + B) = A"
  by (simp add: filter_mset_eq_conv del: filter_union_mset)

text \<open>Of the connections taken, those refused are the ones held by exited children.\<close>

lemma taken_split:
  assumes "pool_ok lim result clients n s" and "\<forall>ch \<in> set (childs s). exited ch \<or> cpos ch = Top"
    and "\<forall>cl \<in> set clients. sends lim result cl" and "lim \<le> MAXN"
  shows "length (filter (refused (web_upto lim) result) (taken s)) = length (filter exited (childs s)) \<and>
    filter_mset (\<lambda>c. \<not> refused (web_upto lim) result c) (mset (taken s)) = image_mset (\<lambda>(i, c, out). c) (mset (answered s))"
proof -
  let ?a = "image_mset (\<lambda>(i, c, out). c) (mset (answered s))"
  have h: "size (held s) = length (filter exited (childs s))" "\<forall>c \<in># held s. refused (web_upto lim) result c"
    using held_exited [OF assms(2), of "refused (web_upto lim) result"] assms(1) by (auto simp: pool_ok_def held_def)
  have "\<not> refused (web_upto lim) result c" if c: "(i, c, out) \<in> set (answered s)" for i c out
  proof -
    obtain ns where "(ns, None, c) \<in> set clients" using assms(1) c by (fastforce simp: pool_ok_def)
    with sends_refused [OF _ assms(4), of result "(ns, None, c)"] assms(3) show ?thesis by (auto simp: on_conn_def polite_def)
  qed
  then have a: "\<forall>c \<in># ?a. \<not> refused (web_upto lim) result c" by auto
  have t: "mset (taken s) = ?a + held s" using assms(1) by (simp add: pool_ok_def)
  note parts = filter_parts [of ?a "refused (web_upto lim) result" "held s", OF a h(2), folded t]
  have "filter_mset (refused (web_upto lim) result) (mset (taken s)) = held s" using parts by blast
  then have "length (filter (refused (web_upto lim) result) (taken s)) = size (held s)" by (metis mset_filter size_mset)
  moreover have "filter_mset (\<lambda>c. \<not> refused (web_upto lim) result c) (mset (taken s)) = ?a"
    using parts by blast
  ultimately show ?thesis using h(1) by simp
qed

definition rude_count :: "client list \<Rightarrow> nat" where
  "rude_count clients = length (filter (\<lambda>cl. \<not> polite cl) clients)"

text \<open>
  How the pool ends: with fewer impolite clients than children everybody who asked for something possible has been
  answered; otherwise every child has gone, each with one of the impolite clients.
\<close>

definition pool_end :: "web_fun \<Rightarrow> byte list \<Rightarrow> client list \<Rightarrow> nat \<Rightarrow> apool \<Rightarrow> bool" where
  "pool_end web result clients n s \<longleftrightarrow>
     sum_list (map cmeter (childs s)) = length (taken s) \<and>
     (if rude_count clients < n
      then arriving s = [] \<and>
        mset (map (\<lambda>(i, c, out). c) (answered s)) = mset (map on_conn (filter polite clients))
      else (\<forall>ch \<in> set (childs s). exited ch) \<and> length (filter (refused web result) (taken s)) = n)"

lemma refused_clients:
  assumes "\<forall>cl \<in> set clients. sends lim result cl" and "lim \<le> MAXN"
  shows "length (filter (refused (web_upto lim) result) (map on_conn clients)) = rude_count clients \<and>
    filter (\<lambda>c. \<not> refused (web_upto lim) result c) (map on_conn clients) = map on_conn (filter polite clients)"
  using assms(1) by (induction clients) (simp_all add: rude_count_def sends_refused [OF _ assms(2)])

lemma pool_end_stuck:
  assumes ok: "pool_ok lim result clients n s" and "\<forall>ch \<in> set (childs s). exited ch \<or> cpos ch = Top \<and> arriving s = []"
    and cl: "\<forall>cl \<in> set clients. sends lim result cl" "lim \<le> MAXN"
  shows "pool_end (web_upto lim) result clients n s"
proof -
  have "\<forall>ch \<in> set (childs s). exited ch \<or> cpos ch = Top" using assms(2) by blast
  note t = taken_split [OF ok this cl]
  have all: "taken s @ arriving s = map on_conn clients" "length (childs s) = n"
    "sum_list (map cmeter (childs s)) = length (taken s)" using ok by (simp_all add: pool_ok_def)
  note r = refused_clients [OF cl, folded all(1)]
  show ?thesis
  proof (cases "\<forall>ch \<in> set (childs s). exited ch")
    case True
    then have "filter exited (childs s) = childs s" by simp
    with t all(2) have "length (filter (refused (web_upto lim) result) (taken s)) = n" by simp
    moreover from this r have "\<not> rude_count clients < n" by simp
    ultimately show ?thesis using True all(3) by (simp add: pool_end_def)
  next
    case False
    then have a: "arriving s = []" using assms(2) by blast
    have "length (filter exited (childs s)) < n" using False all(2) length_filter_less [of _ "childs s" exited] by blast
    with t r a have "rude_count clients < n" by simp
    moreover have "mset (map (\<lambda>(i, c, out). c) (answered s)) = mset (map on_conn (filter polite clients))"
      using t r a by (simp flip: mset_filter)
    ultimately show ?thesis using a all(3) by (simp add: pool_end_def)
  qed
qed

section \<open>The interface of the loops\<close>

text \<open>What a loop looks like without its lock and without waiting in \<open>select\<close>.\<close>

definition bare_child :: "child \<Rightarrow> child" where
  "bare_child ch = (case cpos ch of Accepting \<Rightarrow> ch\<lparr>cpos := Top\<rparr> | HasConn c \<Rightarrow> count_conn c ch | _ \<Rightarrow> ch)"

definition bare :: "apool \<Rightarrow> apool" where
  "bare s = s\<lparr>childs := map bare_child (childs s), accept_lock := None\<rparr>"

definition pool_rank :: "apool \<Rightarrow> nat" where
  "pool_rank s = sum_list (map (\<lambda>ch. case cpos ch of Top \<Rightarrow> 1 | HasConn c \<Rightarrow> 1 | _ \<Rightarrow> 0) (childs s))"

text \<open>
  The contract: every step is a step of the bare loop or a step towards one, and when the bare loop could go on
  some child can.
\<close>

locale accept_loop =
  fixes main :: "byte list \<Rightarrow> nat \<Rightarrow> apool \<Rightarrow> apool option" and ok :: "apool \<Rightarrow> bool" and lim :: int
  assumes init: "ok (apool_init n cs)"
    and ok_step: "ok s \<Longrightarrow> main result i s = Some s' \<Longrightarrow> ok s'"
    and refine: "ok s \<Longrightarrow> main result i s = Some s' \<Longrightarrow>
      bare s' = bare s \<and> pool_rank s' < pool_rank s \<or>
      direct_child (web_upto lim) result i (bare s) = Some (bare s') \<and> pool_rank s' \<le> pool_rank s + 1"
    and live: "ok s \<Longrightarrow> direct_child (web_upto lim) result i (bare s) = Some t \<Longrightarrow> \<exists>j < length (childs s). main result j s \<noteq> None"

lemma bare_init: "bare (apool_init n cs) = apool_init n cs"
  by (simp add: bare_def apool_init_def bare_child_def)

lemma bare_simps [simp]:
  "arriving (bare s) = arriving s" "taken (bare s) = taken s" "answered (bare s) = answered s"
  "childs (bare s) = map bare_child (childs s)" "accept_lock (bare s) = None"
  by (simp_all add: bare_def)

lemma bare_child_cpos:
  "cpos (bare_child ch) \<noteq> Accepting" "cpos (bare_child ch) \<noteq> HasConn c"
  "exited (bare_child ch) = exited ch" "cmeter ch \<le> cmeter (bare_child ch)"
  "cpos (bare_child ch) = Top \<or> exited (bare_child ch) \<Longrightarrow> cmeter (bare_child ch) = cmeter ch"
  by (auto simp: bare_child_def count_conn_def exited_def split: cpos.splits)

context accept_loop
begin

lemma lowers:
  assumes I: "ok s" "pool_ok lim result clients n (bare s)" and "apool_step (main result) s s'"
    and cl: "\<forall>cl \<in> set clients. sends lim result cl" "lim \<le> MAXN"
  shows "(ok s' \<and> pool_ok lim result clients n (bare s')) \<and>
    2 * pool_work (bare s') + pool_rank s' < 2 * pool_work (bare s) + pool_rank s"
proof -
  obtain i where i: "main result i s = Some s'" using assms(3) by (auto simp: apool_step_def)
  from refine [OF I(1) i] show ?thesis
  proof (elim disjE conjE)
    assume "direct_child (web_upto lim) result i (bare s) = Some (bare s')" "pool_rank s' \<le> pool_rank s + 1"
    with direct_ok [OF I(2) this(1) cl] ok_step [OF I(1) i] show ?thesis by fastforce
  qed (use I ok_step [OF I(1) i] in simp_all)
qed

lemma run:
  assumes "steps (apool_step (main result)) k (apool_init n (map on_conn clients)) s"
    and "\<forall>cl \<in> set clients. sends lim result cl" and "lim \<le> MAXN"
  shows "ok s \<and> pool_ok lim result clients n (bare s) \<and> k + (2 * pool_work (bare s) + pool_rank s) \<le> 4 * length clients + n"
proof -
  let ?I = "\<lambda>s. ok s \<and> pool_ok lim result clients n (bare s)"
  let ?m = "\<lambda>s. 2 * pool_work (bare s) + pool_rank s"
  have i0: "?I (apool_init n (map on_conn clients))" by (simp add: init bare_init pool_init_ok)
  have st: "?I s' \<and> ?m s' < ?m s" if "?I s" "apool_step (main result) s s'" for s s'
    by (rule lowers [OF conjunct1 [OF that(1)] conjunct2 [OF that(1)] that(2) assms(2,3)])
  have "?I s \<and> k + ?m s \<le> ?m (apool_init n (map on_conn clients))"
    by (rule steps_measure [where I = ?I and m = ?m, OF assms(1) i0 st])
  moreover have "?m (apool_init n (map on_conn clients)) = 4 * length clients + n"
    by (simp add: pool_work_def pool_rank_def apool_init_def sum_list_replicate bare_child_def)
  ultimately show ?thesis by simp
qed

lemma some_end:
  assumes "\<forall>cl \<in> set clients. sends lim result cl" and "lim \<le> MAXN"
  shows "\<exists>k s. steps (apool_step (main result)) k (apool_init n (map on_conn clients)) s \<and> stuck (main result) s"
proof -
  let ?I = "\<lambda>s. ok s \<and> pool_ok lim result clients n (bare s)"
  let ?m = "\<lambda>s. 2 * pool_work (bare s) + pool_rank s"
  have i0: "?I (apool_init n (map on_conn clients))" by (simp add: init bare_init pool_init_ok)
  have st: "?I s' \<and> ?m s' < ?m s" if "?I s" "apool_step (main result) s s'" for s s'
    by (rule lowers [OF conjunct1 [OF that(1)] conjunct2 [OF that(1)] that(2) assms])
  have "\<exists>s. reached (apool_step (main result)) (apool_init n (map on_conn clients)) s \<and> \<not> (\<exists>s'. apool_step (main result) s s')"
    by (rule reached_stuck [where I = ?I and m = ?m, OF i0 st])
  then obtain s where "reached (apool_step (main result)) (apool_init n (map on_conn clients)) s"
    "\<not> (\<exists>s'. apool_step (main result) s s')" by blast
  then have "\<forall>i. main result i s = None" "\<exists>k. steps (apool_step (main result)) k (apool_init n (map on_conn clients)) s"
    by (meson not_Some_eq apool_step_def) (rule reached_steps, fact)
  then show ?thesis by (auto simp: stuck_def)
qed

lemma ends:
  assumes "steps (apool_step (main result)) k (apool_init n (map on_conn clients)) s" and "stuck (main result) s"
    and "\<forall>cl \<in> set clients. sends lim result cl" and "lim \<le> MAXN"
  shows "pool_end (web_upto lim) result clients n s"
proof -
  note r = run [OF assms(1,3,4)]
  have "\<forall>i. direct_child (web_upto lim) result i (bare s) = None" using live r assms(2) by (fastforce simp: stuck_def)
  with direct_stuck [OF _ this _ assms(3,4)] r
  have st: "\<forall>ch \<in> set (childs (bare s)). exited ch \<or> cpos ch = Top \<and> arriving (bare s) = []"
    by (auto simp: bare_child_cpos)
  from pool_end_stuck [OF _ st assms(3,4)] r have e: "pool_end (web_upto lim) result clients n (bare s)" by blast
  have "map (cmeter \<circ> bare_child) (childs s) = map cmeter (childs s)"
    using st by (auto intro!: bare_child_cpos)
  with e show ?thesis by (simp add: pool_end_def bare_child_cpos cong: if_cong)
qed

lemma answers:
  assumes "steps (apool_step (main result)) k (apool_init n (map on_conn clients)) s"
    and "\<forall>cl \<in> set clients. sends lim result cl" and "lim \<le> MAXN"
    and "(i, c, out) \<in> set (answered s)"
  shows "\<exists>ns. (ns, None, c) \<in> set clients \<and> out = answers_to result ns"
  using run [OF assms(1-3)] assms(4) by (auto simp: pool_ok_def)

lemma refines:
  assumes "steps (apool_step (main result)) k (apool_init n cs) s"
  shows "ok s \<and> (\<exists>k' \<le> k. steps (apool_step (direct_child (web_upto lim) result)) k' (apool_init n cs) (bare s))"
  using assms
proof (induction k "apool_init n cs" s rule: steps.induct)
  case none
  then show ?case using init [of n cs] steps.none [of _ "apool_init n cs"] by (auto simp: bare_init)
next
  case (more k s s')
  then obtain i k' where i: "main result i s = Some s'" and o: "ok s"
    and k': "k' \<le> k" "steps (apool_step (direct_child (web_upto lim) result)) k' (apool_init n cs) (bare s)" by (auto simp: apool_step_def)
  from refine [OF o i] show ?case
  proof (elim disjE conjE)
    assume "bare s' = bare s"
    then show ?thesis using k' ok_step [OF o i] by (metis le_SucI)
  next
    assume "direct_child (web_upto lim) result i (bare s) = Some (bare s')"
    then have "apool_step (direct_child (web_upto lim) result) (bare s) (bare s')" by (auto simp: apool_step_def)
    with k' ok_step [OF o i] show ?thesis by (meson Suc_le_mono steps.more)
  qed
qed

end

section \<open>The three loops keep the contract\<close>

definition child_weight :: "cpos \<Rightarrow> nat" where
  "child_weight p = (case p of Top \<Rightarrow> 1 | HasConn c \<Rightarrow> 1 | _ \<Rightarrow> 0)"

lemma pool_rank_update:
  assumes "i < length (childs s)" and "childs s' = (childs s)[i := ch]"
  shows "pool_rank s' + child_weight (cpos (childs s ! i)) = pool_rank s + child_weight (cpos ch)"
  using sum_list_update_map [OF assms(1), of "\<lambda>ch. child_weight (cpos ch)" ch]
  by (simp add: pool_rank_def child_weight_def assms(2))

lemma bare_set_child:
  "i < length (childs s) \<Longrightarrow> bare_child (f (childs s ! i)) = g (bare_child (childs s ! i)) \<Longrightarrow>
     bare (set_child i f s) = set_child i g (bare s)"
  by (simp add: bare_def set_child_def map_update)

lemma bare_unchanged:
  "i < length (childs s) \<Longrightarrow> bare_child (f (childs s ! i)) = bare_child (childs s ! i) \<Longrightarrow>
     bare (set_child i f s) = bare s"
  by (simp add: bare_def set_child_def map_update list_update_same_conv)

lemma bare_accept:
  assumes "i < length (childs s)" and "\<And>c. bare_child (f c (childs s ! i)) = count_conn c (bare_child (childs s ! i))"
  shows "accept_conn i count_conn (bare s) = map_option bare (accept_conn i f s)"
proof (cases "arriving s")
  case (Cons c cs)
  then show ?thesis using assms by (simp add: accept_conn_def bare_def set_child_def map_update)
qed (simp add: accept_conn_def)

lemma bare_serve:
  assumes "i < length (childs s)" and "cpos (childs s ! i) = Serving c"
  shows "serve_conn web result i c (bare s) = map_option bare (serve_conn web result i c s)"
proof -
  have p: "bare_child (childs s ! i) = childs s ! i" using assms(2) by (simp add: bare_child_def)
  show ?thesis
    using assms(1) p
    by (auto simp: serve_conn_def bare_def set_child_def map_update bare_child_def split: run.splits)
qed

lemma accept_conn_childs:
  "accept_conn i f s = Some s' \<Longrightarrow> accept_lock s' = accept_lock s \<and> (\<exists>c. childs s' = (childs s)[i := f c (childs s ! i)])"
  by (auto simp: accept_conn_def simp del: split_paired_Ex split: list.splits)

lemma serve_conn_childs:
  "serve_conn web result i c s = Some s' \<Longrightarrow> accept_lock s' = accept_lock s \<and>
     (\<exists>ch. childs s' = (childs s)[i := ch] \<and> (cpos ch = Top \<or> cpos ch = Gone c))"
  by (auto simp: serve_conn_def split: run.splits)

text \<open>Without a lock nobody is in the middle.\<close>

definition at_rest :: "cpos \<Rightarrow> bool" where
  "at_rest p \<longleftrightarrow> p \<noteq> Accepting \<and> (\<forall>c. p \<noteq> HasConn c)"

definition bare_ok :: "apool \<Rightarrow> bool" where
  "bare_ok s \<longleftrightarrow> accept_lock s = None \<and> (\<forall>ch \<in> set (childs s). at_rest (cpos ch))"

lemma bare_ok_id: "bare_ok s \<Longrightarrow> bare s = s"
proof -
  assume ok: "bare_ok s"
  then have "map bare_child (childs s) = childs s"
    by (intro map_idI) (auto simp: bare_ok_def at_rest_def bare_child_def split: cpos.splits)
  with ok show ?thesis by (simp add: bare_def bare_ok_def)
qed

lemma set_update_all: "\<forall>x \<in> set xs. P x \<Longrightarrow> P y \<Longrightarrow> \<forall>x \<in> set (xs[i := y]). P x"
  using set_update_subset_insert [of xs i y] by blast

lemma child02_keeps:
  assumes "bare_ok s" and "child02 result i s = Some s'"
  shows "bare_ok s' \<and> pool_rank s' \<le> pool_rank s + 1"
proof -
  have i: "i < length (childs s)" using assms(2) by (auto simp: child02_def split: if_splits)
  from assms(2) i obtain ch where "accept_lock s' = accept_lock s" "childs s' = (childs s)[i := ch]" "at_rest (cpos ch)"
    by (auto simp: child02_def at_rest_def count_conn_def dest!: accept_conn_childs serve_conn_childs split: cpos.splits)
  with assms(1) pool_rank_update [OF i this(2)] set_update_all [of "childs s" "\<lambda>ch. at_rest (cpos ch)" ch i] show ?thesis
    by (auto simp: bare_ok_def child_weight_def split: cpos.splits)
qed

interpretation loop02: accept_loop child02 bare_ok MAXN
proof (unfold_locales, goal_cases)
  case (1 n cs)
  then show ?case by (simp add: bare_ok_def apool_init_def at_rest_def)
next
  case (2 s result i s')
  then show ?case using child02_keeps by blast
next
  case (3 s result i s')
  then show ?case using child02_keeps bare_ok_id by (metis child02_direct)
next
  case (4 s result i t)
  then show ?case using bare_ok_id by (intro exI [of _ i]) (auto simp: child02_direct [symmetric] child02_def split: if_splits)
qed

text \<open>With \<open>select\<close> a child may also be in \<open>accept\<close>.\<close>

definition select_ok :: "apool \<Rightarrow> bool" where
  "select_ok s \<longleftrightarrow> accept_lock s = None \<and> (\<forall>ch \<in> set (childs s). \<forall>c. cpos ch \<noteq> HasConn c)"

lemma bare_child_cases:
  "cpos ch = Top \<Longrightarrow> bare_child ch = ch" "cpos ch = Serving c \<Longrightarrow> bare_child ch = ch" "cpos ch = Gone c \<Longrightarrow> bare_child ch = ch"
  "cpos ch = Accepting \<Longrightarrow> bare_child ch = ch\<lparr>cpos := Top\<rparr>" "cpos ch = HasConn c \<Longrightarrow> bare_child ch = count_conn c ch"
  by (simp_all add: bare_child_def)

lemma count_conn_simps [simp]: "cpos (count_conn c ch) = Serving c" "bare_child (count_conn c ch) = count_conn c ch"
  "count_conn c (ch\<lparr>cpos := p\<rparr>) = count_conn c ch"
  by (simp_all add: count_conn_def bare_child_def)

lemma plain_child_Accepting: "bare_child (ch\<lparr>cpos := Accepting\<rparr>) = ch\<lparr>cpos := Top\<rparr>"
  by (simp add: bare_child_def)

lemma child_Top: "cpos ch = Top \<Longrightarrow> ch\<lparr>cpos := Top\<rparr> = ch"
  by (cases ch) simp

text \<open>The two steps that the bare child makes as well.\<close>

lemma accept_refine:
  assumes i: "i < length (childs s)" and Accepting: "cpos (childs s ! i) = Accepting"
    and "\<And>c. bare_child (f c (childs s ! i)) = count_conn c (childs s ! i)" and a: "accept_conn i f s = Some s'"
  shows "direct_child web result i (bare s) = Some (bare s') \<and> pool_rank s' \<le> pool_rank s + 1"
proof -
  have "direct_child web result i (bare s) = accept_conn i count_conn (bare s)"
    using Accepting i by (simp add: direct_child_def bare_child_cases)
  also have "\<dots> = Some (bare s')"
    using bare_accept [OF i, of f] Accepting a assms(3) by (simp add: bare_child_cases)
  finally have "direct_child web result i (bare s) = Some (bare s')" .
  moreover obtain c where "childs s' = (childs s)[i := f c (childs s ! i)]" using accept_conn_childs [OF a] by blast
  from pool_rank_update [OF i this] Accepting have "pool_rank s' \<le> pool_rank s + 1"
    by (auto simp: child_weight_def split: cpos.splits)
  ultimately show ?thesis by blast
qed

lemma serve_refine:
  assumes i: "i < length (childs s)" and Serving: "cpos (childs s ! i) = Serving c" and a: "serve_conn web result i c s = Some s'"
  shows "direct_child web result i (bare s) = Some (bare s') \<and> pool_rank s' \<le> pool_rank s + 1"
proof -
  have "direct_child web result i (bare s) = Some (bare s')"
    using Serving i a bare_serve [OF i Serving] by (simp add: direct_child_def bare_child_cases)
  moreover obtain ch where "childs s' = (childs s)[i := ch]" "cpos ch = Top \<or> cpos ch = Gone c"
    using serve_conn_childs [OF a] by blast
  with pool_rank_update [OF i this(1)] Serving have "pool_rank s' \<le> pool_rank s + 1" by (auto simp: child_weight_def)
  ultimately show ?thesis by blast
qed

lemma select_keeps:
  assumes "select_ok s" and "child_select result i s = Some s'"
  shows "select_ok s'"
proof -
  have i: "i < length (childs s)" using assms(2) by (auto simp: child_select_def split: if_splits)
  from assms(2) i obtain ch where "accept_lock s' = accept_lock s" "childs s' = (childs s)[i := ch]" "\<forall>c. cpos ch \<noteq> HasConn c"
    by (auto simp: child_select_def dest!: accept_conn_childs serve_conn_childs split: cpos.splits if_splits)
  with assms(1) set_update_all [of "childs s" "\<lambda>ch. \<forall>c. cpos ch \<noteq> HasConn c" ch i] show ?thesis
    by (auto simp: select_ok_def)
qed

lemma select_refine:
  assumes "select_ok s" and "child_select result i s = Some s'"
  shows "bare s' = bare s \<and> pool_rank s' < pool_rank s \<or>
      direct_child my_web_child result i (bare s) = Some (bare s') \<and> pool_rank s' \<le> pool_rank s + 1"
proof -
  have i: "i < length (childs s)" using assms(2) by (auto simp: child_select_def split: if_splits)
  show ?thesis
  proof (cases "cpos (childs s ! i)")
    case Top
    with assms(2) i have s': "s' = set_child i (\<lambda>ch. ch\<lparr>cpos := Accepting\<rparr>) s" by (auto simp: child_select_def split: if_splits)
    have "bare s' = bare s" unfolding s'
      using Top i by (intro bare_unchanged) (simp_all add: plain_child_Accepting bare_child_cases child_Top)
    moreover have "pool_rank s' < pool_rank s"
      using pool_rank_update [OF i, of s' "(childs s ! i)\<lparr>cpos := Accepting\<rparr>"] Top by (simp add: s' child_weight_def)
    ultimately show ?thesis by blast
  next
    case Accepting
    with assms(2) i have a: "accept_conn i count_conn s = Some s'" by (simp add: child_select_def)
    from accept_refine [OF i Accepting _ a] show ?thesis by simp
  next
    case (Serving c)
    with assms(2) i have a: "serve_conn my_web_child result i c s = Some s'" by (simp add: child_select_def)
    from serve_refine [OF i Serving a] show ?thesis by simp
  qed (use assms i in \<open>simp_all add: child_select_def\<close>)
qed

text \<open>When the bare child could go on, one of the others can.\<close>

lemma direct_Some_cases:
  assumes "direct_child web result i (bare s) = Some t"
  shows "i < length (childs s) \<and>
    ((cpos (childs s ! i) = Top \<or> cpos (childs s ! i) = Accepting) \<and> arriving s \<noteq> [] \<or>
     (\<exists>c. cpos (childs s ! i) = HasConn c) \<or>
     (\<exists>c. cpos (childs s ! i) = Serving c \<and> serve_conn web result i c s \<noteq> None))"
proof -
  have i: "i < length (childs s)" using assms by (auto simp: direct_child_def split: if_splits)
  show ?thesis
  proof (cases "cpos (childs s ! i)")
    case (Serving c)
    with assms i bare_serve [OF i Serving, of web result] show ?thesis by (auto simp: direct_child_def bare_child_cases)
  qed (use assms i in \<open>auto simp: direct_child_def bare_child_cases accept_conn_def split: list.splits\<close>)
qed

lemma accept_conn_Some: "arriving s \<noteq> [] \<Longrightarrow> \<exists>s'. accept_conn i f s = Some s'"
  by (auto simp: accept_conn_def split: list.splits)

interpretation loop_select: accept_loop child_select select_ok "MAXN - 1"
proof (unfold_locales, goal_cases)
  case (1 n cs)
  then show ?case by (simp add: select_ok_def apool_init_def)
next
  case (2 s result i s')
  then show ?case by (rule select_keeps)
next
  case (3 s result i s')
  then show ?case using select_refine unfolding web_upto_eq by blast
next
  case (4 s result i t)
  then show ?case using direct_Some_cases [OF 4(2)] accept_conn_Some [of s i count_conn]
    by (intro exI [of _ i]) (auto simp: child_select_def select_ok_def web_upto_eq)
qed

text \<open>The lock is held by exactly the child between \<open>my_lock_wait\<close> and \<open>my_lock_release\<close>.\<close>

definition in_accept :: "cpos \<Rightarrow> bool" where
  "in_accept p = (case p of Accepting \<Rightarrow> True | HasConn c \<Rightarrow> True | _ \<Rightarrow> False)"

definition lock_ok :: "apool \<Rightarrow> bool" where
  "lock_ok s \<longleftrightarrow> (\<forall>i < length (childs s). in_accept (cpos (childs s ! i)) \<longleftrightarrow> accept_lock s = Some i) \<and>
     (\<forall>j. accept_lock s = Some j \<longrightarrow> j < length (childs s))"

lemma lock_ok_update:
  assumes "lock_ok s" and "i < length (childs s)" and "childs s' = (childs s)[i := ch]"
    and "if in_accept (cpos ch) then accept_lock s' = Some i \<and> accept_lock s \<in> {None, Some i}
      else accept_lock s' = (if accept_lock s = Some i then None else accept_lock s)"
  shows "lock_ok s'"
  using assms by (auto simp: lock_ok_def nth_list_update split: if_splits)

lemma child03_keeps:
  assumes "lock_ok s" and "child03 result i s = Some s'"
  shows "lock_ok s'"
proof -
  have i: "i < length (childs s)" using assms(2) by (auto simp: child03_def split: if_splits)
  note lk = assms(1) [unfolded lock_ok_def, THEN conjunct1, rule_format, OF i]
  show ?thesis
  proof (cases "cpos (childs s ! i)")
    case Top
    with assms(2) i show ?thesis
      by (intro lock_ok_update [OF assms(1) i, of _ "(childs s ! i)\<lparr>cpos := Accepting\<rparr>"])
        (auto simp: child03_def my_lock_wait_def in_accept_def split: if_splits)
  next
    case Accepting
    with assms(2) i have a: "accept_conn i (\<lambda>c ch. ch\<lparr>cpos := HasConn c\<rparr>) s = Some s'" by (simp add: child03_def)
    obtain c where "accept_lock s' = accept_lock s" "childs s' = (childs s)[i := (childs s ! i)\<lparr>cpos := HasConn c\<rparr>]"
      using accept_conn_childs [OF a] by blast
    with lk Accepting show ?thesis by (intro lock_ok_update [OF assms(1) i]) (auto simp: in_accept_def)
  next
    case (HasConn c)
    with assms(2) i lk show ?thesis
      by (intro lock_ok_update [OF assms(1) i, of _ "count_conn c (childs s ! i)"])
        (auto simp: child03_def my_lock_release_def in_accept_def)
  next
    case (Serving c)
    with assms(2) i have a: "serve_conn web_child result i c s = Some s'" by (simp add: child03_def)
    then obtain ch where "accept_lock s' = accept_lock s" "childs s' = (childs s)[i := ch]" "cpos ch = Top \<or> cpos ch = Gone c"
      using serve_conn_childs by blast
    with lk Serving show ?thesis by (intro lock_ok_update [OF assms(1) i]) (auto simp: in_accept_def)
  qed (use assms i in \<open>simp_all add: child03_def\<close>)
qed

lemma release_childs: "childs (my_lock_release i s) = childs s"
  by (simp add: my_lock_release_def)

lemma child03_refine:
  assumes "child03 result i s = Some s'"
  shows "bare s' = bare s \<and> pool_rank s' < pool_rank s \<or>
      direct_child web_child result i (bare s) = Some (bare s') \<and> pool_rank s' \<le> pool_rank s + 1"
proof -
  have i: "i < length (childs s)" using assms by (auto simp: child03_def split: if_splits)
  have lock [simp]: "bare (s\<lparr>accept_lock := l\<rparr>) = bare s" "pool_rank (s\<lparr>accept_lock := l\<rparr>) = pool_rank s" for s l
    by (simp_all add: bare_def pool_rank_def)
  show ?thesis
  proof (cases "cpos (childs s ! i)")
    case Top
    with assms i have s': "s' = set_child i (\<lambda>ch. ch\<lparr>cpos := Accepting\<rparr>) (s\<lparr>accept_lock := Some i\<rparr>)"
      by (auto simp: child03_def my_lock_wait_def split: if_splits)
    have "bare s' = bare (s\<lparr>accept_lock := Some i\<rparr>)" unfolding s'
      using Top i by (intro bare_unchanged) (simp_all add: plain_child_Accepting bare_child_cases child_Top)
    moreover have "pool_rank s' < pool_rank s"
      using pool_rank_update [OF i, of s' "(childs s ! i)\<lparr>cpos := Accepting\<rparr>"] Top by (simp add: s' child_weight_def)
    ultimately show ?thesis by simp
  next
    case Accepting
    with assms i have a: "accept_conn i (\<lambda>c ch. ch\<lparr>cpos := HasConn c\<rparr>) s = Some s'" by (simp add: child03_def)
    from accept_refine [OF i Accepting _ a] show ?thesis by (simp add: bare_child_def)
  next
    case (HasConn c)
    with assms i have s': "s' = set_child i (count_conn c) (my_lock_release i s)" by (simp add: child03_def)
    have "bare s' = bare (my_lock_release i s)" unfolding s'
      using HasConn i by (intro bare_unchanged) (simp_all add: my_lock_release_def bare_child_cases)
    moreover have "pool_rank s' < pool_rank s"
      using pool_rank_update [OF i, of s' "count_conn c (childs s ! i)"] HasConn
      by (simp add: s' child_weight_def release_childs)
    ultimately show ?thesis by (simp add: my_lock_release_def)
  next
    case (Serving c)
    with assms i have a: "serve_conn web_child result i c s = Some s'" by (simp add: child03_def)
    from serve_refine [OF i Serving a] show ?thesis by simp
  qed (use assms i in \<open>simp_all add: child03_def\<close>)
qed

text \<open>A child that waits for the lock waits for one that can go on.\<close>

lemma child03_live:
  assumes "lock_ok s" and "direct_child web_child result i (bare s) = Some t"
  shows "\<exists>j < length (childs s). child03 result j s \<noteq> None"
proof -
  note c = direct_Some_cases [OF assms(2)]
  show ?thesis
  proof (cases "cpos (childs s ! i) = Top \<and> accept_lock s \<noteq> None")
    case True
    then obtain j where j: "accept_lock s = Some j" by auto
    with assms(1) have "j < length (childs s)" "in_accept (cpos (childs s ! j))" by (auto simp: lock_ok_def)
    moreover have "arriving s \<noteq> []" using c True by auto
    ultimately show ?thesis using accept_conn_Some [of s j]
      by (intro exI [of _ j]) (auto simp: child03_def in_accept_def split: cpos.splits)
  next
    case False
    with c accept_conn_Some [of s i] show ?thesis
      by (intro exI [of _ i]) (auto simp: child03_def my_lock_wait_def)
  qed
qed

interpretation loop03: accept_loop child03 lock_ok MAXN
proof (unfold_locales, goal_cases)
  case (1 n cs)
  then show ?case by (simp add: lock_ok_def apool_init_def in_accept_def)
next
  case (2 s result i s')
  then show ?case by (rule child03_keeps)
next
  case (3 s result i s')
  then show ?case using child03_refine unfolding web_upto_eq by blast
next
  case (4 s result i t)
  then show ?case using child03_live unfolding web_upto_eq by blast
qed

section \<open>Properties\<close>

text \<open>
  C22: The preforked servers, in every interleaving of their children, whether \<open>accept\<close> is called directly, under the
  lock, or after \<open>select\<close>: a run takes at most four steps for each client and one for each child; an answer
  that was given is the right one for a client that asked only for what is possible (from 1 to 16384 bytes at a time, but only to 16383
  for the children that wait in \<open>select\<close>, whose \<open>web_child\<close> is the copy in \<open>my-src\<close>); and when no child can go
  on, either all clients who did so have been answered, each once, because there were fewer others than
  children, or every child has exited with one of the others, nobody replaces them, and whoever is still waiting
  is never served.  The counters add up to the number of connections taken.
\<close>
theorem accept_pool_outcomes:
  assumes "steps (apool_step (child_main p result)) k (apool_init n (map on_conn clients)) s"
    and "\<forall>cl \<in> set clients. sends (largest p) result cl" and "length result = nat MAXN"
  shows "k \<le> 4 * length clients + n \<and>
    (\<forall>(i, c, out) \<in> set (answered s). \<exists>ns. (ns, None, c) \<in> set clients \<and> out = answers_to result ns) \<and>
    (stuck (child_main p result) s \<longrightarrow> pool_end (web_of p) result clients n s)"
proof (cases p)
  case Plain
  with assms loop02.run [of result k n clients s] loop02.answers [of result k n clients s] loop02.ends [of result k n clients s]
  show ?thesis by (auto simp: web_upto_eq)
next
  case Locked
  with assms loop03.run [of result k n clients s] loop03.answers [of result k n clients s] loop03.ends [of result k n clients s]
  show ?thesis by (auto simp: web_upto_eq)
next
  case Selecting
  with assms loop_select.run [of result k n clients s] loop_select.answers [of result k n clients s]
    loop_select.ends [of result k n clients s]
  show ?thesis by (auto simp: web_upto_eq)
qed

text \<open>Two clients; the request of the second is refused only by the children that wait in \<open>select\<close>.\<close>

definition demo_clients :: "client list" where
  "demo_clients = [([2, 1], None, [Seg [50, 10], Seg [49, 10], Seg []], [Room 1, Room 1, Room 1]),
     ([], Some (0, []), [Seg [48, 10], Seg []], [])]"

definition large_clients :: "client list" where
  "large_clients = [([2, 1], None, [Seg [50, 10], Seg [49, 10], Seg []], [Room 1, Room 1, Room 1]),
     ([], Some (16384, []), [Seg [49, 54, 51, 56, 52, 10], Seg []], [])]"

lemma demo_sends: "\<forall>cl \<in> set demo_clients. sends MAXN (replicate 16384 7) cl"
  by (simp add: demo_clients_def sends_def answers_to_def MAXN_def request_def text_bytes_def fmt_u_def
      digits_of.simps dec_digits_def NL_def)

lemma large_sends: "\<forall>cl \<in> set large_clients. sends (MAXN - 1) (replicate 16384 7) cl"
  by (simp add: large_clients_def sends_def answers_to_def MAXN_def request_def text_bytes_def fmt_u_def
      digits_of.simps dec_digits_def NL_def)

theorem accept_pool_outcomes_witness:
  "(\<exists>k s. k \<le> (10 :: nat) \<and> stuck (child_main Locked (replicate 16384 7)) s \<and> arriving s = [] \<and>
     mset (map (\<lambda>(i, c, out). c) (answered s)) = {#on_conn (hd demo_clients)#}) \<and>
   (\<exists>k s. k \<le> (10 :: nat) \<and> stuck (child_main Selecting (replicate 16384 7)) s \<and> arriving s = [] \<and>
     mset (map (\<lambda>(i, c, out). c) (answered s)) = {#on_conn (hd large_clients)#})"
proof
  have r: "length (replicate 16384 (7 :: byte)) = nat MAXN" by (simp add: MAXN_def)
  obtain k s where k: "steps (apool_step (child_main Locked (replicate 16384 7))) k (apool_init 2 (map on_conn demo_clients)) s"
    "stuck (child_main Locked (replicate 16384 7)) s"
    using loop03.some_end [OF demo_sends, of 2] by auto
  from accept_pool_outcomes [OF k(1) _ r] demo_sends k(2)
  show "\<exists>k s. k \<le> (10 :: nat) \<and> stuck (child_main Locked (replicate 16384 7)) s \<and> arriving s = [] \<and>
     mset (map (\<lambda>(i, c, out). c) (answered s)) = {#on_conn (hd demo_clients)#}"
    by (intro exI [of _ k] exI [of _ s])
      (simp add: pool_end_def rude_count_def polite_def on_conn_def demo_clients_def numeral_2_eq_2)
  obtain k s where k: "steps (apool_step (child_main Selecting (replicate 16384 7))) k (apool_init 2 (map on_conn large_clients)) s"
    "stuck (child_main Selecting (replicate 16384 7)) s"
    using loop_select.some_end [OF large_sends, of 2] by auto
  from accept_pool_outcomes [OF k(1) _ r] large_sends k(2)
  show "\<exists>k s. k \<le> (10 :: nat) \<and> stuck (child_main Selecting (replicate 16384 7)) s \<and> arriving s = [] \<and>
     mset (map (\<lambda>(i, c, out). c) (answered s)) = {#on_conn (hd large_clients)#}"
    by (intro exI [of _ k] exI [of _ s])
      (simp add: pool_end_def rude_count_def polite_def on_conn_def large_clients_def numeral_2_eq_2)
qed

text \<open>
  C23: The lock around \<open>accept\<close>: in every state that a run of \<open>child03.c\<close> reaches, the lock is held by a child between
  \<open>my_lock_wait\<close> and \<open>my_lock_release\<close>, and no other child is there.  To the clients the lock is invisible: what
  was taken, what is still to come and what was answered is also reached by the children of \<open>child02.c\<close>, in no
  more steps.
\<close>
theorem accept_lock_exclusion:
  assumes "steps (apool_step (child_main Locked result)) k (apool_init n cs) s"
  shows "(\<forall>i < length (childs s). in_accept (cpos (childs s ! i)) \<longleftrightarrow> accept_lock s = Some i) \<and>
    (\<exists>k' \<le> k. \<exists>t. steps (apool_step (child_main Plain result)) k' (apool_init n cs) t \<and>
       taken t = taken s \<and> arriving t = arriving s \<and> answered t = answered s)"
proof -
  from loop03.refines [of result k n cs s] assms obtain k' where
    k: "lock_ok s" "k' \<le> k" "steps (apool_step (child02 result)) k' (apool_init n cs) (bare s)" by (auto simp: child02_direct)
  then have "\<forall>i < length (childs s). in_accept (cpos (childs s ! i)) \<longleftrightarrow> accept_lock s = Some i"
    by (simp add: lock_ok_def)
  moreover have "\<exists>t. steps (apool_step (child_main Plain result)) k' (apool_init n cs) t \<and>
       taken t = taken s \<and> arriving t = arriving s \<and> answered t = answered s"
    using k(3) by (intro exI [of _ "bare s"]) simp
  ultimately show ?thesis using k(2) by blast
qed

theorem accept_lock_exclusion_witness:
  "\<exists>s. steps (apool_step (child_main Locked [])) 1 (apool_init 2 []) s \<and> accept_lock s = Some 1 \<and>
     \<not> in_accept (cpos (childs s ! 0))"
proof -
  let ?s = "set_child 1 (\<lambda>ch. ch\<lparr>cpos := Accepting\<rparr>) ((apool_init 2 [])\<lparr>accept_lock := Some 1\<rparr>)"
  have "child_main Locked [] 1 (apool_init 2 []) = Some ?s"
    by (simp add: child03_def my_lock_wait_def apool_init_def numeral_2_eq_2)
  then have "apool_step (child_main Locked []) (apool_init 2 []) ?s" by (auto simp: apool_step_def)
  then have st: "steps (apool_step (child_main Locked [])) 1 (apool_init 2 []) ?s"
    unfolding One_nat_def by (rule steps.more [OF steps.none])
  from accept_lock_exclusion [OF st, THEN conjunct1, rule_format, of 0] st show ?thesis
    by (intro exI [of _ ?s]) (simp add: apool_init_def numeral_2_eq_2)
qed

end
