(* ===== verification/Spec2Isabelle.thy ===== *)
theory Spec2Isabelle
  imports Poll_Server Nonblock_Client Web_Client Inet6 Dg_Send_Recv Traceroute Icmpd Ping Raw_Udp Getaddrinfo Sigio_Echo Thread_Pool Prefork Source_Route Thread_Examples Echo_Session Children Route_Messages Ifi_Info Crlf Heartbeat Web_Deadlock Web_Join Broadcast Accept_Pool
begin

text \<open>
  \<^bold>\<open>The program.\<close>  The repository holds the sources of \<^emph>\<open>UNIX Network Programming\<close>, volume 1
  (\<open>src/origin-src/unpv13e\<close>, called \<open>unpv13e\<close> below) and exercises written along the book
  (\<open>src/my-src\<close>).  A library, \<open>lib/\<close> with \<open>libfree/\<close> and \<open>libgai/\<close>, provides descriptor I/O, line
  reading, address conversion, name lookup and wrappers around system calls; the programs of
  the chapters are built on it: the echo service in its many forms, clients, servers with
  \<open>select\<close> and \<open>poll\<close>, a reliable protocol over UDP, and the tools that read and write raw
  packets (\<open>ping\<close>, \<open>traceroute\<close>, \<open>icmpd\<close>, \<open>udpcksum\<close>).

  \<^bold>\<open>Conventions.\<close>  A C function is a HOL function with the source's name.  A function that can
  end the process through \<open>err_sys\<close> or \<open>err_quit\<close>, or wait forever, returns a \<open>run\<close> (theory
  \<open>Prelude\<close>): \<open>Ret\<close>, \<open>Fatal\<close> with the message, or \<open>Blocked\<close>.  The environment (what \<open>read\<close>, \<open>write\<close>,
  \<open>accept\<close>, \<open>recvmsg\<close> deliver, signals, clocks, the resolver) is an explicit argument: a list of
  answers or events, or functions, so every statement quantifies over all behaviours of the
  network.  Buffers are byte lists whose old contents are kept, so reading stale bytes is
  visible.  Machine integers are words where the width matters; the CPU is little-endian.

  \<^bold>\<open>Theories.\<close>

  \<^item> \<open>Prelude\<close>: bytes, \<open>errno\<close>, the \<open>run\<close> type, lemmas on lists and words.
  \<^item> \<open>Descriptor_IO\<close>: the sources and sinks behind a descriptor (locale \<open>byte_source\<close> and its
    extension for a source without errors), \<open>readn\<close>, \<open>writen\<close> (\<open>lib/readn.c\<close>, \<open>lib/writen.c\<close> and the
    copies in \<open>my-src\<close>): the outcome on every sequence of short transfers, interrupts and errors,
    and the transfer from writer to reader.
  \<^item> \<open>Line_Reader\<close>: the line readers \<open>lib/readline.c\<close>, \<open>threads/readline.c\<close>, \<open>server/readline_r.c\<close> and
    the older versions, with their buffer state; a line of the stream is returned and removed.  The locale
    \<open>stopping_source\<close>, an extension, ties each return to its cause.
  \<^item> \<open>Num_Text\<close>, \<open>Inet4\<close>, \<open>Inet6\<close>: number printing and the presentation format of addresses
    (\<open>libfree/inet_pton.c\<close>, \<open>inet_ntop.c\<close>, \<open>inet_aton.c\<close>, \<open>inet_ntop_ipv4.c\<close>): the accepted
    languages, round trips, the choice of the compressed zero run, buffer bounds.  The locale
    \<open>addr_codec\<close> states what the name functions need and is interpreted for both families.
  \<^item> \<open>Sockaddr\<close>: socket addresses, \<open>sock_ntop\<close>, \<open>sock_cmp_addr\<close>, \<open>sock_set_port\<close> and their like
    (\<open>lib/sock_*.c\<close>, \<open>lib/family_to_level.c\<close>).
  \<^item> \<open>Getaddrinfo\<close>: \<open>libgai/\<close>, i.e.\ \<open>getaddrinfo\<close> and \<open>getnameinfo\<close> with all helpers; allocation can
    fail at every call, and the number of live blocks is part of the state.  The form of every list returned, for
    internet names and for paths, and what each outcome leaves allocated.
  \<^item> \<open>Kernel\<close>: descriptors, listening sockets and connections as the servers see them, with the
    system-call wrappers of \<open>lib/wrapsock.c\<close> and \<open>lib/wrapunix.c\<close> that the models use.
  \<^item> \<open>Echo\<close>: \<open>str_echo\<close>, \<open>str_cli\<close> and the datagram echo functions.
  \<^item> \<open>Client_Table\<close>: the table of client slots as an interface (locale \<open>slot_table\<close>); it is
    interpreted for the tables of the two servers and of the ICMP daemon.
  \<^item> \<open>Select_Server\<close>, \<open>Poll_Server\<close>: one iteration and whole runs of \<open>tcpcliserv/tcpservselect01.c\<close>,
    \<open>tcpservpoll01.c\<close> and the variants in \<open>my-src/Chapter-06\<close>; table, descriptor set and limits
    agree in every reachable state, and exactly the ready clients are served.
  \<^item> \<open>Nonblock_Client\<close>, \<open>Web_Client\<close>: \<open>nonblock/strclinonb.c\<close> (two circular buffers between
    descriptors) and \<open>nonblock/web.c\<close> (many nonblocking connections).
  \<^item> \<open>Timeval\<close>, \<open>Rtt\<close>, \<open>Stdio\<close>, \<open>Dg_Send_Recv\<close>: \<open>lib/tv_sub.c\<close>, \<open>lib/rtt.c\<close> and \<open>rtt/dg_send_recv.c\<close>: the
    timer, an exchange with retransmissions, its refinement of an event specification, and the client
    over a network that loses, delays, repeats and reorders.
  \<^item> \<open>Packet\<close>, \<open>Checksum\<close>: header fields in byte buffers, and \<open>in_cksum\<close>.
  \<^item> \<open>Traceroute\<close>, \<open>Icmpd\<close>, \<open>Ping\<close>, \<open>Raw_Udp\<close>: \<open>traceroute/\<close>, \<open>icmpd/\<close>, \<open>ping/\<close> and \<open>udpcksum/\<close>.
  \<^item> \<open>Sock_Open\<close>: the functions that open a socket for a host and a service (\<open>lib/tcp_connect.c\<close>, \<open>tcp_listen.c\<close>,
    \<open>udp_client.c\<close> and the like) on top of \<open>Getaddrinfo\<close>: the first address that works, no descriptor or memory lost.
  \<^item> \<open>Source_Route\<close>: \<open>ipopts/sourceroute.c\<close>, what is built is what is printed.
  \<^item> \<open>Ring\<close>, \<open>Sigio_Echo\<close>, \<open>Thread_Pool\<close>: circular queues and the two programs built on them, the signal-driven
    server \<open>sigio/dgecho01.c\<close> and the prethreaded server \<open>server/serv08.c\<close>.
  \<^item> \<open>Prefork\<close>: \<open>server/serv05.c\<close> with \<open>child05.c\<close>, a parent that passes descriptors to its children.  The pipe is also the standard
    error of the child, so the message of a child that ends with \<open>err_quit\<close> is part of the model, and what the parent makes of it.
  \<^item> \<open>Web_Child\<close>, \<open>Accept_Pool\<close>: \<open>web_child\<close>, what every server of \<open>server/\<close> does with a connection, with its client, and
    the preforked servers whose children accept for themselves (\<open>child02m.c\<close>, \<open>child03m.c\<close> with \<open>lock_fcntl.c\<close>, and the
    copy in \<open>my-src\<close> that calls \<open>select\<close>).  The locale \<open>accept_loop\<close> is the contract of such a loop: it refines the one without
    a lock; it is interpreted for all three, the last with the \<open>web_child\<close> of \<open>my-src\<close>.
  \<^item> \<open>Runs\<close>: runs of a step relation, invariants and measures over them.
  \<^item> \<open>Thread_Examples\<close>: \<open>threads/example01.c\<close> to \<open>example03.c\<close>: a counter without and with a mutex, and a bounded
    buffer with condition variables, in every interleaving.
  \<^item> \<open>Web_Threads\<close>, \<open>Web_Cond\<close>, \<open>Web_Deadlock\<close>, \<open>Web_Join\<close>: the threaded web clients \<open>threads/web03.c\<close> and \<open>web01.c\<close>:
    their common threads, the mutex and the counters in every interleaving, how long they run, and the deadlock of the first.
  \<^item> \<open>Broadcast\<close>: the versions of the broadcast client in \<open>bcast/\<close> with the alarm delivered at any point (locale
    \<open>alarm_loop\<close>, interpreted for the three that keep it): which of them end, and which lose the alarm or a reply.
  \<^item> \<open>Echo_Session\<close>: the stop-and-wait, \<open>select\<close>, two-process and two-thread clients (\<open>lib/str_cli.c\<close>,
    \<open>select/strcliselect02.c\<close>, \<open>nonblock/strclifork.c\<close>, \<open>threads/strclithread.c\<close>), each composed with \<open>str_echo\<close> over a
    connection with finite buffers: which of them deliver their whole input on every schedule, and which can deadlock.
  \<^item> \<open>Children\<close>: the forking server \<open>tcpcliserv/tcpserv04.c\<close> with both handlers for \<open>SIGCHLD\<close>.
  \<^item> \<open>Route_Messages\<close>, \<open>Ifi_Info\<close>: the interface functions of \<open>libroute/\<close> on the bytes of routing messages, and
    \<open>lib/get_ifi_info.c\<close> with its growing buffer; the kernel's layout of a reply is an encoder in the model, and what a
    kernel does with a buffer that is too short is the hypothesis \<open>ifconf_kernel\<close>.
  \<^item> \<open>Crlf\<close>, \<open>Heartbeat\<close>: \<open>sock/crlf.c\<close>, and \<open>oob/heartbeatcli.c\<close> with \<open>heartbeatserv.c\<close>.

  \<^bold>\<open>Loops and bounds.\<close>  No definition uses fuel.  A loop that consumes input (the answers of \<open>read\<close>,
  the events of a server) recurses over what is left of it; if it runs out where the program
  would wait, the result is \<open>Blocked\<close> or the state reached so far.  Where termination is a
  property of the code it is a theorem (\<open>dg_exchange_terminates\<close>); sessions of several processes are step
  relations whose runs are bounded by a measure (\<open>steps_measure\<close>), and the loop around \<open>SIOCGIFCONF\<close>, which nothing in the
  code bounds, is a partial function that is proved to return for such kernels (and not to for one that only
  reports \<open>EINVAL\<close>, \<open>ifconf_never\<close>).  Numeric bounds in theorems are those of
  the data: 16-bit ports, 65535 bytes of an IP packet, the sizes of the buffers in the sources.

  \<^bold>\<open>Simplifications.\<close>  An IPv6 address has no scope and no flow information.  A set of descriptors is an unbounded set, so
  that \<open>FD_SET\<close> beyond \<open>FD_SETSIZE\<close> is not seen.  The array of \<open>tcpservpoll01.c\<close> is assumed to start without reported events.  In
  \<open>Thread_Pool\<close> the return of \<open>accept\<close> and the insertion are one step.

  \<^bold>\<open>Not modelled.\<close>  Programs that only call the library once more and print (the \<open>daytime\<close> and \<open>intro\<close>
  programs, \<open>names/\<close>, the socket option printers), code whose work is done by kernel interfaces
  (\<open>key/\<close>, \<open>streams/\<close>, \<open>route/\<close>, \<open>ioctl/\<close>, SCTP, multicast), the servers that start one
  process or thread for each connection (their loop is the one of \<open>Children\<close>), the \<open>sock\<close> tool apart from its line ends, vendored code
  (\<open>libfree/getaddrinfo.c\<close>, most of \<open>ping/bsdping.c\<close>), and generated or stale files.  The manifest of the development lists each.
\<close>

end
